(* ===== verification/Prelude.thy ===== *)
theory Prelude
  imports Main "HOL-Library.Word"
begin

text \<open>
  Shared vocabulary of the development: the machine integers of the i386 C
  compiler the sources are written for, the lemma collections the component
  theories add to, and the generic lemmas on words, lists and sums that more
  than one component uses.
\<close>

unbundle bit_operations_syntax

type_synonym u8 = "8 word"
type_synonym u16 = "16 word"
type_synonym u32 = "32 word"

text \<open>The error numbers the modelled kernel routines return; \<open>None\<close> is the return value 0.\<close>

datatype errno = EPERM | ESRCH | EINTR | EACCES | EAGAIN | EDEADLK | EINVAL | EFAULT | ENAMETOOLONG | EIO | ENXIO | EWOULDBLOCK | EMSGSIZE |
  EAFNOSUPPORT | ENETDOWN | ENOBUFS | EHOSTUNREACH | EBADF | EMFILE | ENFILE | EOPNOTSUPP | ENODEV | ERESTART

named_theorems c_int \<open>reading the machine integers as numbers\<close>
named_theorems store_simps \<open>projections of updated component states\<close>

section \<open>Reading unsigned words\<close>

lemma unat_u32_bound [simp]: "unat (x :: u32) < 4294967296"
  using unsigned_less [of x, where 'a = nat] by simp

lemma unat_plus_one [c_int]: "unat (x :: u32) + 1 < 2 ^ 32 \<Longrightarrow> unat (x + 1) = unat x + 1"
  by (simp add: unat_word_ariths)

lemma unat_plus_small [c_int]:
  "unat (x :: u32) + unat y < 2 ^ 32 \<Longrightarrow> unat (x + y) = unat x + unat y"
  by (simp add: unat_word_ariths)

lemma unat_minus_le [c_int]: "(y :: u32) \<le> x \<Longrightarrow> unat (x - y) = unat x - unat y"
  by (rule unat_sub)

lemma unat_eq_iff_word: "(x :: u32) = y \<longleftrightarrow> unat x = unat y"
  by (simp add: word_unat_eq_iff)

lemmas u32_order = word_le_nat_alt word_less_nat_alt unat_eq_iff_word

section \<open>Reading words as signed\<close>

lemma unat_lt_int_iff: "unat (x :: 'a::len word) < n \<longleftrightarrow> uint x < int n"
  by (simp flip: of_nat_less_iff [where 'a = int])

lemma sint_small [c_int]: "unat (x :: u32) < 2 ^ 31 \<Longrightarrow> sint x = int (unat x)"
proof -
  assume "unat x < 2 ^ 31"
  then have "uint x < 2 ^ 31" by (simp only: unat_lt_int_iff) simp
  then have "signed_take_bit 31 (uint x) = uint x"
    by (intro signed_take_bit_int_eq_self) (auto intro: order_trans [OF _ uint_ge_0])
  then show ?thesis by (simp add: sint_uint)
qed

lemma sint_nonneg_unat: "0 \<le> sint (x :: u32) \<Longrightarrow> int (unat x) = sint x"
proof -
  assume "0 \<le> sint x"
  moreover have "sint x < 2 ^ 31" using sint_lt [of x] by simp
  ultimately have "take_bit 32 (sint x) = sint x" by (simp add: take_bit_int_eq_self_iff)
  then show ?thesis using uint_sint [of x] by simp
qed

section \<open>Signed arithmetic written out\<close>

text \<open>The value a 32-bit \<^verbatim>\<open>long\<close> holds after a computation whose exact result is \<open>x\<close>.\<close>

definition s32 :: "int \<Rightarrow> int" where
  "s32 x = (x + 2147483648) mod 4294967296 - 2147483648"

lemma s32_fits [c_int]: "- 2147483648 \<le> x \<Longrightarrow> x < 2147483648 \<Longrightarrow> s32 x = x"
  by (simp add: s32_def)

text \<open>The same for a 16-bit \<^verbatim>\<open>short\<close>.\<close>

definition s16 :: "int \<Rightarrow> int" where
  "s16 x = (x + 32768) mod 65536 - 32768"

lemma s16_small: "0 \<le> x \<Longrightarrow> x < 32768 \<Longrightarrow> s16 x = x"
  by (simp add: s16_def)

section \<open>Results\<close>

lemma map_sum_Inr_conv: "map_sum f g x = Inr y \<longleftrightarrow> (\<exists>z. x = Inr z \<and> y = g z)"
  by (cases x) auto

section \<open>Lists\<close>

lemma take_Suc_append_nth: "n < length xs \<Longrightarrow> take (Suc n) xs = take n xs @ [xs ! n]"
  by (rule take_Suc_conv_app_nth)

end
