(* ===== verification/Rlist.thy ===== *)
theory Rlist
  imports Prelude
begin

text \<open>
  Resource lists (\<^verbatim>\<open>src/sys/kern/subr_rlist.c\<close>): the first-fit extent
  allocator behind the swap map.  A list is a chain of \<^verbatim>\<open>struct rlist\<close>
  elements with inclusive bounds; the chain is modelled by a HOL list, the
  bounds stay 32-bit unsigned words, so every \<^verbatim>\<open>end+1\<close> of the source wraps
  here as it does there.
\<close>

record rlist =
  rl_start :: u32
  rl_end :: u32

text \<open>
  The ways a call does not return: the two explicit panics on overlapping
  frees, the \<^verbatim>\<open>can't happen\<close> panic, and the write through the null pointer
  that \<^verbatim>\<open>malloc(..., M_NOWAIT)\<close> may return, which the code does not test.
\<close>

datatype rlist_fault = OverlapFront | OverlapTail | CantHappen | NullDeref

section \<open>Operations\<close>

text \<open>
  The loop of \<^verbatim>\<open>rlist_free\<close>.  The flag of the result says that control
  left the loop by \<^verbatim>\<open>goto scan\<close>; \<open>mem\<close> is the success of \<^verbatim>\<open>malloc\<close>.
\<close>

fun rlist_free_loop :: "bool \<Rightarrow> rlist list \<Rightarrow> u32 \<Rightarrow> u32 \<Rightarrow> rlist_fault + bool \<times> rlist list" where
  "rlist_free_loop mem [] st en =
     (if mem then Inr (False, [\<lparr>rl_start = st, rl_end = en\<rparr>]) else Inl NullDeref)"
| "rlist_free_loop mem (r # rs) st en =
     (if rl_start r \<le> st \<and> st \<le> rl_end r then Inl OverlapFront
      else if rl_start r \<le> en \<and> en \<le> rl_end r then Inl OverlapTail
      else if en + 1 = rl_start r then Inr (True, r\<lparr>rl_start := st\<rparr> # rs)
      else if en < rl_start r then
        (if mem then Inr (False, \<lparr>rl_start = st, rl_end = en\<rparr> # r # rs) else Inl NullDeref)
      else if rl_end r + 1 = st then Inr (True, r\<lparr>rl_end := en\<rparr> # rs)
      else if rl_end r < st then
        (case rlist_free_loop mem rs st en of
           Inl f \<Rightarrow> Inl f
         | Inr (g, rs') \<Rightarrow> Inr (g, r # rs'))
      else Inl CantHappen)"

text \<open>The coalescing pass at label \<^verbatim>\<open>scan\<close>.\<close>

fun rlist_scan :: "rlist list \<Rightarrow> rlist list" where
  "rlist_scan [] = []"
| "rlist_scan [lp] = [lp]"
| "rlist_scan (lp # lpn # rs) =
     (if rl_end lp + 1 = rl_start lpn then rlist_scan (lp\<lparr>rl_end := rl_end lpn\<rparr> # rs)
      else lp # rlist_scan (lpn # rs))"

definition rlist_free :: "bool \<Rightarrow> rlist list \<Rightarrow> u32 \<Rightarrow> u32 \<Rightarrow> rlist_fault + rlist list" where
  "rlist_free mem l st en =
     (case rlist_free_loop mem l st en of
        Inl f \<Rightarrow> Inl f
      | Inr (goto_scan, l') \<Rightarrow> Inr (if goto_scan then rlist_scan l' else l'))"

text \<open>\<open>None\<close> is the return value 0; \<open>Some (loc, l)\<close> is 1 with \<^verbatim>\<open>*loc\<close> set.\<close>

fun rlist_alloc :: "rlist list \<Rightarrow> u32 \<Rightarrow> (u32 \<times> rlist list) option" where
  "rlist_alloc [] sz = None"
| "rlist_alloc (r # rs) sz =
     (if sz \<le> rl_end r - rl_start r + 1 then
        (let r' = r\<lparr>rl_start := rl_start r + sz\<rparr>
         in Some (rl_start r, if rl_start r' > rl_end r' then rs else r' # rs))
      else map_option (\<lambda>(loc, rs'). (loc, r # rs')) (rlist_alloc rs sz))"

definition rlist_destroy :: "rlist list \<Rightarrow> rlist list" where
  "rlist_destroy l = []"

section \<open>Abstraction and invariant\<close>

text \<open>The free units a list stands for, and the shape the code keeps it in.\<close>

definition ext :: "rlist \<Rightarrow> nat set" where
  "ext r = {unat (rl_start r) .. unat (rl_end r)}"

definition rl_space :: "rlist list \<Rightarrow> nat set" where
  "rl_space l = (\<Union>r\<in>set l. ext r)"

definition rl_ok :: "rlist \<Rightarrow> bool" where
  "rl_ok r \<longleftrightarrow> rl_start r \<le> rl_end r \<and> rl_end r < 0xffffffff"

text \<open>Element \<open>a\<close> ends at least one unit before \<open>b\<close> starts: they could not be coalesced.\<close>

definition apart :: "rlist \<Rightarrow> rlist \<Rightarrow> bool" where
  "apart a b \<longleftrightarrow> unat (rl_end a) + 1 < unat (rl_start b)"

definition rl_inv :: "rlist list \<Rightarrow> bool" where
  "rl_inv l \<longleftrightarrow> list_all rl_ok l \<and> sorted_wrt apart l"

text \<open>The separation the coalescing pass starts from: ordered, possibly adjacent.\<close>

definition before :: "rlist \<Rightarrow> rlist \<Rightarrow> bool" where
  "before a b \<longleftrightarrow> unat (rl_end a) < unat (rl_start b)"

section \<open>Lemmas on extents\<close>

lemma rl_space_simps [simp]:
  "rl_space [] = {}"
  "rl_space (r # rs) = ext r \<union> rl_space rs"
  by (simp_all add: rl_space_def)

lemma rlist_eta: "\<lparr>rl_start = rl_start x, rl_end = rl_end x\<rparr> = x"
  by simp

lemma rl_ok_nat: "rl_ok r \<longleftrightarrow> unat (rl_start r) \<le> unat (rl_end r) \<and> unat (rl_end r) + 1 < 2 ^ 32"
  by (auto simp: rl_ok_def word_le_nat_alt word_less_nat_alt)

lemma ok_start_in_ext: "rl_ok r \<Longrightarrow> unat (rl_start r) \<in> ext r"
  by (simp add: rl_ok_nat ext_def)

lemma start_above:
  assumes "list_all rl_ok l" and "\<And>n. n \<in> rl_space l \<Longrightarrow> k < n" and "r \<in> set l"
  shows "k < unat (rl_start r)"
  using assms ok_start_in_ext [of r] by (auto simp: rl_space_def list_all_iff)

lemma space_above:
  assumes "\<And>r. r \<in> set l \<Longrightarrow> k < unat (rl_start r)" and "n \<in> rl_space l"
  shows "k < n"
proof -
  from assms(2) obtain r where "r \<in> set l" "unat (rl_start r) \<le> n"
    by (auto simp: rl_space_def ext_def)
  with assms(1) show ?thesis by fastforce
qed

lemma apart_before: "apart a b \<Longrightarrow> before a b"
  by (simp add: apart_def before_def)

lemma before_simps [simp]:
  "before (lp\<lparr>rl_end := rl_end lpn\<rparr>) r = before lpn r"
  "before (r\<lparr>rl_start := x\<rparr>) r' = before r r'"
  by (simp_all add: before_def)

lemma sorted_apart_before: "sorted_wrt apart l \<Longrightarrow> sorted_wrt before l"
  by (rule sorted_wrt_mono_rel) (simp_all add: apart_before)

lemma sorted_before_Cons:
  assumes "list_all rl_ok l" "\<And>n. n \<in> rl_space l \<Longrightarrow> unat (rl_end r) < n" "sorted_wrt before l"
  shows "sorted_wrt before (r # l)"
  using start_above [OF assms(1,2)] assms(3) by (auto simp: before_def)

lemma sorted_apart_Cons:
  assumes "list_all rl_ok l" "\<And>n. n \<in> rl_space l \<Longrightarrow> unat (rl_end r) + 1 < n" "sorted_wrt apart l"
  shows "sorted_wrt apart (r # l)"
  using start_above [OF assms(1,2)] assms(3) by (auto simp: apart_def)

lemma sorted_before_space:
  "sorted_wrt before (r # rs) \<Longrightarrow> n \<in> rl_space rs \<Longrightarrow> unat (rl_end r) < n"
  by (rule space_above [of rs]) (auto simp: before_def)

lemma sorted_apart_space:
  "sorted_wrt apart (r # rs) \<Longrightarrow> n \<in> rl_space rs \<Longrightarrow> unat (rl_end r) + 1 < n"
  by (rule space_above [of rs]) (auto simp: apart_def)

lemma wrap_free_succ: "rl_ok r \<Longrightarrow> (rl_end r + 1 = x) \<longleftrightarrow> unat (rl_end r) + 1 = unat x"
  by (auto simp: rl_ok_nat unat_eq_iff_word unat_plus_one)

section \<open>The coalescing pass\<close>

lemma rlist_scan_correct:
  "list_all rl_ok l \<Longrightarrow> sorted_wrt before l \<Longrightarrow>
   rl_inv (rlist_scan l) \<and> rl_space (rlist_scan l) = rl_space l"
proof (induction l rule: rlist_scan.induct)
  case (3 lp lpn rs)
  show ?case
  proof (cases "rl_end lp + 1 = rl_start lpn")
    case True
    let ?m = "lp\<lparr>rl_end := rl_end lpn\<rparr>"
    from 3(3,4) True have nat: "unat (rl_start lpn) = unat (rl_end lp) + 1"
      by (simp add: wrap_free_succ)
    from 3(3,4) nat have ok: "rl_ok ?m" by (auto simp: rl_ok_nat)
    have ext: "ext ?m = ext lp \<union> ext lpn"
      using 3(3) nat by (auto simp: ext_def rl_ok_nat)
    from 3(4) have "sorted_wrt before (?m # rs)" by simp
    with ok 3(1) [OF True] 3(3) ext True show ?thesis by (simp add: Un_assoc)
  next
    case False
    from 3(3,4) have sub: "list_all rl_ok (lpn # rs)" "sorted_wrt before (lpn # rs)" by simp_all
    note IH = 3(2) [OF False sub]
    have above: "unat (rl_end lp) + 1 < n" if "n \<in> rl_space (lpn # rs)" for n
    proof (rule space_above [OF _ that])
      fix r assume r: "r \<in> set (lpn # rs)"
      have "unat (rl_end lp) + 1 < unat (rl_start lpn)"
        using False 3(3,4) by (simp add: wrap_free_succ before_def)
      with r 3(3,4) show "unat (rl_end lp) + 1 < unat (rl_start r)"
        by (auto simp: before_def rl_ok_nat)
    qed
    have "sorted_wrt apart (lp # rlist_scan (lpn # rs))"
      by (rule sorted_apart_Cons) (use IH above in \<open>auto simp: rl_inv_def\<close>)
    with IH 3(3) False show ?thesis by (simp add: rl_inv_def)
  qed
qed (simp_all add: rl_inv_def)

section \<open>Freeing\<close>

lemma rlist_free_loop_correct:
  assumes "rl_inv l" "rl_ok x" "ext x \<inter> rl_space l = {}"
  shows "\<exists>g l'. rlist_free_loop True l (rl_start x) (rl_end x) = Inr (g, l') \<and>
     list_all rl_ok l' \<and> sorted_wrt before l' \<and> (\<not> g \<longrightarrow> sorted_wrt apart l') \<and>
     rl_space l' = rl_space l \<union> ext x"
  using assms(1,3)
proof (induction l)
  case Nil
  with assms(2) show ?case by (intro exI [of _ False]) (simp add: rl_ok_def ext_def)
next
  case (Cons r rs)
  have inv: "rl_inv rs" "rl_ok r" "sorted_wrt apart (r # rs)"
    using Cons.prems(1) by (auto simp: rl_inv_def)
  note rn = inv(2) [unfolded rl_ok_nat] and xn = assms(2) [unfolded rl_ok_nat]
  have disj: "unat (rl_end x) < unat (rl_start r) \<or> unat (rl_end r) < unat (rl_start x)"
  proof (rule ccontr)
    assume "\<not> ?thesis"
    then have "max (unat (rl_start x)) (unat (rl_start r)) \<in> ext x \<inter> ext r"
      using rn xn by (auto simp: ext_def)
    with Cons.prems(2) show False by auto
  qed
  note above = sorted_apart_space [OF inv(3)]
  show ?case
  proof (cases "unat (rl_end x) < unat (rl_start r)")
    case True
    have no: "\<not> (rl_start r \<le> rl_start x \<and> rl_start x \<le> rl_end r)"
      "\<not> (rl_start r \<le> rl_end x \<and> rl_end x \<le> rl_end r)" "rl_end x < rl_start r"
      using True rn xn by (auto simp: u32_order)
    show ?thesis
    proof (cases "rl_end x + 1 = rl_start r")
      case adj: True
      let ?m = "r\<lparr>rl_start := rl_start x\<rparr>"
      have n: "unat (rl_start r) = unat (rl_end x) + 1"
        using adj assms(2) by (simp add: wrap_free_succ)
      have "ext ?m = ext r \<union> ext x" "rl_ok ?m"
        using n rn xn by (auto simp: ext_def rl_ok_nat)
      moreover from inv(3) have "sorted_wrt before (?m # rs)"
        using sorted_apart_before [OF inv(3)] by simp
      ultimately show ?thesis using no adj inv by (auto simp: rl_inv_def)
    next
      case False
      have "apart x r" using True False assms(2) by (simp add: apart_def wrap_free_succ)
      then have "sorted_wrt apart (x # r # rs)"
        using inv(3) rn by (auto simp: apart_def)
      moreover have "rlist_free_loop True (r # rs) (rl_start x) (rl_end x) = Inr (False, x # r # rs)"
        by (simp only: rlist_free_loop.simps no False if_True if_False rlist_eta)
      moreover have "list_all rl_ok (x # r # rs)" using inv assms(2) by (simp add: rl_inv_def)
      ultimately show ?thesis using sorted_apart_before [of "x # r # rs"]
        by (intro exI [of _ False] exI [of _ "x # r # rs"]) auto
    qed
  next
    case False
    with disj have gt: "unat (rl_end r) < unat (rl_start x)" by simp
    have no: "\<not> (rl_start r \<le> rl_start x \<and> rl_start x \<le> rl_end r)"
      "\<not> (rl_start r \<le> rl_end x \<and> rl_end x \<le> rl_end r)" "\<not> rl_end x < rl_start r"
      "rl_end r < rl_start x" "rl_end x + 1 \<noteq> rl_start r"
      using gt rn xn assms(2) by (simp_all add: word_le_nat_alt word_less_nat_alt wrap_free_succ)
    show ?thesis
    proof (cases "rl_end r + 1 = rl_start x")
      case adj: True
      let ?m = "r\<lparr>rl_end := rl_end x\<rparr>"
      have n: "unat (rl_start x) = unat (rl_end r) + 1"
        using adj inv(2) by (simp add: wrap_free_succ)
      have sp: "ext ?m = ext r \<union> ext x" "rl_ok ?m"
        using n rn xn by (auto simp: ext_def rl_ok_nat)
      have "unat (rl_end x) < m" if "m \<in> rl_space rs" for m
      proof (rule ccontr)
        assume "\<not> ?thesis"
        with above [OF that] n have "m \<in> ext x" by (simp add: ext_def)
        with that Cons.prems(2) show False by auto
      qed
      then have "sorted_wrt before (?m # rs)"
        using sorted_before_Cons [of rs ?m] inv sorted_apart_before [OF inv(3)]
        by (simp add: rl_inv_def)
      with sp no adj inv show ?thesis by (auto simp: rl_inv_def)
    next
      case False
      from Cons.IH [OF inv(1)] Cons.prems(2) obtain g l' where
        l': "rlist_free_loop True rs (rl_start x) (rl_end x) = Inr (g, l')"
          "list_all rl_ok l'" "sorted_wrt before l'" "\<not> g \<longrightarrow> sorted_wrt apart l'"
          "rl_space l' = rl_space rs \<union> ext x" by auto
      have ab: "unat (rl_end r) + 1 < m" if "m \<in> rl_space l'" for m
        using that l'(5) above gt False inv(2) by (fastforce simp: ext_def wrap_free_succ)
      have "sorted_wrt before (r # l')"
        using l'(2,3) ab by (intro sorted_before_Cons) (auto dest: ab)
      moreover have "\<not> g \<longrightarrow> sorted_wrt apart (r # l')"
        using l'(2,4) ab sorted_apart_Cons by blast
      ultimately show ?thesis using l' no False inv(2) by (auto simp: Un_assoc)
    qed
  qed
qed

lemma rlist_free_correct:
  assumes "rl_inv l" "st \<le> en" "en < 0xffffffff" "{unat st..unat en} \<inter> rl_space l = {}"
  shows "\<exists>l'. rlist_free True l st en = Inr l' \<and> rl_inv l' \<and>
     rl_space l' = rl_space l \<union> {unat st..unat en}"
proof -
  let ?x = "\<lparr>rl_start = st, rl_end = en\<rparr>"
  have "rl_ok ?x" "ext ?x = {unat st..unat en}" using assms(2,3) by (simp_all add: rl_ok_def ext_def)
  then obtain g l' where l': "rlist_free_loop True l st en = Inr (g, l')" "list_all rl_ok l'"
      "sorted_wrt before l'" "\<not> g \<longrightarrow> sorted_wrt apart l'"
      "rl_space l' = rl_space l \<union> {unat st..unat en}"
    using rlist_free_loop_correct [of l ?x] assms(1,4) by auto
  with rlist_scan_correct [OF l'(2,3)] show ?thesis
    by (cases g) (auto simp: rlist_free_def rl_inv_def)
qed

section \<open>Allocating\<close>

lemma extent_length: "rl_ok r \<Longrightarrow> unat (rl_end r - rl_start r + 1) = unat (rl_end r) - unat (rl_start r) + 1"
  using unat_minus_le [of "rl_start r" "rl_end r"]
  by (subst unat_plus_one) (auto simp: rl_ok_nat word_le_nat_alt)

lemma rlist_alloc_Some:
  "rl_inv l \<Longrightarrow> rlist_alloc l sz = Some (loc, l') \<Longrightarrow>
   {unat loc..<unat loc + unat sz} \<subseteq> rl_space l \<and>
   rl_space l' = rl_space l - {unat loc..<unat loc + unat sz} \<and> rl_inv l' \<and>
   unat loc + unat sz < 2 ^ 32"
proof (induction l arbitrary: l')
  case (Cons r rs)
  have inv: "rl_inv rs" "rl_ok r" "sorted_wrt apart (r # rs)"
    using Cons.prems(1) by (auto simp: rl_inv_def)
  note rn = inv(2) [unfolded rl_ok_nat] and above = sorted_apart_space [OF inv(3)]
  show ?case
  proof (cases "sz \<le> rl_end r - rl_start r + 1")
    case True
    then have fits: "unat (rl_start r) + unat sz \<le> unat (rl_end r) + 1"
      using extent_length [OF inv(2)] rn by (auto simp: word_le_nat_alt)
    then have st: "unat (rl_start r + sz) = unat (rl_start r) + unat sz"
      using rn by (intro unat_plus_small) simp
    have disj: "{unat (rl_start r)..<unat (rl_start r) + unat sz} \<inter> rl_space rs = {}"
      using above fits by fastforce
    show ?thesis
    proof (cases "rl_end r < rl_start r + sz")
      case eaten: True
      with fits st have "unat (rl_start r) + unat sz = unat (rl_end r) + 1"
        by (simp add: word_less_nat_alt)
      then have "ext r = {unat (rl_start r)..<unat (rl_start r) + unat sz}"
        by (auto simp: ext_def)
      with True eaten Cons.prems(2) disj inv rn fits show ?thesis by (auto simp: Let_def)
    next
      case False
      let ?r = "r\<lparr>rl_start := rl_start r + sz\<rparr>"
      have l': "loc = rl_start r" "l' = ?r # rs"
        using True False Cons.prems(2) by (auto simp: Let_def)
      have "rl_ok ?r" using False rn st by (simp add: rl_ok_nat word_less_nat_alt)
      moreover have "ext ?r = ext r - {unat (rl_start r)..<unat (rl_start r) + unat sz}"
        using st by (auto simp: ext_def)
      moreover have "{unat (rl_start r)..<unat (rl_start r) + unat sz} \<subseteq> ext r"
        using fits by (auto simp: ext_def)
      moreover have "sorted_wrt apart (?r # rs)" using inv(3) by (simp add: apart_def)
      ultimately show ?thesis using inv(1) disj l' rn fits by (auto simp: rl_inv_def)
    qed
  next
    case False
    then obtain rs' where rs': "rlist_alloc rs sz = Some (loc, rs')" "l' = r # rs'"
      using Cons.prems(2) by auto
    note IH = Cons.IH [OF inv(1) rs'(1)]
    have "sorted_wrt apart (r # rs')"
      using IH above by (intro sorted_apart_Cons) (auto simp: rl_inv_def)
    moreover have "ext r \<inter> {unat loc..<unat loc + unat sz} = {}"
      using IH above by (fastforce simp: ext_def)
    ultimately show ?thesis using IH rs'(2) inv(2) by (auto simp: rl_inv_def)
  qed
qed simp

lemma run_in_one_extent:
  fixes a n e :: nat
  assumes "{a..<a + n} \<subseteq> {s..e} \<union> S" "\<And>m. m \<in> S \<Longrightarrow> e + 1 < m" "0 < n"
  shows "{a..<a + n} \<subseteq> {s..e} \<or> {a..<a + n} \<subseteq> S"
proof (cases "a \<le> e")
  case True
  have "a + n \<le> e + 1"
  proof (rule ccontr)
    assume "\<not> ?thesis"
    with True have "e + 1 \<in> {a..<a + n}" by simp
    with assms(1,2) show False by fastforce
  qed
  with True assms(2) have "{a..<a + n} \<inter> S = {}" by fastforce
  with assms(1) show ?thesis by blast
next
  case False
  then have "{a..<a + n} \<inter> {s..e} = {}" by auto
  with assms(1) show ?thesis by blast
qed

lemma rlist_alloc_None:
  "rl_inv l \<Longrightarrow> rlist_alloc l sz = None \<Longrightarrow> sz \<noteq> 0 \<Longrightarrow> \<not> {a..<a + unat sz} \<subseteq> rl_space l"
proof (induction l)
  case Nil
  then show ?case by (auto simp: unat_eq_zero)
next
  case (Cons r rs)
  have inv: "rl_inv rs" "rl_ok r" "sorted_wrt apart (r # rs)"
    using Cons.prems(1) by (auto simp: rl_inv_def)
  have small: "\<not> sz \<le> rl_end r - rl_start r + 1" and rest: "rlist_alloc rs sz = None"
    using Cons.prems(2) by (auto simp: Let_def split: if_splits)
  have pos: "0 < unat sz" using Cons.prems(3) by (simp add: unat_gt_0)
  show ?case
  proof
    assume sub: "{a..<a + unat sz} \<subseteq> rl_space (r # rs)"
    then have "{a..<a + unat sz} \<subseteq> ext r \<or> {a..<a + unat sz} \<subseteq> rl_space rs"
      unfolding ext_def
      by (intro run_in_one_extent) (auto simp: ext_def pos dest: sorted_apart_space [OF inv(3)])
    moreover have "\<not> {a..<a + unat sz} \<subseteq> ext r"
    proof
      assume "{a..<a + unat sz} \<subseteq> ext r"
      then have "card {a..<a + unat sz} \<le> card (ext r)"
        by (intro card_mono) (simp_all add: ext_def)
      with small extent_length [OF inv(2)] inv(2) show False
        by (simp add: ext_def word_le_nat_alt rl_ok_nat)
    qed
    ultimately show False using Cons.IH [OF inv(1) rest Cons.prems(3)] by blast
  qed
qed

section \<open>The allocator interface\<close>

text \<open>The units \<open>{a ..< a + n}\<close> of an allocation.\<close>

definition run :: "u32 \<Rightarrow> u32 \<Rightarrow> nat set" where
  "run a n = {unat a..<unat a + unat n}"

text \<open>
  A client of an extent allocator.  It asks for non-empty extents and remembers the
  units it was given; of these it gives back any region, a part of an extent or
  several adjacent ones, and \<open>mem\<close> is the answer of \<^verbatim>\<open>malloc\<close> to that call.  The run
  stops when an extent is granted that the client holds already, and when
  the allocator does not return.
\<close>

datatype ext_op = Get u32 | Put bool u32 u32

datatype 'f ext_fault = Granted_twice | Fault 'f

fun ext_client :: "('m \<Rightarrow> u32 \<Rightarrow> (u32 \<times> 'm) option) \<Rightarrow> (bool \<Rightarrow> 'm \<Rightarrow> u32 \<Rightarrow> u32 \<Rightarrow> 'f + 'm) \<Rightarrow>
    'm \<Rightarrow> nat set \<Rightarrow> ext_op list \<Rightarrow> 'f ext_fault + 'm \<times> nat set" where
  "ext_client al re m held [] = Inr (m, held)"
| "ext_client al re m held (Get n # ops) =
     (if n = 0 then ext_client al re m held ops
      else case al m n of
        None \<Rightarrow> ext_client al re m held ops
      | Some (a, m') \<Rightarrow>
          if run a n \<inter> held \<noteq> {} then Inl Granted_twice
          else ext_client al re m' (held \<union> run a n) ops)"
| "ext_client al re m held (Put mem st en # ops) =
     (if st \<le> en \<and> {unat st..unat en} \<subseteq> held then
        (case re mem m st en of
           Inl f \<Rightarrow> Inl (Fault f)
         | Inr m' \<Rightarrow> ext_client al re m' (held - {unat st..unat en}) ops)
      else ext_client al re m held ops)"

lemma run_closed:
  assumes "n \<noteq> 0" "unat a + unat n < 2 ^ 32"
  shows "run a n = {unat a..unat (a + n - 1)}" "a \<le> a + n - 1" "a + n - 1 < 0xffffffff"
proof -
  have "1 \<le> unat n" using assms(1) by (simp add: Suc_le_eq unat_gt_0)
  moreover have "unat (a + n) = unat a + unat n" using assms(2) by (rule unat_plus_small)
  moreover from calculation have "unat (a + n - 1) = unat (a + n) - 1"
    by (subst unat_minus_le) (simp_all add: word_le_nat_alt)
  ultimately have e: "unat (a + n - 1) = unat a + unat n - 1" "1 \<le> unat n" by simp_all
  then show "run a n = {unat a..unat (a + n - 1)}" by (auto simp: run_def)
  show "a \<le> a + n - 1" using e by (simp add: word_le_nat_alt)
  show "a + n - 1 < 0xffffffff" using e assms(2) by (simp add: word_less_nat_alt)
qed

locale extent_allocator =
  fixes alloc :: "'m \<Rightarrow> u32 \<Rightarrow> (u32 \<times> 'm) option"
    and release :: "bool \<Rightarrow> 'm \<Rightarrow> u32 \<Rightarrow> u32 \<Rightarrow> 'f + 'm"
    and no_memory :: 'f
    and space :: "'m \<Rightarrow> nat set"
    and invar :: "'m \<Rightarrow> bool"
  assumes alloc_Some: "invar m \<Longrightarrow> alloc m n = Some (a, m') \<Longrightarrow>
      run a n \<subseteq> space m \<and> space m' = space m - run a n \<and> invar m' \<and> unat a + unat n < 2 ^ 32"
    and alloc_None: "invar m \<Longrightarrow> alloc m n = None \<Longrightarrow> n \<noteq> 0 \<Longrightarrow>
      \<not> {k..<k + unat n} \<subseteq> space m"
    and release_ok: "invar m \<Longrightarrow> st \<le> en \<Longrightarrow> en < 0xffffffff \<Longrightarrow>
      {unat st..unat en} \<inter> space m = {} \<Longrightarrow>
      \<exists>m'. release True m st en = Inr m' \<and> invar m' \<and> space m' = space m \<union> {unat st..unat en}"
    and release_no_memory: "release False m st en = release True m st en \<or> release False m st en = Inl no_memory"
begin

lemma alloc_release:
  assumes "invar m" "n \<noteq> 0" "alloc m n = Some (a, m')"
  shows "\<exists>m''. release True m' a (a + n - 1) = Inr m'' \<and> invar m'' \<and> space m'' = space m"
proof -
  note al = alloc_Some [OF assms(1,3)]
  then have b: "unat a + unat n < 2 ^ 32" by blast
  note cl = run_closed [OF assms(2) b]
  have "{unat a..unat (a + n - 1)} \<inter> space m' = {}" using al cl(1) by auto
  from release_ok [OF _ cl(2,3) this] al obtain m'' where
    "release True m' a (a + n - 1) = Inr m''" "invar m''" "space m'' = space m' \<union> run a n"
    using cl(1) by auto
  with al show ?thesis by auto
qed

lemma alloc_complete:
  assumes "invar m" "n \<noteq> 0"
  shows "(\<exists>r. alloc m n = Some r) \<longleftrightarrow> (\<exists>k. {k..<k + unat n} \<subseteq> space m)"
proof (cases "alloc m n")
  case None
  with alloc_None [OF assms(1) None assms(2)] show ?thesis by simp
next
  case (Some r)
  then obtain a m' where "alloc m n = Some (a, m')" by (cases r) auto
  from alloc_Some [OF assms(1) this] have "{unat a..<unat a + unat n} \<subseteq> space m"
    by (simp add: run_def)
  with Some show ?thesis by blast
qed

lemma release_any:
  assumes "invar m" "st \<le> en" "en < 0xffffffff" "{unat st..unat en} \<inter> space m = {}"
  shows "(\<exists>m'. release mem m st en = Inr m' \<and> invar m' \<and> space m' = space m \<union> {unat st..unat en}) \<or>
    \<not> mem \<and> release mem m st en = Inl no_memory"
  using release_ok [OF assms] release_no_memory [of m st en] by (cases mem) auto

text \<open>No unit is ever free and handed out, or handed out twice, and none is lost.\<close>

lemma client_sound:
  assumes "invar m" "held \<inter> space m = {}" "held \<subseteq> {..<0xffffffff}"
  shows "case ext_client alloc release m held ops of
      Inr (m', held') \<Rightarrow> invar m' \<and> held' \<inter> space m' = {} \<and> held' \<union> space m' = held \<union> space m
    | Inl f \<Rightarrow> f = Fault no_memory \<and> (\<exists>st en. Put False st en \<in> set ops)"
  using assms
proof (induction ops arbitrary: m held)
  case (Cons op ops)
  note skip = Cons.IH [OF Cons.prems]
  show ?case
  proof (cases op)
    case (Get n)
    show ?thesis
    proof (cases "n = 0 \<or> alloc m n = None")
      case True
      with Get skip show ?thesis by (auto split: sum.splits)
    next
      case False
      then obtain a m' where al: "alloc m n = Some (a, m')" and n: "n \<noteq> 0" by auto
      note law = alloc_Some [OF Cons.prems(1) al]
      have new: "run a n \<inter> held = {}" "held \<union> run a n \<subseteq> {..<0xffffffff}" "(held \<union> run a n) \<inter> space m' = {}"
        using law Cons.prems(2,3) by (auto simp: run_def)
      moreover have "held \<union> run a n \<union> space m' = held \<union> space m" using law by auto
      ultimately show ?thesis using Cons.IH [of m' "held \<union> run a n"] law Get al n by (auto split: sum.splits)
    qed
  next
    case (Put mem st en)
    show ?thesis
    proof (cases "st \<le> en \<and> {unat st..unat en} \<subseteq> held")
      case False
      with Put skip show ?thesis by (auto split: sum.splits)
    next
      case True
      let ?rest = "held - {unat st..unat en}"
      have "unat en \<in> held" using True by (auto simp: word_le_nat_alt)
      then have "en < 0xffffffff" using Cons.prems(3) by (auto simp: word_less_nat_alt)
      moreover have "{unat st..unat en} \<inter> space m = {}" using True Cons.prems(2) by auto
      ultimately consider (fault) "\<not> mem" "release mem m st en = Inl no_memory"
        | (ok) m' where "release mem m st en = Inr m'" "invar m'" "space m' = space m \<union> {unat st..unat en}"
        using release_any [OF Cons.prems(1)] True by blast
      then show ?thesis
      proof cases
        case fault
        with Put True show ?thesis by auto
      next
        case ok
        have "?rest \<inter> space m' = {}" "?rest \<subseteq> {..<0xffffffff}" "?rest \<union> space m' = held \<union> space m"
          using ok(3) Cons.prems(2,3) True by auto
        with Cons.IH [of m' ?rest] ok Put True show ?thesis by (auto split: sum.splits)
      qed
    qed
  qed
qed simp

end

lemma rlist_free_loop_no_memory:
  "rlist_free_loop False l st en = rlist_free_loop True l st en \<or> rlist_free_loop False l st en = Inl NullDeref"
  by (induction l) (auto split: sum.splits)

lemma rlist_free_no_memory:
  "rlist_free False l st en = rlist_free True l st en \<or> rlist_free False l st en = Inl NullDeref"
  using rlist_free_loop_no_memory [of l st en] by (auto simp: rlist_free_def)

interpretation rl: extent_allocator rlist_alloc rlist_free NullDeref rl_space rl_inv
  by unfold_locales
    (use rlist_alloc_Some rlist_alloc_None rlist_free_correct rlist_free_no_memory in \<open>auto simp: run_def\<close>)

section \<open>Properties\<close>

text \<open>
  Freeing a region that does not overlap the list never panics, adds
  exactly that region to the free space, and leaves the list sorted and fully
  coalesced.
\<close>

theorem rlist_free_adds_region:
  assumes "rl_inv l" "st \<le> en" "en < 0xffffffff" "{unat st..unat en} \<inter> rl_space l = {}"
  shows "\<exists>l'. rlist_free True l st en = Inr l' \<and> rl_inv l' \<and>
     rl_space l' = rl_space l \<union> {unat st..unat en}"
  using assms by (rule rl.release_ok)

theorem rlist_free_adds_region_witness:
  "\<exists>l'. rlist_free True [\<lparr>rl_start = 1, rl_end = 5\<rparr>, \<lparr>rl_start = 8, rl_end = 10\<rparr>] 6 7 = Inr l' \<and>
     rl_inv l' \<and>
     rl_space l' = rl_space [\<lparr>rl_start = 1, rl_end = 5\<rparr>, \<lparr>rl_start = 8, rl_end = 10\<rparr>] \<union> {6..7}"
proof -
  have i: "rl_inv [\<lparr>rl_start = 1, rl_end = 5\<rparr>, \<lparr>rl_start = 8, rl_end = 10\<rparr>]"
    by (simp add: rl_inv_def rl_ok_def apart_def)
  have d: "{unat (6 :: u32)..unat (7 :: u32)} \<inter>
      rl_space [\<lparr>rl_start = 1, rl_end = 5\<rparr>, \<lparr>rl_start = 8, rl_end = 10\<rparr>] = {}"
    by (auto simp: ext_def)
  show ?thesis using rlist_free_adds_region [OF i _ _ d] by simp
qed

text \<open>
  C34: for a list in order and a size other than 0, a successful allocation returns a run of free units, removes exactly
  that run and keeps the list well formed; it fails only when no run of the
  requested length is free anywhere in the list.
\<close>

theorem rlist_alloc_first_fit:
  assumes "rl_inv l" "sz \<noteq> 0"
  shows "case rlist_alloc l sz of
      None \<Rightarrow> \<forall>k. \<not> {k..<k + unat sz} \<subseteq> rl_space l
    | Some (loc, l') \<Rightarrow> run loc sz \<subseteq> rl_space l \<and> rl_space l' = rl_space l - run loc sz \<and> rl_inv l'"
  using rl.alloc_Some [OF assms(1)] rl.alloc_None [OF assms(1) _ assms(2)]
  by (auto split: option.split)

theorem rlist_alloc_first_fit_witness:
  "rl_inv [\<lparr>rl_start = 1, rl_end = 5\<rparr>] \<and>
   rlist_alloc [\<lparr>rl_start = 1, rl_end = 5\<rparr>] 3 = Some (1, [\<lparr>rl_start = 4, rl_end = 5\<rparr>]) \<and>
   rl_space [\<lparr>rl_start = 4, rl_end = 5\<rparr>] = rl_space [\<lparr>rl_start = 1, rl_end = 5\<rparr>] - run 1 3"
proof -
  have i: "rl_inv [\<lparr>rl_start = 1, rl_end = 5\<rparr>]" by (simp add: rl_inv_def rl_ok_def)
  have a: "rlist_alloc [\<lparr>rl_start = 1, rl_end = 5\<rparr>] 3 = Some (1, [\<lparr>rl_start = 4, rl_end = 5\<rparr>])"
    by (simp add: Let_def)
  from rlist_alloc_first_fit [OF i, of 3] a i show ?thesis by simp
qed

text \<open>
  C1: starting from a map holding the units \<open>lo..hi\<close>, whatever a client asks for and
  whatever regions of the units it holds it gives back, in any order, no unit is
  handed out while the client holds it, the units held and the free ones are disjoint
  and together still make up \<open>lo..hi\<close>, and the allocator reaches none of its
  panics.  The only call that may fail to return is a return for which \<^verbatim>\<open>malloc(M_NOWAIT)\<close> gives
  no memory: the code stores through the null pointer.
\<close>

theorem rlist_trace_sound:
  assumes "lo \<le> hi" "hi < 0xffffffff"
  shows "case ext_client rlist_alloc rlist_free [\<lparr>rl_start = lo, rl_end = hi\<rparr>] {} ops of
      Inr (l, held) \<Rightarrow> rl_inv l \<and> held \<inter> rl_space l = {} \<and> held \<union> rl_space l = {unat lo..unat hi}
    | Inl f \<Rightarrow> f = Fault NullDeref \<and> (\<exists>st en. Put False st en \<in> set ops)"
proof -
  have "rl_inv [\<lparr>rl_start = lo, rl_end = hi\<rparr>]" using assms by (simp add: rl_inv_def rl_ok_def)
  from rl.client_sound [OF this, of "{}" ops] show ?thesis by (auto simp: ext_def split: sum.splits)
qed

theorem rlist_trace_sound_witness:
  "\<exists>l held. ext_client rlist_alloc rlist_free [\<lparr>rl_start = 1, rl_end = 9\<rparr>] {}
       [Get 3, Get 2, Put True 3 4] = Inr (l, held) \<and> held \<union> rl_space l = {1..9} \<and> held = {1, 2, 5}"
proof -
  have "ext_client rlist_alloc rlist_free [\<lparr>rl_start = 1, rl_end = 9\<rparr>] {} [Get 3, Get 2, Put True 3 4] =
      Inr ([\<lparr>rl_start = 3, rl_end = 4\<rparr>, \<lparr>rl_start = 6, rl_end = 9\<rparr>], {1, 2, 5})"
    by code_simp
  with rlist_trace_sound [of 1 9 "[Get 3, Get 2, Put True 3 4]"] show ?thesis by simp
qed

text \<open>
  The overlap check of \<^verbatim>\<open>rlist_free\<close> is incomplete.  A region that is
  adjacent to the tail of one element and overlaps the next is accepted
  without a panic, and two later allocations then hand out the same units.
\<close>

theorem rlist_free_misses_double_free:
  "\<exists>l l' l1 l2. rl_inv l \<and> {6..9} \<inter> rl_space l \<noteq> {} \<and> rlist_free True l 6 9 = Inr l' \<and>
     rlist_alloc l' 9 = Some (1, l1) \<and> rlist_alloc l1 3 = Some (8, l2) \<and> run 1 9 \<inter> run 8 3 \<noteq> {}"
proof -
  let ?l = "[\<lparr>rl_start = 1, rl_end = 5\<rparr>, \<lparr>rl_start = 8, rl_end = 10\<rparr>] :: rlist list"
  let ?l' = "[\<lparr>rl_start = 1, rl_end = 9\<rparr>, \<lparr>rl_start = 8, rl_end = 10\<rparr>] :: rlist list"
  have "rl_inv ?l" by (simp add: rl_inv_def rl_ok_def apart_def)
  moreover have "8 \<in> {6..9} \<inter> rl_space ?l" by (simp add: ext_def)
  then have "{6..9} \<inter> rl_space ?l \<noteq> {}" by blast
  moreover have "rlist_free True ?l 6 9 = Inr ?l'"
    by code_simp
  moreover have "rlist_alloc ?l' 9 = Some (1, [\<lparr>rl_start = 8, rl_end = 10\<rparr>])"
    "rlist_alloc [\<lparr>rl_start = 8, rl_end = 10\<rparr>] 3 = Some (8, [])" by (simp_all add: Let_def)
  moreover have "8 \<in> run 1 9 \<inter> run 8 3" by (simp add: run_def)
  then have "run 1 9 \<inter> run 8 3 \<noteq> {}" by blast
  ultimately show ?thesis by blast
qed

end
