(* ===== verification/Bpf.thy ===== *)
theory Bpf
  imports Prelude
begin

text \<open>
  The Berkeley packet filter (\<^verbatim>\<open>src/sys/net/bpf_filter.c\<close>): the filter machine
  that runs user-supplied programs in the kernel and the validator that is
  supposed to make this safe, both as compiled with \<^verbatim>\<open>KERNEL\<close> defined.  A
  packet is either a contiguous buffer (\<^verbatim>\<open>buflen\<close> bytes at \<^verbatim>\<open>p\<close>) or an mbuf
  chain (\<^verbatim>\<open>buflen = 0\<close>, \<^verbatim>\<open>p\<close> an mbuf).  Every access that the machine makes
  outside the object it means to read or write is a trap value here.
\<close>

section \<open>Instructions, packets, machine state\<close>

record bpf_insn =
  code :: u16
  jt :: u8
  jf :: u8
  insn_k :: u32

abbreviation BPF_LD :: u16 where "BPF_LD \<equiv> 0x00"
abbreviation BPF_LDX :: u16 where "BPF_LDX \<equiv> 0x01"
abbreviation BPF_ST :: u16 where "BPF_ST \<equiv> 0x02"
abbreviation BPF_STX :: u16 where "BPF_STX \<equiv> 0x03"
abbreviation BPF_ALU :: u16 where "BPF_ALU \<equiv> 0x04"
abbreviation BPF_JMP :: u16 where "BPF_JMP \<equiv> 0x05"
abbreviation BPF_RET :: u16 where "BPF_RET \<equiv> 0x06"
abbreviation BPF_MISC :: u16 where "BPF_MISC \<equiv> 0x07"
abbreviation BPF_W :: u16 where "BPF_W \<equiv> 0x00"
abbreviation BPF_H :: u16 where "BPF_H \<equiv> 0x08"
abbreviation BPF_B :: u16 where "BPF_B \<equiv> 0x10"
abbreviation BPF_IMM :: u16 where "BPF_IMM \<equiv> 0x00"
abbreviation BPF_ABS :: u16 where "BPF_ABS \<equiv> 0x20"
abbreviation BPF_IND :: u16 where "BPF_IND \<equiv> 0x40"
abbreviation BPF_MEM :: u16 where "BPF_MEM \<equiv> 0x60"
abbreviation BPF_LEN :: u16 where "BPF_LEN \<equiv> 0x80"
abbreviation BPF_MSH :: u16 where "BPF_MSH \<equiv> 0xa0"
abbreviation BPF_ADD :: u16 where "BPF_ADD \<equiv> 0x00"
abbreviation BPF_SUB :: u16 where "BPF_SUB \<equiv> 0x10"
abbreviation BPF_MUL :: u16 where "BPF_MUL \<equiv> 0x20"
abbreviation BPF_DIV :: u16 where "BPF_DIV \<equiv> 0x30"
abbreviation BPF_OR :: u16 where "BPF_OR \<equiv> 0x40"
abbreviation BPF_AND :: u16 where "BPF_AND \<equiv> 0x50"
abbreviation BPF_LSH :: u16 where "BPF_LSH \<equiv> 0x60"
abbreviation BPF_RSH :: u16 where "BPF_RSH \<equiv> 0x70"
abbreviation BPF_NEG :: u16 where "BPF_NEG \<equiv> 0x80"
abbreviation BPF_JA :: u16 where "BPF_JA \<equiv> 0x00"
abbreviation BPF_JEQ :: u16 where "BPF_JEQ \<equiv> 0x10"
abbreviation BPF_JGT :: u16 where "BPF_JGT \<equiv> 0x20"
abbreviation BPF_JGE :: u16 where "BPF_JGE \<equiv> 0x30"
abbreviation BPF_JSET :: u16 where "BPF_JSET \<equiv> 0x40"
abbreviation BPF_K :: u16 where "BPF_K \<equiv> 0x00"
abbreviation BPF_X :: u16 where "BPF_X \<equiv> 0x08"
abbreviation BPF_A :: u16 where "BPF_A \<equiv> 0x10"
abbreviation BPF_TAX :: u16 where "BPF_TAX \<equiv> 0x00"
abbreviation BPF_TXA :: u16 where "BPF_TXA \<equiv> 0x80"
abbreviation BPF_MEMWORDS :: nat where "BPF_MEMWORDS \<equiv> 16"

definition BPF_CLASS :: "u16 \<Rightarrow> u16" where "BPF_CLASS c = c AND 0x07"
definition BPF_OP :: "u16 \<Rightarrow> u16" where "BPF_OP c = c AND 0xf0"

datatype packet = Buf "u8 list" | Chain "u8 list list"

record bpf_state =
  regA :: u32
  regX :: u32
  mem :: "u32 list"

datatype bpf_trap = PacketTrap | ScratchTrap | PcTrap | DivTrap

definition buflen :: "packet \<Rightarrow> u32" where
  "buflen p = (case p of Buf bs \<Rightarrow> of_nat (length bs) | Chain _ \<Rightarrow> 0)"

section \<open>Reading packet bytes\<close>

definition byte_at :: "u8 list \<Rightarrow> int \<Rightarrow> u8 option" where
  "byte_at bs i = (if 0 \<le> i \<and> i < int (length bs) then Some (bs ! nat i) else None)"

definition be16 :: "u8 \<Rightarrow> u8 \<Rightarrow> u32" where
  "be16 a b = push_bit 8 (ucast a) OR ucast b"

definition be32 :: "u8 \<Rightarrow> u8 \<Rightarrow> u8 \<Rightarrow> u8 \<Rightarrow> u32" where
  "be32 a b c d = push_bit 24 (ucast a) OR push_bit 16 (ucast b) OR push_bit 8 (ucast c) OR ucast d"

definition EXTRACT_SHORT :: "u8 list \<Rightarrow> int \<Rightarrow> u32 option" where
  "EXTRACT_SHORT bs i =
     (case (byte_at bs i, byte_at bs (i + 1)) of
        (Some a, Some b) \<Rightarrow> Some (be16 a b)
      | _ \<Rightarrow> None)"

definition EXTRACT_LONG :: "u8 list \<Rightarrow> int \<Rightarrow> u32 option" where
  "EXTRACT_LONG bs i =
     (case (byte_at bs i, byte_at bs (i + 1), byte_at bs (i + 2), byte_at bs (i + 3)) of
        (Some a, Some b, Some c, Some d) \<Rightarrow> Some (be32 a b c d)
      | _ \<Rightarrow> None)"

text \<open>The outcome of a load: a value, the \<^verbatim>\<open>return 0\<close> of a short packet, or a trap.\<close>

datatype load = Loaded u32 | Short | LoadTrap

definition loaded :: "u32 option \<Rightarrow> load" where
  "loaded r = (case r of None \<Rightarrow> LoadTrap | Some v \<Rightarrow> Loaded v)"

text \<open>
  The search loop shared by \<^verbatim>\<open>MINDEX\<close>, \<^verbatim>\<open>m_xword\<close> and \<^verbatim>\<open>m_xhalf\<close>: the mbuf
  that holds offset \<open>k\<close>, the offset in it and the rest of the chain.  The
  comparison is between signed integers, so a negative offset stops at once; the
  differences after it are of 32 bits.
\<close>

fun m_find :: "u8 list list \<Rightarrow> int \<Rightarrow> (u8 list \<times> int \<times> u8 list list) option" where
  "m_find [] k = None"
| "m_find (m # ms) k =
     (if k \<ge> int (length m) then m_find ms (k - int (length m)) else Some (m, k, ms))"

text \<open>
  A word that straddles two mbufs is read as \<^verbatim>\<open>cp[k]\<close> although \<^verbatim>\<open>cp\<close> already
  points at offset \<open>k\<close>, that is at offset \<open>k + k\<close> of the data.
\<close>

definition m_xword :: "u8 list list \<Rightarrow> int \<Rightarrow> load" where
  "m_xword ms k0 =
     (if ms = [] then LoadTrap
      else case m_find ms k0 of
        None \<Rightarrow> Short
      | Some (m, k, rest) \<Rightarrow>
          (let len = int (length m) in
           if s32 (len - k) \<ge> 4 then loaded (EXTRACT_LONG m k)
           else case rest of
             [] \<Rightarrow> Short
           | m0 # _ \<Rightarrow>
               if s32 (int (length m0) + len - k) < 4 then Short
               else
                 (let cp = (\<lambda>i. byte_at m (k + i)); np = byte_at m0 in
                  if s32 (len - k) = 1 then
                    (case (cp k, np 0, np 1, np 2) of
                       (Some a, Some b, Some c, Some d) \<Rightarrow> Loaded (be32 a b c d)
                     | _ \<Rightarrow> LoadTrap)
                  else if s32 (len - k) = 2 then
                    (case (cp k, cp (k + 1), np 0, np 1) of
                       (Some a, Some b, Some c, Some d) \<Rightarrow> Loaded (be32 a b c d)
                     | _ \<Rightarrow> LoadTrap)
                  else
                    (case (cp k, cp (k + 1), cp (k + 2), np 0) of
                       (Some a, Some b, Some c, Some d) \<Rightarrow> Loaded (be32 a b c d)
                     | _ \<Rightarrow> LoadTrap))))"

definition m_xhalf :: "u8 list list \<Rightarrow> int \<Rightarrow> load" where
  "m_xhalf ms k0 =
     (if ms = [] then LoadTrap
      else case m_find ms k0 of
        None \<Rightarrow> Short
      | Some (m, k, rest) \<Rightarrow>
          (if s32 (int (length m) - k) \<ge> 2 then loaded (EXTRACT_SHORT m k)
           else case rest of
             [] \<Rightarrow> Short
           | m0 # _ \<Rightarrow>
               (case (byte_at m (k + k), byte_at m0 0) of
                  (Some a, Some b) \<Rightarrow> Loaded (be16 a b)
                | _ \<Rightarrow> LoadTrap)))"

definition m_byte :: "u8 list list \<Rightarrow> int \<Rightarrow> u8 option option" where
  "m_byte ms k0 = map_option (\<lambda>(m, k, rest). byte_at m k) (m_find ms k0)"

definition ld_word :: "packet \<Rightarrow> u32 \<Rightarrow> load" where
  "ld_word p k =
     (if k + 4 > buflen p then
        (if buflen p \<noteq> 0 then Short
         else case p of Chain ms \<Rightarrow> m_xword ms (sint k) | Buf _ \<Rightarrow> LoadTrap)
      else case p of Buf bs \<Rightarrow> loaded (EXTRACT_LONG bs (sint k)) | Chain _ \<Rightarrow> LoadTrap)"

definition ld_half :: "packet \<Rightarrow> u32 \<Rightarrow> load" where
  "ld_half p k =
     (if k + 2 > buflen p then
        (if buflen p \<noteq> 0 then Short
         else case p of Chain ms \<Rightarrow> m_xhalf ms (sint k) | Buf _ \<Rightarrow> LoadTrap)
      else case p of Buf bs \<Rightarrow> loaded (EXTRACT_SHORT bs (sint k)) | Chain _ \<Rightarrow> LoadTrap)"

text \<open>\<open>conv\<close> is the conversion of the mbuf byte: \<^verbatim>\<open>u_char\<close> or \<^verbatim>\<open>char\<close>.\<close>

definition ld_byte :: "(u8 \<Rightarrow> u32) \<Rightarrow> packet \<Rightarrow> u32 \<Rightarrow> load" where
  "ld_byte conv p k =
     (if k \<ge> buflen p then
        (if buflen p \<noteq> 0 then Short
         else case p of
           Chain ms \<Rightarrow>
             (if ms = [] then LoadTrap
              else case m_byte ms (sint k) of
                None \<Rightarrow> Short
              | Some r \<Rightarrow> loaded (map_option conv r))
         | Buf _ \<Rightarrow> LoadTrap)
      else case p of
        Buf bs \<Rightarrow> loaded (map_option ucast (byte_at bs (sint k)))
      | Chain _ \<Rightarrow> LoadTrap)"

section \<open>The machine\<close>

text \<open>
  One turn of the interpreter loop: it returns, traps, or continues with a
  displacement added to the program counter before the next increment.
\<close>

datatype bpf_next = Stop u32 | Trap bpf_trap | Next int bpf_state

definition setA :: "bpf_state \<Rightarrow> u32 \<Rightarrow> bpf_next" where
  "setA s v = Next 0 (s\<lparr>regA := v\<rparr>)"

definition setX :: "bpf_state \<Rightarrow> u32 \<Rightarrow> bpf_next" where
  "setX s v = Next 0 (s\<lparr>regX := v\<rparr>)"

definition on_load :: "(u32 \<Rightarrow> bpf_next) \<Rightarrow> load \<Rightarrow> bpf_next" where
  "on_load f l = (case l of Loaded v \<Rightarrow> f v | Short \<Rightarrow> Stop 0 | LoadTrap \<Rightarrow> Trap PacketTrap)"

text \<open>
  The packet loads.  \<^verbatim>\<open>BPF_LD|BPF_H|BPF_ABS\<close> on an mbuf chain does not look at
  the error flag of \<^verbatim>\<open>m_xhalf\<close>: it goes on with the 0 that was returned.
\<close>

definition bpf_ld_packet :: "packet \<Rightarrow> u32 \<Rightarrow> bpf_insn \<Rightarrow> bpf_state \<Rightarrow> bpf_next option" where
  "bpf_ld_packet p wirelen i s =
     (let c = code i; k = insn_k i in
      if c = (BPF_LD OR BPF_W OR BPF_ABS) then Some (on_load (setA s) (ld_word p k))
      else if c = (BPF_LD OR BPF_H OR BPF_ABS) then
        Some (on_load (setA s)
          (if k + 2 > buflen p \<and> buflen p = 0 \<and> ld_half p k = Short then Loaded 0
           else ld_half p k))
      else if c = (BPF_LD OR BPF_B OR BPF_ABS) then Some (on_load (setA s) (ld_byte ucast p k))
      else if c = (BPF_LD OR BPF_W OR BPF_LEN) then Some (setA s wirelen)
      else if c = (BPF_LDX OR BPF_W OR BPF_LEN) then Some (setX s wirelen)
      else if c = (BPF_LD OR BPF_W OR BPF_IND) then
        Some (on_load (setA s) (ld_word p (regX s + k)))
      else if c = (BPF_LD OR BPF_H OR BPF_IND) then
        Some (on_load (setA s) (ld_half p (regX s + k)))
      else if c = (BPF_LD OR BPF_B OR BPF_IND) then
        Some (on_load (setA s) (ld_byte scast p (regX s + k)))
      else if c = (BPF_LDX OR BPF_MSH OR BPF_B) then
        Some (on_load (\<lambda>v. setX s (push_bit 2 (v AND 0xf))) (ld_byte scast p k))
      else None)"

text \<open>Immediate loads and the scratch memory \<^verbatim>\<open>mem[BPF_MEMWORDS]\<close>, indexed by a signed \<^verbatim>\<open>long\<close>.\<close>

definition mem_ok :: "u32 \<Rightarrow> bool" where
  "mem_ok k \<longleftrightarrow> 0 \<le> sint k \<and> sint k < int BPF_MEMWORDS"

definition bpf_ld_mem :: "bpf_insn \<Rightarrow> bpf_state \<Rightarrow> bpf_next option" where
  "bpf_ld_mem i s =
     (let c = code i; k = insn_k i; ix = nat (sint k) in
      if c = (BPF_LD OR BPF_IMM) then Some (setA s k)
      else if c = (BPF_LDX OR BPF_IMM) then Some (setX s k)
      else if c = (BPF_LD OR BPF_MEM) then
        Some (if mem_ok k then setA s (mem s ! ix) else Trap ScratchTrap)
      else if c = (BPF_LDX OR BPF_MEM) then
        Some (if mem_ok k then setX s (mem s ! ix) else Trap ScratchTrap)
      else if c = BPF_ST then
        Some (if mem_ok k then Next 0 (s\<lparr>mem := (mem s)[ix := regA s]\<rparr>) else Trap ScratchTrap)
      else if c = BPF_STX then
        Some (if mem_ok k then Next 0 (s\<lparr>mem := (mem s)[ix := regX s]\<rparr>) else Trap ScratchTrap)
      else None)"

definition branch :: "bpf_insn \<Rightarrow> bpf_state \<Rightarrow> bool \<Rightarrow> bpf_next" where
  "branch i s b = Next (int (unat (if b then jt i else jf i))) s"

definition bpf_jmp :: "bpf_insn \<Rightarrow> bpf_state \<Rightarrow> bpf_next option" where
  "bpf_jmp i s =
     (let c = code i; k = insn_k i; a = regA s; x = regX s in
      if c = (BPF_JMP OR BPF_JA) then Some (Next (sint k) s)
      else if c = (BPF_JMP OR BPF_JGT OR BPF_K) then Some (branch i s (a > k))
      else if c = (BPF_JMP OR BPF_JGE OR BPF_K) then Some (branch i s (a \<ge> k))
      else if c = (BPF_JMP OR BPF_JEQ OR BPF_K) then Some (branch i s (a = k))
      else if c = (BPF_JMP OR BPF_JSET OR BPF_K) then Some (branch i s (a AND k \<noteq> 0))
      else if c = (BPF_JMP OR BPF_JGT OR BPF_X) then Some (branch i s (a > x))
      else if c = (BPF_JMP OR BPF_JGE OR BPF_X) then Some (branch i s (a \<ge> x))
      else if c = (BPF_JMP OR BPF_JEQ OR BPF_X) then Some (branch i s (a = x))
      else if c = (BPF_JMP OR BPF_JSET OR BPF_X) then Some (branch i s (a AND x \<noteq> 0))
      else None)"

text \<open>
  Arithmetic.  A shift by 32 or more is undefined in C; the i386 shift
  instruction the compiler emits takes the count modulo 32, and so does the model.
\<close>

definition bpf_alu :: "bpf_insn \<Rightarrow> bpf_state \<Rightarrow> bpf_next option" where
  "bpf_alu i s =
     (let c = code i; k = insn_k i; a = regA s; x = regX s in
      if c = (BPF_ALU OR BPF_ADD OR BPF_X) then Some (setA s (a + x))
      else if c = (BPF_ALU OR BPF_SUB OR BPF_X) then Some (setA s (a - x))
      else if c = (BPF_ALU OR BPF_MUL OR BPF_X) then Some (setA s (a * x))
      else if c = (BPF_ALU OR BPF_DIV OR BPF_X) then
        Some (if x = 0 then Stop 0 else setA s (a div x))
      else if c = (BPF_ALU OR BPF_AND OR BPF_X) then Some (setA s (a AND x))
      else if c = (BPF_ALU OR BPF_OR OR BPF_X) then Some (setA s (a OR x))
      else if c = (BPF_ALU OR BPF_LSH OR BPF_X) then Some (setA s (push_bit (unat x mod 32) a))
      else if c = (BPF_ALU OR BPF_RSH OR BPF_X) then Some (setA s (drop_bit (unat x mod 32) a))
      else if c = (BPF_ALU OR BPF_ADD OR BPF_K) then Some (setA s (a + k))
      else if c = (BPF_ALU OR BPF_SUB OR BPF_K) then Some (setA s (a - k))
      else if c = (BPF_ALU OR BPF_MUL OR BPF_K) then Some (setA s (a * k))
      else if c = (BPF_ALU OR BPF_DIV OR BPF_K) then
        Some (if k = 0 then Trap DivTrap else setA s (a div k))
      else if c = (BPF_ALU OR BPF_AND OR BPF_K) then Some (setA s (a AND k))
      else if c = (BPF_ALU OR BPF_OR OR BPF_K) then Some (setA s (a OR k))
      else if c = (BPF_ALU OR BPF_LSH OR BPF_K) then Some (setA s (push_bit (unat k mod 32) a))
      else if c = (BPF_ALU OR BPF_RSH OR BPF_K) then Some (setA s (drop_bit (unat k mod 32) a))
      else if c = (BPF_ALU OR BPF_NEG) then Some (setA s (- a))
      else if c = (BPF_MISC OR BPF_TAX) then Some (setX s a)
      else if c = (BPF_MISC OR BPF_TXA) then Some (setA s x)
      else None)"

definition bpf_ret :: "bpf_insn \<Rightarrow> bpf_state \<Rightarrow> bpf_next option" where
  "bpf_ret i s =
     (if code i = (BPF_RET OR BPF_K) then Some (Stop (insn_k i))
      else if code i = (BPF_RET OR BPF_A) then Some (Stop (regA s))
      else None)"

definition orelse :: "'a option \<Rightarrow> 'a option \<Rightarrow> 'a option" where
  "orelse a b = (case a of None \<Rightarrow> b | Some _ \<Rightarrow> a)"

text \<open>The \<^verbatim>\<open>switch\<close> of the loop body; an unknown code rejects the packet.\<close>

definition bpf_exec :: "packet \<Rightarrow> u32 \<Rightarrow> bpf_insn \<Rightarrow> bpf_state \<Rightarrow> bpf_next" where
  "bpf_exec p wirelen i s =
     (case orelse (bpf_ret i s) (orelse (bpf_ld_packet p wirelen i s)
             (orelse (bpf_ld_mem i s) (orelse (bpf_jmp i s) (bpf_alu i s)))) of
        None \<Rightarrow> Stop 0
      | Some n \<Rightarrow> n)"

text \<open>
  The \<^verbatim>\<open>while (1)\<close> loop.  \<open>None\<close> is "still running when the fuel was spent";
  a fetch outside the program is a trap.
\<close>

fun bpf_run :: "nat \<Rightarrow> bpf_insn list \<Rightarrow> packet \<Rightarrow> u32 \<Rightarrow> int \<Rightarrow> bpf_state \<Rightarrow> (bpf_trap + u32) option" where
  "bpf_run 0 prog p wirelen pc s = None"
| "bpf_run (Suc fuel) prog p wirelen pc s =
     (if 0 \<le> pc \<and> pc < int (length prog) then
        (case bpf_exec p wirelen (prog ! nat pc) s of
           Stop v \<Rightarrow> Some (Inr v)
         | Trap t \<Rightarrow> Some (Inl t)
         | Next d s' \<Rightarrow> bpf_run fuel prog p wirelen (pc + d + 1) s')
      else Some (Inl PcTrap))"

text \<open>
  \<^verbatim>\<open>bpf_filter\<close>: no filter accepts everything.  \<open>s\<close> holds the uninitialised
  \<^verbatim>\<open>A\<close>, \<^verbatim>\<open>X\<close> and \<^verbatim>\<open>mem\<close> of the stack frame.
\<close>

definition bpf_filter :: "nat \<Rightarrow> bpf_insn list option \<Rightarrow> packet \<Rightarrow> u32 \<Rightarrow> bpf_state \<Rightarrow>
    (bpf_trap + u32) option" where
  "bpf_filter fuel prog p wirelen s =
     (case prog of None \<Rightarrow> Some (Inr (- 1)) | Some f \<Rightarrow> bpf_run fuel f p wirelen 0 s)"

section \<open>The validator\<close>

text \<open>The body of the loop of \<^verbatim>\<open>bpf_validate\<close>: \<open>True\<close> when it does not return 0.  Sums of
  signed longs wrap.\<close>

definition validate_insn :: "nat \<Rightarrow> nat \<Rightarrow> bpf_insn \<Rightarrow> bool" where
  "validate_insn len i p =
     (let from = of_nat (i + 1) :: u32 in
      (BPF_CLASS (code p) = BPF_JMP \<longrightarrow>
         (if BPF_OP (code p) = BPF_JA then \<not> sint (from + insn_k p) \<ge> int len
          else \<not> (i + 1 + unat (jt p) \<ge> len \<or> i + 1 + unat (jf p) \<ge> len))) \<and>
      \<not> ((BPF_CLASS (code p) = BPF_ST \<or>
          (BPF_CLASS (code p) = BPF_LD \<and> code p AND 0xe0 = BPF_MEM)) \<and>
         (sint (insn_k p) \<ge> int BPF_MEMWORDS \<or> sint (insn_k p) < 0)) \<and>
      \<not> (code p = (BPF_ALU OR BPF_DIV OR BPF_K) \<and> insn_k p = 0))"

text \<open>An empty program makes the code read \<^verbatim>\<open>f[-1]\<close>.\<close>

definition bpf_validate :: "bpf_insn list \<Rightarrow> bpf_trap + bool" where
  "bpf_validate f =
     (if \<not> list_all (\<lambda>i. validate_insn (length f) i (f ! i)) [0..<length f] then Inr False
      else if f = [] then Inl PcTrap
      else Inr (BPF_CLASS (code (f ! (length f - 1))) = BPF_RET))"

section \<open>One turn of a validated program\<close>

named_theorems bpf_groups \<open>the instruction groups of the interpreter\<close>

declare bpf_ret_def [bpf_groups] bpf_ld_packet_def [bpf_groups] bpf_ld_mem_def [bpf_groups]
  bpf_jmp_def [bpf_groups] bpf_alu_def [bpf_groups]

lemma on_load_Next:
  "on_load f l = Next d s \<Longrightarrow> \<exists>v. l = Loaded v \<and> f v = Next d s"
  by (auto simp: on_load_def split: load.splits)

lemma on_load_Trap:
  "(\<And>v. f v \<noteq> Trap t) \<Longrightarrow> on_load f l = Trap t \<Longrightarrow> l = LoadTrap \<and> t = PacketTrap"
  by (auto simp: on_load_def split: load.splits)

lemma set_simps [simp]:
  "setA s v = Next d s' \<longleftrightarrow> d = 0 \<and> s' = s\<lparr>regA := v\<rparr>"
  "setX s v = Next d s' \<longleftrightarrow> d = 0 \<and> s' = s\<lparr>regX := v\<rparr>"
  "setA s v \<noteq> Trap t" "setX s v \<noteq> Trap t" "setA s v \<noteq> Stop w" "setX s v \<noteq> Stop w"
  by (auto simp: setA_def setX_def)

text \<open>Each group belongs to instruction classes of its own.\<close>

lemma ret_class: "bpf_ret i s = Some n \<Longrightarrow> \<exists>v. n = Stop v"
  by (auto simp: bpf_ret_def split: if_splits)

lemma ld_packet_class:
  "bpf_ld_packet p w i s = Some n \<Longrightarrow> BPF_CLASS (code i) = BPF_LD \<or> BPF_CLASS (code i) = BPF_LDX"
  by (auto simp: bpf_ld_packet_def BPF_CLASS_def Let_def split: if_splits)

lemma ld_mem_class:
  "bpf_ld_mem i s = Some n \<Longrightarrow> BPF_CLASS (code i) \<in> {BPF_LD, BPF_LDX, BPF_ST, BPF_STX}"
  by (auto simp: bpf_ld_mem_def BPF_CLASS_def Let_def split: if_splits)

lemma jmp_class: "bpf_jmp i s = Some n \<Longrightarrow> BPF_CLASS (code i) = BPF_JMP"
  by (auto simp: bpf_jmp_def BPF_CLASS_def Let_def split: if_splits)

lemma alu_class:
  "bpf_alu i s = Some n \<Longrightarrow> BPF_CLASS (code i) = BPF_ALU \<or> BPF_CLASS (code i) = BPF_MISC"
  by (auto simp: bpf_alu_def BPF_CLASS_def Let_def split: if_splits)

lemma orelse_Some:
  "orelse a b = Some x \<longleftrightarrow> a = Some x \<or> a = None \<and> b = Some x"
  by (auto simp: orelse_def split: option.splits)

lemma exec_ret_class:
  assumes "BPF_CLASS (code i) = BPF_RET"
  shows "\<exists>v. bpf_exec p w i s = Stop v"
proof -
  have "bpf_ld_packet p w i s = None"
    using assms ld_packet_class [of p w i s] by (cases "bpf_ld_packet p w i s") auto
  moreover have "bpf_ld_mem i s = None"
    using assms ld_mem_class [of i s] by (cases "bpf_ld_mem i s") auto
  moreover have "bpf_jmp i s = None" using assms jmp_class [of i s] by (cases "bpf_jmp i s") auto
  moreover have "bpf_alu i s = None" using assms alu_class [of i s] by (cases "bpf_alu i s") auto
  ultimately show ?thesis
    using ret_class [of i s] by (auto simp: bpf_exec_def orelse_def split: option.splits)
qed

text \<open>What the groups do to the program counter, and the traps they can take.\<close>

lemma ld_packet_Next:
  "bpf_ld_packet p w i s = Some (Next d s') \<Longrightarrow> d = 0 \<and> mem s' = mem s"
  by (auto simp: bpf_ld_packet_def Let_def split: if_splits dest!: on_load_Next)

lemma ld_packet_Trap: "bpf_ld_packet p w i s = Some (Trap t) \<Longrightarrow> t = PacketTrap"
  by (auto simp: bpf_ld_packet_def Let_def split: if_splits dest!: on_load_Trap [rotated])

lemma ld_mem_Next:
  "bpf_ld_mem i s = Some (Next d s') \<Longrightarrow> d = 0 \<and> length (mem s') = length (mem s)"
  by (auto simp: bpf_ld_mem_def Let_def split: if_splits)

lemma alu_Next: "bpf_alu i s = Some (Next d s') \<Longrightarrow> d = 0 \<and> mem s' = mem s"
  by (auto simp: bpf_alu_def Let_def split: if_splits)

text \<open>The checks the validator leaves out, and what they are needed for.\<close>

definition strict_insn :: "bpf_insn \<Rightarrow> bool" where
  "strict_insn i \<longleftrightarrow>
     (code i = (BPF_JMP OR BPF_JA) \<longrightarrow> unat (insn_k i) < 2 ^ 30) \<and>
     (code i = (BPF_LDX OR BPF_MEM) \<or> code i = BPF_STX \<longrightarrow> mem_ok (insn_k i))"

lemma ld_mem_no_trap:
  assumes "validate_insn len n i" "strict_insn i"
  shows "bpf_ld_mem i s \<noteq> Some (Trap t)"
  using assms
  by (auto simp: bpf_ld_mem_def validate_insn_def strict_insn_def mem_ok_def BPF_CLASS_def Let_def
        split: if_splits)

lemma alu_no_trap: "validate_insn len n i \<Longrightarrow> bpf_alu i s \<noteq> Some (Trap t)"
  by (auto simp: bpf_alu_def validate_insn_def Let_def split: if_splits)

lemma jmp_no_trap: "bpf_jmp i s \<noteq> Some (Trap t)"
  by (auto simp: bpf_jmp_def branch_def Let_def split: if_splits)

lemma ja_forward:
  assumes "unat k < 2 ^ 30" "n < 2 ^ 20" "\<not> sint (of_nat (n + 1) + k :: u32) \<ge> int len"
  shows "0 \<le> sint k \<and> int n + sint k + 1 < int len"
proof -
  have "unat (of_nat (n + 1) :: u32) = n + 1" using assms(2)
    by (subst unat_of_nat) simp
  then have "unat (of_nat (n + 1) + k :: u32) = n + 1 + unat k"
    using assms(1,2) by (subst unat_plus_small) simp_all
  then have "sint (of_nat (n + 1) + k :: u32) = int (n + 1 + unat k)"
    using assms(1,2) by (subst sint_small) simp_all
  moreover have "sint k = int (unat k)" using assms(1) by (intro sint_small) simp
  ultimately show ?thesis using assms(3) by simp
qed

lemma jmp_Next:
  assumes "bpf_jmp i s = Some (Next d s')" "validate_insn len n i" "strict_insn i" "n < 2 ^ 20"
  shows "0 \<le> d \<and> int n + d + 1 < int len \<and> s' = s"
proof (cases "code i = (BPF_JMP OR BPF_JA)")
  case True
  then have "d = sint (insn_k i)" "s' = s" using assms(1) by (auto simp: bpf_jmp_def)
  moreover have "\<not> sint (of_nat (n + 1) + insn_k i :: u32) \<ge> int len"
    using assms(2) True by (simp add: validate_insn_def BPF_CLASS_def BPF_OP_def Let_def)
  ultimately show ?thesis using ja_forward [of "insn_k i" n len] assms(3,4) True
    by (simp add: strict_insn_def)
next
  case False
  then have b: "d = uint (jt i) \<or> d = uint (jf i)" "s' = s"
    using assms(1) by (auto simp: bpf_jmp_def branch_def Let_def split: if_splits)
  have "BPF_CLASS (code i) = BPF_JMP" "BPF_OP (code i) \<noteq> BPF_JA"
    using False assms(1) by (auto simp: bpf_jmp_def BPF_CLASS_def BPF_OP_def Let_def split: if_splits)
  then have "n + 1 + unat (jt i) < len" "n + 1 + unat (jf i) < len"
    using assms(2) by (auto simp: validate_insn_def Let_def)
  then have "int n + 1 + uint (jt i) < int len" "int n + 1 + uint (jf i) < int len"
    by (simp_all flip: of_nat_less_iff [where 'a = int])
  with b show ?thesis by auto
qed

lemma validate_class_mem:
  "bpf_validate f = Inr True \<Longrightarrow> n < length f \<Longrightarrow> validate_insn (length f) n (f ! n)"
  by (auto simp: bpf_validate_def list_all_iff split: if_splits)

lemma validate_last:
  "bpf_validate f = Inr True \<Longrightarrow> f \<noteq> [] \<and> BPF_CLASS (code (f ! (length f - 1))) = BPF_RET"
  by (auto simp: bpf_validate_def split: if_splits)

lemma exec_Some:
  "bpf_exec p w i s = Next d s' \<Longrightarrow>
   bpf_ld_packet p w i s = Some (Next d s') \<or> bpf_ld_mem i s = Some (Next d s') \<or>
   bpf_jmp i s = Some (Next d s') \<or> bpf_alu i s = Some (Next d s')"
  "bpf_exec p w i s = Trap t \<Longrightarrow>
   bpf_ld_packet p w i s = Some (Trap t) \<or> bpf_ld_mem i s = Some (Trap t) \<or>
   bpf_jmp i s = Some (Trap t) \<or> bpf_alu i s = Some (Trap t)"
  by (auto simp: bpf_exec_def orelse_Some dest: ret_class split: option.splits)

lemma exec_progress:
  assumes "bpf_validate f = Inr True" "list_all strict_insn f" "n < length f" "length f < 2 ^ 20"
    "bpf_exec p w (f ! n) s = Next d s'"
  shows "0 \<le> d \<and> int n + d + 1 < int (length f) \<and> length (mem s') = length (mem s)"
proof -
  note v = validate_class_mem [OF assms(1,3)]
  have st: "strict_insn (f ! n)" using assms(2,3) by (simp add: list_all_length)
  have "n \<noteq> length f - 1"
    using assms(5) exec_ret_class [of "f ! n" p w s] validate_last [OF assms(1)] by auto
  then have "int n + 0 + 1 < int (length f)" using assms(3) by simp
  with exec_Some(1) [OF assms(5)] jmp_Next [OF _ v st] assms(3,4) show ?thesis
    by (auto dest: ld_packet_Next ld_mem_Next alu_Next)
qed

lemma exec_trap:
  assumes "bpf_validate f = Inr True" "list_all strict_insn f" "n < length f"
    "bpf_exec p w (f ! n) s = Trap t"
  shows "t = PacketTrap \<and> bpf_ld_packet p w (f ! n) s = Some (Trap t)"
proof -
  note v = validate_class_mem [OF assms(1,3)]
  have "strict_insn (f ! n)" using assms(2,3) by (simp add: list_all_length)
  with exec_Some(2) [OF assms(4)] ld_mem_no_trap [OF v] alu_no_trap [OF v] jmp_no_trap
  show ?thesis by (auto dest: ld_packet_Trap)
qed

text \<open>Forward jumps only: the program length is fuel enough.\<close>

lemma run_validated:
  assumes "bpf_validate f = Inr True" "list_all strict_insn f" "length f < 2 ^ 20"
  shows "n < length f \<Longrightarrow> length f \<le> n + fuel \<Longrightarrow>
    \<exists>r. bpf_run fuel f p w (int n) s = Some r \<and>
      (r = Inl PacketTrap \<and> (\<exists>i\<in>set f. \<exists>s'. bpf_ld_packet p w i s' = Some (Trap PacketTrap)) \<or>
       (\<exists>v. r = Inr v))"
proof (induction fuel arbitrary: n s)
  case (Suc fuel)
  show ?case
  proof (cases "bpf_exec p w (f ! n) s")
    case (Stop v)
    with Suc.prems show ?thesis by simp
  next
    case (Trap t)
    from exec_trap [OF assms(1,2) Suc.prems(1) this] Trap Suc.prems show ?thesis
      by (auto intro: nth_mem)
  next
    case (Next d s')
    note pr = exec_progress [OF assms(1,2) Suc.prems(1) assms(3) Next]
    then have pc: "int n + d + 1 = int (nat (int n + d + 1))" by simp
    have "nat (int n + d + 1) < length f" "length f \<le> nat (int n + d + 1) + fuel"
      using pr Suc.prems(2) by auto
    from Suc.IH [OF this, of s'] Next Suc.prems(1) pc show ?thesis by simp
  qed
qed simp

section \<open>Packet loads\<close>

lemma byte_at_nat [simp]: "byte_at bs (int n) = (if n < length bs then Some (bs ! n) else None)"
  by (simp add: byte_at_def)

lemma byte_at_nat_plus [simp]:
  "byte_at bs (int n + 1) = (if n + 1 < length bs then Some (bs ! (n + 1)) else None)"
  "byte_at bs (int n + numeral m) =
     (if n + numeral m < length bs then Some (bs ! (n + numeral m)) else None)"
  using byte_at_nat [of bs "n + 1"] byte_at_nat [of bs "n + numeral m"] by (simp_all add: ac_simps)

definition word_at :: "u8 list \<Rightarrow> nat \<Rightarrow> u32" where
  "word_at bs n = be32 (bs ! n) (bs ! (n + 1)) (bs ! (n + 2)) (bs ! (n + 3))"

definition half_at :: "u8 list \<Rightarrow> nat \<Rightarrow> u32" where
  "half_at bs n = be16 (bs ! n) (bs ! (n + 1))"

lemma extract_nat:
  "EXTRACT_LONG bs (int n) = (if n + 4 \<le> length bs then Some (word_at bs n) else None)"
  "EXTRACT_SHORT bs (int n) = (if n + 2 \<le> length bs then Some (half_at bs n) else None)"
  by (auto simp: EXTRACT_LONG_def EXTRACT_SHORT_def word_at_def half_at_def)

definition buf_ok :: "u8 list \<Rightarrow> bool" where
  "buf_ok bs \<longleftrightarrow> bs \<noteq> [] \<and> length bs < 2 ^ 31"

lemma buflen_Buf: "buf_ok bs \<Longrightarrow> unat (buflen (Buf bs)) = length bs"
  by (simp add: buf_ok_def buflen_def unat_of_nat)

lemma buflen_nonzero: "buf_ok bs \<Longrightarrow> buflen (Buf bs) \<noteq> 0"
  using buflen_Buf [of bs] by (auto simp: buf_ok_def)

lemma offset_plus: "unat (k :: u32) < 2 ^ 31 \<Longrightarrow> unat (k + 4) = unat k + 4"
  "unat (k :: u32) < 2 ^ 31 \<Longrightarrow> unat (k + 2) = unat k + 2"
  by (subst unat_plus_small; simp)+

lemma ld_word_Buf:
  assumes "buf_ok bs" "unat k < 2 ^ 31"
  shows "ld_word (Buf bs) k =
    (if unat k + 4 \<le> length bs then Loaded (word_at bs (unat k)) else Short)"
  using buflen_Buf [OF assms(1)] buflen_nonzero [OF assms(1)] offset_plus(1) [OF assms(2)]
    sint_small [OF assms(2)]
  by (simp add: ld_word_def word_less_nat_alt extract_nat loaded_def del: of_nat_unat)

lemma ld_half_Buf:
  assumes "buf_ok bs" "unat k < 2 ^ 31"
  shows "ld_half (Buf bs) k =
    (if unat k + 2 \<le> length bs then Loaded (half_at bs (unat k)) else Short)"
  using buflen_Buf [OF assms(1)] buflen_nonzero [OF assms(1)] offset_plus(2) [OF assms(2)]
    sint_small [OF assms(2)]
  by (simp add: ld_half_def word_less_nat_alt extract_nat loaded_def del: of_nat_unat)

lemma ld_byte_Buf:
  assumes "buf_ok bs" "unat k < 2 ^ 31"
  shows "ld_byte conv (Buf bs) k =
    (if unat k < length bs then Loaded (ucast (bs ! unat k)) else Short)"
  using buflen_Buf [OF assms(1)] buflen_nonzero [OF assms(1)] sint_small [OF assms(2)]
  by (simp add: ld_byte_def word_le_nat_alt loaded_def del: of_nat_unat)

lemmas ld_Buf = ld_word_Buf ld_half_Buf ld_byte_Buf

text \<open>Loads at offsets fixed in the program, not reached through the wrap-around of \<^verbatim>\<open>k + sizeof\<close>.\<close>

definition static_insn :: "bpf_insn \<Rightarrow> bool" where
  "static_insn i \<longleftrightarrow>
     code i \<notin> {BPF_LD OR BPF_W OR BPF_IND, BPF_LD OR BPF_H OR BPF_IND, BPF_LD OR BPF_B OR BPF_IND} \<and>
     unat (insn_k i) < 2 ^ 31"

lemma ld_packet_static:
  assumes "static_insn i" "buf_ok bs"
  shows "bpf_ld_packet (Buf bs) w i s \<noteq> Some (Trap t)"
  using assms
  by (auto simp: bpf_ld_packet_def static_insn_def Let_def ld_Buf on_load_def split: if_splits)

text \<open>The mbuf that holds an offset.\<close>

lemma m_find_None: "m_find ms (int n) = None \<longleftrightarrow> length (concat ms) \<le> n"
proof (induction ms arbitrary: n)
  case (Cons m ms)
  show ?case
  proof (cases "length m \<le> n")
    case True
    with Cons.IH [of "n - length m"] show ?thesis by auto
  qed simp
qed simp

lemma m_find_Some:
  "m_find ms (int n) = Some (m, j, rest) \<Longrightarrow>
   0 \<le> j \<and> j < int (length m) \<and> (\<forall>d. nat j + d < length m \<longrightarrow>
     n + d < length (concat ms) \<and> concat ms ! (n + d) = m ! (nat j + d))"
proof (induction ms arbitrary: n)
  case (Cons m' ms)
  show ?case
  proof (cases "length m' \<le> n")
    case True
    with Cons.prems have "m_find ms (int (n - length m')) = Some (m, j, rest)" by simp
    note IH = Cons.IH [OF this]
    have "n + d < length (concat (m' # ms)) \<and> concat (m' # ms) ! (n + d) = m ! (nat j + d)"
      if "nat j + d < length m" for d
    proof -
      have "n - length m' + d < length (concat ms)" "concat ms ! (n - length m' + d) = m ! (nat j + d)"
        using IH that by blast+
      with True show ?thesis by (simp add: nth_append)
    qed
    with IH show ?thesis by blast
  next
    case False
    with Cons.prems have "m = m'" "j = int n" by auto
    with False show ?thesis by (auto simp: nth_append)
  qed
qed simp

lemma ld_Chain:
  assumes "ms \<noteq> []" "unat k < 2 ^ 31"
  shows "ld_byte conv (Chain ms) k =
      (case m_byte ms (int (unat k)) of None \<Rightarrow> Short | Some r \<Rightarrow> loaded (map_option conv r))"
    "ld_word (Chain ms) k = m_xword ms (int (unat k))"
proof -
  have "k + 4 > 0" using offset_plus(1) [OF assms(2)] by (simp add: word_less_nat_alt)
  then show "ld_word (Chain ms) k = m_xword ms (int (unat k))"
    using sint_small [OF assms(2)] by (simp add: ld_word_def buflen_def del: of_nat_unat)
  show "ld_byte conv (Chain ms) k =
      (case m_byte ms (int (unat k)) of None \<Rightarrow> Short | Some r \<Rightarrow> loaded (map_option conv r))"
    using assms(1) sint_small [OF assms(2)] by (simp add: ld_byte_def buflen_def del: of_nat_unat)
qed

lemma chain_byte:
  assumes "buf_ok (concat ms)" "unat k < 2 ^ 31"
  shows "ld_byte ucast (Chain ms) k = ld_byte ucast (Buf (concat ms)) k"
proof -
  have ne: "ms \<noteq> []" using assms(1) by (auto simp: buf_ok_def)
  show ?thesis
  proof (cases "m_find ms (int (unat k))")
    case None
    then have "length (concat ms) \<le> unat k" using m_find_None by blast
    with None show ?thesis
      by (simp only: ld_Chain [OF ne assms(2)] ld_byte_Buf [OF assms] m_byte_def) simp
  next
    case (Some r)
    then obtain m j rest where r: "m_find ms (int (unat k)) = Some (m, j, rest)" by (cases r) auto
    note f = m_find_Some [OF r]
    then have "nat j + 0 < length m" by auto
    with f have "unat k < length (concat ms)" "concat ms ! unat k = m ! nat j" by fastforce+
    with r f show ?thesis
      by (simp only: ld_Chain [OF ne assms(2)] ld_byte_Buf [OF assms] m_byte_def)
        (simp add: byte_at_def loaded_def)
  qed
qed

lemma m_find_mem: "m_find ms k = Some (m, j, rest) \<Longrightarrow> m \<in> set ms \<and> j < int (length m)"
  by (induction ms k rule: m_find.induct) (auto split: if_splits)

lemma length_concat_ge: "m \<in> set ms \<Longrightarrow> length m \<le> length (concat ms)"
  by (induction ms) auto

lemma chain_word:
  assumes "buf_ok (concat ms)" "unat k < 2 ^ 31"
    and "m_find ms (int (unat k)) = Some (m, j, rest)" "nat j + 4 \<le> length m"
  shows "ld_word (Chain ms) k = ld_word (Buf (concat ms)) k"
proof -
  have ne: "ms \<noteq> []" using assms(1) by (auto simp: buf_ok_def)
  note f = m_find_Some [OF assms(3)]
  then have d: "unat k + d < length (concat ms) \<and> concat ms ! (unat k + d) = m ! (nat j + d)"
    if "d < 4" for d using that assms(4) by auto
  have "word_at (concat ms) (unat k) = word_at m (nat j)" "unat k + 4 \<le> length (concat ms)"
    using d [of 0] d [of 1] d [of 2] d [of 3] by (auto simp: word_at_def)
  moreover have "EXTRACT_LONG m j = Some (word_at m (nat j))"
    using extract_nat(1) [of m "nat j"] f assms(4) by simp
  moreover have "length m < 2 ^ 31"
    using length_concat_ge [of m ms] m_find_mem [OF assms(3)] assms(1) by (simp add: buf_ok_def)
  then have "4 \<le> s32 (int (length m) - j)" using f assms(4) by (subst s32_fits) auto
  ultimately show ?thesis
    using ne assms(3) by (simp only: ld_Chain [OF ne assms(2)] ld_word_Buf [OF assms(1,2)] m_xword_def)
      (simp add: loaded_def)
qed

lemma straddle_out_of_range:
  assumes "0 < j" "j + 4 > int (length m)"
  shows "byte_at m (j + (j + 2)) = None" "int (length m) - j = 1 \<Longrightarrow> byte_at m (j + j) = None"
    "int (length m) - j = 2 \<Longrightarrow> byte_at m (j + (j + 1)) = None"
  using assms by (auto simp: byte_at_def)

lemma first_insn_traps:
  "bpf_exec p w i s = Trap t \<Longrightarrow> bpf_filter 2 (Some (i # f)) p w s = Some (Inl t)"
  by (simp add: bpf_filter_def numeral_2_eq_2)

section \<open>Properties\<close>

text \<open>
  C14: a program of at most 512 instructions that the validator accepts, in which unconditional
  jumps go forward and index-register scratch accesses are in range (neither of which
  the validator checks), ends within as many turns as it has instructions: it
  returns a value, or it is stopped by a load outside the packet.  It never
  leaves the program, never leaves the scratch memory and never divides by zero.
\<close>

theorem bpf_filter_returns:
  assumes "bpf_validate f = Inr True" "list_all strict_insn f" "length f \<le> 512"
  shows "\<exists>r. bpf_filter (length f) (Some f) p w s = Some r \<and>
     (r = Inl PacketTrap \<or> (\<exists>v. r = Inr v))"
  using run_validated [of f 0 "length f" p w s] validate_last [OF assms(1)] assms
  by (auto simp: bpf_filter_def)

definition accept_ip :: "bpf_insn list" where
  "accept_ip =
     [\<lparr>code = BPF_LD OR BPF_H OR BPF_ABS, jt = 0, jf = 0, insn_k = 12\<rparr>,
      \<lparr>code = BPF_JMP OR BPF_JEQ OR BPF_K, jt = 0, jf = 1, insn_k = 0x800\<rparr>,
      \<lparr>code = BPF_RET OR BPF_K, jt = 0, jf = 0, insn_k = 96\<rparr>,
      \<lparr>code = BPF_RET OR BPF_K, jt = 0, jf = 0, insn_k = 0\<rparr>]"

lemma accept_ip_valid:
  "bpf_validate accept_ip = Inr True" "list_all strict_insn accept_ip" "list_all static_insn accept_ip"
  by (simp_all add: accept_ip_def bpf_validate_def validate_insn_def BPF_CLASS_def BPF_OP_def
        strict_insn_def static_insn_def mem_ok_def Let_def upt_rec)

lemma accept_ip_length: "length accept_ip = 4"
  by (simp add: accept_ip_def)

theorem bpf_filter_returns_witness:
  "\<exists>r. bpf_filter 4 (Some accept_ip) (Chain [[1, 2], [3]]) 3 \<lparr>regA = 7, regX = 7, mem = replicate 16 0\<rparr> = Some r \<and>
     (r = Inl PacketTrap \<or> (\<exists>v. r = Inr v))"
  using bpf_filter_returns [OF accept_ip_valid(1,2), of "Chain [[1, 2], [3]]" 3
      "\<lparr>regA = 7, regX = 7, mem = replicate 16 0\<rparr>"]
  by (simp add: accept_ip_length)

text \<open>
  C25: if moreover the program loads packet data at fixed offsets below \<open>2^31\<close> only, then on every
  non-empty packet in one contiguous buffer the filter returns a snapshot length
  without any trap: a load behind the end of the packet returns 0.  For packets in chains of
  mbufs this does not hold; \<open>m_xword_straddle_traps\<close> below has the reason.
\<close>

theorem bpf_filter_static_safe:
  assumes "bpf_validate f = Inr True" "list_all strict_insn f" "length f \<le> 512"
    "list_all static_insn f" "buf_ok bs"
  shows "\<exists>v. bpf_filter (length f) (Some f) (Buf bs) w s = Some (Inr v)"
  using run_validated [of f 0 "length f" "Buf bs" w s] validate_last [OF assms(1)] assms
    ld_packet_static [OF _ assms(5)]
  by (auto simp: bpf_filter_def list_all_iff)

theorem bpf_filter_static_safe_witness:
  "\<exists>v. bpf_filter 4 (Some accept_ip) (Buf [1, 2, 3]) 3 \<lparr>regA = 7, regX = 7, mem = replicate 16 0\<rparr> = Some (Inr v)"
proof -
  have "buf_ok [1, 2, 3]" by (simp add: buf_ok_def)
  from bpf_filter_static_safe [OF accept_ip_valid(1,2) _ accept_ip_valid(3) this] show ?thesis
    by (simp add: accept_ip_length)
qed

text \<open>
  A load through an mbuf chain gives what the same load gives on the
  packet stored contiguously: always for bytes, and for words that lie in one
  mbuf.
\<close>

theorem bpf_chain_load_agrees:
  assumes "buf_ok (concat ms)" "unat k < 2 ^ 31"
  shows "ld_byte ucast (Chain ms) k = ld_byte ucast (Buf (concat ms)) k \<and>
    (\<forall>m j rest. m_find ms (int (unat k)) = Some (m, j, rest) \<longrightarrow> nat j + 4 \<le> length m \<longrightarrow>
       ld_word (Chain ms) k = ld_word (Buf (concat ms)) k)"
  using chain_byte [OF assms] chain_word [OF assms] by blast

theorem bpf_chain_load_agrees_witness:
  "ld_byte ucast (Chain [[1, 2], [3, 4, 5, 6]]) 3 = Loaded 4 \<and>
   ld_word (Chain [[1, 2], [3, 4, 5, 6]]) 2 = ld_word (Buf [1, 2, 3, 4, 5, 6]) 2"
proof -
  have b: "buf_ok (concat [[1, 2], [3, 4, 5, 6]])" by (simp add: buf_ok_def)
  have "m_find [[1, 2], [3, 4, 5, 6 :: u8]] 2 = Some ([3, 4, 5, 6], 0, [])" by simp
  with bpf_chain_load_agrees [OF b, of 2] bpf_chain_load_agrees [OF b, of 3] ld_byte_Buf [OF b, of 3]
  show ?thesis by simp
qed

text \<open>
  A word that begins inside one mbuf and ends in the next is never read
  correctly: the doubled offset of \<^verbatim>\<open>m_xword\<close> leaves the data of the first mbuf.
\<close>

theorem m_xword_straddle_traps:
  assumes "m_find ms k = Some (m, j, m0 # rest)" "0 < j" "j + 4 > int (length m)"
    "int (length m0) + int (length m) - j \<ge> 4" "length m0 + length m < 2 ^ 31"
  shows "m_xword ms k = LoadTrap"
proof -
  have j: "j < int (length m)" using m_find_mem [OF assms(1)] by simp
  then have s: "s32 (int (length m) - j) = int (length m) - j" "s32 (int (length m0) + int (length m) - j) = int (length m0) + int (length m) - j"
    using assms(2,5) by (auto intro!: s32_fits)
  have "ms \<noteq> []" using assms(1) by auto
  moreover have "\<not> int (length m) - j \<ge> 4" "\<not> int (length m0) + int (length m) - j < 4"
    using assms(3,4) by auto
  ultimately show ?thesis using assms(1) straddle_out_of_range [OF assms(2,3)]
    by (auto simp: m_xword_def Let_def s split: option.splits)
qed

theorem m_xword_straddle_traps_witness:
  "m_xword [[1, 2, 3, 4, 5], [6, 7, 8]] 3 = LoadTrap \<and>
   ld_word (Buf [1, 2, 3, 4, 5, 6, 7, 8]) 3 = Loaded (be32 4 5 6 7)"
proof -
  have "m_find [[1, 2, 3, 4, 5], [6, 7, 8 :: u8]] 3 = Some ([1, 2, 3, 4, 5], 3, [[6, 7, 8]])" by simp
  from m_xword_straddle_traps [OF this]
  have "m_xword [[1, 2, 3, 4, 5], [6, 7, 8]] 3 = LoadTrap" by simp
  moreover have "buf_ok [1, 2, 3, 4, 5, 6, 7, 8]" by (simp add: buf_ok_def)
  from ld_word_Buf [OF this, of 3]
  have "ld_word (Buf [1, 2, 3, 4, 5, 6, 7, 8]) 3 = Loaded (be32 4 5 6 7)"
    by (simp add: word_at_def)
  ultimately show ?thesis by blast
qed

text \<open>
  The validator does not enforce what its comment promises, that every
  jump is forward.  It accepts a two-instruction program whose first
  instruction jumps to itself, and the kernel interpreter never returns from it.
\<close>

theorem bpf_validate_accepts_endless_loop:
  "\<exists>f. bpf_validate f = Inr True \<and> (\<forall>fuel p w s. bpf_filter fuel (Some f) p w s = None)"
proof -
  let ?f = "[\<lparr>code = BPF_JMP OR BPF_JA, jt = 0, jf = 0, insn_k = - 1\<rparr>,
             \<lparr>code = BPF_RET OR BPF_K, jt = 0, jf = 0, insn_k = 0\<rparr>]"
  have "bpf_validate ?f = Inr True"
    by (simp add: bpf_validate_def validate_insn_def BPF_CLASS_def BPF_OP_def Let_def upt_rec)
  moreover have "bpf_exec p w (?f ! 0) s = Next (- 1) s" for p w s
    by (simp add: bpf_exec_def bpf_ret_def bpf_ld_packet_def bpf_ld_mem_def bpf_jmp_def orelse_def Let_def)
  then have "bpf_run fuel ?f p w 0 s = None" for fuel p w s
    by (induction fuel) simp_all
  ultimately show ?thesis by (auto simp: bpf_filter_def)
qed

text \<open>
  Nor does it keep accesses in bounds.  It accepts a program that stores the
  index register outside the scratch memory, and one whose packet offset
  makes \<^verbatim>\<open>k + sizeof(long)\<close> wrap around the length check and reads in front of
  the packet.
\<close>

theorem bpf_validate_accepts_wild_access:
  "\<exists>f g. bpf_validate f = Inr True \<and> bpf_validate g = Inr True \<and>
     (\<forall>p w s. bpf_filter 2 (Some f) p w s = Some (Inl ScratchTrap)) \<and>
     (\<forall>bs w s. 3 \<le> length bs \<longrightarrow> length bs < 2 ^ 31 \<longrightarrow>
        bpf_filter 2 (Some g) (Buf bs) w s = Some (Inl PacketTrap))"
proof -
  let ?f = "[\<lparr>code = BPF_STX, jt = 0, jf = 0, insn_k = 100\<rparr>,
             \<lparr>code = BPF_RET OR BPF_K, jt = 0, jf = 0, insn_k = 0\<rparr>]"
  let ?g = "[\<lparr>code = BPF_LD OR BPF_W OR BPF_ABS, jt = 0, jf = 0, insn_k = - 1\<rparr>,
             \<lparr>code = BPF_RET OR BPF_K, jt = 0, jf = 0, insn_k = 0\<rparr>]"
  have v: "bpf_validate ?f = Inr True" "bpf_validate ?g = Inr True"
    by (simp_all add: bpf_validate_def validate_insn_def BPF_CLASS_def BPF_OP_def Let_def upt_rec)
  have f: "bpf_filter 2 (Some ?f) p w s = Some (Inl ScratchTrap)" for p w s
    by (rule first_insn_traps)
      (simp add: bpf_exec_def bpf_ret_def bpf_ld_packet_def bpf_ld_mem_def mem_ok_def orelse_def)
  have g: "bpf_filter 2 (Some ?g) (Buf bs) w s = Some (Inl PacketTrap)"
    if "3 \<le> length bs" "length bs < 2 ^ 31" for bs w s
  proof -
    have "unat (buflen (Buf bs)) = length bs" using that by (intro buflen_Buf) (auto simp: buf_ok_def)
    then have "\<not> buflen (Buf bs) < 3" using that(1) by (simp add: word_less_nat_alt)
    moreover have "EXTRACT_LONG bs (- 1) = None" by (simp add: EXTRACT_LONG_def byte_at_def)
    ultimately have "ld_word (Buf bs) (- 1) = LoadTrap" by (simp add: ld_word_def loaded_def)
    then show ?thesis
      by (intro first_insn_traps)
        (simp add: bpf_exec_def bpf_ret_def bpf_ld_packet_def on_load_def orelse_def)
  qed
  from v f g show ?thesis by blast
qed

theorem bpf_validate_accepts_wild_access_witness:
  "\<exists>g. bpf_validate g = Inr True \<and>
     bpf_filter 2 (Some g) (Buf [1, 2, 3]) 3 \<lparr>regA = 0, regX = 0, mem = replicate 16 0\<rparr> = Some (Inl PacketTrap)"
proof -
  obtain g where g: "bpf_validate g = Inr True"
    "\<forall>bs w s. 3 \<le> length bs \<longrightarrow> length bs < 2 ^ 31 \<longrightarrow>
       bpf_filter 2 (Some g) (Buf bs) w s = Some (Inl PacketTrap)"
    using bpf_validate_accepts_wild_access by blast
  then have "bpf_filter 2 (Some g) (Buf [1, 2, 3]) 3 \<lparr>regA = 0, regX = 0, mem = replicate 16 0\<rparr>
      = Some (Inl PacketTrap)" by simp
  with g(1) show ?thesis by blast
qed

end
