(* ===== verification/Ring.thy ===== *)
theory Ring
  imports Prelude
begin

text \<open>
  Terminal ring buffers (\<^verbatim>\<open>src/sys/kern/tty_ring.c\<close> and the macros of
  \<^verbatim>\<open>src/sys/sys/tty.h\<close>).  The pointers \<^verbatim>\<open>rb_hd\<close> and \<^verbatim>\<open>rb_tl\<close> into \<^verbatim>\<open>rb_buf\<close> are
  kept as offsets from its start; a pointer one past the end is offset \<open>RBSZ\<close>.
\<close>

definition RBSZ :: nat where "RBSZ = 1024"

record ringb =
  rb_hd :: nat
  rb_tl :: nat
  rb_buf :: "u8 list"

section \<open>Macros\<close>

definition RB_SUCC :: "nat \<Rightarrow> nat" where
  "RB_SUCC p = (if p \<ge> RBSZ - 1 then 0 else p + 1)"

definition RB_ROLLOVER :: "nat \<Rightarrow> nat" where
  "RB_ROLLOVER p = (if p > RBSZ - 1 then 0 else p)"

definition RB_PRED :: "nat \<Rightarrow> nat" where
  "RB_PRED p = (if p \<le> 0 then RBSZ - 1 else p - 1)"

definition RB_LEN :: "ringb \<Rightarrow> nat" where
  "RB_LEN rp = (if rb_hd rp \<le> rb_tl rp then rb_tl rp - rb_hd rp else RBSZ - (rb_hd rp - rb_tl rp))"

definition RB_CONTIGPUT :: "ringb \<Rightarrow> nat" where
  "RB_CONTIGPUT rp =
     (if RB_PRED (rb_hd rp) < rb_tl rp then RBSZ - rb_tl rp else RB_PRED (rb_hd rp) - rb_tl rp)"

definition RB_CONTIGGET :: "ringb \<Rightarrow> nat" where
  "RB_CONTIGGET rp = (if rb_hd rp \<le> rb_tl rp then rb_tl rp - rb_hd rp else RBSZ - rb_hd rp)"

section \<open>Operations\<close>

text \<open>The integer results are those of the C functions: \<open>-1\<close> for full or empty.\<close>

definition putc :: "u8 \<Rightarrow> ringb \<Rightarrow> int \<times> ringb" where
  "putc c rbp =
     (let nxtp = RB_SUCC (rb_tl rbp) in
      if nxtp = rb_hd rbp then (- 1, rbp)
      else (0, rbp\<lparr>rb_buf := (rb_buf rbp)[rb_tl rbp := c], rb_tl := nxtp\<rparr>))"

definition getc :: "ringb \<Rightarrow> int \<times> ringb" where
  "getc rbp =
     (if rb_hd rbp = rb_tl rbp then (- 1, rbp)
      else (uint (rb_buf rbp ! rb_hd rbp), rbp\<lparr>rb_hd := RB_SUCC (rb_hd rbp)\<rparr>))"

text \<open>\<^verbatim>\<open>nextc\<close> advances the caller's cursor; the character is a signed \<^verbatim>\<open>char\<close>.\<close>

definition nextc :: "nat \<Rightarrow> ringb \<Rightarrow> int \<times> nat" where
  "nextc cp rbp =
     (if cp = rb_tl rbp then (0, cp) else (sint (rb_buf rbp ! cp), RB_SUCC cp))"

definition ungetc :: "u8 \<Rightarrow> ringb \<Rightarrow> int \<times> ringb" where
  "ungetc c rbp =
     (let backp = RB_PRED (rb_hd rbp) in
      if backp = rb_tl rbp then (- 1, rbp)
      else (0, rbp\<lparr>rb_hd := backp, rb_buf := (rb_buf rbp)[backp := c]\<rparr>))"

definition unputc :: "ringb \<Rightarrow> int \<times> ringb" where
  "unputc rbp =
     (if rb_hd rbp = rb_tl rbp then (- 1, rbp)
      else (let backp = RB_PRED (rb_tl rbp)
            in (uint (rb_buf rbp ! backp), rbp\<lparr>rb_tl := backp\<rparr>)))"

definition initrb :: "ringb \<Rightarrow> ringb" where
  "initrb rbp = rbp\<lparr>rb_hd := 0, rb_tl := 0\<rparr>"

text \<open>\<open>bcopy src buf off n\<close>: \<open>n\<close> bytes of \<open>src\<close> into \<open>buf\<close> at \<open>off\<close>.\<close>

definition bcopy :: "u8 list \<Rightarrow> u8 list \<Rightarrow> nat \<Rightarrow> nat \<Rightarrow> u8 list" where
  "bcopy src buf off n = take off buf @ take n src @ drop (off + n) buf"

definition rb_write :: "ringb \<Rightarrow> u8 list \<Rightarrow> nat \<Rightarrow> nat \<times> ringb" where
  "rb_write to buf nfrom =
     (let ntoright = RB_CONTIGPUT to in
      if nfrom < ntoright then
        (nfrom, to\<lparr>rb_buf := bcopy buf (rb_buf to) (rb_tl to) nfrom, rb_tl := rb_tl to + nfrom\<rparr>)
      else
        (let b1 = bcopy buf (rb_buf to) (rb_tl to) ntoright;
             left = nfrom - ntoright;
             ntoleft = rb_hd to;
             n = (if left > ntoleft then ntoleft else left)
         in (ntoright + n, to\<lparr>rb_buf := bcopy (drop ntoright buf) b1 0 n, rb_tl := n\<rparr>)))"

text \<open>\<^verbatim>\<open>catb(from, to)\<close> on two distinct rings: both are returned.\<close>

definition catb :: "ringb \<Rightarrow> ringb \<Rightarrow> ringb \<times> ringb" where
  "catb from to =
     (let nfromright = RB_CONTIGGET from;
          to1 = snd (rb_write to (drop (rb_hd from) (rb_buf from)) nfromright);
          from1 = from\<lparr>rb_hd := RB_ROLLOVER (rb_hd from + nfromright)\<rparr>;
          nfromleft = RB_CONTIGGET from1;
          to2 = snd (rb_write to1 (drop (rb_hd from1) (rb_buf from1)) nfromleft)
      in (from1\<lparr>rb_hd := rb_hd from1 + nfromleft\<rparr>, to2))"

section \<open>Abstraction\<close>

text \<open>The queue of characters a ring holds, oldest first, and the ring invariant.\<close>

definition rb_inv :: "ringb \<Rightarrow> bool" where
  "rb_inv r \<longleftrightarrow> length (rb_buf r) = RBSZ \<and> rb_hd r < RBSZ \<and> rb_tl r < RBSZ"

text \<open>The offset of the \<open>i\<close>th character after offset \<open>h\<close>, around the end of the buffer.\<close>

definition rb_ix :: "nat \<Rightarrow> nat \<Rightarrow> nat" where
  "rb_ix h i = (if h + i < RBSZ then h + i else h + i - RBSZ)"

definition contents :: "ringb \<Rightarrow> u8 list" where
  "contents r = map (\<lambda>i. rb_buf r ! rb_ix (rb_hd r) i) [0..<RB_LEN r]"

section \<open>Arithmetic of the ring\<close>

lemma RBSZ_pos: "1 < RBSZ"
  by (simp add: RBSZ_def)

lemmas ring_arith = RB_SUCC_def RB_PRED_def RB_ROLLOVER_def RB_LEN_def RB_CONTIGPUT_def
  RB_CONTIGGET_def rb_ix_def

lemma length_contents [simp]: "length (contents r) = RB_LEN r"
  by (simp add: contents_def)

lemma RB_LEN_bound: "rb_inv r \<Longrightarrow> RB_LEN r < RBSZ"
  by (auto simp: rb_inv_def RB_LEN_def)

lemma nth_contents: "i < RB_LEN r \<Longrightarrow> contents r ! i = rb_buf r ! rb_ix (rb_hd r) i"
  by (simp add: contents_def)

lemma tail_offset: "rb_inv r \<Longrightarrow> rb_tl r = rb_ix (rb_hd r) (RB_LEN r)"
  by (auto simp: rb_inv_def ring_arith)

lemma rb_ix_bound: "rb_inv r \<Longrightarrow> i < RBSZ \<Longrightarrow> rb_ix (rb_hd r) i < RBSZ"
  by (auto simp: rb_inv_def rb_ix_def)

lemma rb_ix_inj: "h < RBSZ \<Longrightarrow> i < RBSZ \<Longrightarrow> j < RBSZ \<Longrightarrow> rb_ix h i = rb_ix h j \<longleftrightarrow> i = j"
  by (auto simp: rb_ix_def)

lemma contents_append:
  assumes "rb_hd r' = rb_hd r" "RB_LEN r' = RB_LEN r + length cs"
    and "\<And>i. i < RB_LEN r \<Longrightarrow> rb_buf r' ! rb_ix (rb_hd r) i = rb_buf r ! rb_ix (rb_hd r) i"
    and "\<And>j. j < length cs \<Longrightarrow> rb_buf r' ! rb_ix (rb_hd r) (RB_LEN r + j) = cs ! j"
  shows "contents r' = contents r @ cs"
proof (rule nth_equalityI)
  show "length (contents r') = length (contents r @ cs)" using assms(2) by simp
  fix i assume "i < length (contents r')"
  then have i: "i < RB_LEN r + length cs" using assms(2) by simp
  show "contents r' ! i = (contents r @ cs) ! i"
    using i assms(1-3) assms(4) [of "i - RB_LEN r"]
    by (cases "i < RB_LEN r") (simp_all add: nth_append nth_contents)
qed

section \<open>Single characters\<close>

lemma putc_full: "rb_inv r \<Longrightarrow> RB_LEN r = RBSZ - 1 \<Longrightarrow> putc c r = (- 1, r)"
  by (auto simp: putc_def rb_inv_def ring_arith Let_def split: if_splits)

lemma putc_room:
  assumes "rb_inv r" "RB_LEN r < RBSZ - 1"
  shows "\<exists>r'. putc c r = (0, r') \<and> rb_inv r' \<and> contents r' = contents r @ [c]"
proof -
  let ?r = "r\<lparr>rb_buf := (rb_buf r)[rb_tl r := c], rb_tl := RB_SUCC (rb_tl r)\<rparr>"
  have ne: "RB_SUCC (rb_tl r) \<noteq> rb_hd r" and len: "RB_LEN ?r = RB_LEN r + 1"
    using assms by (auto simp: rb_inv_def ring_arith split: if_splits)
  have inv: "rb_inv ?r" using assms(1) by (auto simp: rb_inv_def RB_SUCC_def)
  have "contents ?r = contents r @ [c]"
  proof (rule contents_append)
    fix i assume "i < RB_LEN r"
    then have "rb_ix (rb_hd r) i \<noteq> rb_tl r"
      using assms RB_LEN_bound [OF assms(1)] rb_ix_inj [of "rb_hd r" i "RB_LEN r"]
        tail_offset [OF assms(1)] by (auto simp: rb_inv_def)
    then show "rb_buf ?r ! rb_ix (rb_hd r) i = rb_buf r ! rb_ix (rb_hd r) i" by simp
  next
    fix j assume "j < length [c]"
    then show "rb_buf ?r ! rb_ix (rb_hd r) (RB_LEN r + j) = [c] ! j"
      using assms(1) tail_offset [OF assms(1)] by (simp add: rb_inv_def)
  qed (simp_all add: len)
  with ne inv show ?thesis by (simp add: putc_def Let_def)
qed

lemma contents_Cons:
  assumes "rb_inv r" "rb_hd r \<noteq> rb_tl r"
  shows "contents r = rb_buf r ! rb_hd r # contents (r\<lparr>rb_hd := RB_SUCC (rb_hd r)\<rparr>)"
proof -
  let ?r = "r\<lparr>rb_hd := RB_SUCC (rb_hd r)\<rparr>"
  have len: "RB_LEN r = Suc (RB_LEN ?r)" using assms by (auto simp: rb_inv_def ring_arith)
  show ?thesis
  proof (rule nth_equalityI)
    fix i assume i: "i < length (contents r)"
    show "contents r ! i = (rb_buf r ! rb_hd r # contents ?r) ! i"
    proof (cases i)
      case 0
      with i assms show ?thesis by (simp add: nth_contents rb_ix_def rb_inv_def)
    next
      case (Suc j)
      then have "rb_ix (rb_hd r) i = rb_ix (RB_SUCC (rb_hd r)) j"
        using i assms RB_LEN_bound [OF assms(1)] by (auto simp: rb_ix_def RB_SUCC_def rb_inv_def)
      with Suc i len show ?thesis by (simp add: nth_contents)
    qed
  qed (simp add: len)
qed

lemma contents_snoc:
  assumes "rb_inv r" "rb_hd r \<noteq> rb_tl r"
  shows "contents r = contents (r\<lparr>rb_tl := RB_PRED (rb_tl r)\<rparr>) @ [rb_buf r ! RB_PRED (rb_tl r)]"
proof -
  let ?r = "r\<lparr>rb_tl := RB_PRED (rb_tl r)\<rparr>"
  have len: "RB_LEN r = Suc (RB_LEN ?r)" using assms by (auto simp: rb_inv_def ring_arith)
  have "RB_PRED (rb_tl r) = rb_ix (rb_hd r) (RB_LEN ?r)"
    using assms by (auto simp: rb_inv_def ring_arith)
  then show ?thesis by (simp add: contents_def len)
qed

lemma getc_empty: "contents r = [] \<Longrightarrow> rb_inv r \<Longrightarrow> getc r = (- 1, r)"
  by (auto simp: getc_def contents_def rb_inv_def RB_LEN_def split: if_splits)

lemma getc_nonempty:
  assumes "rb_inv r" "contents r = c # cs"
  shows "\<exists>r'. getc r = (uint c, r') \<and> rb_inv r' \<and> contents r' = cs"
proof -
  have "rb_hd r \<noteq> rb_tl r" using assms(2) by (auto simp: contents_def RB_LEN_def)
  with contents_Cons [OF assms(1) this] assms show ?thesis
    by (auto simp: getc_def rb_inv_def RB_SUCC_def)
qed

lemma unputc_empty: "contents r = [] \<Longrightarrow> rb_inv r \<Longrightarrow> unputc r = (- 1, r)"
  by (auto simp: unputc_def contents_def rb_inv_def RB_LEN_def split: if_splits)

lemma unputc_nonempty:
  assumes "rb_inv r" "contents r = cs @ [c]"
  shows "\<exists>r'. unputc r = (uint c, r') \<and> rb_inv r' \<and> contents r' = cs"
proof -
  have "rb_hd r \<noteq> rb_tl r" using assms(2) by (auto simp: contents_def RB_LEN_def)
  with contents_snoc [OF assms(1) this] assms show ?thesis
    by (auto simp: unputc_def rb_inv_def RB_PRED_def Let_def RBSZ_def)
qed

lemma ungetc_full: "rb_inv r \<Longrightarrow> RB_LEN r = RBSZ - 1 \<Longrightarrow> ungetc c r = (- 1, r)"
  by (auto simp: ungetc_def rb_inv_def ring_arith Let_def split: if_splits)

lemma ungetc_room:
  assumes "rb_inv r" "RB_LEN r < RBSZ - 1"
  shows "\<exists>r'. ungetc c r = (0, r') \<and> rb_inv r' \<and> contents r' = c # contents r"
proof -
  let ?b = "RB_PRED (rb_hd r)"
  let ?r = "r\<lparr>rb_hd := ?b, rb_buf := (rb_buf r)[?b := c]\<rparr>"
  have ne: "?b \<noteq> rb_tl r" and inv: "rb_inv ?r" and b: "?b < RBSZ"
    using assms by (auto simp: rb_inv_def ring_arith RBSZ_def split: if_splits)
  have len: "RB_LEN ?r = Suc (RB_LEN r)"
    using assms by (auto simp: rb_inv_def ring_arith split: if_splits)
  have "contents ?r = c # contents r"
  proof (rule nth_equalityI)
    fix i assume i: "i < length (contents ?r)"
    show "contents ?r ! i = (c # contents r) ! i"
    proof (cases i)
      case 0
      with assms b len show ?thesis by (simp add: nth_contents rb_ix_def rb_inv_def)
    next
      case (Suc j)
      have "j < RB_LEN r" using Suc i by (simp only: length_contents len)
      then have "rb_ix ?b i = rb_ix (rb_hd r) j" "rb_ix ?b i \<noteq> ?b"
        using Suc assms by (auto simp: rb_ix_def RB_PRED_def rb_inv_def)
      with Suc i len show ?thesis by (simp add: nth_contents)
    qed
  qed (simp add: len)
  with ne inv show ?thesis by (simp add: ungetc_def Let_def)
qed

section \<open>Block writes\<close>

lemma length_bcopy: "off + n \<le> length buf \<Longrightarrow> n \<le> length src \<Longrightarrow> length (bcopy src buf off n) = length buf"
  by (simp add: bcopy_def)

lemma nth_bcopy:
  assumes "off + n \<le> length buf" "n \<le> length src" "j < length buf"
  shows "bcopy src buf off n ! j = (if off \<le> j \<and> j < off + n then src ! (j - off) else buf ! j)"
  using assms by (auto simp: bcopy_def nth_append min_def)

lemma rb_write_short:
  assumes "rb_inv r" "n < RB_CONTIGPUT r" "n \<le> length cs"
  shows "\<exists>r'. rb_write r cs n = (n, r') \<and> rb_inv r' \<and> contents r' = contents r @ take n cs"
proof -
  let ?r = "r\<lparr>rb_buf := bcopy cs (rb_buf r) (rb_tl r) n, rb_tl := rb_tl r + n\<rparr>"
  have fit: "rb_tl r + n < RBSZ" and len: "RB_LEN ?r = RB_LEN r + n"
    using assms by (auto simp: rb_inv_def ring_arith split: if_splits)
  have buf: "rb_tl r + n \<le> length (rb_buf r)" using fit assms(1) by (simp add: rb_inv_def)
  have inv: "rb_inv ?r" using assms(1,3) fit buf by (simp add: rb_inv_def length_bcopy)
  have "contents ?r = contents r @ take n cs"
  proof (rule contents_append)
    fix i assume i: "i < RB_LEN r"
    then have "rb_ix (rb_hd r) i < RBSZ"
      "\<not> (rb_tl r \<le> rb_ix (rb_hd r) i \<and> rb_ix (rb_hd r) i < rb_tl r + n)"
      using assms(1,2) by (auto simp: rb_inv_def ring_arith split: if_splits)
    then show "rb_buf ?r ! rb_ix (rb_hd r) i = rb_buf r ! rb_ix (rb_hd r) i"
      using nth_bcopy [OF buf assms(3), of "rb_ix (rb_hd r) i"] assms(1) by (auto simp: rb_inv_def)
  next
    fix j assume "j < length (take n cs)"
    then have j: "j < n" by simp
    have "rb_ix (rb_hd r) (RB_LEN r + j) = rb_tl r + j"
      using j assms(1) fit by (auto simp: rb_inv_def ring_arith)
    then show "rb_buf ?r ! rb_ix (rb_hd r) (RB_LEN r + j) = take n cs ! j"
      using nth_bcopy [OF buf assms(3), of "rb_tl r + j"] j buf by simp
  qed (use assms(3) len in simp_all)
  with inv assms(2) show ?thesis by (simp add: rb_write_def Let_def)
qed

lemma rb_write_wrap:
  assumes "rb_inv r" "0 < rb_hd r" "rb_hd r \<le> rb_tl r" "RBSZ - rb_tl r \<le> n"
    "n + RB_LEN r < RBSZ" "n \<le> length cs"
  shows "\<exists>r'. rb_write r cs n = (n, r') \<and> rb_inv r' \<and> contents r' = contents r @ take n cs"
proof -
  define k where "k = RBSZ - rb_tl r"
  let ?b1 = "bcopy cs (rb_buf r) (rb_tl r) k"
  let ?b2 = "bcopy (drop k cs) ?b1 0 (n - k)"
  let ?r = "r\<lparr>rb_buf := ?b2, rb_tl := n - k\<rparr>"
  have put: "RB_CONTIGPUT r = k" using assms(2,3) by (simp add: ring_arith k_def)
  have L: "RB_LEN r = rb_tl r - rb_hd r" using assms(3) by (simp add: RB_LEN_def)
  have left: "n - k < rb_hd r" using assms by (auto simp: L k_def rb_inv_def)
  have kn: "k \<le> n" using assms(4) by (simp add: k_def)
  have tk: "rb_tl r + k = RBSZ" using assms(1) by (simp add: rb_inv_def k_def)
  have lb: "length (rb_buf r) = RBSZ" using assms(1) by (simp add: rb_inv_def)
  have b1: "length ?b1 = RBSZ" using lb tk kn assms(6) by (subst length_bcopy) auto
  have b2: "length ?b2 = RBSZ" using b1 left assms by (subst length_bcopy) (auto simp: rb_inv_def)
  have nth: "?b2 ! j = (if j < n - k then cs ! (k + j) else if rb_tl r \<le> j then cs ! (j - rb_tl r)
      else rb_buf r ! j)" if "j < RBSZ" for j
    using that lb b1 tk kn left assms(1,6) by (auto simp: nth_bcopy rb_inv_def)
  have inv: "rb_inv ?r" using b2 left assms(1) by (simp add: rb_inv_def)
  have len: "RB_LEN ?r = RB_LEN r + n" using left L assms(1,3) kn by (auto simp: RB_LEN_def k_def rb_inv_def)
  have "contents ?r = contents r @ take n cs"
  proof (rule contents_append)
    fix i assume i: "i < RB_LEN r"
    then have "rb_ix (rb_hd r) i = rb_hd r + i" "rb_hd r + i < rb_tl r" "rb_tl r < RBSZ"
      using L assms(1) by (auto simp: rb_ix_def rb_inv_def)
    then show "rb_buf ?r ! rb_ix (rb_hd r) i = rb_buf r ! rb_ix (rb_hd r) i"
      using nth left by auto
  next
    fix j assume "j < length (take n cs)"
    then have j: "j < n" by simp
    have "rb_ix (rb_hd r) (RB_LEN r + j) = (if j < k then rb_tl r + j else j - k)"
      using L assms(1,3) by (auto simp: rb_ix_def k_def rb_inv_def)
    then show "rb_buf ?r ! rb_ix (rb_hd r) (RB_LEN r + j) = take n cs ! j"
      using j nth [of "rb_tl r + j"] nth [of "j - k"] left tk assms(1,3)
      by (auto simp: rb_inv_def)
  qed (use assms(6) len in simp_all)
  with inv put kn left show ?thesis by (auto simp: rb_write_def Let_def)
qed

lemma rb_write_room:
  assumes "rb_inv r" "n + RB_LEN r < RBSZ - 1" "n \<le> length cs"
  shows "\<exists>r'. rb_write r cs n = (n, r') \<and> rb_inv r' \<and> contents r' = contents r @ take n cs"
proof (cases "n < RB_CONTIGPUT r")
  case True
  then show ?thesis using rb_write_short assms by blast
next
  case False
  then have "0 < rb_hd r" "rb_hd r \<le> rb_tl r" "RBSZ - rb_tl r \<le> n"
    using assms(1,2) by (auto simp: rb_inv_def ring_arith split: if_splits)
  then show ?thesis using rb_write_wrap assms by auto
qed

lemma contents_split:
  assumes "rb_inv r"
  shows "contents r =
    (if rb_hd r \<le> rb_tl r then take (rb_tl r - rb_hd r) (drop (rb_hd r) (rb_buf r))
     else drop (rb_hd r) (rb_buf r) @ take (rb_tl r) (rb_buf r))"
  using assms
  by (intro nth_equalityI) (auto simp: rb_inv_def nth_contents ring_arith nth_append ac_simps)

lemma catb_room:
  assumes "rb_inv f" "rb_inv t" "RB_LEN f + RB_LEN t < RBSZ - 1"
  shows "\<exists>f' t'. catb f t = (f', t') \<and> rb_inv f' \<and> rb_inv t' \<and> contents f' = [] \<and>
     contents t' = contents t @ contents f"
proof -
  let ?n1 = "RB_CONTIGGET f" and ?c1 = "drop (rb_hd f) (rb_buf f)"
  let ?f1 = "f\<lparr>rb_hd := RB_ROLLOVER (rb_hd f + RB_CONTIGGET f)\<rparr>"
  let ?n2 = "RB_CONTIGGET ?f1" and ?c2 = "drop (rb_hd ?f1) (rb_buf f)"
  have n: "?n1 \<le> length ?c1" "?n2 \<le> length ?c2" "?n1 + ?n2 = RB_LEN f"
    "rb_hd ?f1 + ?n2 = rb_tl f" "rb_tl f < RBSZ"
    using assms(1) by (auto simp: rb_inv_def ring_arith)
  obtain t1 where t1: "rb_write t ?c1 ?n1 = (?n1, t1)" "rb_inv t1"
      "contents t1 = contents t @ take ?n1 ?c1"
    using rb_write_room [of t ?n1 ?c1] assms(2,3) n(1,3) by auto
  have "RB_LEN t1 = RB_LEN t + ?n1"
    using n(1) by (simp flip: length_contents add: t1(3))
  then obtain t2 where t2: "rb_write t1 ?c2 ?n2 = (?n2, t2)" "rb_inv t2"
      "contents t2 = contents t1 @ take ?n2 ?c2"
    using rb_write_room [of t1 ?n2 ?c2] t1(2) assms(3) n(2,3) by auto
  have c: "take ?n1 ?c1 @ take ?n2 ?c2 = contents f"
    using assms(1) by (auto simp: contents_split rb_inv_def ring_arith)
  let ?f2 = "?f1\<lparr>rb_hd := rb_hd ?f1 + ?n2\<rparr>"
  have "rb_inv ?f2" "contents ?f2 = []" using n(4,5) assms(1) by (auto simp: rb_inv_def contents_def RB_LEN_def)
  moreover have "catb f t = (?f2, t2)" using t1(1) t2(1) by (simp add: catb_def Let_def)
  ultimately show ?thesis using t1 t2 c by auto
qed

text \<open>
  Filled up to capacity, the second branch of \<^verbatim>\<open>rb_write\<close> is taken although
  the free space does not reach the end of the buffer, or leaves no gap
  before the head: the tail meets the head.
\<close>

lemma rb_write_overfull:
  assumes "rb_inv r" "rb_hd r = 0" "RBSZ - 1 \<le> n + RB_LEN r"
  shows "contents (snd (rb_write r cs n)) = []" "fst (rb_write r cs n) = RBSZ - 1 - RB_LEN r"
proof -
  have "RB_CONTIGPUT r = RBSZ - 1 - RB_LEN r"
    using assms(1,2) by (auto simp: rb_inv_def ring_arith)
  moreover from this have "\<not> n < RB_CONTIGPUT r" using assms(3) by simp
  ultimately show "contents (snd (rb_write r cs n)) = []"
    "fst (rb_write r cs n) = RBSZ - 1 - RB_LEN r"
    using assms(2) by (simp_all add: rb_write_def Let_def contents_def RB_LEN_def)
qed

section \<open>The character queue interface\<close>

text \<open>
  The reference: a list of at most \<open>cap\<close> characters, used from both ends.  \<open>run_ops\<close> performs a
  sequence of operations and collects their results.
\<close>

datatype char_op = Putc u8 | Getc | Ungetc u8 | Unputc

fun list_op :: "nat \<Rightarrow> char_op \<Rightarrow> u8 list \<Rightarrow> int \<times> u8 list" where
  "list_op cap (Putc c) q = (if length q < cap then (0, q @ [c]) else (- 1, q))"
| "list_op cap (Ungetc c) q = (if length q < cap then (0, c # q) else (- 1, q))"
| "list_op cap Getc q = (if q = [] then (- 1, q) else (uint (hd q), tl q))"
| "list_op cap Unputc q = (if q = [] then (- 1, q) else (uint (last q), butlast q))"

fun run_ops :: "(char_op \<Rightarrow> 'q \<Rightarrow> int \<times> 'q) \<Rightarrow> char_op list \<Rightarrow> 'q \<Rightarrow> int list \<times> 'q" where
  "run_ops f [] q = ([], q)"
| "run_ops f (c # cs) q = (let (r, q1) = f c q; (rs, q2) = run_ops f cs q1 in (r # rs, q2))"

fun deque_op :: "(u8 \<Rightarrow> 'q \<Rightarrow> int \<times> 'q) \<Rightarrow> ('q \<Rightarrow> int \<times> 'q) \<Rightarrow> (u8 \<Rightarrow> 'q \<Rightarrow> int \<times> 'q) \<Rightarrow> ('q \<Rightarrow> int \<times> 'q) \<Rightarrow>
    char_op \<Rightarrow> 'q \<Rightarrow> int \<times> 'q" where
  "deque_op put get unget unput (Putc c) q = put c q"
| "deque_op put get unget unput Getc q = get q"
| "deque_op put get unget unput (Ungetc c) q = unget c q"
| "deque_op put get unget unput Unputc q = unput q"

locale char_queue =
  fixes put :: "u8 \<Rightarrow> 'q \<Rightarrow> int \<times> 'q"
    and get :: "'q \<Rightarrow> int \<times> 'q"
    and chars :: "'q \<Rightarrow> u8 list"
    and invar :: "'q \<Rightarrow> bool"
    and capacity :: nat
  assumes put_full: "invar q \<Longrightarrow> length (chars q) = capacity \<Longrightarrow> put c q = (- 1, q)"
    and put_room: "invar q \<Longrightarrow> length (chars q) < capacity \<Longrightarrow>
      \<exists>q'. put c q = (0, q') \<and> invar q' \<and> chars q' = chars q @ [c]"
    and get_empty: "invar q \<Longrightarrow> chars q = [] \<Longrightarrow> get q = (- 1, q)"
    and get_head: "invar q \<Longrightarrow> chars q = c # cs \<Longrightarrow>
      \<exists>q'. get q = (uint c, q') \<and> invar q' \<and> chars q' = cs"
    and bounded: "invar q \<Longrightarrow> length (chars q) \<le> capacity"
begin

lemma put_result:
  assumes "invar q"
  shows "\<exists>q'. put c q = (fst (list_op capacity (Putc c) (chars q)), q') \<and> invar q' \<and> chars q' = snd (list_op capacity (Putc c) (chars q))"
  using put_full [OF assms, of c] put_room [OF assms, of c] bounded [OF assms] assms by (auto simp: le_less)

lemma get_result:
  assumes "invar q"
  shows "\<exists>q'. get q = (fst (list_op capacity Getc (chars q)), q') \<and> invar q' \<and> chars q' = snd (list_op capacity Getc (chars q))"
  using get_empty [OF assms] get_head [OF assms] assms by (cases "chars q") auto

end

text \<open>Both ends: \<^verbatim>\<open>ungetc\<close> and \<^verbatim>\<open>unputc\<close> undo the other pair.\<close>

locale char_deque = char_queue +
  fixes unget :: "u8 \<Rightarrow> 'q \<Rightarrow> int \<times> 'q"
    and unput :: "'q \<Rightarrow> int \<times> 'q"
  assumes unget_full: "invar q \<Longrightarrow> length (chars q) = capacity \<Longrightarrow> unget c q = (- 1, q)"
    and unget_room: "invar q \<Longrightarrow> length (chars q) < capacity \<Longrightarrow>
      \<exists>q'. unget c q = (0, q') \<and> invar q' \<and> chars q' = c # chars q"
    and unput_empty: "invar q \<Longrightarrow> chars q = [] \<Longrightarrow> unput q = (- 1, q)"
    and unput_last: "invar q \<Longrightarrow> chars q = cs @ [c] \<Longrightarrow>
      \<exists>q'. unput q = (uint c, q') \<and> invar q' \<and> chars q' = cs"
begin

lemma op_result:
  assumes "invar q"
  shows "\<exists>q'. deque_op put get unget unput c q = (fst (list_op capacity c (chars q)), q') \<and> invar q' \<and> chars q' = snd (list_op capacity c (chars q))"
proof (cases c)
  case (Ungetc x)
  then show ?thesis
    using unget_full [OF assms, of x] unget_room [OF assms, of x] bounded [OF assms] assms by (auto simp: le_less)
next
  case Unputc
  then show ?thesis using unput_empty [OF assms] unput_last [OF assms] assms by (cases "chars q" rule: rev_cases) auto
qed (use put_result [OF assms] get_result [OF assms] in simp_all)

lemma run_refines:
  "invar q \<Longrightarrow> \<exists>q'. run_ops (deque_op put get unget unput) cs q = (fst (run_ops (list_op capacity) cs (chars q)), q') \<and>
     invar q' \<and> chars q' = snd (run_ops (list_op capacity) cs (chars q))"
proof (induction cs arbitrary: q)
  case (Cons c cs)
  then obtain q1 where q1: "deque_op put get unget unput c q = (fst (list_op capacity c (chars q)), q1)" "invar q1"
      "chars q1 = snd (list_op capacity c (chars q))"
    using op_result by blast
  from Cons.IH [OF q1(2)] q1 show ?case by (auto simp: split_beta)
qed simp

end

interpretation ring: char_deque putc getc contents rb_inv "RBSZ - 1" ungetc unputc
  by unfold_locales
    (use putc_full putc_room getc_empty getc_nonempty RB_LEN_bound ungetc_full ungetc_room
      unputc_empty unputc_nonempty in fastforce)+

section \<open>Properties\<close>

text \<open>
  C24: the ring is a bounded queue.  Started on any ring, every sequence of \<^verbatim>\<open>putc\<close>, \<^verbatim>\<open>getc\<close>,
  \<^verbatim>\<open>ungetc\<close> and \<^verbatim>\<open>unputc\<close> returns, operation by operation, what a list of at most \<open>RBSZ - 1\<close>
  characters returns that is used at its two ends, and holds the same characters
  afterwards: what goes in with \<^verbatim>\<open>putc\<close> comes out of \<^verbatim>\<open>getc\<close> in order, an
  operation fails exactly on a full or an empty ring, and a failed one changes nothing.
\<close>

theorem ring_fifo:
  assumes "rb_inv r"
  shows "\<exists>r'. run_ops (deque_op putc getc ungetc unputc) cs r = (fst (run_ops (list_op (RBSZ - 1)) cs (contents r)), r') \<and> rb_inv r' \<and>
     contents r' = snd (run_ops (list_op (RBSZ - 1)) cs (contents r))"
  using assms by (rule ring.run_refines)

theorem ring_fifo_witness:
  "\<exists>r'. run_ops (deque_op putc getc ungetc unputc) [Getc, Putc 65, Putc 66, Getc, Ungetc 67, Unputc] \<lparr>rb_hd = 1023, rb_tl = 1023, rb_buf = replicate 1024 0\<rparr>
     = ([- 1, 0, 0, 65, 0, 66], r') \<and> contents r' = [67]"
proof -
  let ?r = "\<lparr>rb_hd = 1023, rb_tl = 1023, rb_buf = replicate 1024 0\<rparr>"
  have "rb_inv ?r" "contents ?r = []" by (simp_all add: rb_inv_def RBSZ_def contents_def RB_LEN_def)
  with ring_fifo [OF this(1), of "[Getc, Putc 65, Putc 66, Getc, Ungetc 67, Unputc]"] show ?thesis
    by (auto simp: RBSZ_def)
qed

text \<open>
  A block write that leaves the ring below capacity stores all of the block
  behind the queued characters, across the end of the buffer if need be, and
  concatenating two rings whose characters fit moves all of them in order.
\<close>

theorem rb_write_catb_append:
  assumes "rb_inv r"
  shows "(n \<le> length cs \<and> n + RB_LEN r < RBSZ - 1 \<longrightarrow>
       (\<exists>r'. rb_write r cs n = (n, r') \<and> rb_inv r' \<and> contents r' = contents r @ take n cs)) \<and>
     (rb_inv f \<and> RB_LEN f + RB_LEN r < RBSZ - 1 \<longrightarrow>
       (\<exists>f' r'. catb f r = (f', r') \<and> rb_inv f' \<and> rb_inv r' \<and> contents f' = [] \<and>
          contents r' = contents r @ contents f))"
  using rb_write_room [OF assms] catb_room [OF _ assms] by auto

theorem rb_write_catb_append_witness:
  "\<exists>r'. rb_write \<lparr>rb_hd = 1022, rb_tl = 1022, rb_buf = replicate 1024 0\<rparr> [1, 2, 3] 3 = (3, r') \<and>
     contents r' = [1, 2, 3]"
proof -
  let ?r = "\<lparr>rb_hd = 1022, rb_tl = 1022, rb_buf = replicate 1024 0\<rparr>"
  have i: "rb_inv ?r" "contents ?r = []" by (simp_all add: rb_inv_def RBSZ_def contents_def RB_LEN_def)
  with rb_write_catb_append [OF i(1), of 3 "[1, 2, 3]"] show ?thesis
    by (auto simp: RBSZ_def RB_LEN_def)
qed

text \<open>
  A block write that fills the ring to capacity from the start of the buffer
  reports the characters as stored but loses them, together with everything
  that was queued before.
\<close>

theorem rb_write_to_capacity_loses_queue:
  assumes "rb_inv r" "rb_hd r = 0" "RBSZ - 1 \<le> n + RB_LEN r"
  shows "contents (snd (rb_write r cs n)) = [] \<and> fst (rb_write r cs n) = RBSZ - 1 - RB_LEN r"
  using rb_write_overfull [OF assms] by simp

theorem rb_write_to_capacity_loses_queue_witness:
  "contents (snd (rb_write \<lparr>rb_hd = 0, rb_tl = 1000, rb_buf = replicate 1024 7\<rparr> (replicate 23 8) 23)) = [] \<and>
   length (contents \<lparr>rb_hd = 0, rb_tl = 1000, rb_buf = replicate 1024 7\<rparr>) = 1000"
  using rb_write_to_capacity_loses_queue
    [of "\<lparr>rb_hd = 0, rb_tl = 1000, rb_buf = replicate 1024 7\<rparr>" 23 "replicate 23 8"]
  by (simp add: rb_inv_def RBSZ_def RB_LEN_def)

end
