(* ===== verification/Cred.thy ===== *)
theory Cred
  imports Prelude
begin

text \<open>
  Process credentials (\<^verbatim>\<open>src/sys/kern/kern_prot.c\<close>): the set-id system calls and
  the reference-counted, copy-on-write \<^verbatim>\<open>struct ucred\<close> they change.  Credentials
  live in a store from addresses to structures, because several processes and
  open files share them; identifiers are 16-bit, as \<^verbatim>\<open>uid_t\<close> is, and system
  call arguments are \<^verbatim>\<open>int\<close>s that are truncated on assignment.
\<close>

section \<open>Data\<close>

abbreviation NGROUPS :: nat where "NGROUPS \<equiv> 16"
abbreviation MAXLOGNAME :: nat where "MAXLOGNAME \<equiv> 12"
abbreviation ASU :: u16 where "ASU \<equiv> 2"

record ucred =
  cr_ref :: u16
  cr_uid :: u16
  cr_ngroups :: nat
  cr_groups :: "u16 list"

type_synonym ucreds = "nat \<rightharpoonup> ucred"

record pcred =
  pc_ucred :: nat
  p_ruid :: u16
  p_svuid :: u16
  p_rgid :: u16
  p_svgid :: u16

record proc =
  p_pid :: int
  p_ppid :: int
  p_pgid :: int
  p_cred :: pcred
  p_acflag :: u16

type_synonym pstate = "ucreds \<times> proc"

abbreviation cred_of :: "pstate \<Rightarrow> ucred" where
  "cred_of s \<equiv> the (fst s (pc_ucred (p_cred (snd s))))"

definition gid0 :: "ucred \<Rightarrow> u16" where
  "gid0 cr = cr_groups cr ! 0"

section \<open>Queries\<close>

text \<open>The pair \<^verbatim>\<open>retval[0]\<close>, \<^verbatim>\<open>retval[1]\<close>; kernels are built with \<^verbatim>\<open>COMPAT_43\<close>.\<close>

definition getpid :: "proc \<Rightarrow> int \<times> int" where
  "getpid p = (p_pid p, p_ppid p)"

definition getppid :: "proc \<Rightarrow> int" where
  "getppid p = p_ppid p"

definition getpgrp :: "proc \<Rightarrow> int" where
  "getpgrp p = p_pgid p"

definition getuid :: "pstate \<Rightarrow> u16 \<times> u16" where
  "getuid s = (p_ruid (p_cred (snd s)), cr_uid (cred_of s))"

definition geteuid :: "pstate \<Rightarrow> u16" where
  "geteuid s = cr_uid (cred_of s)"

definition getgid :: "pstate \<Rightarrow> u16 \<times> u16" where
  "getgid s = (p_rgid (p_cred (snd s)), gid0 (cred_of s))"

definition getegid :: "pstate \<Rightarrow> u16" where
  "getegid s = gid0 (cred_of s)"

text \<open>
  \<open>copyout\<close> stands for the copy to the user's buffer: the error it returns on
  the group list it is given.
\<close>

definition getgroups :: "(u16 list \<Rightarrow> errno option) \<Rightarrow> nat \<Rightarrow> pstate \<Rightarrow> errno + nat" where
  "getgroups copyout gidsetsize s =
     (let cr = cred_of s in
      if gidsetsize = 0 then Inr (cr_ngroups cr)
      else if gidsetsize < cr_ngroups cr then Inl EINVAL
      else case copyout (take (cr_ngroups cr) (cr_groups cr)) of
        Some e \<Rightarrow> Inl e
      | None \<Rightarrow> Inr (cr_ngroups cr))"

definition groupmember :: "u16 \<Rightarrow> ucred \<Rightarrow> bool" where
  "groupmember gid cr = list_ex (\<lambda>g. g = gid) (take (cr_ngroups cr) (cr_groups cr))"

text \<open>The super-user test; it also returns the accounting flags.\<close>

definition suser :: "ucred \<Rightarrow> u16 \<Rightarrow> errno option \<times> u16" where
  "suser cr acflag = (if cr_uid cr = 0 then (None, acflag OR ASU) else (Some EPERM, acflag))"

section \<open>The credential store\<close>

definition crget :: "nat \<Rightarrow> ucreds \<Rightarrow> ucreds" where
  "crget a cs = cs(a \<mapsto> \<lparr>cr_ref = 1, cr_uid = 0, cr_ngroups = 0, cr_groups = replicate NGROUPS 0\<rparr>)"

definition crfree :: "nat \<Rightarrow> ucreds \<Rightarrow> ucreds" where
  "crfree c cs =
     (let cr = the (cs c); n = cr_ref cr - 1 in
      if n \<noteq> 0 then cs(c \<mapsto> cr\<lparr>cr_ref := n\<rparr>) else cs(c := None))"

text \<open>\<open>a\<close> is the address \<^verbatim>\<open>MALLOC\<close> returns, should the structure be copied.\<close>

definition crcopy :: "nat \<Rightarrow> nat \<Rightarrow> ucreds \<Rightarrow> nat \<times> ucreds" where
  "crcopy a c cs =
     (if cr_ref (the (cs c)) = 1 then (c, cs)
      else let cs1 = (crget a cs)(a \<mapsto> the (cs c));
               cs2 = crfree c cs1
           in (a, cs2(a \<mapsto> (the (cs2 a))\<lparr>cr_ref := 1\<rparr>)))"

definition crdup :: "nat \<Rightarrow> nat \<Rightarrow> ucreds \<Rightarrow> nat \<times> ucreds" where
  "crdup a c cs = (a, (crget a cs)(a \<mapsto> (the (cs c))\<lparr>cr_ref := 1\<rparr>))"

text \<open>\<^verbatim>\<open>pc->pc_ucred = crcopy(pc->pc_ucred)\<close> followed by an update of the copy.\<close>

definition cr_modify :: "nat \<Rightarrow> (ucred \<Rightarrow> ucred) \<Rightarrow> pstate \<Rightarrow> pstate" where
  "cr_modify a f s =
     (let (cs, p) = s; (c, cs') = crcopy a (pc_ucred (p_cred p)) cs
      in (cs'(c \<mapsto> f (the (cs' c))), p\<lparr>p_cred := (p_cred p)\<lparr>pc_ucred := c\<rparr>\<rparr>))"

definition upd_cred :: "(pcred \<Rightarrow> pcred) \<Rightarrow> pstate \<Rightarrow> pstate" where
  "upd_cred f s = (fst s, (snd s)\<lparr>p_cred := f (p_cred (snd s))\<rparr>)"

definition set_gid0 :: "u16 \<Rightarrow> ucred \<Rightarrow> ucred" where
  "set_gid0 g cr = cr\<lparr>cr_groups := (cr_groups cr)[0 := g]\<rparr>"

text \<open>\<^verbatim>\<open>cond && (error = suser(...))\<close>: the error, and the process with its accounting flag.\<close>

definition suser_if :: "bool \<Rightarrow> pstate \<Rightarrow> errno option \<times> pstate" where
  "suser_if b s =
     (if b then let (e, fl) = suser (cred_of s) (p_acflag (snd s)) in (e, fst s, (snd s)\<lparr>p_acflag := fl\<rparr>)
      else (None, s))"

section \<open>The set-id system calls\<close>

definition setuid :: "nat \<Rightarrow> int \<Rightarrow> pstate \<Rightarrow> errno option \<times> pstate" where
  "setuid a uid_arg s =
     (let uid = word_of_int uid_arg; pc = p_cred (snd s) in
      case suser_if (uid \<noteq> p_ruid pc) s of
        (Some e, s1) \<Rightarrow> (Some e, s1)
      | (None, s1) \<Rightarrow>
          (None, upd_cred (\<lambda>pc. pc\<lparr>p_ruid := uid, p_svuid := uid\<rparr>)
             (cr_modify a (\<lambda>cr. cr\<lparr>cr_uid := uid\<rparr>) s1)))"

definition seteuid :: "nat \<Rightarrow> int \<Rightarrow> pstate \<Rightarrow> errno option \<times> pstate" where
  "seteuid a euid_arg s =
     (let euid = word_of_int euid_arg; pc = p_cred (snd s) in
      case suser_if (euid \<noteq> p_ruid pc \<and> euid \<noteq> p_svuid pc) s of
        (Some e, s1) \<Rightarrow> (Some e, s1)
      | (None, s1) \<Rightarrow> (None, cr_modify a (\<lambda>cr. cr\<lparr>cr_uid := euid\<rparr>) s1))"

definition setgid :: "nat \<Rightarrow> int \<Rightarrow> pstate \<Rightarrow> errno option \<times> pstate" where
  "setgid a gid_arg s =
     (let gid = word_of_int gid_arg; pc = p_cred (snd s) in
      case suser_if (gid \<noteq> p_rgid pc) s of
        (Some e, s1) \<Rightarrow> (Some e, s1)
      | (None, s1) \<Rightarrow>
          (None, upd_cred (\<lambda>pc. pc\<lparr>p_rgid := gid, p_svgid := gid\<rparr>) (cr_modify a (set_gid0 gid) s1)))"

definition setegid :: "nat \<Rightarrow> int \<Rightarrow> pstate \<Rightarrow> errno option \<times> pstate" where
  "setegid a egid_arg s =
     (let egid = word_of_int egid_arg; pc = p_cred (snd s) in
      case suser_if (egid \<noteq> p_rgid pc \<and> egid \<noteq> p_svgid pc) s of
        (Some e, s1) \<Rightarrow> (Some e, s1)
      | (None, s1) \<Rightarrow> (None, cr_modify a (set_gid0 egid) s1))"

definition osetreuid :: "nat \<Rightarrow> int \<Rightarrow> int \<Rightarrow> pstate \<Rightarrow> errno option \<times> pstate" where
  "osetreuid a ruid_arg euid_arg s =
     (let pc = p_cred (snd s);
          ruid = (if ruid_arg = - 1 then p_ruid pc else word_of_int ruid_arg) in
      case suser_if (ruid \<noteq> p_ruid pc \<and> ruid \<noteq> cr_uid (cred_of s)) s of
        (Some e, s1) \<Rightarrow> (Some e, s1)
      | (None, s1) \<Rightarrow>
          (let euid = (if euid_arg = - 1 then cr_uid (cred_of s1) else word_of_int euid_arg) in
           case suser_if (euid \<noteq> cr_uid (cred_of s1) \<and> euid \<noteq> p_ruid pc \<and> euid \<noteq> p_svuid pc) s1 of
             (Some e, s2) \<Rightarrow> (Some e, s2)
           | (None, s2) \<Rightarrow>
               (None, upd_cred (\<lambda>pc. pc\<lparr>p_ruid := ruid\<rparr>)
                  (cr_modify a (\<lambda>cr. cr\<lparr>cr_uid := euid\<rparr>) s2))))"

definition osetregid :: "nat \<Rightarrow> int \<Rightarrow> int \<Rightarrow> pstate \<Rightarrow> errno option \<times> pstate" where
  "osetregid a rgid_arg egid_arg s =
     (let pc = p_cred (snd s);
          rgid = (if rgid_arg = - 1 then p_rgid pc else word_of_int rgid_arg) in
      case suser_if (rgid \<noteq> p_rgid pc \<and> rgid \<noteq> gid0 (cred_of s)) s of
        (Some e, s1) \<Rightarrow> (Some e, s1)
      | (None, s1) \<Rightarrow>
          (let egid = (if egid_arg = - 1 then gid0 (cred_of s1) else word_of_int egid_arg) in
           case suser_if (egid \<noteq> gid0 (cred_of s1) \<and> egid \<noteq> p_rgid pc \<and> egid \<noteq> p_svgid pc) s1 of
             (Some e, s2) \<Rightarrow> (Some e, s2)
           | (None, s2) \<Rightarrow>
               (None, upd_cred (\<lambda>pc. pc\<lparr>p_rgid := rgid\<rparr>) (cr_modify a (set_gid0 egid) s2))))"

text \<open>\<open>copyin n\<close> is the copy of \<open>n\<close> integers from the user's array.\<close>

definition setgroups :: "(nat \<Rightarrow> errno + int list) \<Rightarrow> nat \<Rightarrow> nat \<Rightarrow> pstate \<Rightarrow> errno option \<times> pstate" where
  "setgroups copyin a gidsetsize s =
     (case suser_if True s of
        (Some e, s1) \<Rightarrow> (Some e, s1)
      | (None, s1) \<Rightarrow>
          if gidsetsize > NGROUPS then (Some EINVAL, s1)
          else case copyin gidsetsize of
            Inl e \<Rightarrow> (Some e, s1)
          | Inr groups \<Rightarrow>
              (None, cr_modify a (\<lambda>cr. cr\<lparr>cr_ngroups := gidsetsize,
                 cr_groups := map word_of_int (take gidsetsize groups) @ drop gidsetsize (cr_groups cr)\<rparr>) s1))"

section \<open>Login names\<close>

text \<open>
  The session's login name.  \<open>copyout\<close> and \<open>copyinstr\<close> stand for the transfers
  to and from user space; \<open>copyinstr\<close> is given the size of the buffer and, also
  when it fails, returns what it left in it.
\<close>

definition getlogin :: "(string \<Rightarrow> errno option) \<Rightarrow> string \<Rightarrow> nat \<Rightarrow> errno option" where
  "getlogin copyout s_login namelen =
     copyout (take (if namelen > MAXLOGNAME then MAXLOGNAME else namelen) s_login)"

definition setlogin :: "(nat \<Rightarrow> errno option \<times> string) \<Rightarrow> pstate \<Rightarrow> string \<Rightarrow>
    errno option \<times> pstate \<times> string" where
  "setlogin copyinstr s s_login =
     (case suser_if True s of
        (Some e, s1) \<Rightarrow> (Some e, s1, s_login)
      | (None, s1) \<Rightarrow>
          (let (error, s_login') = copyinstr (MAXLOGNAME - 1)
           in (if error = Some ENAMETOOLONG then Some EINVAL else error, s1, s_login')))"

section \<open>Identifiers a process can assume\<close>

definition uids :: "pstate \<Rightarrow> u16 set" where
  "uids s = {p_ruid (p_cred (snd s)), p_svuid (p_cred (snd s)), cr_uid (cred_of s)}"

definition gids :: "pstate \<Rightarrow> u16 set" where
  "gids s = {p_rgid (p_cred (snd s)), p_svgid (p_cred (snd s)), gid0 (cred_of s)}"

definition ps_ok :: "pstate \<Rightarrow> bool" where
  "ps_ok s \<longleftrightarrow> (\<exists>cr. fst s (pc_ucred (p_cred (snd s))) = Some cr \<and> length (cr_groups cr) = NGROUPS)"

text \<open>A step of a process that changes its own credentials; \<open>a\<close> is free memory.\<close>

inductive cred_step :: "pstate \<Rightarrow> pstate \<Rightarrow> bool" where
  step_setuid: "fst s a = None \<Longrightarrow> cred_step s (snd (setuid a u s))"
| step_seteuid: "fst s a = None \<Longrightarrow> cred_step s (snd (seteuid a u s))"
| step_setgid: "fst s a = None \<Longrightarrow> cred_step s (snd (setgid a g s))"
| step_setegid: "fst s a = None \<Longrightarrow> cred_step s (snd (setegid a g s))"
| step_setreuid: "fst s a = None \<Longrightarrow> cred_step s (snd (osetreuid a r u s))"
| step_setregid: "fst s a = None \<Longrightarrow> cred_step s (snd (osetregid a r g s))"
| step_setgroups: "fst s a = None \<Longrightarrow> (\<And>n gs. copyin n = Inr gs \<Longrightarrow> length gs = n) \<Longrightarrow>
    cred_step s (snd (setgroups copyin a n s))"

abbreviation cred_steps :: "pstate \<Rightarrow> pstate \<Rightarrow> bool" where
  "cred_steps \<equiv> cred_step\<^sup>*\<^sup>*"

named_theorems setid \<open>the set-id calls\<close>

lemmas [setid] = setuid_def seteuid_def setgid_def setegid_def osetreuid_def osetregid_def setgroups_def

lemma cr_modify_facts:
  fixes f :: "ucred \<Rightarrow> ucred"
  assumes "ps_ok s" "fst s a = None"
  defines "s' \<equiv> cr_modify a f s"
  shows "cred_of s' = f ((cred_of s)\<lparr>cr_ref := 1\<rparr>)"
    "fst s' (pc_ucred (p_cred (snd s'))) \<noteq> None"
    "\<exists>c. snd s' = (snd s)\<lparr>p_cred := (p_cred (snd s))\<lparr>pc_ucred := c\<rparr>\<rparr>"
proof -
  obtain cs p where s: "s = (cs, p)" by (cases s)
  let ?c = "pc_ucred (p_cred p)"
  obtain cr where cr: "cs ?c = Some cr" using assms(1) by (auto simp: ps_ok_def s)
  have "a \<noteq> ?c" using cr assms(2) by (auto simp: s)
  note ne = this cr
  show "cred_of s' = f ((cred_of s)\<lparr>cr_ref := 1\<rparr>)"
    using ne by (cases cr) (auto simp: s'_def s cr_modify_def crcopy_def crget_def crfree_def Let_def)
  show "fst s' (pc_ucred (p_cred (snd s'))) \<noteq> None"
    using ne by (auto simp: s'_def s cr_modify_def crcopy_def crget_def crfree_def Let_def)
  show "\<exists>c. snd s' = (snd s)\<lparr>p_cred := (p_cred (snd s))\<lparr>pc_ucred := c\<rparr>\<rparr>"
    by (auto simp: s'_def s cr_modify_def split: prod.split)
qed

lemma cr_modify_view [simp]:
  assumes "ps_ok s" "fst s a = None"
  shows "the (fst (cr_modify a f s) (pc_ucred (p_cred (snd (cr_modify a f s))))) = f ((cred_of s)\<lparr>cr_ref := 1\<rparr>)"
    "p_ruid (p_cred (snd (cr_modify a f s))) = p_ruid (p_cred (snd s))"
    "p_svuid (p_cred (snd (cr_modify a f s))) = p_svuid (p_cred (snd s))"
    "p_rgid (p_cred (snd (cr_modify a f s))) = p_rgid (p_cred (snd s))"
    "p_svgid (p_cred (snd (cr_modify a f s))) = p_svgid (p_cred (snd s))"
  using cr_modify_facts [OF assms, of f] by auto

lemma cr_modify_ok:
  assumes "ps_ok s" "fst s a = None"
    "\<And>cr. length (cr_groups cr) = NGROUPS \<Longrightarrow> length (cr_groups (f cr)) = NGROUPS"
  shows "ps_ok (cr_modify a f s)"
proof -
  have "length (cr_groups ((cred_of s)\<lparr>cr_ref := 1\<rparr>)) = NGROUPS"
    using assms(1) by (auto simp: ps_ok_def)
  from assms(3) [OF this] cr_modify_facts(1,2) [OF assms(1,2), of f]
  show ?thesis by (auto simp: ps_ok_def)
qed

lemma upd_cred_simps [simp]:
  "fst (upd_cred f s) = fst s" "p_cred (snd (upd_cred f s)) = f (p_cred (snd s))"
  by (simp_all add: upd_cred_def)

lemma set_gid0_simps [simp]:
  "cr_uid (set_gid0 g cr) = cr_uid cr"
  "length (cr_groups (set_gid0 g cr)) = length (cr_groups cr)"
  "cr_ref (set_gid0 g cr) = cr_ref cr"
  by (simp_all add: set_gid0_def)

lemma gid0_set_gid0: "length (cr_groups cr) = NGROUPS \<Longrightarrow> gid0 (set_gid0 g cr) = g"
  by (simp add: gid0_def set_gid0_def)

lemma gid0_simps [simp]: "gid0 (cr\<lparr>cr_ref := r\<rparr>) = gid0 cr" "gid0 (cr\<lparr>cr_uid := u\<rparr>) = gid0 cr"
  by (simp_all add: gid0_def)

lemma suser_if_None:
  "suser_if b s = (None, s1) \<Longrightarrow>
   fst s1 = fst s \<and> p_cred (snd s1) = p_cred (snd s) \<and> (b \<longrightarrow> cr_uid (cred_of s) = 0)"
  by (auto simp: suser_if_def suser_def split: if_splits prod.splits)

lemma suser_if_Some:
  "suser_if b s = (Some e, s1) \<Longrightarrow> s1 = s \<and> e = EPERM \<and> b \<and> cr_uid (cred_of s) \<noteq> 0"
  by (auto simp: suser_if_def suser_def split: if_splits prod.splits)

lemma ps_ok_cong: "fst s1 = fst s \<Longrightarrow> p_cred (snd s1) = p_cred (snd s) \<Longrightarrow> ps_ok s1 = ps_ok s"
  by (simp add: ps_ok_def)

text \<open>What one call does to the identifiers of the caller.\<close>

definition narrows :: "pstate \<Rightarrow> pstate \<Rightarrow> bool" where
  "narrows s s' \<longleftrightarrow> ps_ok s' \<and> (0 \<notin> uids s \<longrightarrow> uids s' \<subseteq> uids s \<and> gids s' \<subseteq> gids s)"

lemma narrows_suser:
  "suser_if b s = (e, s1) \<Longrightarrow> ps_ok s \<Longrightarrow> narrows s s1"
  by (auto simp: narrows_def uids_def gids_def suser_if_def suser_def ps_ok_def
        split: if_splits prod.splits)

text \<open>The common part of the calls after their permission check.\<close>

lemma modify_narrows:
  assumes "ps_ok s" "fst s a = None"
    and "\<And>cr. length (cr_groups cr) = NGROUPS \<Longrightarrow> length (cr_groups (f cr)) = NGROUPS"
    and "\<And>pc. pc_ucred (g pc) = pc_ucred pc"
    and "0 \<notin> uids s \<Longrightarrow> {p_ruid (g (p_cred (snd s))), p_svuid (g (p_cred (snd s))),
          cr_uid (f ((cred_of s)\<lparr>cr_ref := 1\<rparr>))} \<subseteq> uids s"
    and "0 \<notin> uids s \<Longrightarrow> {p_rgid (g (p_cred (snd s))), p_svgid (g (p_cred (snd s))),
          gid0 (f ((cred_of s)\<lparr>cr_ref := 1\<rparr>))} \<subseteq> gids s"
    and "\<And>pc c. g (pc\<lparr>pc_ucred := c\<rparr>) = (g pc)\<lparr>pc_ucred := c\<rparr>"
  shows "narrows s (upd_cred g (cr_modify a f s))"
proof -
  let ?s = "upd_cred g (cr_modify a f s)"
  obtain c where c: "snd (cr_modify a f s) = (snd s)\<lparr>p_cred := (p_cred (snd s))\<lparr>pc_ucred := c\<rparr>\<rparr>"
    using cr_modify_facts(3) [OF assms(1,2), of f] by blast
  have "ps_ok ?s" using cr_modify_ok [OF assms(1,2,3)] assms(4) by (simp add: ps_ok_def)
  moreover have "cred_of ?s = f ((cred_of s)\<lparr>cr_ref := 1\<rparr>)"
    using cr_modify_facts(1) [OF assms(1,2), of f] assms(4) by simp
  moreover have "p_cred (snd ?s) = (g (p_cred (snd s)))\<lparr>pc_ucred := c\<rparr>"
    using c assms(7) by simp
  ultimately show ?thesis using assms(5,6) unfolding narrows_def uids_def [of ?s] gids_def [of ?s]
    by simp
qed

lemma upd_cred_id: "upd_cred (\<lambda>pc. pc) s = s"
  by (simp add: upd_cred_def)

lemma cred_ok_groups: "ps_ok s \<Longrightarrow> length (cr_groups (cred_of s)) = NGROUPS"
  by (auto simp: ps_ok_def)

text \<open>A permission check in front of the rest of a call.\<close>

lemma check_narrows:
  assumes "ps_ok s"
    and "\<And>s1. ps_ok s1 \<Longrightarrow> fst s1 = fst s \<Longrightarrow> p_cred (snd s1) = p_cred (snd s) \<Longrightarrow>
           (b \<longrightarrow> 0 \<in> uids s) \<Longrightarrow> narrows s1 (snd (rest s1))"
  shows "narrows s (snd (case suser_if b s of (Some e, s1) \<Rightarrow> (Some e, s1) | (None, s1) \<Rightarrow> rest s1))"
proof -
  obtain e s1 where p: "suser_if b s = (e, s1)" by (cases "suser_if b s")
  show ?thesis
  proof (cases e)
    case None
    with p have p': "suser_if b s = (None, s1)" by simp
    note same = suser_if_None [OF p']
    have "ps_ok s1" using same assms(1) by (simp add: ps_ok_def)
    then have "narrows s1 (snd (rest s1))" using same assms(2) [of s1] by (simp add: uids_def)
    moreover have "uids s1 = uids s" "gids s1 = gids s" using same by (simp_all add: uids_def gids_def)
    ultimately show ?thesis by (simp add: p' narrows_def)
  next
    case (Some x)
    with p narrows_suser [OF p assms(1)] show ?thesis by simp
  qed
qed

lemma setuid_narrows:
  assumes "ps_ok s" "fst s a = None"
  shows "narrows s (snd (setuid a u s))"
  unfolding setuid_def Let_def
  apply (rule check_narrows [OF assms(1)], simp, rule modify_narrows)
        apply (use assms in \<open>auto simp: uids_def gids_def\<close>)
  done

lemma setreuid_narrows:
  assumes "ps_ok s" "fst s a = None"
  shows "narrows s (snd (osetreuid a r u s))"
  unfolding osetreuid_def Let_def
  apply (rule check_narrows [OF assms(1)])
  apply (rule check_narrows, assumption)
  apply (simp only: snd_conv, rule modify_narrows)
        apply (use assms in \<open>auto simp: uids_def gids_def\<close>)
  done

lemma seteuid_narrows:
  assumes "ps_ok s" "fst s a = None"
  shows "narrows s (snd (seteuid a u s))"
  unfolding seteuid_def Let_def
  apply (rule check_narrows [OF assms(1)], simp)
  apply (subst upd_cred_id [symmetric], rule modify_narrows)
        apply (use assms in \<open>auto simp: uids_def gids_def\<close>)
  done

lemma setgid_narrows:
  assumes "ps_ok s" "fst s a = None"
  shows "narrows s (snd (setgid a g s))"
  unfolding setgid_def Let_def
  apply (rule check_narrows [OF assms(1)], simp, rule modify_narrows)
        apply (use assms cred_ok_groups [OF assms(1)] in \<open>auto simp: uids_def gids_def gid0_set_gid0\<close>)
  done

lemma setregid_narrows:
  assumes "ps_ok s" "fst s a = None"
  shows "narrows s (snd (osetregid a r g s))"
  unfolding osetregid_def Let_def
  apply (rule check_narrows [OF assms(1)])
  apply (rule check_narrows, assumption)
  apply (simp only: snd_conv, rule modify_narrows)
        apply (use assms cred_ok_groups [OF assms(1)] in \<open>auto simp: uids_def gids_def gid0_set_gid0\<close>)
  done

lemma setegid_narrows:
  assumes "ps_ok s" "fst s a = None"
  shows "narrows s (snd (setegid a g s))"
  unfolding setegid_def Let_def
  apply (rule check_narrows [OF assms(1)], simp)
  apply (subst upd_cred_id [symmetric], rule modify_narrows)
        apply (use assms cred_ok_groups [OF assms(1)] in \<open>auto simp: uids_def gids_def gid0_set_gid0\<close>)
  done

lemma setgroups_narrows:
  assumes "ps_ok s" "fst s a = None" "\<And>n gs. copyin n = Inr gs \<Longrightarrow> length gs = n"
  shows "narrows s (snd (setgroups copyin a n s))"
  unfolding setgroups_def
proof (rule check_narrows [OF assms(1)])
  fix s1 assume s1: "ps_ok s1" "fst s1 = fst s" "p_cred (snd s1) = p_cred (snd s)"
    "True \<longrightarrow> 0 \<in> uids s"
  have root: "0 \<in> uids s1" using s1 by (simp add: uids_def)
  have "narrows s1 (upd_cred (\<lambda>pc. pc) (cr_modify a (\<lambda>cr. cr\<lparr>cr_ngroups := n,
      cr_groups := map word_of_int (take n groups) @ drop n (cr_groups cr)\<rparr>) s1))"
    if "n \<le> NGROUPS" "copyin n = Inr groups" for groups
    by (rule modify_narrows) (use that s1 assms root in auto)
  moreover have "narrows s1 s1" using s1(1) by (simp add: narrows_def)
  ultimately show "narrows s1 (snd (if n > NGROUPS then (Some EINVAL, s1)
       else case copyin n of Inl e \<Rightarrow> (Some e, s1)
       | Inr groups \<Rightarrow> (None, cr_modify a (\<lambda>cr. cr\<lparr>cr_ngroups := n,
          cr_groups := map word_of_int (take n groups) @ drop n (cr_groups cr)\<rparr>) s1)))"
    by (auto simp: upd_cred_id split: sum.splits)
qed

lemma cred_step_narrows: "cred_step s s' \<Longrightarrow> ps_ok s \<Longrightarrow> narrows s s'"
  by (induction rule: cred_step.induct)
    (auto intro: setuid_narrows setreuid_narrows setregid_narrows seteuid_narrows setgid_narrows setegid_narrows setgroups_narrows)

section \<open>Sharing: reference counts and isolation\<close>

text \<open>
  All processes and the shared store.  \<open>ext a\<close> counts the references to
  address \<open>a\<close> held outside the process table (open files, mounts).
\<close>

record kern =
  k_creds :: ucreds
  k_procs :: "nat \<rightharpoonup> proc"

definition holders :: "(nat \<rightharpoonup> proc) \<Rightarrow> nat \<Rightarrow> nat set" where
  "holders ps a = {q. \<exists>p. ps q = Some p \<and> pc_ucred (p_cred p) = a}"

definition cred_inv :: "(nat \<Rightarrow> nat) \<Rightarrow> kern \<Rightarrow> bool" where
  "cred_inv ext k \<longleftrightarrow> finite (dom (k_procs k)) \<and>
     (\<forall>a. case k_creds k a of
        None \<Rightarrow> holders (k_procs k) a = {} \<and> ext a = 0
      | Some cr \<Rightarrow> length (cr_groups cr) = NGROUPS \<and>
          unat (cr_ref cr) = card (holders (k_procs k) a) + ext a)"

text \<open>What a credential grants, apart from its reference count.\<close>

definition grants :: "ucreds \<Rightarrow> nat \<Rightarrow> ucred option" where
  "grants cs a = map_option (\<lambda>cr. cr\<lparr>cr_ref := 0\<rparr>) (cs a)"

definition others_unchanged :: "(nat \<Rightarrow> nat) \<Rightarrow> nat \<Rightarrow> kern \<Rightarrow> kern \<Rightarrow> bool" where
  "others_unchanged ext q k k' \<longleftrightarrow>
     (\<forall>r p. r \<noteq> q \<longrightarrow> k_procs k r = Some p \<longrightarrow>
        k_procs k' r = Some p \<and> grants (k_creds k') (pc_ucred (p_cred p)) = grants (k_creds k) (pc_ucred (p_cred p))) \<and>
     (\<forall>a. 0 < ext a \<longrightarrow> grants (k_creds k') a = grants (k_creds k) a)"

lemma finite_holders: "finite (dom ps) \<Longrightarrow> finite (holders ps a)"
  by (rule finite_subset [of _ "dom ps"]) (auto simp: holders_def)

lemma holders_upd:
  "holders (ps(q \<mapsto> p)) a =
     (if pc_ucred (p_cred p) = a then insert q (holders ps a) else holders ps a - {q})"
  by (auto simp: holders_def)

lemma cred_inv_own:
  assumes "cred_inv ext k" "k_procs k q = Some p"
  obtains cr where "k_creds k (pc_ucred (p_cred p)) = Some cr" "length (cr_groups cr) = NGROUPS"
    "unat (cr_ref cr) = card (holders (k_procs k) (pc_ucred (p_cred p))) + ext (pc_ucred (p_cred p))"
    "q \<in> holders (k_procs k) (pc_ucred (p_cred p))"
proof -
  have q: "q \<in> holders (k_procs k) (pc_ucred (p_cred p))" using assms(2) by (auto simp: holders_def)
  have "case k_creds k (pc_ucred (p_cred p)) of
        None \<Rightarrow> holders (k_procs k) (pc_ucred (p_cred p)) = {} \<and> ext (pc_ucred (p_cred p)) = 0
      | Some cr \<Rightarrow> length (cr_groups cr) = NGROUPS \<and>
          unat (cr_ref cr) = card (holders (k_procs k) (pc_ucred (p_cred p))) + ext (pc_ucred (p_cred p))"
    using assms(1) by (simp add: cred_inv_def)
  with q that show ?thesis by (auto split: option.splits)
qed

text \<open>A change of the caller's \<^verbatim>\<open>pcred\<close> and flags that keeps its \<^verbatim>\<open>ucred\<close> pointer is private.\<close>

lemma private_change:
  assumes "cred_inv ext k" "k_procs k q = Some p" "pc_ucred (p_cred p') = pc_ucred (p_cred p)"
  defines "k' \<equiv> \<lparr>k_creds = k_creds k, k_procs = (k_procs k)(q \<mapsto> p')\<rparr>"
  shows "cred_inv ext k' \<and> others_unchanged ext q k k'"
proof -
  have hold: "holders (k_procs k') a = holders (k_procs k) a" for a
    using assms(2,3) by (auto simp: k'_def holders_upd holders_def)
  have "cred_inv ext k'" using assms(1) unfolding cred_inv_def hold by (simp add: k'_def)
  then show ?thesis by (simp add: others_unchanged_def k'_def)
qed

text \<open>Copy-on-write: the update of the caller's credentials is invisible to every other holder.\<close>

lemma cr_modify_unseen:
  assumes inv: "cred_inv ext k" and p: "k_procs k q = Some p" and a: "k_creds k a = None"
    and f: "\<And>cr. cr_ref (f cr) = cr_ref cr"
      "\<And>cr. length (cr_groups cr) = NGROUPS \<Longrightarrow> length (cr_groups (f cr)) = NGROUPS"
    and s': "cr_modify a f (k_creds k, p) = (cs', p')"
  defines "k' \<equiv> \<lparr>k_creds = cs', k_procs = (k_procs k)(q \<mapsto> p')\<rparr>"
  shows "cred_inv ext k' \<and> others_unchanged ext q k k'"
proof -
  let ?c = "pc_ucred (p_cred p)"
  obtain cr where cr: "k_creds k ?c = Some cr" "length (cr_groups cr) = NGROUPS"
      "unat (cr_ref cr) = card (holders (k_procs k) ?c) + ext ?c" "q \<in> holders (k_procs k) ?c"
    by (rule cred_inv_own [OF inv p])
  have fin: "finite (holders (k_procs k) b)" for b
    using inv finite_holders by (auto simp: cred_inv_def)
  have ca: "?c \<noteq> a" using cr(1) a by auto
  have hc: "card (holders (k_procs k) ?c) \<noteq> 0" using cr(4) fin by auto
  show ?thesis
  proof (cases "cr_ref cr = 1")
    case True
    then have one: "card (holders (k_procs k) ?c) = 1" "ext ?c = 0" using cr(3) hc by auto
    then have h: "holders (k_procs k) ?c = {q}" using cr(4) by (metis card_1_singletonE singletonD)
    have res: "cs' = (k_creds k)(?c \<mapsto> f cr)" "p' = p"
      using s' True cr(1) by (auto simp: cr_modify_def crcopy_def)
    have hold: "holders (k_procs k') b = holders (k_procs k) b" for b
      using p by (auto simp: k'_def holders_upd res holders_def)
    have "cred_inv ext k'" using inv cr f(1) f(2) [OF cr(2)]
      unfolding cred_inv_def hold by (auto simp: k'_def res split: option.splits)
    moreover have "others_unchanged ext q k k'"
      using h one(2) by (auto simp: others_unchanged_def k'_def res grants_def holders_def)
    ultimately show ?thesis by blast
  next
    case False
    then have "unat (cr_ref cr) \<noteq> 1" by (metis unat_1 word_unat_eq_iff)
    then have two: "2 \<le> unat (cr_ref cr)" using cr(3) hc by linarith
    then have dec: "unat (cr_ref cr - 1) = unat (cr_ref cr) - 1"
      by (subst unat_sub) (simp_all add: word_le_nat_alt)
    then have nz: "cr_ref cr - 1 \<noteq> 0" using two by auto
    let ?new = "f (cr\<lparr>cr_ref := 1\<rparr>)" and ?old = "cr\<lparr>cr_ref := cr_ref cr - 1\<rparr>"
    have res: "cs' = (k_creds k)(?c \<mapsto> ?old, a \<mapsto> ?new)" "pc_ucred (p_cred p') = a"
      using s' False cr(1) ca nz
      by (auto simp: cr_modify_def crcopy_def crget_def crfree_def Let_def fun_upd_twist)
    have ha: "holders (k_procs k) a = {}" "ext a = 0"
      using inv a unfolding cred_inv_def by (metis (mono_tags, lifting) option.simps(4))+
    have hold: "holders (k_procs k') b =
        (if b = a then {q} else if b = ?c then holders (k_procs k) ?c - {q} else holders (k_procs k) b)" for b
      using p ha(1) ca res(2) by (auto simp: k'_def holders_upd) (auto simp: holders_def)
    have "card (holders (k_procs k) ?c - {q}) = card (holders (k_procs k) ?c) - 1"
      using cr(4) by simp
    with dec cr(3) hc have "card (holders (k_procs k) ?c - {q}) + ext ?c = unat (cr_ref cr - 1)"
      by linarith
    then have "cred_inv ext k'" using inv cr(2) ha ca f(1) f(2) [of "cr\<lparr>cr_ref := 1\<rparr>"]
      unfolding cred_inv_def hold by (auto simp: k'_def res(1) split: option.splits)
    moreover have "others_unchanged ext q k k'"
      using ca ha cr(1) by (auto simp: others_unchanged_def k'_def res(1) grants_def holders_def)
    ultimately show ?thesis by blast
  qed
qed

text \<open>A change of one process's state that no other holder of a credential can see.\<close>

definition unseen :: "pstate \<Rightarrow> pstate \<Rightarrow> bool" where
  "unseen s s' \<longleftrightarrow> (\<forall>ext k q. cred_inv ext k \<longrightarrow> k_procs k q = Some (snd s) \<longrightarrow> k_creds k = fst s \<longrightarrow>
     (let k' = \<lparr>k_creds = fst s', k_procs = (k_procs k)(q \<mapsto> snd s')\<rparr>
      in cred_inv ext k' \<and> others_unchanged ext q k k'))"

lemma others_unchanged_trans:
  "others_unchanged ext q k k1 \<Longrightarrow> others_unchanged ext q k1 k2 \<Longrightarrow> others_unchanged ext q k k2"
  by (simp add: others_unchanged_def)

lemma unseen_trans:
  assumes "unseen s s1" "unseen s1 s2"
  shows "unseen s s2"
  unfolding unseen_def Let_def
proof (intro allI impI)
  fix ext k q
  assume k: "cred_inv ext k" "k_procs k q = Some (snd s)" "k_creds k = fst s"
  let ?k1 = "\<lparr>k_creds = fst s1, k_procs = (k_procs k)(q \<mapsto> snd s1)\<rparr>"
  let ?k2 = "\<lparr>k_creds = fst s2, k_procs = (k_procs k)(q \<mapsto> snd s2)\<rparr>"
  have 1: "cred_inv ext ?k1" "others_unchanged ext q k ?k1"
    using assms(1) k by (simp_all add: unseen_def Let_def)
  have "cred_inv ext ?k2 \<and> others_unchanged ext q ?k1 ?k2"
    using assms(2) [unfolded unseen_def Let_def, rule_format, OF 1(1), of q] by simp
  with 1(2) show "cred_inv ext ?k2 \<and> others_unchanged ext q k ?k2"
    using others_unchanged_trans by blast
qed

lemma unseen_same:
  "fst s1 = fst s \<Longrightarrow> pc_ucred (p_cred (snd s1)) = pc_ucred (p_cred (snd s)) \<Longrightarrow> unseen s s1"
  using private_change [of _ _ _ "snd s" "snd s1"] unfolding unseen_def Let_def by metis

lemma unseen_modify:
  assumes "fst s a = None" "\<And>cr. cr_ref (f cr) = cr_ref cr"
    "\<And>cr. length (cr_groups cr) = NGROUPS \<Longrightarrow> length (cr_groups (f cr)) = NGROUPS"
    "\<And>pc. pc_ucred (g pc) = pc_ucred pc"
  shows "unseen s (upd_cred g (cr_modify a f s))"
proof (rule unseen_trans)
  show "unseen s (cr_modify a f s)"
    unfolding unseen_def Let_def
  proof (intro allI impI)
    fix ext k q
    assume k: "cred_inv ext k" "k_procs k q = Some (snd s)" "k_creds k = fst s"
    show "cred_inv ext \<lparr>k_creds = fst (cr_modify a f s), k_procs = (k_procs k)(q \<mapsto> snd (cr_modify a f s))\<rparr> \<and>
      others_unchanged ext q k
        \<lparr>k_creds = fst (cr_modify a f s), k_procs = (k_procs k)(q \<mapsto> snd (cr_modify a f s))\<rparr>"
      by (rule cr_modify_unseen [OF k(1,2), of a f]) (use k(3) assms in simp_all)
  qed
  show "unseen (cr_modify a f s) (upd_cred g (cr_modify a f s))"
    by (rule unseen_same) (simp_all add: assms(4))
qed

lemma unseen_check:
  assumes "\<And>s1. fst s1 = fst s \<Longrightarrow> unseen s1 (snd (rest s1))"
  shows "unseen s (snd (case suser_if b s of (Some e, s1) \<Rightarrow> (Some e, s1) | (None, s1) \<Rightarrow> rest s1))"
proof -
  obtain e s1 where p: "suser_if b s = (e, s1)" by (cases "suser_if b s")
  then have same: "fst s1 = fst s" "p_cred (snd s1) = p_cred (snd s)"
    using suser_if_None [of b s s1] suser_if_Some [of b s _ s1] by (cases e; auto)+
  then have "unseen s s1" by (intro unseen_same) simp_all
  with unseen_trans assms [OF same(1)] p show ?thesis by (cases e) auto
qed

lemmas unseen_modify_cr = unseen_modify [where g = "\<lambda>pc. pc", unfolded upd_cred_id]

lemma setids_unseen:
  assumes "fst s a = None"
  shows "unseen s (snd (setuid a u s))" "unseen s (snd (seteuid a u s))"
    "unseen s (snd (setgid a u s))" "unseen s (snd (setegid a u s))"
  unfolding setid Let_def
  by (rule unseen_check, simp only: snd_conv, (rule unseen_modify_cr | rule unseen_modify); simp add: assms)+

lemma setres_unseen:
  assumes "fst s a = None"
  shows "unseen s (snd (osetreuid a r u s))" "unseen s (snd (osetregid a r u s))"
  unfolding setid Let_def
   apply (rule unseen_check)
   apply (rule unseen_check, simp only: snd_conv, rule unseen_modify; simp add: assms)
  apply (rule unseen_check)
  apply (rule unseen_check, simp only: snd_conv, rule unseen_modify; simp add: assms)
  done

lemma setgroups_unseen:
  assumes "fst s a = None" "\<And>n gs. copyin n = Inr gs \<Longrightarrow> length gs = n"
  shows "unseen s (snd (setgroups copyin a n s))"
  unfolding setgroups_def
proof (rule unseen_check)
  fix s1 :: pstate assume s1: "fst s1 = fst s"
  have "unseen s1 (upd_cred (\<lambda>pc. pc) (cr_modify a (\<lambda>cr. cr\<lparr>cr_ngroups := n,
      cr_groups := map word_of_int (take n groups) @ drop n (cr_groups cr)\<rparr>) s1))"
    if "n \<le> NGROUPS" "copyin n = Inr groups" for groups
    by (rule unseen_modify) (use that s1 assms in auto)
  moreover have "unseen s1 s1" by (rule unseen_same) simp_all
  ultimately show "unseen s1 (snd (if n > NGROUPS then (Some EINVAL, s1)
       else case copyin n of Inl e \<Rightarrow> (Some e, s1)
       | Inr groups \<Rightarrow> (None, cr_modify a (\<lambda>cr. cr\<lparr>cr_ngroups := n,
          cr_groups := map word_of_int (take n groups) @ drop n (cr_groups cr)\<rparr>) s1)))"
    by (auto simp: upd_cred_id split: sum.splits)
qed

lemma cred_step_unseen: "cred_step s s' \<Longrightarrow> unseen s s'"
  by (induction rule: cred_step.induct) (blast intro: setids_unseen setres_unseen setgroups_unseen)+

section \<open>Runs of a process\<close>

text \<open>
  The contract that the user and the group identifiers share: a step of an
  unprivileged process keeps it unprivileged and adds no identifier.
\<close>

locale narrowing_ids =
  fixes step :: "'s \<Rightarrow> 's \<Rightarrow> bool"
    and ids :: "'s \<Rightarrow> 'i set"
    and ok :: "'s \<Rightarrow> bool"
    and root :: "'s \<Rightarrow> bool"
  assumes step_ok: "step s s' \<Longrightarrow> ok s \<Longrightarrow> ok s'"
    and step_ids: "step s s' \<Longrightarrow> ok s \<Longrightarrow> \<not> root s \<Longrightarrow> ids s' \<subseteq> ids s"
    and step_root: "step s s' \<Longrightarrow> ok s \<Longrightarrow> \<not> root s \<Longrightarrow> \<not> root s'"
begin

lemma run_ok: "step\<^sup>*\<^sup>* s s' \<Longrightarrow> ok s \<Longrightarrow> ok s'"
  by (induction rule: rtranclp_induct) (auto intro: step_ok)

lemma run_narrows: "step\<^sup>*\<^sup>* s s' \<Longrightarrow> ok s \<Longrightarrow> \<not> root s \<Longrightarrow> ids s' \<subseteq> ids s \<and> \<not> root s'"
proof (induction rule: rtranclp_induct)
  case (step t u)
  then show ?case using step_ids [of t u] step_root [of t u] run_ok [of s t] by blast
qed simp

end

interpretation uid: narrowing_ids cred_step uids ps_ok "\<lambda>s. 0 \<in> uids s"
  by unfold_locales (blast dest: cred_step_narrows [unfolded narrows_def])+

interpretation gid: narrowing_ids cred_step gids ps_ok "\<lambda>s. 0 \<in> uids s"
  by unfold_locales (blast dest: cred_step_narrows [unfolded narrows_def])+

lemma setuid_success:
  assumes "ps_ok s" "fst s a = None" "setuid a u s = (None, s1)"
  shows "ps_ok s1 \<and> uids s1 = {word_of_int u}"
proof -
  let ?w = "word_of_int u :: u16"
  obtain s0 where s0: "suser_if (?w \<noteq> p_ruid (p_cred (snd s))) s = (None, s0)"
    "s1 = upd_cred (\<lambda>pc. pc\<lparr>p_ruid := ?w, p_svuid := ?w\<rparr>) (cr_modify a (\<lambda>cr. cr\<lparr>cr_uid := ?w\<rparr>) s0)"
    using assms(3) by (auto simp: setuid_def Let_def split: prod.splits option.splits)
  have ok: "ps_ok s0" "fst s0 a = None" using suser_if_None [OF s0(1)] assms(1,2) by (auto simp: ps_ok_def)
  have "ps_ok s1" using setuid_narrows [OF assms(1,2), of u] assms(3) by (simp add: narrows_def)
  then show ?thesis using ok by (simp add: s0(2) uids_def)
qed

section \<open>Properties\<close>

text \<open>
  C15: a process none of whose real, effective and saved user ids is the
  super-user's can, by any sequence of set-id calls, only move between the ids
  it already has: neither its user ids nor its group ids ever grow.
\<close>

theorem unprivileged_ids_never_grow:
  assumes "ps_ok s" "0 \<notin> uids s" "cred_steps s s'"
  shows "uids s' \<subseteq> uids s \<and> gids s' \<subseteq> gids s"
  using uid.run_narrows [OF assms(3,1)] gid.run_narrows [OF assms(3,1)] assms(2) by blast

definition example_proc :: pstate where
  "example_proc =
     ([0 \<mapsto> \<lparr>cr_ref = 2, cr_uid = 100, cr_ngroups = 1, cr_groups = replicate 16 20\<rparr>],
      \<lparr>p_pid = 7, p_ppid = 1, p_pgid = 7,
       p_cred = \<lparr>pc_ucred = 0, p_ruid = 100, p_svuid = 200, p_rgid = 20, p_svgid = 20\<rparr>, p_acflag = 0\<rparr>)"

lemma example_proc_facts:
  "ps_ok example_proc" "uids example_proc = {100, 200}" "gids example_proc = {20}"
  "fst example_proc 1 = None"
  by (auto simp: example_proc_def ps_ok_def uids_def gids_def gid0_def)

theorem unprivileged_ids_never_grow_witness:
  "\<exists>s'. cred_steps example_proc s' \<and> s' \<noteq> example_proc \<and> uids s' \<subseteq> {100, 200} \<and> gids s' \<subseteq> {20}"
proof -
  let ?s = "snd (seteuid 1 200 example_proc)"
  have "cred_steps example_proc ?s"
    by (rule r_into_rtranclp) (rule step_seteuid [OF example_proc_facts(4)])
  moreover from unprivileged_ids_never_grow [OF example_proc_facts(1) _ this]
  have "uids ?s \<subseteq> {100, 200}" "gids ?s \<subseteq> {20}" by (simp_all add: example_proc_facts)
  moreover have "pc_ucred (p_cred (snd ?s)) \<noteq> pc_ucred (p_cred (snd example_proc))"
    by (simp add: seteuid_def suser_if_def cr_modify_def crcopy_def example_proc_def Let_def)
  then have "?s \<noteq> example_proc" by metis
  ultimately show ?thesis by blast
qed

text \<open>
  \<^verbatim>\<open>setuid\<close> to an ordinary user is irrevocable.  Once it succeeded, the
  process has that user id as its real, effective and saved id, whatever
  set-id calls it makes afterwards.
\<close>

theorem setuid_is_irrevocable:
  assumes "ps_ok s" "fst s a = None" "setuid a u s = (None, s1)" "word_of_int u \<noteq> (0 :: u16)"
    "cred_steps s1 s2"
  shows "uids s2 = {word_of_int u}"
proof -
  note s1 = setuid_success [OF assms(1-3)]
  have "uids s2 \<subseteq> {word_of_int u}"
    using uid.run_narrows [OF assms(5)] s1 assms(4) by auto
  moreover have "uids s2 \<noteq> {}" by (simp add: uids_def)
  ultimately show ?thesis by auto
qed

theorem setuid_is_irrevocable_witness:
  "\<exists>s1. setuid 1 100 example_proc = (None, s1) \<and> uids (snd (seteuid 2 200 s1)) = {100}"
proof -
  obtain s1 where s1: "setuid 1 100 example_proc = (None, s1)"
    by (cases "setuid 1 100 example_proc") (auto simp: setuid_def suser_if_def example_proc_def)
  have "fst s1 2 = None"
    using s1 by (auto simp: setuid_def suser_if_def example_proc_def cr_modify_def crcopy_def
        crget_def crfree_def upd_cred_def Let_def)
  then have "cred_steps s1 (snd (seteuid 2 200 s1))"
    by (intro r_into_rtranclp) (rule step_seteuid)
  from setuid_is_irrevocable [OF example_proc_facts(1,4) s1 _ this] s1 show ?thesis by simp
qed

text \<open>
  C33: credentials are copied on write.  A set-id call of one process leaves
  every reference count equal to the number of holders, and changes neither
  the credentials any other process has nor those an open file holds.
\<close>

theorem set_id_calls_are_isolated:
  assumes "cred_inv ext k" "k_procs k q = Some p" "cred_step (k_creds k, p) (cs', p')"
  shows "cred_inv ext \<lparr>k_creds = cs', k_procs = (k_procs k)(q \<mapsto> p')\<rparr> \<and>
    others_unchanged ext q k \<lparr>k_creds = cs', k_procs = (k_procs k)(q \<mapsto> p')\<rparr>"
  using cred_step_unseen [OF assms(3)] assms(1,2) by (simp add: unseen_def Let_def)

theorem set_id_calls_are_isolated_witness:
  "\<exists>cs' p'. seteuid 1 200 example_proc = (None, cs', p') \<and>
     others_unchanged (\<lambda>_. 0) 7
       \<lparr>k_creds = fst example_proc, k_procs = [7 \<mapsto> snd example_proc, 8 \<mapsto> snd example_proc]\<rparr>
       \<lparr>k_creds = cs', k_procs = [7 \<mapsto> p', 8 \<mapsto> snd example_proc]\<rparr>"
proof -
  let ?k = "\<lparr>k_creds = fst example_proc, k_procs = [7 \<mapsto> snd example_proc, 8 \<mapsto> snd example_proc]\<rparr>"
  have "holders (k_procs ?k) b = (if b = 0 then {7, 8} else {})" for b
    by (auto simp: holders_def example_proc_def)
  then have inv: "cred_inv (\<lambda>_. 0) ?k" by (auto simp: cred_inv_def example_proc_def)
  obtain cs' p' where c: "seteuid 1 200 example_proc = (None, cs', p')"
    by (cases "seteuid 1 200 example_proc") (auto simp: seteuid_def suser_if_def example_proc_def)
  have "cred_step (k_creds ?k, snd example_proc) (cs', p')"
    using step_seteuid [OF example_proc_facts(4), of 200] c by simp
  from set_id_calls_are_isolated [OF inv _ this, of 7] c show ?thesis by (auto simp: fun_upd_twist)
qed

text \<open>
  Every set-user-id call fails exactly when the requested id is none of
  those the call allows and the effective user is not the super-user; a
  failing call changes nothing.
\<close>

theorem set_uid_permission:
  "(fst (setuid a u s) = Some EPERM \<longleftrightarrow>
      word_of_int u \<noteq> p_ruid (p_cred (snd s)) \<and> cr_uid (cred_of s) \<noteq> 0) \<and>
   (fst (seteuid a u s) = Some EPERM \<longleftrightarrow>
      word_of_int u \<noteq> p_ruid (p_cred (snd s)) \<and> word_of_int u \<noteq> p_svuid (p_cred (snd s)) \<and>
      cr_uid (cred_of s) \<noteq> 0) \<and>
   (fst (setuid a u s) = None \<or> snd (setuid a u s) = s) \<and>
   (fst (seteuid a u s) = None \<or> snd (seteuid a u s) = s)"
  by (auto simp: setuid_def seteuid_def suser_if_def suser_def Let_def split: if_splits)

end
