(* ===== verification/Timeval.thy ===== *)
theory Timeval
  imports Prelude "HOL-Library.Signed_Division"
begin

text \<open>
  Time values and interval timers: the pure routines of
  \<^verbatim>\<open>src/sys/kern/kern_time.c\<close> (\<^verbatim>\<open>timevaladd\<close>, \<^verbatim>\<open>timevalsub\<close>, \<^verbatim>\<open>itimerfix\<close>,
  \<^verbatim>\<open>itimerdecr\<close>), the macros of \<^verbatim>\<open>src/sys/sys/time.h\<close>, and \<^verbatim>\<open>BUMPTIME\<close> and \<^verbatim>\<open>hzto\<close> of
  \<^verbatim>\<open>src/sys/kern/kern_clock.c\<close>.  Seconds and microseconds are integers; the
  sums of \<^verbatim>\<open>kern_time.c\<close> and the products of \<^verbatim>\<open>hzto\<close> wrap around at 32 bits, written out with \<^const>\<open>s32\<close>.
  A count of seconds that goes up by one (\<^verbatim>\<open>BUMPTIME\<close>) is not bounded.
\<close>

section \<open>Data\<close>

record timeval =
  tv_sec :: int
  tv_usec :: int

record itimerval =
  it_interval :: timeval
  it_value :: timeval

text \<open>The clock rate of \<^verbatim>\<open>src/sys/conf/param.c\<close>, where the configuration sets no other.\<close>

definition hz :: int where "hz = 100"
definition tick :: int where "tick = 1000000 div 100"
definition tickadj :: int where "tickadj = 240000 div (60 * 100)"

lemmas clock_rate = hz_def tick_def tickadj_def

section \<open>Operations\<close>

abbreviation tv0 :: timeval where "tv0 \<equiv> \<lparr>tv_sec = 0, tv_usec = 0\<rparr>"

definition timerisset :: "timeval \<Rightarrow> bool" where
  "timerisset tv \<longleftrightarrow> tv_sec tv \<noteq> 0 \<or> tv_usec tv \<noteq> 0"

definition timercmp_lt :: "timeval \<Rightarrow> timeval \<Rightarrow> bool" where
  "timercmp_lt t u \<longleftrightarrow> tv_sec t < tv_sec u \<or> tv_sec t = tv_sec u \<and> tv_usec t < tv_usec u"

definition timerclear :: "timeval \<Rightarrow> timeval" where
  "timerclear tv = tv\<lparr>tv_sec := 0, tv_usec := 0\<rparr>"

definition BUMPTIME :: "timeval \<Rightarrow> int \<Rightarrow> timeval" where
  "BUMPTIME t usec =
     (let u = tv_usec t + usec in
      if u \<ge> 1000000 then t\<lparr>tv_sec := tv_sec t + 1, tv_usec := u - 1000000\<rparr>
      else t\<lparr>tv_usec := u\<rparr>)"

definition timevalfix :: "timeval \<Rightarrow> timeval" where
  "timevalfix t =
     (let t1 = (if tv_usec t < 0 then t\<lparr>tv_sec := s32 (tv_sec t - 1), tv_usec := tv_usec t + 1000000\<rparr> else t) in
      if tv_usec t1 \<ge> 1000000
      then t1\<lparr>tv_sec := s32 (tv_sec t1 + 1), tv_usec := tv_usec t1 - 1000000\<rparr> else t1)"

definition timevaladd :: "timeval \<Rightarrow> timeval \<Rightarrow> timeval" where
  "timevaladd t1 t2 =
     timevalfix (t1\<lparr>tv_sec := s32 (tv_sec t1 + tv_sec t2), tv_usec := tv_usec t1 + tv_usec t2\<rparr>)"

definition timevalsub :: "timeval \<Rightarrow> timeval \<Rightarrow> timeval" where
  "timevalsub t1 t2 =
     timevalfix (t1\<lparr>tv_sec := s32 (tv_sec t1 - tv_sec t2), tv_usec := tv_usec t1 - tv_usec t2\<rparr>)"

text \<open>\<^verbatim>\<open>itimerfix\<close> returns \<^verbatim>\<open>EINVAL\<close> or rewrites its argument.\<close>

definition itimerfix :: "timeval \<Rightarrow> errno + timeval" where
  "itimerfix tv =
     (if tv_sec tv < 0 \<or> tv_sec tv > 100000000 \<or> tv_usec tv < 0 \<or> tv_usec tv \<ge> 1000000
      then Inl EINVAL
      else if tv_sec tv = 0 \<and> tv_usec tv \<noteq> 0 \<and> tv_usec tv < tick
      then Inr (tv\<lparr>tv_usec := tick\<rparr>)
      else Inr tv)"

text \<open>The code after the label \<^verbatim>\<open>expire\<close>, then the whole of \<^verbatim>\<open>itimerdecr\<close>; it returns
  the timer and whether it is still running (the return value 1).\<close>

definition itimer_expire :: "itimerval \<Rightarrow> int \<Rightarrow> itimerval \<times> bool" where
  "itimer_expire it usec =
     (if timerisset (it_interval it) then
        let v = (it_interval it)\<lparr>tv_usec := tv_usec (it_interval it) - usec\<rparr> in
        (it\<lparr>it_value := (if tv_usec v < 0
                         then v\<lparr>tv_sec := tv_sec v - 1, tv_usec := tv_usec v + 1000000\<rparr>
                         else v)\<rparr>, False)
      else (it\<lparr>it_value := (it_value it)\<lparr>tv_usec := 0\<rparr>\<rparr>, False))"

definition itimerdecr :: "itimerval \<Rightarrow> int \<Rightarrow> itimerval \<times> bool" where
  "itimerdecr it usec =
     (let v = it_value it in
      if tv_usec v < usec \<and> tv_sec v = 0 then itimer_expire it (usec - tv_usec v)
      else
        let v1 = (if tv_usec v < usec
                  then v\<lparr>tv_sec := tv_sec v - 1, tv_usec := tv_usec v + 1000000\<rparr> else v);
            v2 = v1\<lparr>tv_usec := tv_usec v1 - usec\<rparr>;
            it2 = it\<lparr>it_value := v2\<rparr> in
        if timerisset v2 then (it2, True) else itimer_expire it2 0)"

text \<open>\<^verbatim>\<open>hzto\<close>: the clock ticks from \<open>now\<close> until \<open>tv\<close>, in 32-bit arithmetic.\<close>

definition hzto :: "timeval \<Rightarrow> timeval \<Rightarrow> int" where
  "hzto now tv =
     (let sec = s32 (tv_sec tv - tv_sec now) in
      if sec \<le> 0x7fffffff div 1000 - 1000 then
        s32 (s32 (sec * 1000) + (tv_usec tv - tv_usec now) sdiv 1000) sdiv (tick sdiv 1000)
      else if sec \<le> 0x7fffffff div hz then s32 (sec * hz)
      else 0x7fffffff)"

section \<open>Their meaning in microseconds\<close>

definition usecs :: "timeval \<Rightarrow> int" where
  "usecs tv = tv_sec tv * 1000000 + tv_usec tv"

definition tv_ok :: "timeval \<Rightarrow> bool" where
  "tv_ok tv \<longleftrightarrow> 0 \<le> tv_usec tv \<and> tv_usec tv < 1000000"

named_theorems tv_simps \<open>time values read in microseconds\<close>

lemma usecs_BUMPTIME [tv_simps]: "usecs (BUMPTIME t d) = usecs t + d"
  by (simp add: BUMPTIME_def usecs_def Let_def)

lemma tv_ok_BUMPTIME: "tv_ok t \<Longrightarrow> 0 \<le> d \<Longrightarrow> d \<le> 1000000 \<Longrightarrow> tv_ok (BUMPTIME t d)"
  by (auto simp: BUMPTIME_def tv_ok_def Let_def)

lemma usecs_timevalfix:
  "- 2147483648 < tv_sec t \<Longrightarrow> tv_sec t < 2147483647 \<Longrightarrow> usecs (timevalfix t) = usecs t"
  by (simp add: timevalfix_def usecs_def Let_def s32_fits)

lemma tv_ok_timevalfix: "- 1000000 \<le> tv_usec t \<Longrightarrow> tv_usec t < 2000000 \<Longrightarrow> tv_ok (timevalfix t)"
  by (simp add: timevalfix_def tv_ok_def Let_def)

lemma usecs_timevaladd:
  "- 2147483648 < tv_sec s + tv_sec t \<Longrightarrow> tv_sec s + tv_sec t < 2147483647 \<Longrightarrow> usecs (timevaladd s t) = usecs s + usecs t"
  by (simp add: timevaladd_def s32_fits usecs_timevalfix) (simp add: usecs_def)

lemma usecs_timevalsub:
  "- 2147483648 < tv_sec s - tv_sec t \<Longrightarrow> tv_sec s - tv_sec t < 2147483647 \<Longrightarrow> usecs (timevalsub s t) = usecs s - usecs t"
  by (simp add: timevalsub_def s32_fits usecs_timevalfix) (simp add: usecs_def)

lemma tv_ok_timevaladd: "tv_ok s \<Longrightarrow> tv_ok t \<Longrightarrow> tv_ok (timevaladd s t)"
  unfolding timevaladd_def by (rule tv_ok_timevalfix) (auto simp: tv_ok_def)

lemma tv_ok_timevalsub: "tv_ok s \<Longrightarrow> tv_ok t \<Longrightarrow> tv_ok (timevalsub s t)"
  unfolding timevalsub_def by (rule tv_ok_timevalfix) (auto simp: tv_ok_def)

lemma timercmp_usecs: "tv_ok t \<Longrightarrow> tv_ok u \<Longrightarrow> timercmp_lt t u \<longleftrightarrow> usecs t < usecs u"
  by (auto simp: timercmp_lt_def usecs_def tv_ok_def)

lemma timerisset_usecs: "tv_ok t \<Longrightarrow> timerisset t \<longleftrightarrow> usecs t \<noteq> 0"
  by (cases "tv_sec t" "0 :: int" rule: linorder_cases) (auto simp: timerisset_def usecs_def tv_ok_def)

lemma tv_sec_small: "tv_ok t \<Longrightarrow> 0 \<le> usecs t \<Longrightarrow> usecs t < 1000000 \<Longrightarrow> tv_sec t = 0 \<and> tv_usec t = usecs t"
  by (cases "tv_sec t" "0 :: int" rule: linorder_cases) (auto simp: usecs_def tv_ok_def)

section \<open>Interval timers\<close>

text \<open>What \<^verbatim>\<open>setitimer\<close> stores: both parts normalised and not negative, and either
  zero or at least a clock tick.\<close>

definition part_ok :: "timeval \<Rightarrow> bool" where
  "part_ok tv \<longleftrightarrow> tv_ok tv \<and> (usecs tv = 0 \<or> tick \<le> usecs tv)"

definition it_ok :: "itimerval \<Rightarrow> bool" where
  "it_ok it \<longleftrightarrow> tv_ok (it_value it) \<and> 0 \<le> usecs (it_value it) \<and> part_ok (it_interval it)"

lemma itimerfix_ok: "itimerfix tv = Inr tv' \<Longrightarrow>
    part_ok tv' \<and> 0 \<le> tv_sec tv' \<and> tv_sec tv' \<le> 100000000 \<and> usecs tv \<le> usecs tv' \<and> usecs tv' < usecs tv + tick"
  by (auto simp: itimerfix_def part_ok_def tv_ok_def usecs_def tick_def split: if_splits)

lemma itimerfix_error: "(\<exists>e. itimerfix tv = Inl e) \<longleftrightarrow> \<not> (tv_ok tv \<and> 0 \<le> tv_sec tv \<and> tv_sec tv \<le> 100000000)"
  by (auto simp: itimerfix_def tv_ok_def)

text \<open>One decrement: the timer goes on with exactly \<open>usec\<close> less, or it expires and the
  overrun is charged to the next interval.\<close>

lemma itimer_expire_reload:
  assumes "part_ok (it_interval it)" "tv_sec (it_value it) = 0" "0 \<le> usec" "usec \<le> tick"
  shows "\<exists>it'. itimer_expire it usec = (it', False) \<and> it_ok it' \<and> it_interval it' = it_interval it \<and>
    usecs (it_value it') = (if usecs (it_interval it) = 0 then 0 else usecs (it_interval it) - usec)"
proof -
  have set: "timerisset (it_interval it) \<longleftrightarrow> usecs (it_interval it) \<noteq> 0"
    using assms(1) by (simp add: part_ok_def timerisset_usecs)
  then show ?thesis using assms
    by (auto simp: itimer_expire_def Let_def it_ok_def part_ok_def)
      (auto simp: tv_ok_def usecs_def tick_def)
qed

lemma itimerdecr_running:
  assumes "it_ok it" "0 < usec" "usec \<le> tick" "usec < usecs (it_value it)"
  shows "\<exists>it'. itimerdecr it usec = (it', True) \<and> it_ok it' \<and> it_interval it' = it_interval it \<and>
    usecs (it_value it') = usecs (it_value it) - usec"
  using assms
  by (cases it, cases "it_value it")
    (auto simp: itimerdecr_def it_ok_def tv_ok_def usecs_def timerisset_def tick_def Let_def)

lemma itimerdecr_expires:
  assumes ok: "it_ok it" and u: "0 < usec" "usec \<le> tick"
    and v: "0 < usecs (it_value it)" "usecs (it_value it) \<le> usec"
  shows "\<exists>it'. itimerdecr it usec = (it', False) \<and> it_ok it' \<and> it_interval it' = it_interval it \<and>
    usecs (it_value it') =
      (if usecs (it_interval it) = 0 then 0
       else usecs (it_value it) - usec + usecs (it_interval it))"
proof -
  have small: "tv_sec (it_value it) = 0" "tv_usec (it_value it) = usecs (it_value it)"
    using tv_sec_small [of "it_value it"] ok u v by (auto simp: it_ok_def tick_def)
  show ?thesis
  proof (cases "usecs (it_value it) < usec")
    case True
    then show ?thesis
      using itimer_expire_reload [of it "usec - usecs (it_value it)"] ok u v small
      by (auto simp: itimerdecr_def it_ok_def)
  next
    case False
    define it2 where "it2 = it\<lparr>it_value := (it_value it)\<lparr>tv_usec := 0\<rparr>\<rparr>"
    have "itimerdecr it usec = itimer_expire it2 0"
      using False v small by (simp add: itimerdecr_def it2_def timerisset_def Let_def)
    then show ?thesis
      using itimer_expire_reload [of it2 0] ok u False v small by (auto simp: it2_def it_ok_def tick_def)
  qed
qed

text \<open>The clock interrupt decrements a timer only while it is set.\<close>

definition timer_tick :: "itimerval \<Rightarrow> itimerval \<times> bool" where
  "timer_tick it =
     (if timerisset (it_value it)
      then let (it', running) = itimerdecr it tick in (it', \<not> running)
      else (it, False))"

fun timer_run :: "nat \<Rightarrow> itimerval \<Rightarrow> itimerval \<times> nat" where
  "timer_run 0 it = (it, 0)"
| "timer_run (Suc n) it =
     (let (it1, fired) = timer_tick it; (it2, k) = timer_run n it1 in
      (it2, (if fired then 1 else 0) + k))"

text \<open>Value and expiries after \<open>n\<close> ticks balance: no drift accumulates.\<close>

lemma timer_tick_balance:
  assumes "it_ok it" "0 < usecs (it_value it)" "0 < usecs (it_interval it)"
  shows "\<exists>it' fired. timer_tick it = (it', fired) \<and> it_ok it' \<and> it_interval it' = it_interval it \<and>
    0 < usecs (it_value it') \<and> (fired \<longrightarrow> usecs (it_value it') \<le> usecs (it_interval it)) \<and>
    (\<not> fired \<longrightarrow> usecs (it_value it') \<le> usecs (it_value it)) \<and>
    usecs (it_value it') + tick = usecs (it_value it) + (if fired then usecs (it_interval it) else 0)"
proof (cases "tick < usecs (it_value it)")
  case True
  obtain it' where it': "itimerdecr it tick = (it', True)" "it_ok it'" "it_interval it' = it_interval it"
      "usecs (it_value it') = usecs (it_value it) - tick"
    using itimerdecr_running [OF assms(1) _ _ True] by (auto simp: tick_def)
  have "timerisset (it_value it)" using assms by (simp add: timerisset_usecs it_ok_def)
  moreover have "0 < tick" by (simp add: tick_def)
  ultimately show ?thesis using it' True by (intro exI [of _ it'] exI [of _ False]) (simp add: timer_tick_def)
next
  case False
  obtain it' where it': "itimerdecr it tick = (it', False)" "it_ok it'" "it_interval it' = it_interval it"
      "usecs (it_value it') = usecs (it_value it) - tick + usecs (it_interval it)"
    using itimerdecr_expires [of it tick] False assms by (auto simp: tick_def)
  have "timerisset (it_value it)" using assms by (simp add: timerisset_usecs it_ok_def)
  moreover have "tick \<le> usecs (it_interval it)" using assms by (simp add: it_ok_def part_ok_def)
  ultimately show ?thesis using it' False assms by (intro exI [of _ it'] exI [of _ True]) (simp add: timer_tick_def)
qed

lemma timer_run_balance:
  assumes "it_ok it" "0 < usecs (it_value it)" "0 < usecs (it_interval it)"
    "timer_run n it = (it', k)"
  shows "it_ok it' \<and> it_interval it' = it_interval it \<and> 0 < usecs (it_value it') \<and>
    usecs (it_value it') \<le> (if k = 0 then usecs (it_value it) else usecs (it_interval it)) \<and>
    usecs (it_value it') + int n * tick = usecs (it_value it) + int k * usecs (it_interval it)"
  using assms
proof (induction n arbitrary: it it' k)
  case (Suc n)
  obtain it1 fired where t: "timer_tick it = (it1, fired)" "it_ok it1" "it_interval it1 = it_interval it"
      "0 < usecs (it_value it1)" "fired \<longrightarrow> usecs (it_value it1) \<le> usecs (it_interval it)"
      "\<not> fired \<longrightarrow> usecs (it_value it1) \<le> usecs (it_value it)"
      "usecs (it_value it1) + tick = usecs (it_value it) + (if fired then usecs (it_interval it) else 0)"
    using timer_tick_balance [OF Suc.prems(1-3)] by blast
  obtain k1 where r: "timer_run n it1 = (it', k1)" "k = (if fired then 1 else 0) + k1"
    using Suc.prems(4) t(1) by (auto split: prod.splits)
  show ?case
    using Suc.IH [OF t(2,4) _ r(1)] Suc.prems(3) t(3,5-7) r(2)
    by (cases fired; cases "k1 = 0") (simp_all add: algebra_simps)
qed auto

section \<open>Ticks until a time\<close>

lemma sdiv_bounds:
  assumes "0 < (d :: int)"
  shows "\<bar>x - d * (x sdiv d)\<bar> < d"
proof -
  have bounds: "\<bar>y - d * (y div d)\<bar> < d" for y
    using assms by (simp add: minus_mult_div_eq_mod)
  show ?thesis
  proof (cases "x < 0")
    case True
    then have "x - d * (x sdiv d) = - (- x - d * (- x div d))"
      using assms by (simp add: signed_divide_int_def)
    then show ?thesis using bounds [of "- x"] by simp
  next
    case False
    then show ?thesis using assms bounds [of x] by (cases "x = 0") (simp_all add: signed_divide_int_def)
  qed
qed

lemma sdiv_nonneg: "0 \<le> (x :: int) \<Longrightarrow> 0 < d \<Longrightarrow> x sdiv d = x div d"
  by (cases "x = 0") (auto simp: signed_divide_int_def)

lemma hzto_ms:
  assumes "tv_ok now" "tv_ok tv" "usecs now \<le> usecs tv" "tv_sec tv - tv_sec now \<le> 2146483"
  defines "ms \<equiv> (tv_sec tv - tv_sec now) * 1000 + (tv_usec tv - tv_usec now) sdiv 1000"
  shows "0 \<le> ms" "\<bar>1000 * ms - (usecs tv - usecs now)\<bar> < 1000" "hzto now tv = ms div 10"
proof -
  let ?u = "tv_usec tv - tv_usec now" and ?s = "tv_sec tv - tv_sec now"
  have u: "- 1000000 < ?u" "?u < 1000000" using assms by (auto simp: tv_ok_def)
  have q: "\<bar>?u - 1000 * (?u sdiv 1000)\<bar> < 1000" by (rule sdiv_bounds) simp
  have s: "0 \<le> ?s" using assms u by (simp add: usecs_def)
  show near: "\<bar>1000 * ms - (usecs tv - usecs now)\<bar> < 1000"
    using q by (simp add: ms_def usecs_def algebra_simps)
  then have "1000 * ms > - 1000" using assms(3) by linarith
  then show ms0: "0 \<le> ms" by linarith
  have "ms < 2147483648" using q u assms(4) by (simp add: ms_def)
  moreover have "s32 ?s = ?s" "s32 (?s * 1000) = ?s * 1000"
    using s assms(4) by (auto intro: s32_fits)
  then have "hzto now tv = s32 ms sdiv (tick sdiv 1000)"
    using assms(4) unfolding hzto_def ms_def Let_def by (simp only: if_P)
  ultimately show "hzto now tv = ms div 10" using ms0 by (simp add: s32_fits sdiv_nonneg tick_def)
qed

lemma hzto_near:
  assumes "tv_ok now" "tv_ok tv" "usecs now \<le> usecs tv" "tv_sec tv - tv_sec now \<le> 2146483"
  shows "0 \<le> hzto now tv \<and> hzto now tv * tick < usecs tv - usecs now + 1000 \<and>
    usecs tv - usecs now < (hzto now tv + 1) * tick"
proof -
  define ms where "ms = (tv_sec tv - tv_sec now) * 1000 + (tv_usec tv - tv_usec now) sdiv 1000"
  note h = hzto_ms [OF assms, folded ms_def]
  have "10 * (ms div 10) \<le> ms" "ms \<le> 10 * (ms div 10) + 9" by presburger+
  moreover have "1000 * ms < usecs tv - usecs now + 1000" "usecs tv - usecs now < 1000 * ms + 1000"
    using h(2) by linarith+
  ultimately show ?thesis using h(1,3) by (simp add: tick_def)
qed

section \<open>Properties\<close>

text \<open>
  Interval timers do not drift.  After \<open>n\<close> clock ticks a periodic timer has
  expired \<open>k\<close> times, where \<open>k\<close> is exactly the number of the times
  \<open>value, value + interval, value + 2 * interval, \<dots>\<close> that have passed by then; the
  timer stays armed, and what is left in it is the distance to the next of them.
\<close>

theorem itimer_no_drift:
  assumes "it_ok it" "0 < usecs (it_value it)" "0 < usecs (it_interval it)"
    and "timer_run n it = (it', k)"
  shows "it_interval it' = it_interval it \<and> 0 < usecs (it_value it') \<and>
    usecs (it_value it') = usecs (it_value it) + int k * usecs (it_interval it) - int n * tick \<and>
    int n * tick < usecs (it_value it) + int k * usecs (it_interval it) \<and>
    (0 < k \<longrightarrow> usecs (it_value it) + (int k - 1) * usecs (it_interval it) \<le> int n * tick)"
  using timer_run_balance [OF assms] by (cases "k = 0") (simp_all add: algebra_simps)

theorem itimer_no_drift_witness:
  "let it = \<lparr>it_interval = \<lparr>tv_sec = 0, tv_usec = 25000\<rparr>, it_value = \<lparr>tv_sec = 0, tv_usec = 15000\<rparr>\<rparr> in
   timer_run 10 it = (it, 4) \<and> 10 * tick < usecs (it_value it) + int 4 * usecs (it_interval it)"
proof -
  have run: "timer_run 10 \<lparr>it_interval = \<lparr>tv_sec = 0, tv_usec = 25000\<rparr>, it_value = \<lparr>tv_sec = 0, tv_usec = 15000\<rparr>\<rparr> =
      (\<lparr>it_interval = \<lparr>tv_sec = 0, tv_usec = 25000\<rparr>, it_value = \<lparr>tv_sec = 0, tv_usec = 15000\<rparr>\<rparr>, 4)"
    by code_simp
  have "int 10 * tick < usecs \<lparr>tv_sec = 0, tv_usec = 15000\<rparr> + int 4 * usecs \<lparr>tv_sec = 0, tv_usec = 25000\<rparr>"
    using itimer_no_drift [OF _ _ _ run] by (simp add: it_ok_def part_ok_def tv_ok_def usecs_def tick_def)
  then show ?thesis using run by simp
qed

text \<open>
  For a future time less than 24 days away, \<^verbatim>\<open>hzto\<close> gives the number of clock
  ticks until then, rounded down to whole ticks after rounding to a millisecond:
  a timeout of that many ticks is never late by a tick and early by less than a
  tick and a millisecond.
\<close>

theorem hzto_accurate:
  assumes "tv_ok now" "tv_ok tv" "usecs now \<le> usecs tv" "tv_sec tv - tv_sec now \<le> 2146483"
  shows "0 \<le> hzto now tv \<and> hzto now tv * tick < usecs tv - usecs now + 1000 \<and>
    usecs tv - usecs now < (hzto now tv + 1) * tick"
  by (rule hzto_near [OF assms])

theorem hzto_accurate_witness:
  "let now = \<lparr>tv_sec = 7, tv_usec = 999999\<rparr>; tv = \<lparr>tv_sec = 9, tv_usec = 500\<rparr> in
   hzto now tv = 100 \<and> hzto now tv * tick < usecs tv - usecs now + 1000"
proof -
  have "hzto \<lparr>tv_sec = 7, tv_usec = 999999\<rparr> \<lparr>tv_sec = 9, tv_usec = 500\<rparr> = 100" by code_simp
  then show ?thesis
    using hzto_accurate [of "\<lparr>tv_sec = 7, tv_usec = 999999\<rparr>" "\<lparr>tv_sec = 9, tv_usec = 500\<rparr>"]
    by (simp add: tv_ok_def usecs_def)
qed

text \<open>
  Times outside that range are not kept apart.  A time more than 24 days in
  the past gives, by wrap-around, a positive number of ticks, and every time more
  than 249 days ahead gives the same number, so a timer set within the limit of
  100000000 seconds that \<^verbatim>\<open>itimerfix\<close> admits can go off years early.
\<close>

theorem hzto_out_of_range:
  "(\<exists>now tv. tv_ok now \<and> tv_ok tv \<and> usecs tv < usecs now \<and> 0 < hzto now tv) \<and>
   (\<exists>now tv. tv_ok now \<and> tv_ok tv \<and> itimerfix (timevalsub tv now) = Inr (timevalsub tv now) \<and>
      hzto now tv * tick + 78000000 * 1000000 < usecs tv - usecs now)"
proof
  show "\<exists>now tv. tv_ok now \<and> tv_ok tv \<and> usecs tv < usecs now \<and> 0 < hzto now tv"
    by (rule exI [of _ "\<lparr>tv_sec = 3000000, tv_usec = 0\<rparr>"], rule exI [of _ "\<lparr>tv_sec = 0, tv_usec = 0\<rparr>"]) code_simp
  show "\<exists>now tv. tv_ok now \<and> tv_ok tv \<and> itimerfix (timevalsub tv now) = Inr (timevalsub tv now) \<and>
      hzto now tv * tick + 78000000 * 1000000 < usecs tv - usecs now"
    by (rule exI [of _ "\<lparr>tv_sec = 5, tv_usec = 0\<rparr>"], rule exI [of _ "\<lparr>tv_sec = 100000005, tv_usec = 0\<rparr>"]) code_simp
qed

end
