(* ===== verification/Callout.thy ===== *)
theory Callout
  imports Prelude
begin

text \<open>
  The callout queue of \<^verbatim>\<open>src/sys/kern/kern_clock.c\<close>: \<^verbatim>\<open>timeout\<close>, \<^verbatim>\<open>untimeout\<close>, and the
  parts of \<^verbatim>\<open>hardclock\<close> and \<^verbatim>\<open>softclock\<close> that age it and take events off it.  The linked
  lists \<^verbatim>\<open>calltodo\<close> and \<^verbatim>\<open>callfree\<close> are Isabelle lists; functions and arguments are
  addresses.  The abstraction \<open>events\<close> reads the delta-encoded list as a list of
  events with the ticks left to each, and every operation is shown to refine an
  operation on that sorted list.
\<close>

section \<open>Data and operations\<close>

record callout =
  c_func :: nat
  c_arg :: nat
  c_time :: int

record callouts =
  calltodo :: "callout list"
  callfree :: "callout list"

text \<open>The search loop of \<^verbatim>\<open>timeout\<close>: past the events that come before, with the
  deltas of the pending ones taken off \<open>t\<close>, then link the new element in.\<close>

fun timeout_insert :: "callout \<Rightarrow> int \<Rightarrow> callout list \<Rightarrow> callout list" where
  "timeout_insert pnew t [] = [pnew\<lparr>c_time := t\<rparr>]"
| "timeout_insert pnew t (p2 # q) =
     (if c_time p2 < t
      then p2 # timeout_insert pnew (if c_time p2 > 0 then t - c_time p2 else t) q
      else pnew\<lparr>c_time := t\<rparr> # p2\<lparr>c_time := c_time p2 - t\<rparr> # q)"

datatype panic = Panic string

definition timeout :: "nat \<Rightarrow> nat \<Rightarrow> int \<Rightarrow> 'k callouts_scheme \<Rightarrow> panic + 'k callouts_scheme" where
  "timeout func arg t s =
     (let t = (if t \<le> 0 then 1 else t) in
      case callfree s of
        [] \<Rightarrow> Inl (Panic ''timeout table overflow'')
      | pnew # free \<Rightarrow>
          Inr (s\<lparr>callfree := free,
                 calltodo := timeout_insert (pnew\<lparr>c_arg := arg, c_func := func\<rparr>) t (calltodo s)\<rparr>))"

text \<open>\<^verbatim>\<open>untimeout\<close> unlinks the first match, whose delta goes to its successor; the
  result carries the unlinked element.\<close>

fun untimeout_unlink :: "nat \<Rightarrow> nat \<Rightarrow> callout list \<Rightarrow> (callout \<times> callout list) option" where
  "untimeout_unlink func arg [] = None"
| "untimeout_unlink func arg (p2 # q) =
     (if c_func p2 = func \<and> c_arg p2 = arg
      then Some (p2, case q of
                       [] \<Rightarrow> []
                     | n # q' \<Rightarrow> if c_time p2 > 0 then n\<lparr>c_time := c_time n + c_time p2\<rparr> # q' else q)
      else map_option (apsnd (Cons p2)) (untimeout_unlink func arg q))"

definition untimeout :: "nat \<Rightarrow> nat \<Rightarrow> 'k callouts_scheme \<Rightarrow> 'k callouts_scheme" where
  "untimeout func arg s =
     (case untimeout_unlink func arg (calltodo s) of
        None \<Rightarrow> s
      | Some (p2, q) \<Rightarrow> s\<lparr>calltodo := q, callfree := p2 # callfree s\<rparr>)"

text \<open>The loop of \<^verbatim>\<open>hardclock\<close> over the queue, with the flag \<^verbatim>\<open>needsoft\<close>.\<close>

fun age :: "callout list \<Rightarrow> callout list \<times> bool" where
  "age [] = ([], False)"
| "age (p1 # q) =
     (let p1' = p1\<lparr>c_time := c_time p1 - 1\<rparr> in
      if c_time p1' > 0 then (p1' # q, False)
      else if c_time p1' = 0 then (p1' # q, True)
      else (p1' # fst (age q), True))"

definition hardclock_queue :: "'k callouts_scheme \<Rightarrow> 'k callouts_scheme \<times> bool" where
  "hardclock_queue s = (s\<lparr>calltodo := fst (age (calltodo s))\<rparr>, snd (age (calltodo s)))"

text \<open>The head of the loop of \<^verbatim>\<open>softclock\<close>: take a due event off the queue.\<close>

definition softclock_next :: "'k callouts_scheme \<Rightarrow> (callout \<times> 'k callouts_scheme) option" where
  "softclock_next s =
     (case calltodo s of
        [] \<Rightarrow> None
      | p1 # q \<Rightarrow> if c_time p1 > 0 then None
                  else Some (p1, s\<lparr>calltodo := q, callfree := p1 # callfree s\<rparr>))"

section \<open>The queue as a list of events\<close>

type_synonym event = "int \<times> nat \<times> nat"

text \<open>\<open>events_from d q\<close>: the ticks left to each event of \<open>q\<close>, \<open>d\<close> being the sum of the
  positive deltas before it.\<close>

fun events_from :: "int \<Rightarrow> callout list \<Rightarrow> event list" where
  "events_from d [] = []"
| "events_from d (c # q) = (d + c_time c, c_func c, c_arg c) # events_from (d + max 0 (c_time c)) q"

abbreviation events :: "callout list \<Rightarrow> event list" where
  "events \<equiv> events_from 0"

text \<open>The shape of the queue: due events, latest first or equal, then deltas that are
  not negative.\<close>

fun queue_ok :: "callout list \<Rightarrow> bool" where
  "queue_ok [] = True"
| "queue_ok (c # q) =
     ((if c_time c > 0 then \<forall>x \<in> set q. 0 \<le> c_time x
       else \<forall>x \<in> set q. c_time c \<le> c_time x) \<and> queue_ok q)"

abbreviation ticks_left :: "event \<Rightarrow> int" where "ticks_left \<equiv> fst"

lemma events_from_shift: "events_from (e + d) q = map (apfst ((+) e)) (events_from d q)"
  by (induction q arbitrary: d) (simp_all add: add.assoc)

lemma events_from_alt: "events_from d q = map (apfst ((+) d)) (events q)"
  using events_from_shift [of d 0 q] by simp

lemma length_events [simp]: "length (events_from d q) = length q"
  by (induction q arbitrary: d) simp_all

lemma events_from_lower:
  "\<forall>x \<in> set q. l \<le> c_time x \<Longrightarrow> e \<in> set (events_from d q) \<Longrightarrow> d + l \<le> ticks_left e"
proof (induction q arbitrary: d)
  case (Cons c q)
  have "d + max 0 (c_time c) + l \<le> ticks_left e" if "e \<in> set (events_from (d + max 0 (c_time c)) q)"
    using Cons that by simp
  moreover have "0 \<le> max 0 (c_time c)" by simp
  ultimately show ?case using Cons.prems by (smt (verit) events_from.simps(2) fst_conv list.set_intros(1) set_ConsD)
qed simp

lemma events_sorted: "queue_ok q \<Longrightarrow> sorted (map ticks_left (events_from d q))"
proof (induction q arbitrary: d)
  case (Cons c q)
  have "d + c_time c \<le> ticks_left e" if "e \<in> set (events_from (d + max 0 (c_time c)) q)" for e
    using Cons.prems that events_from_lower [of q "if c_time c > 0 then 0 else c_time c"]
    by (fastforce simp: max_def split: if_splits)
  then show ?case using Cons by auto
qed simp

section \<open>Each operation refines its abstract counterpart\<close>

lemma events_timeout_insert:
  "1 \<le> t \<Longrightarrow> events_from d (timeout_insert p t q) = insort_key ticks_left (d + t, c_func p, c_arg p) (events_from d q)"
proof (induction p t q arbitrary: d rule: timeout_insert.induct)
  case (2 p t p2 q)
  then show ?case by (auto simp: max_def)
qed simp

lemma timeout_insert_lower:
  "1 \<le> t \<Longrightarrow> l \<le> 0 \<Longrightarrow> \<forall>x \<in> set q. l \<le> c_time x \<Longrightarrow> \<forall>x \<in> set (timeout_insert p t q). l \<le> c_time x"
  by (induction p t q rule: timeout_insert.induct) auto

lemma queue_ok_timeout_insert: "1 \<le> t \<Longrightarrow> queue_ok q \<Longrightarrow> queue_ok (timeout_insert p t q)"
proof (induction p t q rule: timeout_insert.induct)
  case (2 p t p2 q)
  then show ?case
    using timeout_insert_lower [of "if c_time p2 > 0 then t - c_time p2 else t"
        "if c_time p2 > 0 then 0 else c_time p2" q p]
    by (auto split: if_splits)
qed simp

lemma length_timeout_insert [simp]: "length (timeout_insert p t q) = Suc (length q)"
  by (induction p t q rule: timeout_insert.induct) auto

fun cancel_first :: "nat \<Rightarrow> nat \<Rightarrow> event list \<Rightarrow> event list" where
  "cancel_first f a [] = []"
| "cancel_first f a (e # es) = (if snd e = (f, a) then es else e # cancel_first f a es)"

lemma events_unlink_None: "untimeout_unlink f a q = None \<Longrightarrow> cancel_first f a (events_from d q) = events_from d q"
  by (induction q arbitrary: d) (auto split: if_splits)

lemma events_unlink_Some:
  "untimeout_unlink f a q = Some (c, q') \<Longrightarrow> queue_ok q \<Longrightarrow>
   events_from d q' = cancel_first f a (events_from d q) \<and> length q = Suc (length q')"
proof (induction q arbitrary: d q')
  case (Cons p2 q)
  show ?case
  proof (cases "c_func p2 = f \<and> c_arg p2 = a")
    case True
    then show ?thesis using Cons.prems by (cases q) (auto simp: max_def algebra_simps)
  next
    case False
    then show ?thesis using Cons by auto
  qed
qed simp

lemma unlink_lower:
  "untimeout_unlink f a q = Some (c, q') \<Longrightarrow> \<forall>x \<in> set q. l \<le> c_time x \<Longrightarrow> \<forall>x \<in> set q'. l \<le> c_time x"
proof (induction q arbitrary: q')
  case (Cons p2 q)
  show ?case
  proof (cases "c_func p2 = f \<and> c_arg p2 = a")
    case True
    then show ?thesis using Cons.prems by (cases q) (auto split: if_splits)
  next
    case False
    then show ?thesis using Cons by auto
  qed
qed simp

lemma queue_ok_unlink: "untimeout_unlink f a q = Some (c, q') \<Longrightarrow> queue_ok q \<Longrightarrow> queue_ok q'"
proof (induction q arbitrary: q')
  case (Cons p2 q)
  show ?case
  proof (cases "c_func p2 = f \<and> c_arg p2 = a")
    case True
    then show ?thesis using Cons.prems by (auto split: list.splits if_splits)
  next
    case False
    then obtain q1 where q1: "untimeout_unlink f a q = Some (c, q1)" "q' = p2 # q1"
      using Cons.prems(1) by auto
    then show ?thesis
      using Cons unlink_lower [OF q1(1), of "if c_time p2 > 0 then 0 else c_time p2"] by (auto split: if_splits)
  qed
qed simp

abbreviation one_less :: "event \<Rightarrow> event" where "one_less \<equiv> apfst (\<lambda>t. t - 1)"

lemma events_age: "events (fst (age q)) = map one_less (events q)"
proof (induction q)
  case (Cons c q)
  have "events_from (c_time c - 1) q = map one_less (events_from (c_time c) q)"
    using events_from_shift [of "- 1" "c_time c" q] by simp
  note shift = this
  consider "c_time c \<le> 0" | "c_time c = 1" | "1 < c_time c" by linarith
  then show ?case
  proof cases
    case 1
    then show ?thesis using Cons by (simp add: Let_def)
  next
    case 2
    then show ?thesis using shift by (simp add: Let_def)
  next
    case 3
    then show ?thesis using shift by (simp add: Let_def)
  qed
qed simp

lemma age_lower: "\<forall>x \<in> set q. l \<le> c_time x \<Longrightarrow> \<forall>x \<in> set (fst (age q)). l - 1 \<le> c_time x"
  by (induction q) (auto simp: Let_def)

lemma queue_ok_age: "queue_ok q \<Longrightarrow> queue_ok (fst (age q))"
proof (induction q)
  case (Cons c q)
  then show ?case using age_lower [of q "c_time c"] by (auto simp: Let_def split: if_splits)
qed simp

lemma length_age [simp]: "length (fst (age q)) = length q"
  by (induction q) (auto simp: Let_def)

lemma age_needsoft: "snd (age q) \<longleftrightarrow> fst (age q) \<noteq> [] \<and> c_time (hd (fst (age q))) \<le> 0"
  by (cases q) (auto simp: Let_def)

lemma untimeout_spec:
  assumes "queue_ok (calltodo s)"
  shows "queue_ok (calltodo (untimeout f a s))"
    and "events (calltodo (untimeout f a s)) = cancel_first f a (events (calltodo s))"
    and "length (calltodo (untimeout f a s)) + length (callfree (untimeout f a s)) =
         length (calltodo s) + length (callfree s)"
proof -
  consider "untimeout_unlink f a (calltodo s) = None"
    | c q where "untimeout_unlink f a (calltodo s) = Some (c, q)" by (cases "untimeout_unlink f a (calltodo s)") auto
  note cases = this
  show "queue_ok (calltodo (untimeout f a s))"
    using assms by (cases rule: cases) (auto simp: untimeout_def intro: queue_ok_unlink)
  show "events (calltodo (untimeout f a s)) = cancel_first f a (events (calltodo s))"
    using assms by (cases rule: cases) (auto simp: untimeout_def events_unlink_None events_unlink_Some)
  show "length (calltodo (untimeout f a s)) + length (callfree (untimeout f a s)) =
      length (calltodo s) + length (callfree s)"
    using assms by (cases rule: cases) (auto simp: untimeout_def dest: events_unlink_Some)
qed

lemma timeout_spec:
  "timeout f a t s = Inl x \<longleftrightarrow> callfree s = [] \<and> x = Panic ''timeout table overflow''"
  "timeout f a t s = Inr s' \<Longrightarrow> queue_ok (calltodo s) \<Longrightarrow> queue_ok (calltodo s') \<and>
     events (calltodo s') = insort_key ticks_left (max 1 t, f, a) (events (calltodo s)) \<and>
     length (calltodo s') + length (callfree s') = length (calltodo s) + length (callfree s)"
  by (auto simp: timeout_def Let_def max_def queue_ok_timeout_insert events_timeout_insert split: list.splits)

lemma softclock_next_spec:
  assumes "queue_ok (calltodo s)"
  shows "softclock_next s = None \<longleftrightarrow> (\<forall>e \<in> set (events (calltodo s)). 0 < ticks_left e)"
    and "softclock_next s = Some (c, s') \<Longrightarrow> queue_ok (calltodo s') \<and> c_time c \<le> 0 \<and>
      events (calltodo s) = (c_time c, c_func c, c_arg c) # events (calltodo s') \<and>
      length (calltodo s') + length (callfree s') = length (calltodo s) + length (callfree s)"
  using assms events_sorted [OF assms, of 0]
  by (force simp: softclock_next_def split: list.splits if_splits)+

section \<open>The interface of a timer queue\<close>

text \<open>What the kernel relies on: a queue whose pending events are sorted by the ticks
  left to them, from which the due ones are taken in order.\<close>

locale timer_queue =
  fixes pending :: "'s \<Rightarrow> event list" and inv :: "'s \<Rightarrow> bool" and room :: "'s \<Rightarrow> nat"
    and schedule :: "nat \<Rightarrow> nat \<Rightarrow> int \<Rightarrow> 's \<Rightarrow> 'e + 's"
    and cancel :: "nat \<Rightarrow> nat \<Rightarrow> 's \<Rightarrow> 's"
    and advance :: "'s \<Rightarrow> 's"
    and take_due :: "'s \<Rightarrow> (event \<times> 's) option"
  assumes pending_sorted: "inv s \<Longrightarrow> sorted (map ticks_left (pending s))"
    and schedule_full: "(\<exists>x. schedule f a t s = Inl x) \<longleftrightarrow> room s = 0"
    and schedule: "inv s \<Longrightarrow> schedule f a t s = Inr s' \<Longrightarrow> inv s' \<and>
      pending s' = insort_key ticks_left (max 1 t, f, a) (pending s) \<and>
      length (pending s') + room s' = length (pending s) + room s"
    and cancel: "inv s \<Longrightarrow> inv (cancel f a s) \<and>
      pending (cancel f a s) = cancel_first f a (pending s) \<and>
      length (pending (cancel f a s)) + room (cancel f a s) = length (pending s) + room s"
    and advance: "inv s \<Longrightarrow> inv (advance s) \<and> pending (advance s) = map one_less (pending s) \<and>
      room (advance s) = room s"
    and take_due_None: "inv s \<Longrightarrow> take_due s = None \<longleftrightarrow> (\<forall>e \<in> set (pending s). 0 < ticks_left e)"
    and take_due_Some: "inv s \<Longrightarrow> take_due s = Some (e, s') \<Longrightarrow> inv s' \<and>
      pending s = e # pending s' \<and> ticks_left e \<le> 0 \<and>
      length (pending s') + room s' = length (pending s) + room s"

text \<open>Every interleaving of the queue operations: calls of \<^verbatim>\<open>timeout\<close> and
  \<^verbatim>\<open>untimeout\<close>, clock ticks, and turns of the software clock's loop.  The log
  records what was run and at which tick; the second component counts the ticks.\<close>

datatype qop = Timeout nat nat int | Untimeout nat nat | Tick | Soft

type_synonym log = "(nat \<times> event) list"

fun qrun :: "(nat \<Rightarrow> nat \<Rightarrow> int \<Rightarrow> 's \<Rightarrow> 'e + 's) \<Rightarrow> (nat \<Rightarrow> nat \<Rightarrow> 's \<Rightarrow> 's) \<Rightarrow> ('s \<Rightarrow> 's) \<Rightarrow>
    ('s \<Rightarrow> (event \<times> 's) option) \<Rightarrow> qop list \<Rightarrow> 's \<Rightarrow> nat \<Rightarrow> 'e + ('s \<times> nat \<times> log)" where
  "qrun sched canc adv nxt [] s n = Inr (s, n, [])"
| "qrun sched canc adv nxt (Timeout f a t # ops) s n =
     (case sched f a t s of Inl e \<Rightarrow> Inl e | Inr s' \<Rightarrow> qrun sched canc adv nxt ops s' n)"
| "qrun sched canc adv nxt (Untimeout f a # ops) s n = qrun sched canc adv nxt ops (canc f a s) n"
| "qrun sched canc adv nxt (Tick # ops) s n = qrun sched canc adv nxt ops (adv s) (Suc n)"
| "qrun sched canc adv nxt (Soft # ops) s n =
     (case nxt s of
        None \<Rightarrow> qrun sched canc adv nxt ops s n
      | Some (e, s') \<Rightarrow>
          map_sum id (\<lambda>(s2, n2, l). (s2, n2, (n, e) # l)) (qrun sched canc adv nxt ops s' n))"

fun touches :: "nat \<Rightarrow> nat \<Rightarrow> qop \<Rightarrow> bool" where
  "touches f a (Timeout g b t) \<longleftrightarrow> f = g \<and> a = b"
| "touches f a (Untimeout g b) \<longleftrightarrow> f = g \<and> a = b"
| "touches f a Tick \<longleftrightarrow> False"
| "touches f a Soft \<longleftrightarrow> False"

text \<open>The pending events of one function and argument, and the log entries for it.\<close>

definition of_fun :: "nat \<Rightarrow> nat \<Rightarrow> event list \<Rightarrow> event list" where
  "of_fun f a es = filter (\<lambda>e. snd e = (f, a)) es"

definition log_of :: "nat \<Rightarrow> nat \<Rightarrow> log \<Rightarrow> log" where
  "log_of f a l = filter (\<lambda>(n, e). snd e = (f, a)) l"

lemma of_fun_insort [simp]:
  "(g, b) \<noteq> (f, a) \<Longrightarrow> of_fun f a (insort_key ticks_left (t, g, b) es) = of_fun f a es"
  "sorted (map ticks_left es) \<Longrightarrow> of_fun f a (insort_key ticks_left (t, f, a) es) =
     insort_key ticks_left (t, f, a) (of_fun f a es)"
  by (auto simp: of_fun_def filter_insort_triv filter_insort)

lemma of_fun_cancel [simp]: "(g, b) \<noteq> (f, a) \<Longrightarrow> of_fun f a (cancel_first g b es) = of_fun f a es"
  by (induction es) (auto simp: of_fun_def)

lemma length_cancel_first: "length (cancel_first f a es) \<le> length es"
  by (induction es) auto

lemma of_fun_one_less [simp]: "of_fun f a (map one_less es) = map one_less (of_fun f a es)"
  by (induction es) (auto simp: of_fun_def)

lemma of_fun_Cons: "of_fun f a (e # es) = (if snd e = (f, a) then e # of_fun f a es else of_fun f a es)"
  by (simp add: of_fun_def)

lemma log_of_Cons: "log_of f a ((n, e) # l) = (if snd e = (f, a) then (n, e) # log_of f a l else log_of f a l)"
  by (simp add: log_of_def)

lemma log_of_Nil [simp]: "log_of f a [] = []"
  by (simp add: log_of_def)

context timer_queue
begin

abbreviation runs :: "qop list \<Rightarrow> 's \<Rightarrow> nat \<Rightarrow> 'e + ('s \<times> nat \<times> log)" where
  "runs \<equiv> qrun schedule cancel advance take_due"

lemma runs_inv:
  "runs ops s n = Inr (s', n', l) \<Longrightarrow> inv s \<Longrightarrow> inv s' \<and>
   length (pending s') + room s' = length (pending s) + room s \<and> n \<le> n'"
proof (induction ops arbitrary: s n l)
  case (Cons op ops)
  show ?case
  proof (cases op)
    case (Timeout f a t)
    then show ?thesis using Cons schedule by (fastforce split: sum.splits)
  next
    case (Untimeout f a)
    then show ?thesis using Cons cancel by fastforce
  next
    case Tick
    then show ?thesis using Cons.prems Cons.IH [of "advance s" "Suc n" l] advance [of s] by force
  next
    case Soft
    show ?thesis
    proof (cases "take_due s")
      case None
      then show ?thesis using Cons Soft by simp
    next
      case (Some r)
      obtain e s1 where r: "r = (e, s1)" by (cases r)
      then obtain l1 where l1: "runs ops s1 n = Inr (s', n', l1)"
        using Cons.prems Soft Some by (cases "runs ops s1 n") auto
      then show ?thesis using Cons.IH [OF l1] take_due_Some [of s e s1] Cons.prems(2) Some r by simp
    qed
  qed
qed simp

text \<open>An event with no pending instance and no operation on it is never run.\<close>

lemma runs_absent:
  "runs ops s n = Inr (s', n', l) \<Longrightarrow> inv s \<Longrightarrow> of_fun f a (pending s) = [] \<Longrightarrow>
   \<forall>op \<in> set ops. \<not> touches f a op \<Longrightarrow> of_fun f a (pending s') = [] \<and> log_of f a l = []"
proof (induction ops arbitrary: s n l)
  case (Cons op ops)
  show ?case
  proof (cases op)
    case (Timeout g b t)
    then show ?thesis using Cons schedule by (fastforce split: sum.splits)
  next
    case (Untimeout g b)
    then show ?thesis using Cons.prems Cons.IH [of "cancel g b s" n l] cancel [of s g b] by auto
  next
    case Tick
    then show ?thesis using Cons.prems Cons.IH [of "advance s" "Suc n" l] advance [of s] by simp
  next
    case Soft
    show ?thesis
    proof (cases "take_due s")
      case None
      then show ?thesis using Cons Soft by simp
    next
      case (Some r)
      obtain e s1 where r: "r = (e, s1)" by (cases r)
      then obtain l1 where l1: "runs ops s1 n = Inr (s', n', l1)" "l = (n, e) # l1"
        using Cons.prems Soft Some by (cases "runs ops s1 n") auto
      then show ?thesis
        using Cons.IH [OF l1(1)] Cons.prems take_due_Some [of s e s1] Some r
        by (auto simp: of_fun_Cons log_of_Cons split: if_splits)
    qed
  qed
qed simp

text \<open>One pending instance with \<open>T\<close> ticks left at tick \<open>n\<close>: it stays pending until it
  is run, once, when it is due.\<close>

lemma runs_one:
  "runs ops s n = Inr (s', n', l) \<Longrightarrow> inv s \<Longrightarrow> of_fun f a (pending s) = [(T, f, a)] \<Longrightarrow>
   \<forall>op \<in> set ops. \<not> touches f a op \<Longrightarrow>
   of_fun f a (pending s') = [(T - (int n' - int n), f, a)] \<and> log_of f a l = [] \<or>
   (\<exists>k. n \<le> k \<and> k \<le> n' \<and> T \<le> int k - int n \<and> of_fun f a (pending s') = [] \<and>
        log_of f a l = [(k, (T - (int k - int n), f, a))])"
proof (induction ops arbitrary: s n l T)
  case (Cons op ops)
  show ?case
  proof (cases op)
    case (Timeout g b t)
    then obtain s1 where s1: "schedule g b t s = Inr s1" "runs ops s1 n = Inr (s', n', l)"
      using Cons.prems by (auto split: sum.splits)
    moreover have "(g, b) \<noteq> (f, a)" using Cons.prems(4) Timeout by auto
    ultimately show ?thesis using Cons.IH [OF s1(2)] Cons.prems schedule [OF _ s1(1)] by auto
  next
    case (Untimeout g b)
    moreover have "(g, b) \<noteq> (f, a)" using Cons.prems(4) Untimeout by auto
    ultimately show ?thesis using Cons.prems Cons.IH [of "cancel g b s" n l T] cancel [of s g b] by auto
  next
    case Tick
    then have "runs ops (advance s) (Suc n) = Inr (s', n', l)" using Cons.prems by simp
    then show ?thesis
      using Cons.prems Cons.IH [of "advance s" "Suc n" l "T - 1"] advance [of s]
      by (auto simp: algebra_simps intro: Suc_leD)
  next
    case Soft
    show ?thesis
    proof (cases "take_due s")
      case None
      then show ?thesis using Cons Soft by simp
    next
      case (Some r)
      obtain e s1 where r: "r = (e, s1)" by (cases r)
      then obtain l1 where l1: "runs ops s1 n = Inr (s', n', l1)" "l = (n, e) # l1"
        using Cons.prems Soft Some by (cases "runs ops s1 n") auto
      have d: "inv s1" "pending s = e # pending s1" "ticks_left e \<le> 0"
        using take_due_Some Cons.prems(2) Some r by auto
      show ?thesis
      proof (cases "snd e = (f, a)")
        case True
        then have "e = (T, f, a)" "of_fun f a (pending s1) = []"
          using Cons.prems(3) d(2) by (auto simp: of_fun_Cons)
        then show ?thesis
          using runs_absent [OF l1(1) d(1)] Cons.prems(4) d(3) l1(2) runs_inv [OF l1(1) d(1)]
          by (auto simp: log_of_Cons)
      next
        case False
        then show ?thesis
          using Cons.IH [OF l1(1) d(1)] Cons.prems d(2) l1(2) by (auto simp: of_fun_Cons log_of_Cons)
      qed
    qed
  qed
qed simp

lemma fires_once_on_time:
  assumes "inv s" "of_fun f a (pending s) = []" "schedule f a t s = Inr s0"
    and "runs ops s0 0 = Inr (s', n, l)" "\<forall>op \<in> set ops. \<not> touches f a op"
  shows "of_fun f a (pending s') = [(max 1 t - int n, f, a)] \<and> log_of f a l = [] \<and>
      (max 1 t \<le> int n \<longrightarrow> take_due s' \<noteq> None) \<or>
    (\<exists>k \<le> n. max 1 t \<le> int k \<and> of_fun f a (pending s') = [] \<and>
      log_of f a l = [(k, (max 1 t - int k, f, a))])"
proof -
  have s0: "inv s0" "of_fun f a (pending s0) = [(max 1 t, f, a)]"
    using schedule [OF assms(1,3)] pending_sorted [OF assms(1)] assms(2) by auto
  have "take_due s' \<noteq> None" if "of_fun f a (pending s') = [(d, f, a)]" "d \<le> 0" for d
  proof -
    have "(d, f, a) \<in> set (of_fun f a (pending s'))" using that by simp
    then have "(d, f, a) \<in> set (pending s')" by (auto simp: of_fun_def)
    then show ?thesis using take_due_None runs_inv [OF assms(4) s0(1)] that(2) by force
  qed
  then show ?thesis using runs_one [OF assms(4) s0 assms(5)] by fastforce
qed

lemma never_overflows:
  "inv s \<Longrightarrow> length (filter (\<lambda>op. \<exists>f a t. op = Timeout f a t) ops) \<le> room s \<Longrightarrow>
   \<exists>r. runs ops s n = Inr r"
proof (induction ops arbitrary: s n)
  case (Cons op ops)
  show ?case
  proof (cases op)
    case (Timeout f a t)
    then have "room s \<noteq> 0" using Cons.prems by auto
    then obtain s1 where s1: "schedule f a t s = Inr s1" using schedule_full [of f a t s] by (cases "schedule f a t s") auto
    then have "inv s1" "room s \<le> Suc (room s1)" using schedule [OF Cons.prems(1) s1] by auto
    then show ?thesis using Cons Timeout s1 by simp
  next
    case (Untimeout f a)
    have "length (cancel_first f a (pending s)) + room (cancel f a s) = length (pending s) + room s"
      using cancel [OF Cons.prems(1), of f a] by metis
    then have "room s \<le> room (cancel f a s)" using length_cancel_first [of f a "pending s"] by linarith
    then show ?thesis using Cons Untimeout cancel [OF Cons.prems(1), of f a] by simp
  next
    case Tick
    then show ?thesis using Cons advance [of s] by simp
  next
    case Soft
    show ?thesis
    proof (cases "take_due s")
      case None
      then show ?thesis using Cons Soft by simp
    next
      case (Some r)
      obtain e s1 where r: "r = (e, s1)" by (cases r)
      then have "inv s1" "room s \<le> room s1" using take_due_Some [of s e s1] Cons.prems(1) Some by auto
      then obtain x where "runs ops s1 n = Inr x" using Cons.IH [of s1 n] Cons.prems(2) Soft by auto
      then show ?thesis using Soft Some r by (cases x) simp
    qed
  qed
qed simp

end

text \<open>The callouts of the kernel provide that interface.\<close>

definition softclock_event :: "'k callouts_scheme \<Rightarrow> (event \<times> 'k callouts_scheme) option" where
  "softclock_event s = map_option (\<lambda>(c, s'). ((c_time c, c_func c, c_arg c), s')) (softclock_next s)"

definition hardclock_age :: "'k callouts_scheme \<Rightarrow> 'k callouts_scheme" where
  "hardclock_age s = fst (hardclock_queue s)"

interpretation co: timer_queue "\<lambda>s. events (calltodo s)" "\<lambda>s. queue_ok (calltodo s)"
  "\<lambda>s. length (callfree s)" timeout untimeout hardclock_age softclock_event
proof unfold_locales
  fix s :: "'k callouts_scheme" and f a t
  show "(\<exists>x. timeout f a t s = Inl x) \<longleftrightarrow> length (callfree s) = 0"
    by (simp add: timeout_spec(1))
next
  fix s s' :: "'k callouts_scheme" and f a t
  assume "queue_ok (calltodo s)" "timeout f a t s = Inr s'"
  then show "queue_ok (calltodo s') \<and>
      events (calltodo s') = insort_key ticks_left (max 1 t, f, a) (events (calltodo s)) \<and>
      length (events (calltodo s')) + length (callfree s') = length (events (calltodo s)) + length (callfree s)"
    using timeout_spec(2) by fastforce
next
  fix s :: "'k callouts_scheme" and f a
  assume "queue_ok (calltodo s)"
  then show "queue_ok (calltodo (untimeout f a s)) \<and>
      events (calltodo (untimeout f a s)) = cancel_first f a (events (calltodo s)) \<and>
      length (events (calltodo (untimeout f a s))) + length (callfree (untimeout f a s)) =
      length (events (calltodo s)) + length (callfree s)"
    by (intro conjI; (simp only: length_events)?; intro untimeout_spec)
next
  fix s s' :: "'k callouts_scheme" and e
  assume "queue_ok (calltodo s)" "softclock_event s = Some (e, s')"
  then show "queue_ok (calltodo s') \<and> events (calltodo s) = e # events (calltodo s') \<and> ticks_left e \<le> 0 \<and>
      length (events (calltodo s')) + length (callfree s') = length (events (calltodo s)) + length (callfree s)"
    using softclock_next_spec(2) [of s] by (auto simp: softclock_event_def)
qed (auto simp: events_sorted hardclock_age_def hardclock_queue_def queue_ok_age events_age
    softclock_event_def softclock_next_spec(1))

section \<open>Properties\<close>

text \<open>
  C26: a timeout is run exactly once and on time, under every interleaving of
  other timeouts, cancellations, clock ticks and turns of the software clock's
  loop.  After \<open>n\<close> ticks either it is still pending with \<open>max 1 t - n\<close> ticks
  left (and, if that is not positive, the loop of \<^verbatim>\<open>softclock\<close> goes on), or it was
  run once, at a tick not before its time, and was passed the ticks it was late.
\<close>

theorem timeout_fires_once_on_time:
  fixes s s0 s' :: callouts
  assumes "queue_ok (calltodo s)" "of_fun f a (events (calltodo s)) = []" "timeout f a t s = Inr s0"
    and "qrun timeout untimeout hardclock_age softclock_event ops s0 0 = Inr (s', n, l)"
    and "\<forall>op \<in> set ops. \<not> touches f a op"
  shows "of_fun f a (events (calltodo s')) = [(max 1 t - int n, f, a)] \<and> log_of f a l = [] \<and>
      (max 1 t \<le> int n \<longrightarrow> softclock_event s' \<noteq> None) \<or>
    (\<exists>k \<le> n. max 1 t \<le> int k \<and> of_fun f a (events (calltodo s')) = [] \<and>
      log_of f a l = [(k, (max 1 t - int k, f, a))])"
  by (rule co.fires_once_on_time [OF assms])

definition table4 :: callouts where
  "table4 = \<lparr>calltodo = [], callfree = replicate 4 \<lparr>c_func = 0, c_arg = 0, c_time = 0\<rparr>\<rparr>"

theorem timeout_fires_once_on_time_witness:
  "\<exists>s' l. qrun timeout untimeout hardclock_age softclock_event
       [Timeout 7 1 5, Timeout 8 1 1, Tick, Soft, Tick, Untimeout 7 1, Tick, Soft, Soft] (projr (timeout 9 2 2 table4)) 0 =
       Inr (s', 3, l) \<and> l = [(1, (0, 8, 1)), (3, (- 1, 9, 2))] \<and> log_of 9 2 l = [(3, (- 1, 9, 2))]"
proof -
  let ?ops = "[Timeout 7 1 5, Timeout 8 1 1, Tick, Soft, Tick, Untimeout 7 1, Tick, Soft, Soft]"
  obtain s0 where s0: "timeout 9 2 2 table4 = Inr s0" by (simp add: timeout_def table4_def eval_nat_numeral)
  obtain s' where r: "qrun timeout untimeout hardclock_age softclock_event ?ops (projr (timeout 9 2 2 table4)) 0 =
      Inr (s', 3, [(1, (0, 8, 1)), (3, (- 1, 9, 2))])"
    by (simp add: timeout_def untimeout_def table4_def hardclock_age_def hardclock_queue_def softclock_event_def
        softclock_next_def Let_def eval_nat_numeral)
  have "log_of 9 2 [(1, (0, 8, 1)), (3, (- 1, 9, 2))] = [(3 :: nat, (- 1 :: int, 9, 2))]"
    using timeout_fires_once_on_time [of table4 9 2 2 s0 ?ops s' 3 "[(1, (0, 8, 1)), (3, (- 1, 9, 2))]"] r s0
    by (simp add: table4_def of_fun_def log_of_def)
  then show ?thesis using r by auto
qed

text \<open>
  C35: the callout table never loses or creates an entry, and \<^verbatim>\<open>timeout\<close> panics
  only when the table is full: a run with no more timeouts than there were free
  entries goes through, and afterwards the pending and the free entries are as
  many as before.
\<close>

theorem callout_table_conserved:
  fixes s :: callouts
  assumes "queue_ok (calltodo s)"
    and "length (filter (\<lambda>op. \<exists>f a t. op = Timeout f a t) ops) \<le> length (callfree s)"
  shows "\<exists>s' n l. qrun timeout untimeout hardclock_age softclock_event ops s 0 = Inr (s', n, l) \<and>
    queue_ok (calltodo s') \<and>
    length (calltodo s') + length (callfree s') = length (calltodo s) + length (callfree s)"
proof -
  obtain s' n l where r: "qrun timeout untimeout hardclock_age softclock_event ops s 0 = Inr (s', n, l)"
    using co.never_overflows [OF assms, of 0] by auto
  then show ?thesis using co.runs_inv [OF r assms(1)] by auto
qed

theorem callout_table_conserved_witness:
  "\<exists>s' n l. qrun timeout untimeout hardclock_age softclock_event [Timeout 1 1 3, Timeout 2 1 1, Tick, Soft] table4 0 =
     Inr (s', n, l) \<and> length (calltodo s') + length (callfree s') = 4"
  using callout_table_conserved [of table4 "[Timeout 1 1 3, Timeout 2 1 1, Tick, Soft]"]
  by (auto simp: table4_def)

end
