(* ===== verification/Clock.thy ===== *)
theory Clock
  imports Timeval Callout Cred
begin

text \<open>
  The clock interrupts and the timer system calls: \<^verbatim>\<open>hardclock\<close>, \<^verbatim>\<open>gatherstats\<close> and
  \<^verbatim>\<open>softclock\<close> of \<^verbatim>\<open>src/sys/kern/kern_clock.c\<close>, \<^verbatim>\<open>setpri\<close> of
  \<^verbatim>\<open>src/sys/kern/kern_synch.c\<close>, and \<^verbatim>\<open>settimeofday\<close>, \<^verbatim>\<open>adjtime\<close>, \<^verbatim>\<open>getitimer\<close>,
  \<^verbatim>\<open>setitimer\<close> and \<^verbatim>\<open>realitexpire\<close> of \<^verbatim>\<open>src/sys/kern/kern_time.c\<close>.  The kernel state
  extends the callout record with the time of day, the statistics and the
  processes; signals are recorded in the order in which \<^verbatim>\<open>psignal\<close> is called.  The
  functions called from the callout queue are an argument of \<^verbatim>\<open>softclock\<close>.
\<close>

section \<open>State\<close>

record vmspace =
  vm_tsize :: int
  vm_dsize :: int
  vm_ssize :: int
  resident_count :: int

record cproc =
  p_utime :: timeval
  p_stime :: timeval
  p_timer :: "nat \<Rightarrow> itimerval"
  p_realtimer :: itimerval
  pr_scale :: u32
  p_soweupc :: bool
  ru_ixrss :: int
  ru_idrss :: int
  ru_isrss :: int
  ru_maxrss :: int
  p_vmspace :: "vmspace option"
  rlim_cur :: int
  rlim_max :: int
  p_cpticks :: int
  p_cpu :: u32
  p_pri :: u8
  p_usrpri :: u8
  p_nice :: int
  p_ucred :: ucred
  p_acct :: u16

record clk = callouts +
  time :: timeval
  boottime :: timeval
  tz :: "int \<times> int"
  tickdelta :: int
  timedelta :: int
  phz :: int
  cp_time :: "int list"
  dk_busy :: u32
  dk_time :: "int list"
  procs :: "nat \<Rightarrow> cproc"
  curproc :: "nat option"
  curpri :: u8
  want_resched :: int
  astpending :: int
  softclock_pending :: bool
  signals :: "(nat \<times> nat) list"

record clockframe =
  usermode :: bool
  basepri :: bool

abbreviation (input) SIGALRM :: nat where "SIGALRM \<equiv> 14"
abbreviation (input) SIGXCPU :: nat where "SIGXCPU \<equiv> 24"
abbreviation (input) SIGVTALRM :: nat where "SIGVTALRM \<equiv> 26"
abbreviation (input) SIGPROF :: nat where "SIGPROF \<equiv> 27"
abbreviation (input) ITIMER_REAL :: nat where "ITIMER_REAL \<equiv> 0"
abbreviation (input) ITIMER_VIRTUAL :: nat where "ITIMER_VIRTUAL \<equiv> 1"
abbreviation (input) ITIMER_PROF :: nat where "ITIMER_PROF \<equiv> 2"
abbreviation (input) PUSER :: u32 where "PUSER \<equiv> 50"
abbreviation (input) MAXPRI :: u32 where "MAXPRI \<equiv> 127"
abbreviation (input) NZERO :: int where "NZERO \<equiv> 0"
abbreviation (input) NBPG :: int where "NBPG \<equiv> 4096"

definition upd_proc :: "nat \<Rightarrow> (cproc \<Rightarrow> cproc) \<Rightarrow> clk \<Rightarrow> clk" where
  "upd_proc p f s = s\<lparr>procs := (procs s)(p := f (procs s p))\<rparr>"

definition psignal :: "nat \<Rightarrow> nat \<Rightarrow> clk \<Rightarrow> clk" where
  "psignal p sig s = s\<lparr>signals := signals s @ [(p, sig)]\<rparr>"

definition need_resched :: "clk \<Rightarrow> clk" where
  "need_resched s = s\<lparr>want_resched := want_resched s + 1, astpending := astpending s + 1\<rparr>"

text \<open>\<^verbatim>\<open>setpri\<close>, with \<^verbatim>\<open>newpri\<close> an unsigned integer.\<close>

definition newpri :: "cproc \<Rightarrow> u32" where
  "newpri pr = min (PUSER + p_cpu pr div 4 + word_of_int (2 * p_nice pr)) MAXPRI"

definition setpri :: "nat \<Rightarrow> clk \<Rightarrow> clk" where
  "setpri p s =
     (let n = newpri (procs s p);
          s1 = upd_proc p (\<lambda>pr. pr\<lparr>p_usrpri := ucast n\<rparr>) s in
      if n < ucast (curpri s) then need_resched s1 else s1)"

section \<open>The hardware clock\<close>

text \<open>A process-virtual timer: decrement it while it is set, signal when it expires.\<close>

definition virtual_timer :: "nat \<Rightarrow> nat \<Rightarrow> nat \<Rightarrow> clk \<Rightarrow> clk" where
  "virtual_timer which sig p s =
     (let (it, fired) = timer_tick (p_timer (procs s p) which);
          s1 = upd_proc p (\<lambda>pr. pr\<lparr>p_timer := (p_timer pr)(which := it)\<rparr>) s in
      if fired then psignal p sig s1 else s1)"

text \<open>Charge the tick by the mode the processor is in.  A frame from user mode with
  no current process makes the code use an uninitialised pointer: \<open>None\<close>.\<close>

definition hc_charge :: "clockframe \<Rightarrow> clk \<Rightarrow> (clk \<times> bool) option" where
  "hc_charge frame s =
     (if usermode frame then
        case curproc s of
          None \<Rightarrow> None
        | Some p \<Rightarrow>
            let s1 = upd_proc p (\<lambda>pr. pr\<lparr>p_utime := BUMPTIME (p_utime pr) tick\<rparr>) s in
            Some (virtual_timer ITIMER_VIRTUAL SIGVTALRM p s1, pr_scale (procs s p) \<noteq> 0)
      else
        case curproc s of
          None \<Rightarrow> Some (s, False)
        | Some p \<Rightarrow> Some (upd_proc p (\<lambda>pr. pr\<lparr>p_stime := BUMPTIME (p_stime pr) tick\<rparr>) s, False))"

definition hc_rusage :: "clk \<Rightarrow> clk" where
  "hc_rusage s =
     (case curproc s of
        None \<Rightarrow> s
      | Some p \<Rightarrow>
          case p_vmspace (procs s p) of
            None \<Rightarrow> s
          | Some vm \<Rightarrow>
              upd_proc p (\<lambda>pr. pr\<lparr>
                ru_ixrss := ru_ixrss pr + vm_tsize vm * NBPG div 1024,
                ru_idrss := ru_idrss pr + vm_dsize vm * NBPG div 1024,
                ru_isrss := ru_isrss pr + vm_ssize vm * NBPG div 1024,
                ru_maxrss := (if resident_count vm * NBPG div 1024 > ru_maxrss pr
                              then resident_count vm * NBPG div 1024 else ru_maxrss pr)\<rparr>) s)"

definition hc_cpulimit :: "nat \<Rightarrow> clk \<Rightarrow> clk" where
  "hc_cpulimit p s =
     (let pr = procs s p in
      if tv_sec (p_utime pr) + tv_sec (p_stime pr) + 1 > rlim_cur pr then
        let s1 = psignal p SIGXCPU s in
        if rlim_cur pr < rlim_max pr
        then upd_proc p (\<lambda>pr. pr\<lparr>rlim_cur := rlim_cur pr + 5\<rparr>) s1 else s1
      else s)"

text \<open>\<^verbatim>\<open>if (++p->p_cpu == 0) p->p_cpu--;\<close>\<close>

definition bump_cpu :: "u32 \<Rightarrow> u32" where
  "bump_cpu c = (if c + 1 = 0 then c + 1 - 1 else c + 1)"

definition hc_priority :: "nat \<Rightarrow> clk \<Rightarrow> clk" where
  "hc_priority p s =
     (let s1 = upd_proc p (\<lambda>pr. pr\<lparr>p_cpticks := p_cpticks pr + 1, p_cpu := bump_cpu (p_cpu pr)\<rparr>) s in
      if p_cpu (procs s1 p) AND 3 = 0 then
        let s2 = setpri p s1 in
        if p_pri (procs s2 p) \<ge> 50
        then upd_proc p (\<lambda>pr. pr\<lparr>p_pri := p_usrpri pr\<rparr>) s2 else s2
      else s1)"

definition hc_process :: "clk \<Rightarrow> clk" where
  "hc_process s =
     (case curproc s of
        None \<Rightarrow> s
      | Some p \<Rightarrow> hc_priority p (virtual_timer ITIMER_PROF SIGPROF p (hc_cpulimit p s)))"

definition gatherstats :: "clockframe \<Rightarrow> clk \<Rightarrow> clk" where
  "gatherstats frame s =
     (let cpstate = (if usermode frame
                     then (case curproc s of None \<Rightarrow> 0 | Some p \<Rightarrow> if p_nice (procs s p) > NZERO then 1 else 0)
                     else if curproc s = None \<and> basepri frame then 3 else 2) in
      s\<lparr>cp_time := (cp_time s)[cpstate := cp_time s ! cpstate + 1],
        dk_time := map (\<lambda>(i, t). if dk_busy s AND push_bit i 1 \<noteq> 0 then t + 1 else t)
                     (enumerate 0 (dk_time s))\<rparr>)"

definition hc_time :: "clk \<Rightarrow> clk" where
  "hc_time s =
     (if timedelta s = 0 then s\<lparr>time := BUMPTIME (time s) tick\<rparr>
      else if timedelta s < 0 then
        s\<lparr>timedelta := timedelta s + tickdelta s, time := BUMPTIME (time s) (tick - tickdelta s)\<rparr>
      else
        s\<lparr>timedelta := timedelta s - tickdelta s, time := BUMPTIME (time s) (tick + tickdelta s)\<rparr>)"

definition hardclock :: "clockframe \<Rightarrow> clk \<Rightarrow> clk option" where
  "hardclock frame s =
     (let (s1, due) = hardclock_queue s in
      case hc_charge frame s1 of
        None \<Rightarrow> None
      | Some (s2, prof) \<Rightarrow>
          let s3 = hc_process (hc_rusage s2);
              s4 = (if phz s3 = 0 then gatherstats frame s3 else s3);
              s5 = hc_time s4 in
          Some (if due \<or> prof then s5\<lparr>softclock_pending := True\<rparr> else s5))"

section \<open>The software clock\<close>

type_synonym handler = "nat \<Rightarrow> nat \<Rightarrow> int \<Rightarrow> clk \<Rightarrow> (panic + clk) option"

text \<open>The loop over due events; \<open>None\<close> when the fuel, a number of turns, is used up or
  a called function does not return.  The result carries the calls made.\<close>

fun softclock_loop :: "handler \<Rightarrow> nat \<Rightarrow> clk \<Rightarrow> (panic + (clk \<times> event list)) option" where
  "softclock_loop h 0 s = None"
| "softclock_loop h (Suc n) s =
     (case softclock_event s of
        None \<Rightarrow> Some (Inr (s, []))
      | Some ((a, func, arg), s1) \<Rightarrow>
          (case h func arg a s1 of
             None \<Rightarrow> None
           | Some (Inl e) \<Rightarrow> Some (Inl e)
           | Some (Inr s2) \<Rightarrow> map_option (map_sum id (apsnd (Cons (a, func, arg)))) (softclock_loop h n s2)))"

definition softclock_process :: "clockframe \<Rightarrow> clk \<Rightarrow> clk" where
  "softclock_process frame s =
     (case curproc s of
        None \<Rightarrow> s
      | Some p \<Rightarrow>
          if usermode frame then
            let s1 = (if pr_scale (procs s p) \<noteq> 0
                      then (upd_proc p (\<lambda>pr. pr\<lparr>p_soweupc := True\<rparr>) s)\<lparr>astpending := astpending s + 1\<rparr>
                      else s);
                pr = procs s1 p in
            if cr_uid (p_ucred pr) \<noteq> 0 \<and> p_nice pr = NZERO \<and> tv_sec (p_utime pr) > 10 * 60 then
              upd_proc p (\<lambda>pr. pr\<lparr>p_pri := p_usrpri pr\<rparr>)
                (setpri p (upd_proc p (\<lambda>pr. pr\<lparr>p_nice := NZERO + 4\<rparr>) s1))
            else s1
          else s)"

definition softclock :: "handler \<Rightarrow> nat \<Rightarrow> clockframe \<Rightarrow> clk \<Rightarrow> (panic + (clk \<times> event list)) option" where
  "softclock h fuel frame s =
     map_option (map_sum id (apfst (softclock_process frame))) (softclock_loop h fuel s)"

section \<open>Timer system calls\<close>

text \<open>A user address: null, not accessible, or accessible with a value there.\<close>

datatype 'a uptr = UNull | UBad | UOk 'a

text \<open>\<^verbatim>\<open>suser(p->p_ucred, &p->p_acflag)\<close>, which notes the use of privilege.\<close>

definition suser_proc :: "nat \<Rightarrow> clk \<Rightarrow> errno option \<times> clk" where
  "suser_proc p s =
     (let (e, fl) = suser (p_ucred (procs s p)) (p_acct (procs s p)) in
      (e, upd_proc p (\<lambda>pr. pr\<lparr>p_acct := fl\<rparr>) s))"

definition settimeofday :: "nat \<Rightarrow> timeval uptr \<Rightarrow> (int \<times> int) uptr \<Rightarrow> clk \<Rightarrow> errno option \<times> clk" where
  "settimeofday p tv tzp s0 =
     (case suser_proc p s0 of
        (Some e, s) \<Rightarrow> (Some e, s)
      | (None, s) \<Rightarrow>
          if tv = UBad then (Some EFAULT, s)
          else
            let s1 = (case tv of
                UOk atv \<Rightarrow>
                  s\<lparr>boottime := (boottime s)\<lparr>tv_sec := tv_sec (boottime s) + (tv_sec atv - tv_sec (time s))\<rparr>,
                    time := atv\<rparr>
              | _ \<Rightarrow> s) in
            (case tzp of
               UNull \<Rightarrow> (None, s1)
             | UBad \<Rightarrow> (Some EFAULT, s1)
             | UOk atz \<Rightarrow> (None, s1\<lparr>tz := atz\<rparr>)))"

definition bigadj :: int where "bigadj = 1000000"

text \<open>The correction \<^verbatim>\<open>adjtime\<close> stores, given the skew per tick it chose.\<close>

definition adj_round :: "int \<Rightarrow> int \<Rightarrow> int" where
  "adj_round tdelta ndelta =
     (if ndelta smod tdelta \<noteq> 0 then ndelta sdiv tickadj * tickadj else ndelta)"

definition adjtime :: "nat \<Rightarrow> timeval uptr \<Rightarrow> bool \<Rightarrow> clk \<Rightarrow> errno option \<times> timeval option \<times> clk" where
  "adjtime p delta want_old s0 =
     (case suser_proc p s0 of
        (Some e, s) \<Rightarrow> (Some e, None, s)
      | (None, s) \<Rightarrow>
          (case delta of
             UOk atv \<Rightarrow>
               (let ndelta = s32 (s32 (tv_sec atv * 1000000) + tv_usec atv);
                    s1 = (if timedelta s = 0
                          then s\<lparr>tickdelta := (if ndelta > bigadj then 10 * tickadj else tickadj)\<rparr> else s);
                    old = \<lparr>tv_sec = timedelta s sdiv 1000000, tv_usec = timedelta s smod 1000000\<rparr> in
                (None, if want_old then Some old else None,
                 s1\<lparr>timedelta := adj_round (tickdelta s1) ndelta\<rparr>))
           | _ \<Rightarrow> (Some EFAULT, None, s)))"

definition getitimer :: "nat \<Rightarrow> nat \<Rightarrow> bool \<Rightarrow> clk \<Rightarrow> errno + itimerval" where
  "getitimer p which writable s =
     (if which > ITIMER_PROF then Inl EINVAL
      else
        let aitv =
          (if which = ITIMER_REAL then
             let it = p_realtimer (procs s p) in
             if timerisset (it_value it) then
               if timercmp_lt (it_value it) (time s) then it\<lparr>it_value := timerclear (it_value it)\<rparr>
               else it\<lparr>it_value := timevalsub (it_value it) (time s)\<rparr>
             else it
           else p_timer (procs s p) which) in
        if writable then Inr aitv else Inl EFAULT)"

text \<open>The address of \<^verbatim>\<open>realitexpire\<close>; the argument of its callouts is the process.\<close>

definition realitexpire_addr :: nat where "realitexpire_addr = 1"

definition settimer_real :: "nat \<Rightarrow> itimerval \<Rightarrow> clk \<Rightarrow> panic + clk" where
  "settimer_real p aitv s =
     (let s1 = untimeout realitexpire_addr p s in
      if timerisset (it_value aitv) then
        let v = timevaladd (it_value aitv) (time s1) in
        map_sum id (upd_proc p (\<lambda>pr. pr\<lparr>p_realtimer := aitv\<lparr>it_value := v\<rparr>\<rparr>))
          (timeout realitexpire_addr p (hzto (time s1) v) s1)
      else Inr (upd_proc p (\<lambda>pr. pr\<lparr>p_realtimer := aitv\<rparr>) s1))"

text \<open>The system call: the error, the old value it copies out, the new state.\<close>

definition setitimer :: "nat \<Rightarrow> nat \<Rightarrow> itimerval uptr \<Rightarrow> unit uptr \<Rightarrow> clk \<Rightarrow>
    panic + (errno option \<times> itimerval option \<times> clk)" where
  "setitimer p which itv oitv s =
     (if which > ITIMER_PROF then Inr (Some EINVAL, None, s)
      else if itv = UBad then Inr (Some EFAULT, None, s)
      else case (if oitv = UNull then Inr None else map_sum id Some (getitimer p which (oitv \<noteq> UBad) s)) of
        Inl e \<Rightarrow> Inr (Some e, None, s)
      | Inr old \<Rightarrow>
          (case itv of
             UOk aitv \<Rightarrow>
               (case (itimerfix (it_value aitv), itimerfix (it_interval aitv)) of
                  (Inr v, Inr i) \<Rightarrow>
                    let a = aitv\<lparr>it_value := v, it_interval := i\<rparr> in
                    if which = ITIMER_REAL
                    then map_sum id (\<lambda>s'. (None, old, s')) (settimer_real p a s)
                    else Inr (None, old, upd_proc p (\<lambda>pr. pr\<lparr>p_timer := (p_timer pr)(which := a)\<rparr>) s)
                | _ \<Rightarrow> Inr (Some EINVAL, old, s))
           | _ \<Rightarrow> Inr (None, old, s)))"

text \<open>The loop of \<^verbatim>\<open>realitexpire\<close> that looks for the next time ahead of now.\<close>

partial_function (option) realit_next :: "timeval \<Rightarrow> timeval \<Rightarrow> timeval \<Rightarrow> timeval option" where
  "realit_next now interval v =
     (let v1 = timevaladd v interval in
      if timercmp_lt now v1 then Some v1 else realit_next now interval v1)"

definition realitexpire :: "nat \<Rightarrow> clk \<Rightarrow> (panic + clk) option" where
  "realitexpire p s =
     (let s1 = psignal p SIGALRM s; it = p_realtimer (procs s1 p) in
      if \<not> timerisset (it_interval it) then
        Some (Inr (upd_proc p (\<lambda>pr. pr\<lparr>p_realtimer := it\<lparr>it_value := timerclear (it_value it)\<rparr>\<rparr>) s1))
      else
        map_option (\<lambda>v. timeout realitexpire_addr p (hzto (time s1) v)
            (upd_proc p (\<lambda>pr. pr\<lparr>p_realtimer := it\<lparr>it_value := v\<rparr>\<rparr>) s1))
          (realit_next (time s1) (it_interval it) (it_value it)))"

section \<open>What the clock interrupt leaves alone\<close>

lemma upd_proc_keeps [simp]:
  "time (upd_proc p f s) = time s" "timedelta (upd_proc p f s) = timedelta s"
  "tickdelta (upd_proc p f s) = tickdelta s" "calltodo (upd_proc p f s) = calltodo s"
  "callfree (upd_proc p f s) = callfree s" "curproc (upd_proc p f s) = curproc s"
  "signals (upd_proc p f s) = signals s" "procs (upd_proc p f s) = (procs s)(p := f (procs s p))"
  "phz (upd_proc p f s) = phz s"
  by (simp_all add: upd_proc_def)

lemma psignal_keeps [simp]:
  "time (psignal p g s) = time s" "timedelta (psignal p g s) = timedelta s"
  "tickdelta (psignal p g s) = tickdelta s" "calltodo (psignal p g s) = calltodo s"
  "callfree (psignal p g s) = callfree s" "curproc (psignal p g s) = curproc s"
  "procs (psignal p g s) = procs s" "signals (psignal p g s) = signals s @ [(p, g)]"
  by (simp_all add: psignal_def)

lemma setpri_keeps [simp]:
  "time (setpri p s) = time s" "timedelta (setpri p s) = timedelta s"
  "tickdelta (setpri p s) = tickdelta s" "calltodo (setpri p s) = calltodo s"
  "callfree (setpri p s) = callfree s" "curproc (setpri p s) = curproc s" "signals (setpri p s) = signals s"
  "procs (setpri p s) = (procs s)(p := (procs s p)\<lparr>p_usrpri := ucast (newpri (procs s p))\<rparr>)"
  by (simp_all add: setpri_def need_resched_def Let_def)

text \<open>The parts of the state the pieces of \<^verbatim>\<open>hardclock\<close> share no write to.\<close>

definition clock_view :: "clk \<Rightarrow> timeval \<times> int \<times> int \<times> callout list \<times> callout list \<times> nat option" where
  "clock_view s = (time s, timedelta s, tickdelta s, calltodo s, callfree s, curproc s)"

lemma clock_view_pieces [simp]:
  "clock_view (virtual_timer w g p s) = clock_view s"
  "clock_view (hc_rusage s) = clock_view s"
  "clock_view (hc_cpulimit p s) = clock_view s"
  "clock_view (hc_priority p s) = clock_view s"
  "clock_view (gatherstats fr s) = clock_view s"
  by (simp_all add: clock_view_def virtual_timer_def hc_rusage_def hc_cpulimit_def hc_priority_def
      gatherstats_def Let_def split: prod.splits option.splits)

lemma clock_view_hc_process [simp]: "clock_view (hc_process s) = clock_view s"
  by (simp add: hc_process_def split: option.splits)

lemma clock_view_hc_charge: "hc_charge fr s = Some (s', b) \<Longrightarrow> clock_view s' = clock_view s"
  by (auto simp: hc_charge_def Let_def split: if_splits option.splits)
    (simp_all add: clock_view_def)

lemma hardclock_view:
  assumes "hardclock fr s = Some s'"
  shows "calltodo s' = fst (age (calltodo s))" "callfree s' = callfree s" "curproc s' = curproc s"
    "\<exists>t. time t = time s \<and> timedelta t = timedelta s \<and> tickdelta t = tickdelta s \<and>
      time s' = time (hc_time t) \<and> timedelta s' = timedelta (hc_time t) \<and> tickdelta s' = tickdelta s"
proof -
  obtain s2 prof where s2: "hc_charge fr (fst (hardclock_queue s)) = Some (s2, prof)"
    using assms by (auto simp: hardclock_def split: option.splits prod.splits)
  define s4 where "s4 = (let s3 = hc_process (hc_rusage s2) in if phz s3 = 0 then gatherstats fr s3 else s3)"
  have "clock_view s4 = clock_view (fst (hardclock_queue s))"
    using clock_view_hc_charge [OF s2] by (simp add: s4_def Let_def)
  moreover have "Some s' = Some (if snd (hardclock_queue s) \<or> prof
      then (hc_time s4)\<lparr>softclock_pending := True\<rparr> else hc_time s4)"
    unfolding assms [symmetric] hardclock_def s4_def Let_def by (simp only: split_beta s2 option.case fst_conv snd_conv)
  ultimately obtain b :: bool where view: "clock_view s4 = clock_view (fst (hardclock_queue s))"
    and s': "s' = (if b then (hc_time s4)\<lparr>softclock_pending := True\<rparr> else hc_time s4)" by blast
  have keep: "time s4 = time s" "timedelta s4 = timedelta s" "tickdelta s4 = tickdelta s"
    "calltodo s4 = fst (age (calltodo s))" "callfree s4 = callfree s" "curproc s4 = curproc s"
    using view by (simp_all add: clock_view_def hardclock_queue_def)
  have time: "calltodo (hc_time s4) = calltodo s4" "callfree (hc_time s4) = callfree s4"
    "curproc (hc_time s4) = curproc s4" "tickdelta (hc_time s4) = tickdelta s4"
    by (simp_all add: hc_time_def)
  show "calltodo s' = fst (age (calltodo s))" "callfree s' = callfree s" "curproc s' = curproc s"
    using keep time by (simp_all add: s')
  show "\<exists>t. time t = time s \<and> timedelta t = timedelta s \<and> tickdelta t = tickdelta s \<and>
      time s' = time (hc_time t) \<and> timedelta s' = timedelta (hc_time t) \<and> tickdelta s' = tickdelta s"
    using keep time by (intro exI [of _ s4]) (simp add: s')
qed

fun hardclocks :: "clockframe list \<Rightarrow> clk \<Rightarrow> clk option" where
  "hardclocks [] s = Some s"
| "hardclocks (fr # frs) s = (case hardclock fr s of None \<Rightarrow> None | Some s' \<Rightarrow> hardclocks frs s')"

lemma hardclock_total: "(\<exists>s'. hardclock fr s = Some s') \<longleftrightarrow> \<not> (usermode fr \<and> curproc s = None)"
proof -
  have "(\<exists>x. hc_charge fr (fst (hardclock_queue s)) = Some x) \<longleftrightarrow> \<not> (usermode fr \<and> curproc s = None)"
    by (auto simp: hc_charge_def hardclock_queue_def Let_def split: option.splits)
  moreover have "(\<exists>s'. hardclock fr s = Some s') \<longleftrightarrow> (\<exists>x. hc_charge fr (fst (hardclock_queue s)) = Some x)"
    by (cases "hc_charge fr (fst (hardclock_queue s))") (auto simp: hardclock_def Let_def split_beta)
  ultimately show ?thesis by simp
qed

lemma hardclocks_total: "\<forall>fr \<in> set frs. \<not> usermode fr \<Longrightarrow> \<exists>s'. hardclocks frs s = Some s'"
proof (induction frs arbitrary: s)
  case (Cons fr frs)
  then obtain s1 where "hardclock fr s = Some s1" using hardclock_total [of fr s] by auto
  then show ?case using Cons by simp
qed simp

section \<open>Adjusting the clock\<close>

lemma hc_time_step:
  "usecs (time (hc_time s)) + timedelta (hc_time s) = usecs (time s) + timedelta s + tick"
  "timedelta (hc_time s) =
     (if timedelta s = 0 then 0 else if timedelta s < 0 then timedelta s + tickdelta s else timedelta s - tickdelta s)"
  by (simp_all add: hc_time_def tv_simps)

text \<open>Time of day plus outstanding correction advances by one tick per interrupt.\<close>

lemma hardclock_time:
  assumes "hardclock fr s = Some s'"
  shows "usecs (time s') + timedelta s' = usecs (time s) + timedelta s + tick"
    "timedelta s' = (if timedelta s = 0 then 0
       else if timedelta s < 0 then timedelta s + tickdelta s else timedelta s - tickdelta s)"
    "tickdelta s' = tickdelta s"
proof -
  obtain t where t: "time t = time s" "timedelta t = timedelta s" "tickdelta t = tickdelta s"
    "time s' = time (hc_time t)" "timedelta s' = timedelta (hc_time t)" "tickdelta s' = tickdelta s"
    using hardclock_view(4) [OF assms] by blast
  then show "usecs (time s') + timedelta s' = usecs (time s) + timedelta s + tick" "tickdelta s' = tickdelta s"
    "timedelta s' = (if timedelta s = 0 then 0
       else if timedelta s < 0 then timedelta s + tickdelta s else timedelta s - tickdelta s)"
    using hc_time_step(1) [of t] hc_time_step(2) [of t] by simp_all
qed

lemma hardclocks_time:
  "hardclocks frs s = Some s' \<Longrightarrow>
   usecs (time s') + timedelta s' = usecs (time s) + timedelta s + int (length frs) * tick"
proof (induction frs arbitrary: s)
  case (Cons fr frs)
  then show ?case using hardclock_time(1) by (fastforce simp: algebra_simps split: option.splits)
qed simp

lemma hardclocks_settle:
  "hardclocks frs s = Some s' \<Longrightarrow> 0 < tickdelta s \<Longrightarrow> timedelta s = m * tickdelta s \<Longrightarrow>
   \<bar>m\<bar> \<le> int (length frs) \<Longrightarrow> timedelta s' = 0"
proof (induction frs arbitrary: s m)
  case (Cons fr frs)
  obtain s1 where s1: "hardclock fr s = Some s1" "hardclocks frs s1 = Some s'"
    using Cons.prems(1) by (auto split: option.splits)
  define m' where "m' = m - sgn m"
  have "timedelta s1 = m' * tickdelta s1"
    using hardclock_time [OF s1(1)] Cons.prems(2,3)
    by (auto simp: m'_def sgn_if zero_less_mult_iff mult_less_0_iff algebra_simps)
  moreover have "\<bar>m'\<bar> \<le> int (length frs)" using Cons.prems(4) by (auto simp: m'_def sgn_if)
  ultimately show ?case using Cons.IH [OF s1(2)] hardclock_time(3) [OF s1(1)] Cons.prems(2) by simp
qed simp

lemma hardclocks_residue:
  "hardclocks frs s = Some s' \<Longrightarrow> timedelta s mod tickdelta s \<noteq> 0 \<Longrightarrow>
   timedelta s' mod tickdelta s = timedelta s mod tickdelta s"
proof (induction frs arbitrary: s)
  case (Cons fr frs)
  obtain s1 where s1: "hardclock fr s = Some s1" "hardclocks frs s1 = Some s'"
    using Cons.prems(1) by (auto split: option.splits)
  have "timedelta s1 mod tickdelta s = timedelta s mod tickdelta s"
    using hardclock_time(2) [OF s1(1)] Cons.prems(2) by auto
  then show ?case using Cons.IH [OF s1(2)] Cons.prems(2) hardclock_time(3) [OF s1(1)] by simp
qed simp

section \<open>Functions called from the callout queue\<close>

definition due :: "clk \<Rightarrow> event list" where
  "due s = filter (\<lambda>e. ticks_left e \<le> 0) (events (calltodo s))"

lemma due_timeout: "timeout f a t s = Inr s' \<Longrightarrow> queue_ok (calltodo s) \<Longrightarrow> due s' = due s"
  using timeout_spec(2) [of f a t s s'] by (simp add: due_def filter_insort_triv)

lemma due_head:
  assumes "queue_ok (calltodo s)" "softclock_event s = Some (e, s')"
  shows "due s = e # due s'" "queue_ok (calltodo s')" "callfree s' \<noteq> []"
    "\<exists>q f. s' = s\<lparr>calltodo := q, callfree := f\<rparr>"
  using co.take_due_Some [OF assms] assms(2)
  by (auto simp: due_def softclock_event_def softclock_next_def split: list.splits if_splits)

text \<open>What \<^verbatim>\<open>softclock\<close> relies on: a called function returns when there is a free
  callout entry, does not disturb the due events, and has a known effect on the
  signals.  The entry of the event that is being run has just been freed.  \<open>good\<close> is
  what the functions need of the state and of the events still to run.\<close>

locale callout_functions =
  fixes h :: handler and good :: "event list \<Rightarrow> clk \<Rightarrow> bool" and sent :: "nat \<Rightarrow> nat \<Rightarrow> (nat \<times> nat) list"
  assumes good_queue: "good es s \<Longrightarrow> good es (s\<lparr>calltodo := q, callfree := f\<rparr>)"
    and returns: "good ((a, func, arg) # due s) s \<Longrightarrow> queue_ok (calltodo s) \<Longrightarrow> callfree s \<noteq> [] \<Longrightarrow>
      \<exists>s'. h func arg a s = Some (Inr s') \<and> good (due s) s' \<and> queue_ok (calltodo s') \<and> due s' = due s \<and>
        signals s' = signals s @ sent func arg"
begin

lemma loop_runs_due:
  "good (due s) s \<Longrightarrow> queue_ok (calltodo s) \<Longrightarrow> length (due s) < fuel \<Longrightarrow>
   \<exists>s'. softclock_loop h fuel s = Some (Inr (s', due s)) \<and> due s' = [] \<and> good [] s' \<and>
     queue_ok (calltodo s') \<and>
     signals s' = signals s @ concat (map (\<lambda>(a, func, arg). sent func arg) (due s))"
proof (induction fuel arbitrary: s)
  case (Suc fuel)
  show ?case
  proof (cases "softclock_event s")
    case None
    then have "due s = []"
      using co.take_due_None [OF Suc.prems(2)] by (force simp: due_def filter_empty_conv)
    then show ?thesis using None Suc.prems by simp
  next
    case (Some r)
    obtain a func arg s1 where r: "r = ((a, func, arg), s1)" by (metis prod.collapse)
    have d: "due s = (a, func, arg) # due s1" "queue_ok (calltodo s1)" "callfree s1 \<noteq> []"
        "\<exists>q f. s1 = s\<lparr>calltodo := q, callfree := f\<rparr>"
      using due_head [OF Suc.prems(2)] Some r by auto
    then have s1: "good ((a, func, arg) # due s1) s1" "signals s1 = signals s" using good_queue Suc.prems(1) by auto
    obtain s2 where s2: "h func arg a s1 = Some (Inr s2)" "good (due s2) s2" "queue_ok (calltodo s2)"
        "due s2 = due s1" "signals s2 = signals s1 @ sent func arg"
      using returns [OF s1(1) d(2,3)] by force
    obtain s3 where "softclock_loop h fuel s2 = Some (Inr (s3, due s1))" "due s3 = []" "good [] s3"
        "queue_ok (calltodo s3)"
        "signals s3 = signals s2 @ concat (map (\<lambda>(a, func, arg). sent func arg) (due s1))"
      using Suc.IH [OF s2(2,3)] Suc.prems(3) d(1) s2(4) by auto
    then show ?thesis using Some r d(1) s1(2) s2(1,5) by simp
  qed
qed simp

end

section \<open>The real-time timer\<close>

lemma realit_next_returns:
  assumes "tv_ok now" "tv_ok v" "tv_ok i" "0 < usecs i" "tv_sec i \<le> 100000000"
    and "0 \<le> tv_sec v" "tv_sec v < 2047483647" "tv_sec now < 2047483647"
  shows "\<exists>v' k. realit_next now i v = Some v' \<and> tv_ok v' \<and> 0 < (k :: int) \<and>
    usecs v' = usecs v + k * usecs i \<and> usecs now < usecs v' \<and>
    (1 < k \<longrightarrow> usecs v' - usecs i \<le> usecs now)"
  using assms(2,6,7)
proof (induction "nat (usecs now - usecs v)" arbitrary: v rule: less_induct)
  case less
  let ?v1 = "timevaladd v i"
  have i: "0 \<le> tv_sec i" using assms(3,4) by (simp add: tv_ok_def usecs_def)
  have v1: "tv_ok ?v1" "usecs ?v1 = usecs v + usecs i"
    using less.prems assms(3,5) i by (simp_all add: tv_ok_timevaladd usecs_timevaladd)
  then have ge: "0 \<le> tv_sec ?v1" using less.prems assms(4) by (simp add: tv_ok_def usecs_def)
  show ?case
  proof (cases "usecs now < usecs ?v1")
    case True
    then have "realit_next now i v = Some ?v1"
      using assms(1) v1(1) by (subst realit_next.simps) (simp add: timercmp_usecs)
    then show ?thesis using v1 True by (intro exI [of _ ?v1] exI [of _ 1]) simp
  next
    case False
    then have step: "realit_next now i v = realit_next now i ?v1"
      using assms(1) v1(1) by (subst realit_next.simps) (simp add: timercmp_usecs)
    have lt: "tv_sec ?v1 < 2047483647" using False v1(1) assms(1,8) by (simp add: tv_ok_def usecs_def)
    have "nat (usecs now - usecs ?v1) < nat (usecs now - usecs v)" using False v1(2) assms(4) by simp
    then obtain v' and k :: int where "realit_next now i ?v1 = Some v'" "tv_ok v'" "0 < k"
        "usecs v' = usecs ?v1 + k * usecs i" "usecs now < usecs v'"
        "1 < k \<longrightarrow> usecs v' - usecs i \<le> usecs now"
      using less.hyps [of ?v1] v1(1) ge lt by blast
    moreover have "usecs v' - usecs i \<le> usecs now"
    proof (cases "1 < k")
      case False
      then have "k = 1" using calculation(3) by simp
      then show ?thesis using \<open>\<not> usecs now < usecs ?v1\<close> calculation(4) by simp
    qed (use calculation(6) in simp)
    ultimately show ?thesis using step v1(2)
      by (intro exI [of _ v'] exI [of _ "k + 1"]) (simp add: algebra_simps)
  qed
qed

text \<open>Every real timer holds a value \<^verbatim>\<open>setitimer\<close> can have stored, and the clock is so far
  from the end of 32-bit time that the longest interval can be added to it.\<close>

definition timers_ok :: "clk \<Rightarrow> bool" where
  "timers_ok s \<longleftrightarrow> tv_ok (time s) \<and> tv_sec (time s) < 2047483647 \<and>
     (\<forall>p. tv_ok (it_value (p_realtimer (procs s p))) \<and> 0 \<le> tv_sec (it_value (p_realtimer (procs s p))) \<and>
       part_ok (it_interval (p_realtimer (procs s p))) \<and> tv_sec (it_interval (p_realtimer (procs s p))) \<le> 100000000)"

text \<open>The events are expiries of real timers, one for a process.\<close>

definition alarms_ok :: "event list \<Rightarrow> clk \<Rightarrow> bool" where
  "alarms_ok es s \<longleftrightarrow> timers_ok s \<and> distinct (map (\<lambda>(a, func, p). p) es) \<and>
     (\<forall>(a, func, p) \<in> set es. func = realitexpire_addr \<and> tv_sec (it_value (p_realtimer (procs s p))) < 2047483647)"

text \<open>The call \<^verbatim>\<open>(*func)(arg, a)\<close> of \<^verbatim>\<open>softclock\<close>; \<open>other\<close> stands for the functions of the rest of the
  kernel that may be in the queue.\<close>

definition call_func :: "handler \<Rightarrow> handler" where
  "call_func other func arg late s = (if func = realitexpire_addr then realitexpire arg s else other func arg late s)"

lemma timers_ok_upd:
  "timers_ok s \<Longrightarrow> tv_ok v \<Longrightarrow> 0 \<le> tv_sec v \<Longrightarrow>
   timers_ok (upd_proc p (\<lambda>pr. pr\<lparr>p_realtimer := (p_realtimer (procs s p))\<lparr>it_value := v\<rparr>\<rparr>) (psignal p g s))"
  by (auto simp: timers_ok_def)

lemma timeout_keeps:
  "timeout f a t (s :: clk) = Inr s' \<Longrightarrow> \<exists>q r. s' = s\<lparr>calltodo := q, callfree := r\<rparr>"
  by (cases s) (auto simp: timeout_def Let_def split: list.splits)

lemma timers_ok_queue: "timers_ok (s\<lparr>calltodo := q, callfree := r\<rparr>) = timers_ok s"
  by (simp add: timers_ok_def)

lemma realitexpire_returns:
  assumes "timers_ok s" "queue_ok (calltodo s)" "callfree s \<noteq> []" "tv_sec (it_value (p_realtimer (procs s p))) < 2047483647"
  shows "\<exists>s'. realitexpire p s = Some (Inr s') \<and> timers_ok s' \<and> queue_ok (calltodo s') \<and> due s' = due s \<and>
    signals s' = signals s @ [(p, SIGALRM)] \<and> (\<forall>q. q \<noteq> p \<longrightarrow> procs s' q = procs s q)"
proof -
  let ?it = "p_realtimer (procs s p)"
  have i: "tv_ok (it_interval ?it)" "usecs (it_interval ?it) = 0 \<or> 0 < usecs (it_interval ?it)"
    and v: "tv_ok (it_value ?it)" "0 \<le> tv_sec (it_value ?it)" and t: "tv_ok (time s)" "tv_sec (time s) < 2047483647"
    and l: "tv_sec (it_interval ?it) \<le> 100000000"
    using assms(1) by (auto simp: timers_ok_def part_ok_def tick_def dest!: spec [of _ p])
  show ?thesis
  proof (cases "timerisset (it_interval ?it)")
    case False
    have "tv_ok (timerclear (it_value ?it))" "0 \<le> tv_sec (timerclear (it_value ?it))" by (simp_all add: tv_ok_def timerclear_def)
    then show ?thesis
      using False timers_ok_upd [OF assms(1)] assms(2) by (simp add: realitexpire_def Let_def due_def)
  next
    case True
    then have "0 < usecs (it_interval ?it)" using i timerisset_usecs by blast
    then obtain v' and k :: int where v': "realit_next (time s) (it_interval ?it) (it_value ?it) = Some v'" "tv_ok v'"
        "0 < k" "usecs v' = usecs (it_value ?it) + k * usecs (it_interval ?it)"
      using realit_next_returns [OF t(1) v(1) i(1) _ l _ assms(4) t(2)] v(2) by auto
    have "0 < k * usecs (it_interval ?it)" using v'(3) \<open>0 < usecs (it_interval ?it)\<close> by simp
    then have "0 < usecs v'" using v v'(4) by (simp add: tv_ok_def usecs_def)
    then have ge: "0 \<le> tv_sec v'" using v'(2) by (simp add: tv_ok_def usecs_def)
    define s1 where "s1 = upd_proc p (\<lambda>pr. pr\<lparr>p_realtimer := ?it\<lparr>it_value := v'\<rparr>\<rparr>) (psignal p SIGALRM s)"
    have s1: "timers_ok s1" "calltodo s1 = calltodo s" "callfree s1 = callfree s"
        "signals s1 = signals s @ [(p, SIGALRM)]"
      using timers_ok_upd [OF assms(1) v'(2) ge] by (simp_all add: s1_def)
    obtain s2 where s2: "timeout realitexpire_addr p (hzto (time s) v') s1 = Inr s2"
      using timeout_spec(1) [of realitexpire_addr p "hzto (time s) v'" s1] assms(3) s1(3)
      by (cases "timeout realitexpire_addr p (hzto (time s) v') s1") auto
    have "realitexpire p s = Some (Inr s2)"
      using True v'(1) s2 by (simp add: realitexpire_def Let_def s1_def)
    moreover have "queue_ok (calltodo s2)" "due s2 = due s"
      using timeout_spec(2) [OF s2] due_timeout [OF s2] assms(2) s1(2) by (simp_all add: due_def)
    moreover have "timers_ok s2" "signals s2 = signals s1" "procs s2 = procs s1"
      using timeout_keeps [OF s2] s1(1) by (auto simp: timers_ok_queue)
    moreover have "\<forall>q. q \<noteq> p \<longrightarrow> procs s1 q = procs s q" by (simp add: s1_def)
    ultimately show ?thesis using s1(4) by auto
  qed
qed

lemma alarms_ok_queue: "alarms_ok es (s\<lparr>calltodo := q, callfree := r\<rparr>) = alarms_ok es s"
  by (simp add: alarms_ok_def timers_ok_queue)

lemma call_func_alarm:
  assumes "alarms_ok ((a, func, p) # due s) s" "queue_ok (calltodo s)" "callfree s \<noteq> []"
  shows "\<exists>s'. call_func other func p a s = Some (Inr s') \<and> alarms_ok (due s) s' \<and> queue_ok (calltodo s') \<and> due s' = due s \<and>
    signals s' = signals s @ [(p, SIGALRM)]"
proof -
  have f: "func = realitexpire_addr" "timers_ok s" "tv_sec (it_value (p_realtimer (procs s p))) < 2047483647"
    and rest: "p \<notin> set (map (\<lambda>(a, func, p). p) (due s))" "alarms_ok (due s) s"
    using assms(1) by (auto simp: alarms_ok_def)
  from realitexpire_returns [OF f(2) assms(2,3) f(3)] obtain s' where
    s': "realitexpire p s = Some (Inr s')" "timers_ok s'" "queue_ok (calltodo s')" "due s' = due s"
      "signals s' = signals s @ [(p, SIGALRM)]" "\<forall>q. q \<noteq> p \<longrightarrow> procs s' q = procs s q" by blast
  have "procs s' q = procs s q" if "(b, g, q) \<in> set (due s)" for b g q using that rest(1) s'(6) by force
  then have "alarms_ok (due s) s'" using rest(2) s'(2) by (auto simp: alarms_ok_def)
  then show ?thesis using s' f(1) by (simp add: call_func_def)
qed

interpretation alarm: callout_functions "call_func other" alarms_ok "\<lambda>func p. [(p, SIGALRM)]" for other
  by unfold_locales (simp only: alarms_ok_queue, rule call_func_alarm)

section \<open>Setting timers\<close>

lemma untimeout_keeps: "\<exists>q r. untimeout f a (s :: clk) = s\<lparr>calltodo := q, callfree := r\<rparr>"
  by (cases s) (auto simp: untimeout_def split: option.splits)

lemma cancel_first_single: "length (of_fun f a es) \<le> 1 \<Longrightarrow> of_fun f a (cancel_first f a es) = []"
  by (induction es) (auto simp: of_fun_Cons of_fun_def [of f a "[]"] split: if_splits)

lemma tv_eqI:
  assumes "tv_ok s" "tv_ok t" "usecs s = usecs t"
  shows "s = (t :: timeval)"
proof -
  have "tv_sec s = tv_sec t"
    using assms by (cases "tv_sec s" "tv_sec t" rule: linorder_cases) (auto simp: usecs_def tv_ok_def)
  then show ?thesis using assms(3) by (simp add: usecs_def)
qed

lemma settimer_real_queue:
  assumes "queue_ok (calltodo s)" "length (of_fun realitexpire_addr p (events (calltodo s))) \<le> 1"
    and "settimer_real p a s = Inr s'"
  shows "queue_ok (calltodo s')"
    "of_fun realitexpire_addr p (events (calltodo s')) =
       (if timerisset (it_value a)
        then [(max 1 (hzto (time s) (timevaladd (it_value a) (time s))), realitexpire_addr, p)] else [])"
    "(f, b) \<noteq> (realitexpire_addr, p) \<Longrightarrow>
       of_fun f b (events (calltodo s')) = of_fun f b (events (calltodo s))"
    "time s' = time s"
    "p_realtimer (procs s' p) = (if timerisset (it_value a)
       then a\<lparr>it_value := timevaladd (it_value a) (time s)\<rparr> else a)"
proof -
  let ?v = "timevaladd (it_value a) (time s)"
  define s1 where "s1 = untimeout realitexpire_addr p s"
  have s1: "queue_ok (calltodo s1)" "of_fun realitexpire_addr p (events (calltodo s1)) = []"
      "time s1 = time s" "procs s1 = procs s"
      "\<And>f b. (f, b) \<noteq> (realitexpire_addr, p) \<Longrightarrow>
        of_fun f b (events (calltodo s1)) = of_fun f b (events (calltodo s))"
    using untimeout_spec [OF assms(1), of realitexpire_addr p] untimeout_keeps [of realitexpire_addr p s]
      cancel_first_single [OF assms(2)] by (auto simp: s1_def)
  have goal: "queue_ok (calltodo s') \<and> of_fun realitexpire_addr p (events (calltodo s')) =
       (if timerisset (it_value a) then [(max 1 (hzto (time s) ?v), realitexpire_addr, p)] else []) \<and>
     ((f, b) \<noteq> (realitexpire_addr, p) \<longrightarrow> of_fun f b (events (calltodo s')) = of_fun f b (events (calltodo s))) \<and>
     time s' = time s \<and> p_realtimer (procs s' p) = (if timerisset (it_value a) then a\<lparr>it_value := ?v\<rparr> else a)"
  proof (cases "timerisset (it_value a)")
    case False
    then show ?thesis using assms(3) s1 by (auto simp: settimer_real_def s1_def [symmetric] Let_def)
  next
    case True
    then obtain s2 where s2: "timeout realitexpire_addr p (hzto (time s) ?v) s1 = Inr s2"
        "s' = upd_proc p (\<lambda>pr. pr\<lparr>p_realtimer := a\<lparr>it_value := ?v\<rparr>\<rparr>) s2"
      using assms(3) s1(3) by (cases "timeout realitexpire_addr p (hzto (time s) ?v) s1")
        (auto simp: settimer_real_def s1_def [symmetric] Let_def)
    have "queue_ok (calltodo s2)" "events (calltodo s2) =
        insort_key ticks_left (max 1 (hzto (time s) ?v), realitexpire_addr, p) (events (calltodo s1))"
        "time s2 = time s"
      using timeout_spec(2) [OF s2(1) s1(1)] timeout_keeps [OF s2(1)] s1(3) by auto
    then show ?thesis using True s1 events_sorted [OF s1(1), of 0] by (auto simp: s2(2))
  qed
  show "queue_ok (calltodo s')"
    "of_fun realitexpire_addr p (events (calltodo s')) =
       (if timerisset (it_value a) then [(max 1 (hzto (time s) ?v), realitexpire_addr, p)] else [])"
    "time s' = time s"
    "p_realtimer (procs s' p) = (if timerisset (it_value a) then a\<lparr>it_value := ?v\<rparr> else a)"
    "(f, b) \<noteq> (realitexpire_addr, p) \<Longrightarrow> of_fun f b (events (calltodo s')) = of_fun f b (events (calltodo s))"
    using goal by auto
qed

lemma setitimer_ok:
  assumes "setitimer p which (UOk a) oitv s = Inr (None, old, s')"
  shows "\<exists>v i. itimerfix (it_value a) = Inr v \<and> itimerfix (it_interval a) = Inr i \<and> which \<le> ITIMER_PROF \<and>
    (if which = ITIMER_REAL then settimer_real p (a\<lparr>it_value := v, it_interval := i\<rparr>) s = Inr s'
     else s' = upd_proc p (\<lambda>pr. pr\<lparr>p_timer := (p_timer pr)(which := a\<lparr>it_value := v, it_interval := i\<rparr>)\<rparr>) s)"
  using assms
  by (auto simp: setitimer_def Let_def map_sum_Inr_conv split: if_splits sum.splits)

section \<open>Charging a tick\<close>

text \<open>What one process is charged: total time in microseconds, ticks, cpu estimate.\<close>

definition charged :: "cproc \<Rightarrow> int \<times> int \<times> u32" where
  "charged pr = (usecs (p_utime pr) + usecs (p_stime pr), p_cpticks pr, p_cpu pr)"

lemma bump_cpu_saturates: "unat (bump_cpu c) = min (unat c + 1) 4294967295"
proof (cases "unat c = 4294967295")
  case True
  then have "c + 1 = 0" by (simp add: unat_eq_iff_word unat_word_ariths)
  then have "bump_cpu c = c + 1 - 1" unfolding bump_cpu_def by (rule if_P)
  then have "bump_cpu c = c" by (simp only: add_diff_cancel)
  then show ?thesis using True by simp
next
  case False
  then have "unat c + 1 < 4294967296" using unat_u32_bound [of c] by linarith
  then show ?thesis using unat_plus_one [of c] by (auto simp: bump_cpu_def)
qed

lemma charged_virtual_timer [simp]:
  "charged (procs (virtual_timer w g p s) q) = charged (procs s q)"
  "q \<noteq> p \<Longrightarrow> procs (virtual_timer w g p s) q = procs s q"
  by (simp_all add: virtual_timer_def charged_def Let_def split: prod.splits)

lemma charged_hc_cpulimit [simp]:
  "charged (procs (hc_cpulimit p s) q) = charged (procs s q)"
  "q \<noteq> p \<Longrightarrow> procs (hc_cpulimit p s) q = procs s q"
  by (simp_all add: hc_cpulimit_def charged_def Let_def)

lemma charged_hc_rusage [simp]:
  "charged (procs (hc_rusage s) q) = charged (procs s q)"
  "curproc s = Some p \<Longrightarrow> q \<noteq> p \<Longrightarrow> procs (hc_rusage s) q = procs s q"
  by (simp_all add: hc_rusage_def charged_def split: option.splits)

lemma charged_hc_priority:
  "charged (procs (hc_priority p s) p) =
     (let (t, n, c) = charged (procs s p) in (t, n + 1, bump_cpu c))"
  "q \<noteq> p \<Longrightarrow> procs (hc_priority p s) q = procs s q"
  by (simp_all add: hc_priority_def charged_def Let_def)

lemma curproc_hc_rusage: "curproc (hc_rusage s) = curproc s"
  using clock_view_pieces(2) [of s] by (simp add: clock_view_def)

lemma charged_hc_charge:
  assumes "hc_charge fr s = Some (s', b)" "curproc s = Some p"
  shows "charged (procs s' p) = (let (t, n, c) = charged (procs s p) in (t + tick, n, c))" "curproc s' = Some p"
    "q \<noteq> p \<Longrightarrow> procs s' q = procs s q"
proof -
  have *: "charged ((procs s p)\<lparr>p_utime := BUMPTIME (p_utime (procs s p)) tick\<rparr>) =
      (let (t, n, c) = charged (procs s p) in (t + tick, n, c))"
    "charged ((procs s p)\<lparr>p_stime := BUMPTIME (p_stime (procs s p)) tick\<rparr>) =
      (let (t, n, c) = charged (procs s p) in (t + tick, n, c))"
    by (simp_all add: charged_def tv_simps)
  show "charged (procs s' p) = (let (t, n, c) = charged (procs s p) in (t + tick, n, c))"
    using assms by (auto simp: hc_charge_def Let_def * simp del: split_paired_All split: if_splits)
  show "curproc s' = Some p" using clock_view_hc_charge [OF assms(1)] assms(2) by (simp add: clock_view_def)
  show "q \<noteq> p \<Longrightarrow> procs s' q = procs s q" using assms by (auto simp: hc_charge_def Let_def split: if_splits)
qed

lemma procs_rest [simp]:
  "procs (gatherstats fr s) = procs s" "procs (hc_time s) = procs s" "procs (fst (hardclock_queue s)) = procs s"
  by (simp_all add: gatherstats_def hc_time_def hardclock_queue_def Let_def)

lemma hardclock_charged:
  assumes "hardclock fr s = Some s'" "curproc s = Some p"
  shows "charged (procs s' p) = (let (t, n, c) = charged (procs s p) in (t + tick, n + 1, bump_cpu c))"
    "q \<noteq> p \<Longrightarrow> procs s' q = procs s q"
proof -
  obtain s2 prof where s2: "hc_charge fr (fst (hardclock_queue s)) = Some (s2, prof)"
    using assms by (auto simp: hardclock_def split: option.splits prod.splits)
  have p: "curproc (fst (hardclock_queue s)) = Some p" using assms(2) by (simp add: hardclock_queue_def)
  note c = charged_hc_charge [OF s2 p]
  have eq: "procs s' = procs (hc_process (hc_rusage s2))"
    using assms(1) unfolding hardclock_def Let_def by (auto simp: split_beta s2)
  show "charged (procs s' p) = (let (t, n, c) = charged (procs s p) in (t + tick, n + 1, bump_cpu c))"
    using c(1,2) by (simp add: eq hc_process_def curproc_hc_rusage charged_hc_priority(1) split_beta Let_def)
  show "q \<noteq> p \<Longrightarrow> procs s' q = procs s q"
    using c(2,3) by (simp add: eq hc_process_def curproc_hc_rusage charged_hc_priority(2))
qed

section \<open>Properties\<close>

definition proc0 :: cproc where
  "proc0 = \<lparr>p_utime = tv0, p_stime = tv0, p_timer = (\<lambda>_. \<lparr>it_interval = tv0, it_value = tv0\<rparr>),
     p_realtimer = \<lparr>it_interval = tv0, it_value = tv0\<rparr>, pr_scale = 0, p_soweupc = False,
     ru_ixrss = 0, ru_idrss = 0, ru_isrss = 0, ru_maxrss = 0, p_vmspace = None,
     rlim_cur = 0x7fffffff, rlim_max = 0x7fffffff, p_cpticks = 0, p_cpu = 0, p_pri = 50, p_usrpri = 50,
     p_nice = 0, p_ucred = \<lparr>cr_ref = 1, cr_uid = 0, cr_ngroups = 0, cr_groups = []\<rparr>, p_acct = 0\<rparr>"

definition clk0 :: clk where
  "clk0 = \<lparr>calltodo = [], callfree = replicate 4 \<lparr>c_func = 0, c_arg = 0, c_time = 0\<rparr>,
     time = \<lparr>tv_sec = 1000, tv_usec = 0\<rparr>, boottime = tv0, tz = (0, 0), tickdelta = 0, timedelta = 0, phz = 0,
     cp_time = [0, 0, 0, 0], dk_busy = 0, dk_time = [0, 0, 0, 0, 0, 0, 0, 0], procs = (\<lambda>_. proc0),
     curproc = Some 5, curpri = 50, want_resched = 0, astpending = 0, softclock_pending = False,
     signals = []\<rparr>"

text \<open>
  C27: alarms are delivered.  When the due events are expiries of real interval timers, not more
  than one for a process (\<^verbatim>\<open>setitimer\<close> keeps it so), the software clock runs exactly these, in the
  order of their times, whatever else is in the queue for later, and returns with
  none left; each of the processes gets one \<^verbatim>\<open>SIGALRM\<close>.  The loop of \<^verbatim>\<open>realitexpire\<close> ends, for
  clocks and timers at least 100000000 seconds, the longest interval, before the end of 32-bit time.
  As many turns of the loop of \<^verbatim>\<open>softclock\<close> as there are due events, and one more, are enough.
\<close>

theorem softclock_delivers_alarms:
  assumes "timers_ok s" "queue_ok (calltodo s)"
    and "\<forall>(late, func, p) \<in> set (due s). func = realitexpire_addr \<and> tv_sec (it_value (p_realtimer (procs s p))) < 2047483647"
    and "distinct (map (\<lambda>(late, func, p). p) (due s))"
  shows "\<exists>s'. softclock (call_func other) (Suc (length (due s))) frame s = Some (Inr (s', due s)) \<and>
    due s' = [] \<and> queue_ok (calltodo s') \<and>
    signals s' = signals s @ map (\<lambda>(late, func, p). (p, SIGALRM)) (due s)"
proof -
  have "alarms_ok (due s) s" using assms(1,3,4) by (simp add: alarms_ok_def)
  then obtain s1 where s1: "softclock_loop (call_func other) (Suc (length (due s))) s = Some (Inr (s1, due s))"
      "due s1 = []" "queue_ok (calltodo s1)"
      "signals s1 = signals s @ concat (map (\<lambda>(a, func, p). [(p, SIGALRM)]) (due s))"
    using alarm.loop_runs_due [OF _ assms(2), of "Suc (length (due s))" other] by auto
  have keeps: "calltodo (softclock_process frame s1) = calltodo s1" "signals (softclock_process frame s1) = signals s1"
    by (simp_all add: softclock_process_def Let_def split: option.splits)
  have "concat (map (\<lambda>(a, func, p). [(p, SIGALRM)]) es) = map (\<lambda>(late, func, p). (p, SIGALRM)) (es :: event list)" for es
    by (induction es) auto
  then show ?thesis using s1 keeps by (simp add: softclock_def due_def)
qed

theorem softclock_delivers_alarms_witness:
  "let s = clk0\<lparr>calltodo := [\<lparr>c_func = realitexpire_addr, c_arg = 9, c_time = - 1\<rparr>, \<lparr>c_func = realitexpire_addr, c_arg = 4, c_time = 0\<rparr>,
                             \<lparr>c_func = 77, c_arg = 7, c_time = 3\<rparr>]\<rparr> in
   \<exists>s'. softclock (call_func (\<lambda>_ _ _ _. None)) 3 \<lparr>usermode = True, basepri = True\<rparr> s =
          Some (Inr (s', [(- 1, realitexpire_addr, 9), (0, realitexpire_addr, 4)])) \<and> signals s' = [(9, SIGALRM), (4, SIGALRM)]"
proof -
  let ?s = "clk0\<lparr>calltodo := [\<lparr>c_func = realitexpire_addr, c_arg = 9, c_time = - 1\<rparr>, \<lparr>c_func = realitexpire_addr, c_arg = 4, c_time = 0\<rparr>,
                             \<lparr>c_func = 77, c_arg = 7, c_time = 3\<rparr>]\<rparr>"
  have "timers_ok ?s" by (simp add: timers_ok_def clk0_def proc0_def tv_ok_def part_ok_def usecs_def)
  moreover have "due ?s = [(- 1, realitexpire_addr, 9), (0, realitexpire_addr, 4)]" "signals ?s = []" by (simp_all add: due_def clk0_def)
  moreover have "tv_sec (it_value (p_realtimer (procs ?s p))) = 0" for p by (simp add: clk0_def proc0_def)
  ultimately show ?thesis
    using softclock_delivers_alarms [of ?s "\<lambda>_ _ _ _. None" "\<lparr>usermode = True, basepri = True\<rparr>"]
    by (auto simp: clk0_def numeral_3_eq_3)
qed

text \<open>
  A correction of at most \<^verbatim>\<open>bigadj\<close> given to \<^verbatim>\<open>adjtime\<close> is applied exactly,
  rounded towards zero to a multiple of \<^verbatim>\<open>tickadj\<close>: when enough clock interrupts have
  passed no correction is outstanding, and the time of day has advanced by one tick for
  each interrupt and by the correction.
\<close>

theorem adjtime_settles:
  assumes "cr_uid (p_ucred (procs s p)) = 0" "timedelta s = 0"
    and "tv_ok d" "\<bar>usecs d\<bar> \<le> bigadj" "adjtime p (UOk d) w s = (None, old, s1)"
    and "hardclocks frs s1 = Some s2" "\<bar>usecs d\<bar> \<le> int (length frs) * tickadj"
  shows "timedelta s2 = 0 \<and> \<bar>usecs d - usecs d sdiv tickadj * tickadj\<bar> < tickadj \<and>
    usecs (time s2) = usecs (time s) + int (length frs) * tick + usecs d sdiv tickadj * tickadj"
proof -
  let ?D = "usecs d"
  have D: "\<bar>?D\<bar> \<le> 1000000" using assms(4) by (simp add: bigadj_def)
  then have "- 2 \<le> tv_sec d" "tv_sec d \<le> 1" using assms(3) by (auto simp: usecs_def tv_ok_def)
  then have nd: "s32 (s32 (tv_sec d * 1000000) + tv_usec d) = ?D"
    using D by (simp add: s32_fits usecs_def)
  have round: "adj_round tickadj ?D = ?D sdiv tickadj * tickadj"
    using sdiv_mult_smod_eq [of ?D tickadj] by (simp add: adj_round_def)
  have s1: "timedelta s1 = ?D sdiv tickadj * tickadj" "tickdelta s1 = tickadj" "time s1 = time s"
    using assms(1,2,5) assms(4)
    by (auto simp: adjtime_def suser_proc_def suser_def Let_def nd round)
  have "\<bar>?D - tickadj * (?D sdiv tickadj)\<bar> < tickadj" by (rule sdiv_bounds) (simp add: tickadj_def)
  then have r: "\<bar>?D - ?D sdiv tickadj * tickadj\<bar> < tickadj" by (simp add: mult.commute)
  have "\<bar>?D sdiv tickadj\<bar> * tickadj \<le> \<bar>?D\<bar>"
    by (auto simp: signed_divide_int_def tickadj_def abs_mult sgn_if)
  then have "\<bar>?D sdiv tickadj\<bar> \<le> int (length frs)"
    using assms(7) by (simp add: tickadj_def)
  then have "timedelta s2 = 0"
    using hardclocks_settle [OF assms(6), of "?D sdiv tickadj"] s1 by (simp add: tickadj_def)
  then show ?thesis using hardclocks_time [OF assms(6)] s1 r by simp
qed

theorem adjtime_settles_witness:
  "\<exists>s1 s2. adjtime 5 (UOk \<lparr>tv_sec = - 1, tv_usec = 999909\<rparr>) False clk0 = (None, None, s1) \<and>
     hardclocks (replicate 3 \<lparr>usermode = False, basepri = True\<rparr>) s1 = Some s2 \<and>
     timedelta s2 = 0 \<and> usecs (time s2) = 1000000000 + 30000 - 80"
proof -
  let ?d = "\<lparr>tv_sec = - 1, tv_usec = 999909\<rparr>" and ?frs = "replicate 3 \<lparr>usermode = False, basepri = True\<rparr>"
  obtain s1 where s1: "adjtime 5 (UOk ?d) False clk0 = (None, None, s1)"
    by (simp add: adjtime_def suser_proc_def suser_def clk0_def proc0_def Let_def)
  obtain s2 where s2: "hardclocks ?frs s1 = Some s2"
    using hardclocks_total [of ?frs s1] by auto
  have "usecs ?d sdiv tickadj = - 2" by code_simp
  then show ?thesis
    using adjtime_settles [of clk0 5 ?d False None s1 ?frs s2] s1 s2
    by (simp add: clk0_def proc0_def tv_ok_def usecs_def bigadj_def clock_rate)
qed

text \<open>
  A larger correction may never be finished.  \<^verbatim>\<open>adjtime\<close> rounds it to a
  multiple of \<^verbatim>\<open>tickadj\<close>, but the clock applies ten times that much per tick, so
  after a correction of 1000040 microseconds the outstanding amount swings
  around zero for ever.
\<close>

theorem adjtime_never_settles:
  assumes "cr_uid (p_ucred (procs s p)) = 0" "timedelta s = 0"
    and "adjtime p (UOk \<lparr>tv_sec = 1, tv_usec = 40\<rparr>) w s = (None, old, s1)"
    and "hardclocks frs s1 = Some s2"
  shows "timedelta s2 \<noteq> 0"
proof -
  have "adj_round 400 1000040 = 1000040" by code_simp
  then have "timedelta s1 = 1000040" "tickdelta s1 = 400"
    using assms(1-3) by (auto simp: adjtime_def suser_proc_def suser_def Let_def s32_fits bigadj_def tickadj_def)
  then show ?thesis using hardclocks_residue [OF assms(4)] by auto
qed

theorem adjtime_never_settles_witness:
  "\<exists>s1. adjtime 5 (UOk \<lparr>tv_sec = 1, tv_usec = 40\<rparr>) False clk0 = (None, None, s1) \<and>
     (\<forall>frs s2. hardclocks frs s1 = Some s2 \<longrightarrow> timedelta s2 \<noteq> 0)"
proof -
  obtain s1 where s1: "adjtime 5 (UOk \<lparr>tv_sec = 1, tv_usec = 40\<rparr>) False clk0 = (None, None, s1)"
    by (simp add: adjtime_def suser_proc_def suser_def clk0_def proc0_def Let_def)
  then show ?thesis using adjtime_never_settles [OF _ _ s1] by (auto simp: clk0_def proc0_def)
qed

text \<open>
  \<^verbatim>\<open>setitimer\<close> on the real timer leaves exactly one expiry pending for the
  process, or none when the new value is zero, whatever was pending before; it
  leaves the events of all others alone; and \<^verbatim>\<open>getitimer\<close> at the same time gives the
  value back.
\<close>

theorem setitimer_real_arms:
  assumes "queue_ok (calltodo s)" "length (of_fun realitexpire_addr p (events (calltodo s))) \<le> 1"
    and "tv_ok (time s)" "0 < usecs (time s) \<and> tv_sec (time s) < 2047483647"
    and "itimerfix (it_value a) = Inr v" "itimerfix (it_interval a) = Inr i"
    and "setitimer p ITIMER_REAL (UOk a) oitv s = Inr (None, old, s')"
  shows "queue_ok (calltodo s') \<and>
    of_fun realitexpire_addr p (events (calltodo s')) =
      (if timerisset v then [(max 1 (hzto (time s) (timevaladd v (time s))), realitexpire_addr, p)] else []) \<and>
    (\<forall>f b. (f, b) \<noteq> (realitexpire_addr, p) \<longrightarrow>
      of_fun f b (events (calltodo s')) = of_fun f b (events (calltodo s))) \<and>
    getitimer p ITIMER_REAL True s' = Inr \<lparr>it_interval = i, it_value = v\<rparr>"
proof -
  let ?a = "a\<lparr>it_value := v, it_interval := i\<rparr>" and ?v = "timevaladd v (time s)"
  have set: "settimer_real p ?a s = Inr s'" using setitimer_ok [OF assms(7)] assms(5,6) by simp
  note q = settimer_real_queue [OF assms(1,2) set]
  have v: "tv_ok v" "0 \<le> usecs v" "0 \<le> tv_sec v" "tv_sec v \<le> 100000000"
    using itimerfix_ok [OF assms(5)] by (auto simp: part_ok_def usecs_def tv_ok_def)
  have t: "0 \<le> tv_sec (time s)" using assms(3,4) by (simp add: usecs_def tv_ok_def)
  have abs: "tv_ok ?v" "usecs ?v = usecs v + usecs (time s)" using v t assms(3,4) by (simp_all add: tv_ok_timevaladd usecs_timevaladd)
  then have "- 1 < tv_sec ?v - tv_sec (time s)" "tv_sec ?v - tv_sec (time s) < 100000002"
    using v assms(3) by (simp_all add: usecs_def tv_ok_def)
  then have "timevalsub ?v (time s) = v"
    using v abs assms(3) by (intro tv_eqI) (simp_all add: tv_ok_timevalsub usecs_timevalsub)
  moreover have "timerisset ?v" "\<not> timercmp_lt ?v (time s)"
    using abs v assms(3,4) by (simp_all add: timerisset_usecs timercmp_usecs)
  ultimately have "getitimer p ITIMER_REAL True s' = Inr \<lparr>it_interval = i, it_value = v\<rparr>"
    using q(4,5) by (simp add: getitimer_def Let_def)
  then show ?thesis using q(1-3) by simp
qed

theorem setitimer_real_arms_witness:
  "\<exists>s'. setitimer 5 ITIMER_REAL (UOk \<lparr>it_interval = tv0, it_value = \<lparr>tv_sec = 2, tv_usec = 0\<rparr>\<rparr>) UNull clk0 =
      Inr (None, None, s') \<and> of_fun realitexpire_addr 5 (events (calltodo s')) = [(200, realitexpire_addr, 5)]"
proof -
  let ?a = "\<lparr>it_interval = tv0, it_value = \<lparr>tv_sec = 2, tv_usec = 0\<rparr>\<rparr>"
  obtain s' where s': "setitimer 5 ITIMER_REAL (UOk ?a) UNull clk0 = Inr (None, None, s')"
    by (simp add: setitimer_def itimerfix_def settimer_real_def untimeout_def timeout_def Let_def
        timerisset_def clk0_def eval_nat_numeral)
  have "hzto (time clk0) (timevaladd \<lparr>tv_sec = 2, tv_usec = 0\<rparr> (time clk0)) = 200" by code_simp
  then show ?thesis
    using setitimer_real_arms [of clk0 5 ?a "\<lparr>tv_sec = 2, tv_usec = 0\<rparr>" tv0 UNull None s'] s'
    by (simp add: clk0_def of_fun_def tv_ok_def usecs_def itimerfix_def timerisset_def)
qed

text \<open>
  An interrupt charges the running process one tick of time, in user or
  system mode, counts the tick, and raises its cpu estimate by one without
  wrapping round; no other process is touched.
\<close>

theorem hardclock_charges_current:
  assumes "hardclock fr s = Some s'" "curproc s = Some p"
  shows "usecs (p_utime (procs s' p)) + usecs (p_stime (procs s' p)) =
      usecs (p_utime (procs s p)) + usecs (p_stime (procs s p)) + tick \<and>
    p_cpticks (procs s' p) = p_cpticks (procs s p) + 1 \<and>
    unat (p_cpu (procs s' p)) = min (unat (p_cpu (procs s p)) + 1) 4294967295 \<and>
    (\<forall>q. q \<noteq> p \<longrightarrow> procs s' q = procs s q)"
  using hardclock_charged [OF assms] bump_cpu_saturates by (auto simp: charged_def)

theorem hardclock_charges_current_witness:
  "\<exists>s'. hardclock \<lparr>usermode = True, basepri = True\<rparr> clk0 = Some s' \<and>
     usecs (p_utime (procs s' 5)) + usecs (p_stime (procs s' 5)) = tick"
proof -
  obtain s' where s': "hardclock \<lparr>usermode = True, basepri = True\<rparr> clk0 = Some s'"
    using hardclock_total [of "\<lparr>usermode = True, basepri = True\<rparr>" clk0] by (auto simp: clk0_def)
  then show ?thesis using hardclock_charges_current [OF s', of 5]
    by (simp add: clk0_def proc0_def usecs_def)
qed

end
