(* ===== verification/Klock.thy ===== *)
theory Klock
  imports Prelude
begin

text \<open>
  The sleeping reader/writer locks of \<^verbatim>\<open>src/sys/vm/kern_lock.c\<close>, on one processor
  (\<^verbatim>\<open>NCPUS\<close> is 1 in \<^verbatim>\<open>src/sys/vm/lock.h\<close>, so the interlock is free of contention and
  \<^verbatim>\<open>lock_wait_time\<close> is 0).  The kernel is not preempted: a routine runs from its call,
  or from the point where it slept, to the next sleep or its return in one step.
  Each routine is a function to the lock and an outcome; the places where a
  thread can sleep are program points, and \<open>resume\<close> continues from one.
  Threads are then interleaved by a step relation in which they use the lock as its
  comments prescribe.
\<close>

section \<open>The lock and its routines\<close>

record lock =
  want_write :: bool
  want_upgrade :: bool
  waiting :: bool
  can_sleep :: bool
  read_count :: int
  lthread :: "nat option"
  recursion_depth :: int

text \<open>Where a thread sleeps: the two loops of \<^verbatim>\<open>lock_write\<close>, the loop of \<^verbatim>\<open>lock_read\<close>,
  the loop of the upgrades.\<close>

datatype point = WWrite | WReaders | WRead | WUpgrade

datatype outcome = Ret bool | Sleeps point | Spins

definition lock_init :: "bool \<Rightarrow> lock" where
  "lock_init sleepable =
     \<lparr>want_write = False, want_upgrade = False, waiting = False, can_sleep = sleepable,
      read_count = 0, lthread = None, recursion_depth = 0\<rparr>"

definition lock_sleepable :: "bool \<Rightarrow> lock \<Rightarrow> lock" where
  "lock_sleepable b l = l\<lparr>can_sleep := b\<rparr>"

text \<open>One turn of a waiting loop whose condition holds: sleep, or spin for ever.\<close>

definition wait_at :: "point \<Rightarrow> lock \<Rightarrow> lock \<times> outcome" where
  "wait_at pc l = (if can_sleep l then (l\<lparr>waiting := True\<rparr>, Sleeps pc) else (l, Spins))"

definition lock_write_readers :: "lock \<Rightarrow> lock \<times> outcome" where
  "lock_write_readers l =
     (if read_count l \<noteq> 0 \<or> want_upgrade l then wait_at WReaders l else (l, Ret True))"

definition lock_write_wanted :: "lock \<Rightarrow> lock \<times> outcome" where
  "lock_write_wanted l =
     (if want_write l then wait_at WWrite l else lock_write_readers (l\<lparr>want_write := True\<rparr>))"

definition lock_write :: "nat \<Rightarrow> lock \<Rightarrow> lock \<times> outcome" where
  "lock_write t l =
     (if lthread l = Some t then (l\<lparr>recursion_depth := recursion_depth l + 1\<rparr>, Ret True)
      else lock_write_wanted l)"

text \<open>The routines that may wake the sleepers return whether they do.\<close>

definition wake :: "lock \<Rightarrow> lock \<times> bool" where
  "wake l = (if waiting l then (l\<lparr>waiting := False\<rparr>, True) else (l, False))"

definition lock_done :: "lock \<Rightarrow> lock \<times> bool" where
  "lock_done l =
     wake (if read_count l \<noteq> 0 then l\<lparr>read_count := read_count l - 1\<rparr>
           else if recursion_depth l \<noteq> 0 then l\<lparr>recursion_depth := recursion_depth l - 1\<rparr>
           else if want_upgrade l then l\<lparr>want_upgrade := False\<rparr>
           else l\<lparr>want_write := False\<rparr>)"

definition lock_read_wanted :: "lock \<Rightarrow> lock \<times> outcome" where
  "lock_read_wanted l =
     (if want_write l \<or> want_upgrade l then wait_at WRead l
      else (l\<lparr>read_count := read_count l + 1\<rparr>, Ret True))"

definition lock_read :: "nat \<Rightarrow> lock \<Rightarrow> lock \<times> outcome" where
  "lock_read t l =
     (if lthread l = Some t then (l\<lparr>read_count := read_count l + 1\<rparr>, Ret True) else lock_read_wanted l)"

definition upgrade_readers :: "bool \<Rightarrow> lock \<Rightarrow> lock \<times> outcome" where
  "upgrade_readers r l = (if read_count l \<noteq> 0 then wait_at WUpgrade l else (l, Ret r))"

text \<open>\<^verbatim>\<open>lock_read_to_write\<close> returns \<^verbatim>\<open>TRUE\<close> when the upgrade failed.\<close>

definition lock_read_to_write :: "nat \<Rightarrow> lock \<Rightarrow> (lock \<times> outcome) \<times> bool" where
  "lock_read_to_write t l0 =
     (let l = l0\<lparr>read_count := read_count l0 - 1\<rparr> in
      if lthread l = Some t then ((l\<lparr>recursion_depth := recursion_depth l + 1\<rparr>, Ret False), False)
      else if want_upgrade l then (case wake l of (l', w) \<Rightarrow> ((l', Ret True), w))
      else (upgrade_readers False (l\<lparr>want_upgrade := True\<rparr>), False))"

definition lock_write_to_read :: "lock \<Rightarrow> lock \<times> bool" where
  "lock_write_to_read l0 =
     (let l = l0\<lparr>read_count := read_count l0 + 1\<rparr> in
      wake (if recursion_depth l \<noteq> 0 then l\<lparr>recursion_depth := recursion_depth l - 1\<rparr>
            else if want_upgrade l then l\<lparr>want_upgrade := False\<rparr>
            else l\<lparr>want_write := False\<rparr>))"

definition lock_try_write :: "nat \<Rightarrow> lock \<Rightarrow> lock \<times> bool" where
  "lock_try_write t l =
     (if lthread l = Some t then (l\<lparr>recursion_depth := recursion_depth l + 1\<rparr>, True)
      else if want_write l \<or> want_upgrade l \<or> read_count l \<noteq> 0 then (l, False)
      else (l\<lparr>want_write := True\<rparr>, True))"

definition lock_try_read :: "nat \<Rightarrow> lock \<Rightarrow> lock \<times> bool" where
  "lock_try_read t l =
     (if lthread l = Some t then (l\<lparr>read_count := read_count l + 1\<rparr>, True)
      else if want_write l \<or> want_upgrade l then (l, False)
      else (l\<lparr>read_count := read_count l + 1\<rparr>, True))"

text \<open>\<^verbatim>\<open>lock_try_read_to_write\<close> sleeps without looking at \<^verbatim>\<open>can_sleep\<close>.\<close>

definition lock_try_read_to_write :: "nat \<Rightarrow> lock \<Rightarrow> lock \<times> outcome" where
  "lock_try_read_to_write t l =
     (if lthread l = Some t
      then (l\<lparr>read_count := read_count l - 1, recursion_depth := recursion_depth l + 1\<rparr>, Ret True)
      else if want_upgrade l then (l, Ret False)
      else let l1 = l\<lparr>want_upgrade := True, read_count := read_count l - 1\<rparr> in
        if read_count l1 \<noteq> 0 then (l1\<lparr>waiting := True\<rparr>, Sleeps WUpgrade) else (l1, Ret True))"

text \<open>\<open>None\<close> stands for the panics of the last two.\<close>

definition lock_set_recursive :: "nat \<Rightarrow> lock \<Rightarrow> lock option" where
  "lock_set_recursive t l = (if \<not> want_write l then None else Some (l\<lparr>lthread := Some t\<rparr>))"

definition lock_clear_recursive :: "nat \<Rightarrow> lock \<Rightarrow> lock option" where
  "lock_clear_recursive t l =
     (if lthread l \<noteq> Some t then None
      else Some (if recursion_depth l = 0 then l\<lparr>lthread := None\<rparr> else l))"

text \<open>Going on after a sleep; the value a routine returns from there is the same.\<close>

fun resume :: "point \<Rightarrow> lock \<Rightarrow> lock \<times> outcome" where
  "resume WWrite l = lock_write_wanted l"
| "resume WReaders l = lock_write_readers l"
| "resume WRead l = lock_read_wanted l"
| "resume WUpgrade l = upgrade_readers True l"

section \<open>Threads\<close>

text \<open>What a thread has to do with the lock.  \<open>Writer up d r\<close> holds it for writing,
  got by an upgrade or not, and has acquired it \<open>d\<close> more times for writing and \<open>r\<close>
  times for reading.\<close>

datatype tstate =
    Idle
  | Reader
  | Writer (upgraded: bool) (depth: nat) (reads: nat)
  | Asleep point
  | Awake point

record sys =
  lk :: lock
  st :: "nat \<Rightarrow> tstate"

definition set_st :: "nat \<Rightarrow> tstate \<Rightarrow> lock \<Rightarrow> sys \<Rightarrow> sys" where
  "set_st t x l s = \<lparr>lk = l, st = (st s)(t := x)\<rparr>"

definition wake_all :: "bool \<Rightarrow> sys \<Rightarrow> sys" where
  "wake_all w s = (if w then s\<lparr>st := \<lambda>t. case st s t of Asleep pc \<Rightarrow> Awake pc | x \<Rightarrow> x\<rparr> else s)"

fun enter :: "tstate \<Rightarrow> outcome \<Rightarrow> tstate" where
  "enter h (Ret b) = h"
| "enter h (Sleeps pc) = Asleep pc"
| "enter h Spins = Idle"

fun goal_of :: "point \<Rightarrow> tstate" where
  "goal_of WWrite = Writer False 0 0"
| "goal_of WReaders = Writer False 0 0"
| "goal_of WRead = Reader"
| "goal_of WUpgrade = Writer True 0 0"

text \<open>The steps of threads that use the lock as prescribed: release what they hold,
  upgrade a read lock, downgrade a write lock, and acquire again only after
  \<^verbatim>\<open>lock_set_recursive\<close>, which is taken back before the last release.\<close>

inductive kstep :: "sys \<Rightarrow> sys \<Rightarrow> bool" where
  k_write: "st s t = Idle \<Longrightarrow> lock_write t (lk s) = (l, r) \<Longrightarrow>
    kstep s (set_st t (enter (Writer False 0 0) r) l s)"
| k_try_write: "st s t = Idle \<Longrightarrow> lock_try_write t (lk s) = (l, b) \<Longrightarrow>
    kstep s (set_st t (if b then Writer False 0 0 else Idle) l s)"
| k_read: "st s t = Idle \<Longrightarrow> lock_read t (lk s) = (l, r) \<Longrightarrow>
    kstep s (set_st t (enter Reader r) l s)"
| k_try_read: "st s t = Idle \<Longrightarrow> lock_try_read t (lk s) = (l, b) \<Longrightarrow>
    kstep s (set_st t (if b then Reader else Idle) l s)"
| k_resume: "st s t = Awake pc \<Longrightarrow> resume pc (lk s) = (l, r) \<Longrightarrow>
    kstep s (set_st t (enter (goal_of pc) r) l s)"
| k_read_done: "st s t = Reader \<Longrightarrow> lock_done (lk s) = (l, w) \<Longrightarrow>
    kstep s (wake_all w (set_st t Idle l s))"
| k_upgrade: "st s t = Reader \<Longrightarrow> lock_read_to_write t (lk s) = ((l, r), w) \<Longrightarrow>
    kstep s (wake_all w (set_st t (if r = Ret True then Idle else enter (Writer True 0 0) r) l s))"
| k_try_upgrade: "st s t = Reader \<Longrightarrow> lock_try_read_to_write t (lk s) = (l, r) \<Longrightarrow>
    kstep s (set_st t (if r = Ret False then Reader else enter (Writer True 0 0) r) l s)"
| k_write_done: "st s t = Writer u 0 0 \<Longrightarrow> lthread (lk s) \<noteq> Some t \<Longrightarrow> lock_done (lk s) = (l, w) \<Longrightarrow>
    kstep s (wake_all w (set_st t Idle l s))"
| k_downgrade: "st s t = Writer u 0 0 \<Longrightarrow> lthread (lk s) \<noteq> Some t \<Longrightarrow> lock_write_to_read (lk s) = (l, w) \<Longrightarrow>
    kstep s (wake_all w (set_st t Reader l s))"
| k_set_rec: "st s t = Writer False d r \<Longrightarrow> lock_set_recursive t (lk s) = Some l \<Longrightarrow>
    kstep s (set_st t (Writer False d r) l s)"
| k_clear_rec: "st s t = Writer False 0 0 \<Longrightarrow> lock_clear_recursive t (lk s) = Some l \<Longrightarrow>
    kstep s (set_st t (Writer False 0 0) l s)"
| k_rec_write: "st s t = Writer False d r \<Longrightarrow> lthread (lk s) = Some t \<Longrightarrow> lock_write t (lk s) = (l, x) \<Longrightarrow>
    kstep s (set_st t (Writer False (Suc d) r) l s)"
| k_rec_read: "st s t = Writer False d r \<Longrightarrow> lthread (lk s) = Some t \<Longrightarrow> lock_read t (lk s) = (l, x) \<Longrightarrow>
    kstep s (set_st t (Writer False d (Suc r)) l s)"
| k_rec_upgrade: "st s t = Writer False d (Suc r) \<Longrightarrow> lthread (lk s) = Some t \<Longrightarrow>
    lock_read_to_write t (lk s) = ((l, x), w) \<Longrightarrow>
    kstep s (wake_all w (set_st t (Writer False (Suc d) r) l s))"
| k_rec_done_read: "st s t = Writer False d (Suc r) \<Longrightarrow> lock_done (lk s) = (l, w) \<Longrightarrow>
    kstep s (wake_all w (set_st t (Writer False d r) l s))"
| k_rec_done_write: "st s t = Writer False (Suc d) 0 \<Longrightarrow> lock_done (lk s) = (l, w) \<Longrightarrow>
    kstep s (wake_all w (set_st t (Writer False d 0) l s))"

definition kinit :: "sys \<Rightarrow> bool" where
  "kinit s \<longleftrightarrow> lk s = lock_init True \<and> st s = (\<lambda>_. Idle)"

inductive kreach :: "sys \<Rightarrow> bool" where
  k_init: "kinit s \<Longrightarrow> kreach s"
| k_step: "kreach s \<Longrightarrow> kstep s s' \<Longrightarrow> kreach s'"

section \<open>The invariant\<close>

fun wants_write :: "tstate \<Rightarrow> bool" where
  "wants_write (Writer u d r) \<longleftrightarrow> \<not> u"
| "wants_write (Asleep pc) \<longleftrightarrow> pc = WReaders"
| "wants_write (Awake pc) \<longleftrightarrow> pc = WReaders"
| "wants_write x \<longleftrightarrow> False"

fun wants_upgrade :: "tstate \<Rightarrow> bool" where
  "wants_upgrade (Writer u d r) \<longleftrightarrow> u"
| "wants_upgrade (Asleep pc) \<longleftrightarrow> pc = WUpgrade"
| "wants_upgrade (Awake pc) \<longleftrightarrow> pc = WUpgrade"
| "wants_upgrade x \<longleftrightarrow> False"

fun blocked :: "point \<Rightarrow> lock \<Rightarrow> bool" where
  "blocked WWrite l \<longleftrightarrow> want_write l"
| "blocked WReaders l \<longleftrightarrow> read_count l \<noteq> 0 \<or> want_upgrade l"
| "blocked WRead l \<longleftrightarrow> want_write l \<or> want_upgrade l"
| "blocked WUpgrade l \<longleftrightarrow> read_count l \<noteq> 0"

definition readers :: "(nat \<Rightarrow> tstate) \<Rightarrow> nat set" where
  "readers f = {t. f t = Reader}"

definition core :: "nat option \<Rightarrow> nat option \<Rightarrow> sys \<Rightarrow> bool" where
  "core ww wu s \<longleftrightarrow>
     finite (readers (st s)) \<and> can_sleep (lk s) \<and>
     want_write (lk s) = (ww \<noteq> None) \<and> (\<forall>t. wants_write (st s t) = (ww = Some t)) \<and>
     want_upgrade (lk s) = (wu \<noteq> None) \<and> (\<forall>t. wants_upgrade (st s t) = (wu = Some t)) \<and>
     (\<forall>t u d r. st s t = Writer u d r \<longrightarrow>
        readers (st s) = {} \<and> read_count (lk s) = int r \<and> recursion_depth (lk s) = int d \<and>
        (\<not> u \<longrightarrow> wu = None) \<and> (0 < d + r \<longrightarrow> lthread (lk s) = Some t)) \<and>
     ((\<forall>t u d r. st s t \<noteq> Writer u d r) \<longrightarrow>
        read_count (lk s) = int (card (readers (st s))) \<and> recursion_depth (lk s) = 0) \<and>
     (\<forall>t. lthread (lk s) = Some t \<longrightarrow> (\<exists>d r. st s t = Writer False d r))"

text \<open>No wake-up is lost: whoever sleeps still has a reason to, and is recorded.\<close>

definition sleep_ok :: "sys \<Rightarrow> bool" where
  "sleep_ok s \<longleftrightarrow> (\<forall>t pc. st s t = Asleep pc \<longrightarrow> waiting (lk s) \<and> blocked pc (lk s))"

definition kinv :: "sys \<Rightarrow> bool" where
  "kinv s \<longleftrightarrow> (\<exists>ww wu. core ww wu s) \<and> sleep_ok s"

lemma readers_upd:
  "readers (f(t := x)) = (if x = Reader then insert t (readers f) else readers f - {t})"
  by (auto simp: readers_def)

lemma readers_mem: "t \<in> readers f \<longleftrightarrow> f t = Reader"
  by (simp add: readers_def)

lemma set_st_sel [simp]: "lk (set_st t x l s) = l" "st (set_st t x l s) = (st s)(t := x)"
  by (simp_all add: set_st_def)

lemma wake_all_sel [simp]: "lk (wake_all w s) = lk s"
  by (simp add: wake_all_def)

lemma wake_all_st:
  "st (wake_all w s) t = Reader \<longleftrightarrow> st s t = Reader"
  "st (wake_all w s) t = Writer u d r \<longleftrightarrow> st s t = Writer u d r"
  "wants_write (st (wake_all w s) t) = wants_write (st s t)"
  "wants_upgrade (st (wake_all w s) t) = wants_upgrade (st s t)"
  "st (wake_all w s) t = Asleep pc \<longleftrightarrow> \<not> w \<and> st s t = Asleep pc"
  by (auto simp: wake_all_def split: tstate.splits)

lemma readers_wake_all [simp]: "readers (st (wake_all w s)) = readers (st s)"
  by (simp add: readers_def wake_all_st)

lemma core_wake_all: "core ww wu s \<Longrightarrow> core ww wu (wake_all w s)"
  by (simp add: core_def wake_all_st)

lemma core_waiting: "core ww wu (s\<lparr>lk := (lk s)\<lparr>waiting := b\<rparr>\<rparr>) = core ww wu s"
  by (simp add: core_def)

text \<open>A release followed by its wake-up restores the sleepers' condition.\<close>

lemma released:
  assumes "core ww wu (set_st t x l0 s)" "wake l0 = (l, w)" "sleep_ok s" "waiting l0 = waiting (lk s)"
    "\<forall>pc. x \<noteq> Asleep pc"
  shows "kinv (wake_all w (set_st t x l s))"
proof -
  have "core ww wu (set_st t x (l0\<lparr>waiting := b\<rparr>) s) = core ww wu (set_st t x l0 s)" for b
    by (simp add: core_def)
  then have "core ww wu (set_st t x l s)"
    using assms(1,2) by (simp add: wake_def split: if_splits) blast
  moreover have "sleep_ok (wake_all w (set_st t x l s))"
    using assms(2-5) by (auto simp: sleep_ok_def wake_all_st wake_def split: if_splits)
  ultimately show ?thesis using core_wake_all unfolding kinv_def by blast
qed

lemma coreD:
  assumes "core ww wu s"
  shows "finite (readers (st s))" "can_sleep (lk s)"
    "want_write (lk s) = (ww \<noteq> None)" "wants_write (st s t) = (ww = Some t)"
    "want_upgrade (lk s) = (wu \<noteq> None)" "wants_upgrade (st s t) = (wu = Some t)"
    "st s t = Writer u d r \<Longrightarrow> readers (st s) = {} \<and> read_count (lk s) = int r \<and>
       recursion_depth (lk s) = int d \<and> (\<not> u \<longrightarrow> wu = None) \<and> (0 < d + r \<longrightarrow> lthread (lk s) = Some t)"
    "lthread (lk s) = Some t \<Longrightarrow> \<exists>d r. st s t = Writer False d r"
proof -
  note c = assms [unfolded core_def]
  show "finite (readers (st s))" "can_sleep (lk s)"
    "want_write (lk s) = (ww \<noteq> None)" "wants_write (st s t) = (ww = Some t)"
    "want_upgrade (lk s) = (wu \<noteq> None)" "wants_upgrade (st s t) = (wu = Some t)"
    using c by simp_all
  show "st s t = Writer u d r \<Longrightarrow> readers (st s) = {} \<and> read_count (lk s) = int r \<and>
       recursion_depth (lk s) = int d \<and> (\<not> u \<longrightarrow> wu = None) \<and> (0 < d + r \<longrightarrow> lthread (lk s) = Some t)"
    using c by simp
  show "lthread (lk s) = Some t \<Longrightarrow> \<exists>d r. st s t = Writer False d r" using c by simp
qed

lemma one_writer:
  assumes "core ww wu s" "st s t = Writer u d r" "st s t' = Writer u' d' r'"
  shows "t' = t"
proof (cases u; cases u')
  assume "u" "u'"
  then show ?thesis using coreD(6) [OF assms(1), of t] coreD(6) [OF assms(1), of t'] assms by simp
next
  assume "\<not> u" "\<not> u'"
  then show ?thesis using coreD(4) [OF assms(1), of t] coreD(4) [OF assms(1), of t'] assms by simp
next
  assume "u" "\<not> u'"
  then show ?thesis using coreD(6) [OF assms(1), of t] coreD(7) [OF assms(1,3)] assms by simp
next
  assume "\<not> u" "u'"
  then show ?thesis using coreD(6) [OF assms(1), of t'] coreD(7) [OF assms(1,2)] assms by simp
qed

text \<open>Facts about a state in which thread \<open>t\<close> holds the lock, or no one does.\<close>

lemma reader_facts:
  assumes "core ww wu s" "st s t = Reader"
  shows "\<forall>t u d r. st s t \<noteq> Writer u d r" "read_count (lk s) = int (card (readers (st s)))"
    "0 < card (readers (st s))" "recursion_depth (lk s) = 0" "lthread (lk s) = None"
proof -
  have t: "t \<in> readers (st s)" using assms(2) by (simp add: readers_mem)
  then show "\<forall>t u d r. st s t \<noteq> Writer u d r" using coreD(7) [OF assms(1)] by blast
  then show "read_count (lk s) = int (card (readers (st s)))" "recursion_depth (lk s) = 0"
    "lthread (lk s) = None"
    using assms(1) by (auto simp: core_def)
  show "0 < card (readers (st s))" using t coreD(1) [OF assms(1)] by (auto simp: card_gt_0_iff)
qed

text \<open>A thread that neither holds the lock nor changes its claims.\<close>

abbreviation holds :: "tstate \<Rightarrow> bool" where
  "holds x \<equiv> x = Reader \<or> (\<exists>u d r. x = Writer u d r)"

lemma core_move:
  assumes "core ww wu s" "\<not> holds (st s t)" "\<not> holds x"
    "wants_write x = wants_write (st s t)" "wants_upgrade x = wants_upgrade (st s t)"
    "l = (lk s)\<lparr>waiting := b\<rparr>"
  shows "core ww wu (set_st t x l s)"
proof -
  have "readers ((st s)(t := x)) = readers (st s)" using assms(2,3) by (auto simp: readers_def)
  moreover have "\<And>t' u d r. ((st s)(t := x)) t' = Writer u d r \<longleftrightarrow> st s t' = Writer u d r"
    using assms(2,3) by auto
  moreover have "\<And>t'. wants_write (((st s)(t := x)) t') = wants_write (st s t')"
    "\<And>t'. wants_upgrade (((st s)(t := x)) t') = wants_upgrade (st s t')"
    using assms(4,5) by auto
  ultimately show ?thesis using assms(1,6) by (simp add: core_def)
qed

text \<open>A thread without a hold becomes a reader, when no one claims the lock.\<close>

lemma core_new_reader:
  assumes "core None None s" "\<not> holds (st s t)" "l = (lk s)\<lparr>read_count := read_count (lk s) + 1\<rparr>"
  shows "core None None (set_st t Reader l s)"
proof -
  have no: "st s t' \<noteq> Writer u d r" for t' u d r
    using coreD(4,6) [OF assms(1), of t'] by (cases u) auto
  then have "read_count (lk s) = int (card (readers (st s)))" "recursion_depth (lk s) = 0" "lthread (lk s) = None"
    using assms(1) by (auto simp: core_def)
  moreover have "card (insert t (readers (st s))) = Suc (card (readers (st s)))"
    using coreD(1) [OF assms(1)] assms(2) by (simp add: readers_mem)
  ultimately show ?thesis
    using assms(1) no by (simp add: core_def readers_upd assms(3))
qed

text \<open>Claiming the write bit, waiting for readers or holding the lock at once.\<close>

lemma core_claim_write:
  assumes "core None wu s" "\<not> holds (st s t)" "\<not> wants_upgrade (st s t)" "l = (lk s)\<lparr>want_write := True, waiting := b\<rparr>"
    "x = Asleep WReaders \<or> x = Writer False 0 0 \<and> read_count (lk s) = 0 \<and> wu = None"
  shows "core (Some t) wu (set_st t x l s)"
proof -
  have r: "readers ((st s)(t := x)) = readers (st s)" using assms(2,5) by (auto simp: readers_def)
  have w: "\<not> wants_write (st s t')" for t' using coreD(4) [OF assms(1)] by simp
  show ?thesis
  proof (cases "x = Asleep WReaders")
    case True
    then have "\<And>t' u d r. ((st s)(t := x)) t' = Writer u d r \<longleftrightarrow> st s t' = Writer u d r"
      using assms(2) by auto
    then show ?thesis using assms(1,3) r w True by (auto simp: core_def assms(4))
  next
    case False
    then have x: "x = Writer False 0 0" "read_count (lk s) = 0" "wu = None" using assms(5) by auto
    have no: "st s t' \<noteq> Writer u d q" for t' u d q
      using coreD(4,6) [OF assms(1), of t'] x(3) by (cases u) auto
    then have "card (readers (st s)) = 0" "recursion_depth (lk s) = 0" "lthread (lk s) = None"
      using assms(1) x(2) by (auto simp: core_def)
    moreover have "readers (st s) = {}" using calculation(1) coreD(1) [OF assms(1)] by simp
    ultimately show ?thesis using assms(1) r w x no by (auto simp: core_def assms(4))
  qed
qed

text \<open>The waiting writer, and the waiting upgrader, find the readers gone.\<close>

lemma core_grant_write:
  assumes "core (Some t) None s" "\<not> holds (st s t)" "read_count (lk s) = 0"
  shows "core (Some t) None (set_st t (Writer False 0 0) (lk s) s)"
proof -
  have no: "st s t' \<noteq> Writer u d q" for t' u d q
    using coreD(4,6) [OF assms(1), of t'] assms(2) by (cases u) auto
  then have "card (readers (st s)) = 0" "recursion_depth (lk s) = 0" "lthread (lk s) = None"
    using assms(1,3) by (auto simp: core_def)
  moreover have "readers (st s) = {}" using calculation(1) coreD(1) [OF assms(1)] by simp
  moreover have "readers ((st s)(t := Writer False 0 0)) = readers (st s)"
    using assms(2) by (auto simp: readers_def)
  ultimately show ?thesis using assms(1,3) no by (auto simp: core_def)
qed

lemma core_grant_upgrade:
  assumes "core ww (Some t) s" "\<not> holds (st s t)" "read_count (lk s) = 0"
  shows "core ww (Some t) (set_st t (Writer True 0 0) (lk s) s)"
proof -
  have no: "st s t' \<noteq> Writer u d q" for t' u d q
    using coreD(6) [OF assms(1), of t'] coreD(7) [OF assms(1), of t' u d q] assms(2) by (cases u) auto
  then have c: "card (readers (st s)) = 0" "recursion_depth (lk s) = 0" "lthread (lk s) = None"
    using assms(1,3) by (auto simp: core_def)
  have e: "readers (st s) = {}" using c(1) coreD(1) [OF assms(1)] by simp
  have "readers ((st s)(t := Writer True 0 0)) = readers (st s)"
    using assms(2) by (auto simp: readers_def)
  moreover have "\<not> wants_write (st s t)"
    using assms(2) coreD(6) [OF assms(1), of t] by (cases "st s t") auto
  moreover have "\<not> wants_write (st s t) \<Longrightarrow> ww \<noteq> Some t" using coreD(4) [OF assms(1), of t] by simp
  ultimately show ?thesis using assms(1,3) no c e by (auto simp: core_def)
qed

lemma card_readers_minus:
  "finite (readers f) \<Longrightarrow> f t = Reader \<Longrightarrow> int (card (readers f - {t})) = int (card (readers f)) - 1"
  using card_Diff_singleton [of t "readers f"] card_gt_0_iff [of "readers f"]
  by (fastforce simp: readers_mem)

lemma core_drop_reader:
  assumes "core ww wu s" "st s t = Reader" "l = (lk s)\<lparr>read_count := read_count (lk s) - 1\<rparr>"
  shows "core ww wu (set_st t Idle l s)"
proof -
  note r = reader_facts [OF assms(1,2)]
  have w: "wants_write (st s t) = (ww = Some t)" "wants_upgrade (st s t) = (wu = Some t)"
    using coreD(4,6) [OF assms(1), of t] by auto
  show ?thesis
    using assms(1) r w assms(2) card_readers_minus [OF coreD(1) [OF assms(1)] assms(2)]
    by (auto simp: core_def readers_upd assms(3))
qed

lemma core_upgrade:
  assumes "core ww None s" "st s t = Reader"
    "l = (lk s)\<lparr>want_upgrade := True, read_count := read_count (lk s) - 1, waiting := b\<rparr>"
    "x = Asleep WUpgrade \<or> x = Writer True 0 0 \<and> read_count (lk s) = 1"
  shows "core ww (Some t) (set_st t x l s)"
proof -
  note r = reader_facts [OF assms(1,2)]
  have w: "wants_write (st s t) = (ww = Some t)" "\<And>t'. \<not> wants_upgrade (st s t')"
    using coreD(4,6) [OF assms(1)] by auto
  have c: "int (card (readers (st s) - {t})) = int (card (readers (st s))) - 1"
    by (rule card_readers_minus [OF coreD(1) [OF assms(1)] assms(2)])
  show ?thesis
  proof (cases "x = Asleep WUpgrade")
    case True
    then show ?thesis using assms(1) r w c assms(2) by (auto simp: core_def readers_upd assms(3))
  next
    case False
    then have x: "x = Writer True 0 0" "read_count (lk s) = 1" using assms(4) by auto
    then have "readers (st s) - {t} = {}" using c r(2) coreD(1) [OF assms(1)] by simp
    then show ?thesis using assms(1) r w x assms(2) by (auto simp: core_def readers_upd assms(3))
  qed
qed

lemma core_release_write:
  assumes "core ww wu s" "st s t = Writer u 0 0" "lthread (lk s) \<noteq> Some t"
    "x = Idle \<and> n = 0 \<or> x = Reader \<and> n = 1"
    "l = (if u then (lk s)\<lparr>want_upgrade := False, read_count := n\<rparr> else (lk s)\<lparr>want_write := False, read_count := n\<rparr>)"
  shows "core (if u then ww else None) (if u then None else wu) (set_st t x l s)"
proof -
  note h = coreD(7) [OF assms(1,2)]
  have only: "st s t' = Writer v d r \<Longrightarrow> t' = t" for t' v d r by (rule one_writer [OF assms(1,2)])
  have lt: "lthread (lk s) = None"
    using coreD(8) [OF assms(1)] only assms(3) by (cases "lthread (lk s)") auto
  have w: "wants_write (st s t') = (ww = Some t')" "wants_upgrade (st s t') = (wu = Some t')" for t'
    using coreD(4,6) [OF assms(1), of t'] by auto
  have r: "readers ((st s)(t := x)) = (if x = Reader then {t} else {})"
    using h by (simp add: readers_upd)
  have nw: "((st s)(t := x)) t' \<noteq> Writer v d q" for t' v d q using only assms(4) by (cases "t' = t") auto
  have base: "finite (readers (st s))" "can_sleep (lk s)" "want_write (lk s) = (ww \<noteq> None)"
    "want_upgrade (lk s) = (wu \<noteq> None)" using coreD [OF assms(1)] by auto
  have wt: "wants_write (st s t) = (\<not> u)" "wants_upgrade (st s t) = u" using assms(2) by simp_all
  then have "\<And>t'. wants_write (((st s)(t := x)) t') = ((if u then ww else None) = Some t')"
    "\<And>t'. wants_upgrade (((st s)(t := x)) t') = ((if u then None else wu) = Some t')"
    using w [of t] w assms(4) by (auto split: if_splits)
  then show ?thesis using base h nw r lt assms(4)
    by (auto simp: core_def assms(5))
qed

lemma core_recursive:
  assumes "core ww wu s" "st s t = Writer False d r"
    "l = (lk s)\<lparr>read_count := int r', recursion_depth := int d', lthread := q\<rparr>"
    "q = Some t \<or> q = None \<and> d' = 0 \<and> r' = 0"
  shows "core ww wu (set_st t (Writer False d' r') l s)"
proof -
  note h = coreD(7) [OF assms(1,2)]
  have only: "st s t' = Writer v e f \<Longrightarrow> t' = t" for t' v e f by (rule one_writer [OF assms(1,2)])
  have w: "wants_write (((st s)(t := Writer False d' r')) t') = wants_write (st s t')"
    "wants_upgrade (((st s)(t := Writer False d' r')) t') = wants_upgrade (st s t')" for t'
    using assms(2) by auto
  have r: "readers ((st s)(t := Writer False d' r')) = {}" using h by (simp add: readers_upd)
  have u: "((st s)(t := Writer False d' r')) t' = Writer v e f \<longleftrightarrow> t' = t \<and> \<not> v \<and> e = d' \<and> f = r'" for t' v e f
    using only by (cases "t' = t") auto
  have base: "can_sleep (lk s)" "want_write (lk s) = (ww \<noteq> None)" "want_upgrade (lk s) = (wu \<noteq> None)"
    "\<And>t. wants_write (st s t) = (ww = Some t)" "\<And>t. wants_upgrade (st s t) = (wu = Some t)"
    using coreD [OF assms(1)] by auto
  have wu: "wu = None" using h by simp
  show ?thesis unfolding core_def set_st_sel u w r using base wu assms(4) by (auto simp: assms(3))
qed

section \<open>Every step keeps it\<close>

lemma sleep_keep:
  assumes "sleep_ok s" "waiting (lk s) \<longrightarrow> waiting l"
    "\<And>t' pc. t' \<noteq> t \<Longrightarrow> st s t' = Asleep pc \<Longrightarrow> blocked pc (lk s) \<Longrightarrow> blocked pc l"
    "\<And>pc. x = Asleep pc \<Longrightarrow> waiting l \<and> blocked pc l"
  shows "sleep_ok (set_st t x l s)"
  using assms by (auto simp: sleep_ok_def)

lemma blocked_mono:
  "blocked pc l \<Longrightarrow> want_write l \<longrightarrow> want_write l' \<Longrightarrow> want_upgrade l \<longrightarrow> want_upgrade l' \<Longrightarrow>
   read_count l \<noteq> 0 \<longrightarrow> read_count l' \<noteq> 0 \<Longrightarrow> blocked pc l'"
  by (cases pc) auto

lemma reads_nonneg: "core ww wu s \<Longrightarrow> 0 \<le> read_count (lk s)"
  unfolding core_def by (metis of_nat_0_le_iff)

lemma kinvI: "core ww wu s \<Longrightarrow> sleep_ok s \<Longrightarrow> kinv s"
  by (auto simp: kinv_def)

lemma kinv_write_wanted:
  assumes c: "core ww wu s" and sl: "sleep_ok s" and t: "\<not> holds (st s t)" "\<not> wants_write (st s t)" "\<not> wants_upgrade (st s t)"
    and r: "lock_write_wanted (lk s) = (l, r)"
  shows "kinv (set_st t (enter (Writer False 0 0) r) l s)"
proof (cases "want_write (lk s)")
  case True
  then have l: "l = (lk s)\<lparr>waiting := True\<rparr>" "r = Sleeps WWrite"
    using r coreD(2) [OF c] by (auto simp: lock_write_wanted_def wait_at_def)
  show ?thesis
  proof (rule kinvI)
    show "core ww wu (set_st t (enter (Writer False 0 0) r) l s)"
      using core_move [OF c t(1), of "Asleep WWrite"] t l by simp
    show "sleep_ok (set_st t (enter (Writer False 0 0) r) l s)"
      by (rule sleep_keep [OF sl]) (auto simp: l True elim: blocked_mono)
  qed
next
  case False
  then have ww: "ww = None" using coreD(3) [OF c] by simp
  show ?thesis
  proof (cases "read_count (lk s) \<noteq> 0 \<or> want_upgrade (lk s)")
    case True
    then have l: "l = (lk s)\<lparr>want_write := True, waiting := True\<rparr>" "r = Sleeps WReaders"
      using r False coreD(2) [OF c] by (auto simp: lock_write_wanted_def lock_write_readers_def wait_at_def)
    show ?thesis
    proof (rule kinvI)
      show "core (Some t) wu (set_st t (enter (Writer False 0 0) r) l s)"
        using core_claim_write [OF c [unfolded ww] t(1,3)] l by simp
      show "sleep_ok (set_st t (enter (Writer False 0 0) r) l s)"
        by (rule sleep_keep [OF sl]) (use True in \<open>auto simp: l elim: blocked_mono\<close>)
    qed
  next
    case no: False
    then have l: "l = (lk s)\<lparr>want_write := True, waiting := waiting (lk s)\<rparr>" "r = Ret True"
      using r False by (auto simp: lock_write_wanted_def lock_write_readers_def)
    show ?thesis
    proof (rule kinvI)
      show "core (Some t) wu (set_st t (enter (Writer False 0 0) r) l s)"
        using core_claim_write [OF c [unfolded ww] t(1,3) l(1)] l no coreD(5) [OF c] by simp
      show "sleep_ok (set_st t (enter (Writer False 0 0) r) l s)"
        by (rule sleep_keep [OF sl]) (auto simp: l elim: blocked_mono)
    qed
  qed
qed

lemma kinv_write_readers:
  assumes c: "core ww wu s" and sl: "sleep_ok s" and t: "st s t = Awake WReaders"
    and r: "lock_write_readers (lk s) = (l, r)"
  shows "kinv (set_st t (enter (Writer False 0 0) r) l s)"
proof (cases "read_count (lk s) \<noteq> 0 \<or> want_upgrade (lk s)")
  case True
  then have l: "l = (lk s)\<lparr>waiting := True\<rparr>" "r = Sleeps WReaders"
    using r coreD(2) [OF c] by (auto simp: lock_write_readers_def wait_at_def)
  show ?thesis
  proof (rule kinvI)
    show "core ww wu (set_st t (enter (Writer False 0 0) r) l s)"
      using core_move [OF c, of t "Asleep WReaders"] t l by simp
    show "sleep_ok (set_st t (enter (Writer False 0 0) r) l s)"
      by (rule sleep_keep [OF sl]) (use True in \<open>auto simp: l elim: blocked_mono\<close>)
  qed
next
  case False
  then have l: "l = lk s" "r = Ret True" using r by (auto simp: lock_write_readers_def)
  have w: "ww = Some t" "wu = None" using coreD(4) [OF c, of t] coreD(5) [OF c] t False by auto
  show ?thesis
  proof (rule kinvI)
    show "core ww wu (set_st t (enter (Writer False 0 0) r) l s)"
      using core_grant_write [of t s] c t False by (simp add: w l)
    show "sleep_ok (set_st t (enter (Writer False 0 0) r) l s)"
      by (rule sleep_keep [OF sl]) (auto simp: l)
  qed
qed

lemma kinv_read_wanted:
  assumes c: "core ww wu s" and sl: "sleep_ok s" and t: "\<not> holds (st s t)" "\<not> wants_write (st s t)" "\<not> wants_upgrade (st s t)"
    and r: "lock_read_wanted (lk s) = (l, r)"
  shows "kinv (set_st t (enter Reader r) l s)"
proof (cases "want_write (lk s) \<or> want_upgrade (lk s)")
  case True
  then have l: "l = (lk s)\<lparr>waiting := True\<rparr>" "r = Sleeps WRead"
    using r coreD(2) [OF c] by (auto simp: lock_read_wanted_def wait_at_def)
  show ?thesis
  proof (rule kinvI)
    show "core ww wu (set_st t (enter Reader r) l s)"
      using core_move [OF c t(1), of "Asleep WRead"] t l by simp
    show "sleep_ok (set_st t (enter Reader r) l s)"
      by (rule sleep_keep [OF sl]) (use True in \<open>auto simp: l elim: blocked_mono\<close>)
  qed
next
  case False
  then have l: "l = (lk s)\<lparr>read_count := read_count (lk s) + 1\<rparr>" "r = Ret True"
    using r by (auto simp: lock_read_wanted_def)
  have w: "ww = None" "wu = None" using coreD(3,5) [OF c] False by auto
  show ?thesis
  proof (rule kinvI)
    show "core None None (set_st t (enter Reader r) l s)"
      using core_new_reader [OF c [unfolded w] t(1) l(1)] l(2) by simp
    show "sleep_ok (set_st t (enter Reader r) l s)"
      by (rule sleep_keep [OF sl]) (use reads_nonneg [OF c] in \<open>auto simp: l elim: blocked_mono\<close>)
  qed
qed

lemma kinv_upgrade_readers:
  assumes c: "core ww wu s" and sl: "sleep_ok s" and t: "st s t = Awake WUpgrade"
    and r: "upgrade_readers b (lk s) = (l, r)"
  shows "kinv (set_st t (enter (Writer True 0 0) r) l s)"
proof (cases "read_count (lk s) \<noteq> 0")
  case True
  then have l: "l = (lk s)\<lparr>waiting := True\<rparr>" "r = Sleeps WUpgrade"
    using r coreD(2) [OF c] by (auto simp: upgrade_readers_def wait_at_def)
  show ?thesis
  proof (rule kinvI)
    show "core ww wu (set_st t (enter (Writer True 0 0) r) l s)"
      using core_move [OF c, of t "Asleep WUpgrade"] t l by simp
    show "sleep_ok (set_st t (enter (Writer True 0 0) r) l s)"
      by (rule sleep_keep [OF sl]) (use True in \<open>auto simp: l elim: blocked_mono\<close>)
  qed
next
  case False
  then have l: "l = lk s" "r = Ret b" using r by (auto simp: upgrade_readers_def)
  have w: "wu = Some t" using coreD(6) [OF c, of t] t by auto
  show ?thesis
  proof (rule kinvI)
    show "core ww wu (set_st t (enter (Writer True 0 0) r) l s)"
      using core_grant_upgrade [of ww t s] c t False by (simp add: w l)
    show "sleep_ok (set_st t (enter (Writer True 0 0) r) l s)"
      by (rule sleep_keep [OF sl]) (auto simp: l)
  qed
qed

text \<open>Both upgrades, when no other is under way.\<close>

lemma kinv_start_upgrade:
  assumes c: "core ww None s" and sl: "sleep_ok s" and t: "st s t = Reader"
    and l: "l = (lk s)\<lparr>want_upgrade := True, read_count := read_count (lk s) - 1, waiting := w\<rparr>"
    and w: "waiting (lk s) \<longrightarrow> w" "read_count (lk s) \<noteq> 1 \<longrightarrow> w"
    and x: "x = (if read_count (lk s) \<noteq> 1 then Asleep WUpgrade else Writer True 0 0)"
  shows "kinv (set_st t x l s)"
proof (rule kinvI)
  show "core ww (Some t) (set_st t x l s)" by (rule core_upgrade [OF c t l]) (simp add: x)
  have "st s t' \<noteq> Asleep WUpgrade" for t' using coreD(6) [OF c, of t'] by auto
  then show "sleep_ok (set_st t x l s)"
    using w by (intro sleep_keep [OF sl]) (auto simp: l x elim: blocked.elims split: if_splits)
qed

lemma idle_facts:
  assumes "core ww wu s" "st s t = Idle"
  shows "lthread (lk s) \<noteq> Some t" "\<not> holds (st s t)" "\<not> wants_write (st s t)" "\<not> wants_upgrade (st s t)"
  using coreD(8) [OF assms(1), of t] assms(2) by auto

lemma kinv_read_done:
  assumes "core ww wu s" "sleep_ok s" "st s t = Reader" "lock_done (lk s) = (l, w)"
  shows "kinv (wake_all w (set_st t Idle l s))"
proof -
  note r = reader_facts [OF assms(1,3)]
  have "wake ((lk s)\<lparr>read_count := read_count (lk s) - 1\<rparr>) = (l, w)"
    using assms(4) r by (simp add: lock_done_def)
  then show ?thesis
    using released [OF core_drop_reader [OF assms(1,3) refl]] assms(2) by simp
qed

lemma kinv_upgrade:
  assumes "core ww wu s" "sleep_ok s" "st s t = Reader" "lock_read_to_write t (lk s) = ((l, r), w)"
  shows "kinv (wake_all w (set_st t (if r = Ret True then Idle else enter (Writer True 0 0) r) l s))"
proof (cases "want_upgrade (lk s)")
  case True
  note f = reader_facts [OF assms(1,3)]
  have "wake ((lk s)\<lparr>read_count := read_count (lk s) - 1\<rparr>) = (l, w)" "r = Ret True"
    using assms(4) f True by (auto simp: lock_read_to_write_def Let_def split: prod.splits)
  then show ?thesis using released [OF core_drop_reader [OF assms(1,3) refl]] assms(2) by simp
next
  case False
  note f = reader_facts [OF assms(1,3)]
  have wu: "wu = None" using coreD(5) [OF assms(1)] False by simp
  let ?w = "if read_count (lk s) \<noteq> 1 then True else waiting (lk s)"
  have l: "l = (lk s)\<lparr>want_upgrade := True, read_count := read_count (lk s) - 1, waiting := ?w\<rparr>"
    and r: "r = (if read_count (lk s) \<noteq> 1 then Sleeps WUpgrade else Ret False)" and w: "w = False"
    using assms(4) f False coreD(2) [OF assms(1)]
    by (auto simp: lock_read_to_write_def upgrade_readers_def wait_at_def Let_def split: if_splits)
  have "kinv (set_st t (if read_count (lk s) \<noteq> 1 then Asleep WUpgrade else Writer True 0 0) l s)"
    by (rule kinv_start_upgrade [OF assms(1) [unfolded wu] assms(2,3) l]) auto
  then show ?thesis by (auto simp: r w wake_all_def split: if_splits)
qed

lemma kinv_try_upgrade:
  assumes "core ww wu s" "sleep_ok s" "st s t = Reader" "lock_try_read_to_write t (lk s) = (l, r)"
  shows "kinv (set_st t (if r = Ret False then Reader else enter (Writer True 0 0) r) l s)"
proof (cases "want_upgrade (lk s)")
  case True
  note f = reader_facts [OF assms(1,3)]
  have "l = lk s" "r = Ret False" using assms(4) f True by (auto simp: lock_try_read_to_write_def)
  moreover have "set_st t Reader (lk s) s = s"
    using assms(3) by (cases s) (auto simp: set_st_def fun_upd_idem)
  ultimately show ?thesis using kinvI [OF assms(1,2)] by simp
next
  case False
  note f = reader_facts [OF assms(1,3)]
  have wu: "wu = None" using coreD(5) [OF assms(1)] False by simp
  let ?w = "if read_count (lk s) \<noteq> 1 then True else waiting (lk s)"
  have l: "l = (lk s)\<lparr>want_upgrade := True, read_count := read_count (lk s) - 1, waiting := ?w\<rparr>"
    and r: "r = (if read_count (lk s) \<noteq> 1 then Sleeps WUpgrade else Ret True)"
    using assms(4) f False by (auto simp: lock_try_read_to_write_def Let_def split: if_splits)
  have "kinv (set_st t (if read_count (lk s) \<noteq> 1 then Asleep WUpgrade else Writer True 0 0) l s)"
    by (rule kinv_start_upgrade [OF assms(1) [unfolded wu] assms(2,3) l]) auto
  then show ?thesis by (auto simp: r split: if_splits)
qed

lemma kinv_write_release:
  assumes "core ww wu s" "sleep_ok s" "st s t = Writer u 0 0" "lthread (lk s) \<noteq> Some t"
  shows "lock_done (lk s) = (l, w) \<Longrightarrow> kinv (wake_all w (set_st t Idle l s))"
    "lock_write_to_read (lk s) = (l, w) \<Longrightarrow> kinv (wake_all w (set_st t Reader l s))"
proof -
  note h = coreD(7) [OF assms(1,3)]
  have u: "want_upgrade (lk s) = u"
    using coreD(5) [OF assms(1)] coreD(6) [OF assms(1), of t] assms(3) h by auto
  define l0 :: "int \<Rightarrow> lock" where "l0 = (\<lambda>n. if u then (lk s)\<lparr>want_upgrade := False, read_count := n\<rparr>
    else (lk s)\<lparr>want_write := False, read_count := n\<rparr>)"
  have w0: "waiting (l0 n) = waiting (lk s)" for n by (simp add: l0_def)
  have same: "(lk s)\<lparr>read_count := 0\<rparr> = lk s" using h by (cases "lk s") simp
  {
    assume "lock_done (lk s) = (l, w)"
    then have k: "wake (l0 0) = (l, w)"
      using h u same by (cases "lk s") (auto simp: lock_done_def l0_def split: if_splits)
    show "kinv (wake_all w (set_st t Idle l s))"
      by (rule released [OF core_release_write [OF assms(1,3,4) _ l0_def [THEN fun_cong]] k assms(2) w0]) auto
  next
    assume "lock_write_to_read (lk s) = (l, w)"
    then have k: "wake (l0 1) = (l, w)"
      using h u by (cases "lk s") (auto simp: lock_write_to_read_def l0_def Let_def split: if_splits)
    show "kinv (wake_all w (set_st t Reader l s))"
      by (rule released [OF core_release_write [OF assms(1,3,4) _ l0_def [THEN fun_cong]] k assms(2) w0]) auto
  }
qed

text \<open>Recursive use: while \<open>t\<close> holds the lock without an upgrade, nobody waits for
  readers.\<close>

lemma writer_no_waiters:
  assumes "core ww wu s" "st s t = Writer False d r" "t' \<noteq> t"
  shows "st s t' \<noteq> Asleep WReaders" "st s t' \<noteq> Asleep WUpgrade"
  using coreD(4) [OF assms(1), of t] coreD(4) [OF assms(1), of t'] coreD(6) [OF assms(1), of t']
    coreD(7) [OF assms(1,2)] assms(2,3) by auto

lemma sleep_recursive:
  assumes "core ww wu s" "sleep_ok s" "st s t = Writer False d r" "waiting l = waiting (lk s)"
    "want_write l = want_write (lk s)" "want_upgrade l = want_upgrade (lk s)" "\<And>pc. x \<noteq> Asleep pc"
  shows "sleep_ok (set_st t x l s)"
proof (rule sleep_keep [OF assms(2)])
  fix t' pc
  assume "t' \<noteq> t" "st s t' = Asleep pc" "blocked pc (lk s)"
  then show "blocked pc l"
    using writer_no_waiters [OF assms(1,3), of t'] assms(5,6) by (cases pc) auto
qed (use assms(4,7) in auto)

lemma kinv_recursive:
  assumes "core ww wu s" "sleep_ok s" "st s t = Writer False d r"
    "l0 = (lk s)\<lparr>read_count := int r', recursion_depth := int d', lthread := q\<rparr>"
    "q = Some t \<or> q = None \<and> d' = 0 \<and> r' = 0"
  shows "kinv (set_st t (Writer False d' r') l0 s)"
    "wake l0 = (l, w) \<Longrightarrow> kinv (wake_all w (set_st t (Writer False d' r') l s))"
proof -
  note c = core_recursive [OF assms(1,3-5)]
  show "kinv (set_st t (Writer False d' r') l0 s)"
    by (rule kinvI [OF c sleep_recursive [OF assms(1-3)]]) (simp_all add: assms(4))
  show "wake l0 = (l, w) \<Longrightarrow> kinv (wake_all w (set_st t (Writer False d' r') l s))"
    by (rule released [OF c _ assms(2)]) (simp_all add: assms(4))
qed

lemma set_st_same: "st s t = x \<Longrightarrow> set_st t x (lk s) s = s"
  by (cases s) (auto simp: set_st_def fun_upd_idem)

lemma kinv_try:
  assumes c: "core ww wu s" "sleep_ok s" and t: "st s t = Idle"
  shows "lock_try_write t (lk s) = (l, b) \<Longrightarrow> kinv (set_st t (if b then Writer False 0 0 else Idle) l s)"
    "lock_try_read t (lk s) = (l, b) \<Longrightarrow> kinv (set_st t (if b then Reader else Idle) l s)"
proof -
  note i = idle_facts [OF c(1) t]
  note same = set_st_same [OF t] kinvI [OF c]
  {
    assume "lock_try_write t (lk s) = (l, b)"
    then have "if b then lock_write_wanted (lk s) = (l, Ret True) else l = lk s"
      using i(1) by (auto simp: lock_try_write_def lock_write_wanted_def lock_write_readers_def split: if_splits)
    then show "kinv (set_st t (if b then Writer False 0 0 else Idle) l s)"
      using kinv_write_wanted [OF c i(2-4), of l "Ret True"] same by (auto split: if_splits)
  next
    assume "lock_try_read t (lk s) = (l, b)"
    then have "if b then lock_read_wanted (lk s) = (l, Ret True) else l = lk s"
      using i(1) by (auto simp: lock_try_read_def lock_read_wanted_def split: if_splits)
    then show "kinv (set_st t (if b then Reader else Idle) l s)"
      using kinv_read_wanted [OF c i(2-4), of l "Ret True"] same by (auto split: if_splits)
  }
qed

lemma kinv_idle:
  assumes c: "core ww wu s" "sleep_ok s" and t: "st s t = Idle"
  shows "lock_write t (lk s) = (l, r) \<Longrightarrow> kinv (set_st t (enter (Writer False 0 0) r) l s)"
    "lock_read t (lk s) = (l, r) \<Longrightarrow> kinv (set_st t (enter Reader r) l s)"
  using idle_facts [OF c(1) t] kinv_write_wanted [OF c, of t l r] kinv_read_wanted [OF c, of t l r]
  by (simp_all add: lock_write_def lock_read_def)

lemma kinv_resume:
  assumes c: "core ww wu s" "sleep_ok s" and t: "st s t = Awake pc" "resume pc (lk s) = (l, r)"
  shows "kinv (set_st t (enter (goal_of pc) r) l s)"
  using t kinv_write_wanted [OF c] kinv_write_readers [OF c] kinv_read_wanted [OF c]
    kinv_upgrade_readers [OF c] by (cases pc) auto

text \<open>A recursive acquisition or release sets the two counters.\<close>

abbreviation counts :: "lock \<Rightarrow> nat \<Rightarrow> nat \<Rightarrow> nat option \<Rightarrow> lock" where
  "counts l d r q \<equiv> l\<lparr>read_count := int r, recursion_depth := int d, lthread := q\<rparr>"

lemma rec_counts:
  assumes c: "core ww wu s" and t: "st s t = Writer False d r"
  shows "lock_set_recursive t (lk s) = Some l \<Longrightarrow> l = counts (lk s) d r (Some t)"
    "d = 0 \<Longrightarrow> r = 0 \<Longrightarrow> lock_clear_recursive t (lk s) = Some l \<Longrightarrow> l = counts (lk s) 0 0 None"
    "lthread (lk s) = Some t \<Longrightarrow> lock_write t (lk s) = (l, x) \<Longrightarrow> l = counts (lk s) (Suc d) r (Some t)"
    "lthread (lk s) = Some t \<Longrightarrow> lock_read t (lk s) = (l, x) \<Longrightarrow> l = counts (lk s) d (Suc r) (Some t)"
    "lthread (lk s) = Some t \<Longrightarrow> r = Suc r' \<Longrightarrow> lock_read_to_write t (lk s) = ((l, x), w) \<Longrightarrow>
       l = counts (lk s) (Suc d) r' (Some t) \<and> w = False"
    "r = Suc r' \<Longrightarrow> lock_done (lk s) = wake (counts (lk s) d r' (Some t))"
    "r = 0 \<Longrightarrow> d = Suc d' \<Longrightarrow> lock_done (lk s) = wake (counts (lk s) d' 0 (Some t))"
  using coreD(7) [OF c t]
  by (cases "lk s", auto simp: lock_set_recursive_def lock_clear_recursive_def lock_write_def lock_read_def
      lock_read_to_write_def lock_done_def Let_def split: if_splits)+

lemma kinv_step: "kstep s s' \<Longrightarrow> kinv s \<Longrightarrow> kinv s'"
proof -
  assume step: "kstep s s'" and "kinv s"
  then obtain ww wu where c: "core ww wu s" "sleep_ok s" by (auto simp: kinv_def)
  note rec = kinv_recursive(1) [OF c _ refl] kinv_recursive(2) [OF c _ refl] and counts = rec_counts [OF c(1)]
  from step show "kinv s'"
  proof cases
    case (k_set_rec t d r l)
    then have "l = counts (lk s) d r (Some t)" using counts(1) by blast
    then show ?thesis using rec(1) [where t = t and r' = r and d' = d and q = "Some t"] k_set_rec by simp
  next
    case (k_clear_rec t l)
    then show ?thesis using rec(1) [where t = t and d' = 0 and r' = 0 and q = None] counts(2) by blast
  next
    case (k_rec_write t d r l x)
    then have "l = counts (lk s) (Suc d) r (Some t)" using counts(3) by blast
    then show ?thesis using rec(1) [where t = t and r' = r and d' = "Suc d" and q = "Some t"] k_rec_write by simp
  next
    case (k_rec_read t d r l x)
    then have "l = counts (lk s) d (Suc r) (Some t)" using counts(4) by blast
    then show ?thesis using rec(1) [where t = t and r' = "Suc r" and d' = d and q = "Some t"] k_rec_read by simp
  next
    case (k_rec_upgrade t d r l x w)
    then have "l = counts (lk s) (Suc d) r (Some t)" "w = False" using counts(5) by blast+
    then show ?thesis using rec(1) [where t = t and r' = r and d' = "Suc d" and q = "Some t"] k_rec_upgrade by (simp add: wake_all_def)
  next
    case (k_rec_done_read t d r l w)
    then show ?thesis using rec(2) [where t = t and r' = r and d' = d and q = "Some t" and l = l and w = w] counts(6) by simp
  next
    case (k_rec_done_write t d l w)
    then show ?thesis using rec(2) [where t = t and r' = 0 and d' = d and q = "Some t" and l = l and w = w] counts(7) by simp
  next
    case (k_write t l r)
    show ?thesis unfolding k_write(1) by (rule kinv_idle(1) [OF c k_write(2,3)])
  next
    case (k_try_write t l b)
    show ?thesis unfolding k_try_write(1) by (rule kinv_try(1) [OF c k_try_write(2,3)])
  next
    case (k_read t l r)
    show ?thesis unfolding k_read(1) by (rule kinv_idle(2) [OF c k_read(2,3)])
  next
    case (k_try_read t l b)
    show ?thesis unfolding k_try_read(1) by (rule kinv_try(2) [OF c k_try_read(2,3)])
  next
    case (k_resume t pc l r)
    show ?thesis unfolding k_resume(1) by (rule kinv_resume [OF c k_resume(2,3)])
  next
    case (k_read_done t l w)
    show ?thesis unfolding k_read_done(1) by (rule kinv_read_done [OF c k_read_done(2,3)])
  next
    case (k_upgrade t l r w)
    show ?thesis unfolding k_upgrade(1) by (rule kinv_upgrade [OF c k_upgrade(2,3)])
  next
    case (k_try_upgrade t l r)
    show ?thesis unfolding k_try_upgrade(1) by (rule kinv_try_upgrade [OF c k_try_upgrade(2,3)])
  next
    case (k_write_done t u l w)
    show ?thesis unfolding k_write_done(1) by (rule kinv_write_release(1) [OF c k_write_done(2-4)])
  next
    case (k_downgrade t u l w)
    show ?thesis unfolding k_downgrade(1) by (rule kinv_write_release(2) [OF c k_downgrade(2-4)])
  qed
qed

lemma kinv_init: "kinit s \<Longrightarrow> kinv s"
  by (auto simp: kinit_def kinv_def core_def sleep_ok_def readers_def lock_init_def)

lemma kreach_kinv: "kreach s \<Longrightarrow> kinv s"
  by (induction rule: kreach.induct) (auto intro: kinv_init kinv_step)

lemma sleeper_has_waker:
  assumes "kinv s" "st s t = Asleep pc"
  shows "\<exists>t'. holds (st s t') \<or> (\<exists>pc'. st s t' = Awake pc')"
proof -
  obtain ww wu where c: "core ww wu s" and sl: "sleep_ok s" using assms(1) by (auto simp: kinv_def)
  have b: "blocked pc (lk s)" if "st s t = Asleep pc" for t pc using sl that by (auto simp: sleep_ok_def)
  have reader: "\<exists>t'. holds (st s t')" if "read_count (lk s) \<noteq> 0"
  proof (rule ccontr)
    assume "\<not> (\<exists>t'. holds (st s t'))"
    then have "readers (st s) = {}" "\<forall>t u d r. st s t \<noteq> Writer u d r" by (auto simp: readers_def)
    then show False using c that by (simp add: core_def)
  qed
  have up: "\<exists>t'. holds (st s t') \<or> (\<exists>pc'. st s t' = Awake pc')" if wu: "want_upgrade (lk s)"
  proof -
    obtain u where "wants_upgrade (st s u)" using wu coreD(5,6) [OF c] by fastforce
    then show ?thesis using b [of u WUpgrade] reader by (cases "st s u") auto
  qed
  have wr: "\<exists>t'. holds (st s t') \<or> (\<exists>pc'. st s t' = Awake pc')" if ww: "want_write (lk s)"
  proof -
    obtain u where "wants_write (st s u)" using ww coreD(3,4) [OF c] by fastforce
    then show ?thesis using b [of u WReaders] reader up by (cases "st s u") auto
  qed
  show ?thesis using b [OF assms(2)] reader up wr by (cases pc) auto
qed

section \<open>Properties\<close>

text \<open>
  C5: the locks exclude.  In every state that threads following the protocol
  can reach, a thread that holds the lock for writing, by \<^verbatim>\<open>lock_write\<close>,
  \<^verbatim>\<open>lock_try_write\<close> or one of the upgrades, and however often it has acquired it
  again, is the only one that holds the lock.
\<close>

theorem lock_excludes:
  assumes "kreach s" "st s t = Writer u d r" "t' \<noteq> t"
  shows "st s t' \<noteq> Reader \<and> (\<forall>u' d' r'. st s t' \<noteq> Writer u' d' r')"
proof -
  obtain ww wu where c: "core ww wu s" using kreach_kinv [OF assms(1)] by (auto simp: kinv_def)
  then show ?thesis
    using coreD(7) [OF c assms(2)] one_writer [OF c assms(2)] assms(3) readers_mem [of t' "st s"] by auto
qed

definition k0 :: sys where
  "k0 = \<lparr>lk = lock_init True, st = \<lambda>_. Idle\<rparr>"

lemma kreach_two:
  "\<exists>s. kreach s \<and> st s 1 = Writer False 0 0 \<and> st s 2 = Asleep WRead \<and> lk s = (lock_init True)\<lparr>want_write := True, waiting := True\<rparr>"
proof -
  let ?l = "(lock_init True)\<lparr>want_write := True\<rparr>"
  have 0: "kreach k0" by (rule k_init) (simp add: k0_def kinit_def)
  have "lock_write 1 (lk k0) = (?l, Ret True)"
    by (simp add: k0_def lock_init_def lock_write_def lock_write_wanted_def lock_write_readers_def)
  then have 1: "kreach (set_st 1 (Writer False 0 0) ?l k0)"
    using k_step [OF 0 k_write [of k0 1 ?l "Ret True"]] by (simp add: k0_def)
  let ?s1 = "set_st 1 (Writer False 0 0) ?l k0"
  have "lock_read 2 (lk ?s1) = (?l\<lparr>waiting := True\<rparr>, Sleeps WRead)"
    by (simp add: lock_init_def lock_read_def lock_read_wanted_def wait_at_def)
  then have "kreach (set_st 2 (Asleep WRead) (?l\<lparr>waiting := True\<rparr>) ?s1)"
    using k_step [OF 1 k_read [of ?s1 2 "?l\<lparr>waiting := True\<rparr>" "Sleeps WRead"]] by (simp add: k0_def)
  then show ?thesis by (intro exI [of _ "set_st 2 (Asleep WRead) (?l\<lparr>waiting := True\<rparr>) ?s1"]) (simp add: k0_def)
qed

theorem lock_excludes_witness:
  "\<exists>s. kreach s \<and> st s 1 = Writer False 0 0 \<and> st s 2 \<noteq> Reader"
proof -
  obtain s where s: "kreach s" "st s 1 = Writer False 0 0" using kreach_two by blast
  then show ?thesis using lock_excludes [OF s, of 2] by auto
qed

text \<open>
  C28: no wake-up is lost and nobody sleeps for nothing.  In every reachable
  state a sleeping thread is recorded in the lock, so that the next release
  wakes it, what it waits for is still the case, and some thread that is not
  asleep holds the lock or has been woken to go on: sleepers alone never block
  one another.
\<close>

theorem lock_no_lost_wakeup:
  assumes "kreach s" "st s t = Asleep pc"
  shows "waiting (lk s) \<and> blocked pc (lk s) \<and>
    (\<exists>t'. st s t' = Reader \<or> (\<exists>u d r. st s t' = Writer u d r) \<or> (\<exists>pc'. st s t' = Awake pc'))"
  using kreach_kinv [OF assms(1)] sleeper_has_waker [OF kreach_kinv [OF assms(1)] assms(2)] assms(2)
  by (auto simp: kinv_def sleep_ok_def)

theorem lock_no_lost_wakeup_witness:
  "\<exists>s. kreach s \<and> st s 2 = Asleep WRead \<and> waiting (lk s) \<and> want_write (lk s)"
proof -
  obtain s where s: "kreach s" "st s 2 = Asleep WRead" "lk s = (lock_init True)\<lparr>want_write := True, waiting := True\<rparr>"
    using kreach_two by blast
  then show ?thesis using lock_no_lost_wakeup [OF s(1,2)] by (auto simp: lock_init_def)
qed

end
