(* ===== verification/Lockf.thy ===== *)
theory Lockf
  imports Prelude
begin

text \<open>
  Advisory record locks (\<^verbatim>\<open>src/sys/ufs/ufs_lockf.c\<close>).  The list of an inode is an
  Isabelle list of \<^verbatim>\<open>struct lockf\<close>; the pointers \<^verbatim>\<open>prev\<close> and \<^verbatim>\<open>overlap\<close> that
  \<^verbatim>\<open>lf_findoverlap\<close> leaves behind become the part of the list that was passed and the
  part that begins with the lock found.  Offsets are 32-bit \<^verbatim>\<open>long\<close>s, with the
  wrap-around written out where they are computed; an end of \<open>-1\<close> means the end
  of the file.  The chain of requests blocked on a lock is the list \<open>lf_block\<close> of
  their numbers.
\<close>

section \<open>Data\<close>

datatype ltype = F_RDLCK | F_UNLCK | F_WRLCK

record lockf =
  lf_posix :: bool
  lf_flock :: bool
  lf_wait :: bool
  lf_type :: ltype
  lf_start :: int
  lf_end :: int
  lf_id :: nat
  lf_block :: "nat list"

datatype side = SELF | OTHERS

definition skips :: "side \<Rightarrow> lockf \<Rightarrow> lockf \<Rightarrow> bool" where
  "skips ty lock lf = (case ty of SELF \<Rightarrow> lf_id lf \<noteq> lf_id lock | OTHERS \<Rightarrow> lf_id lf = lf_id lock)"

text \<open>The cases of the comment; \<open>Default\<close> is the panic after them.\<close>

datatype ovcase = Disjoint | Equal | Contains | Contained | StartsBefore | EndsAfter | Default

definition overlap_case :: "lockf \<Rightarrow> lockf \<Rightarrow> ovcase" where
  "overlap_case lock lf =
     (let start = lf_start lock; end = lf_end lock in
      if lf_end lf \<noteq> - 1 \<and> start > lf_end lf \<or> end \<noteq> - 1 \<and> lf_start lf > end then Disjoint
      else if lf_start lf = start \<and> lf_end lf = end then Equal
      else if lf_start lf \<le> start \<and> end \<noteq> - 1 \<and> (lf_end lf \<ge> end \<or> lf_end lf = - 1) then Contains
      else if start \<le> lf_start lf \<and> (end = - 1 \<or> lf_end lf \<noteq> - 1 \<and> end \<ge> lf_end lf) then Contained
      else if lf_start lf < start \<and> (lf_end lf \<ge> start \<or> lf_end lf = - 1) then StartsBefore
      else if lf_start lf > start \<and> end \<noteq> - 1 \<and> (lf_end lf > end \<or> lf_end lf = - 1) then EndsAfter
      else Default)"

text \<open>The result is the case, \<open>Disjoint\<close> for the return value 0, what was passed over,
  and the rest of the list.\<close>

fun lf_findoverlap :: "side \<Rightarrow> lockf \<Rightarrow> lockf list \<Rightarrow> ovcase \<times> lockf list \<times> lockf list" where
  "lf_findoverlap ty lock [] = (Disjoint, [], [])"
| "lf_findoverlap ty lock (lf # rest) =
     (if skips ty lock lf then
        (case lf_findoverlap ty lock rest of (c, sk, rs) \<Rightarrow> (c, lf # sk, rs))
      else if overlap_case lock lf = Disjoint then
        if ty = SELF \<and> lf_end lock \<noteq> - 1 \<and> lf_start lf > lf_end lock then (Disjoint, [], lf # rest)
        else (case lf_findoverlap ty lock rest of (c, sk, rs) \<Rightarrow> (c, lf # sk, rs))
      else (overlap_case lock lf, [], lf # rest))"

section \<open>Operations\<close>

datatype fault = FindoverlapPanic | DoubleLink

text \<open>\<^verbatim>\<open>lf_getblock\<close>: the first lock of another owner that blocks the request, with its
  place in the list.\<close>

function lf_getblock :: "lockf \<Rightarrow> lockf list \<Rightarrow> (lockf list \<times> lockf \<times> lockf list) option" where
  "lf_getblock lock ls =
     (case lf_findoverlap OTHERS lock ls of
        (Disjoint, sk, rs) \<Rightarrow> None
      | (c, sk, []) \<Rightarrow> None
      | (c, sk, ov # rs) \<Rightarrow>
          if lf_type lock = F_WRLCK \<or> lf_type ov = F_WRLCK then Some (sk, ov, rs)
          else map_option (\<lambda>(pre, b, post). (sk @ ov # pre, b, post)) (lf_getblock lock rs))"
  by pat_completeness auto

lemma findoverlap_append: "lf_findoverlap ty lock ls = (c, sk, rs) \<Longrightarrow> ls = sk @ rs"
  by (induction ls arbitrary: sk) (auto split: if_splits prod.splits)

termination lf_getblock
  by (relation "measure (length \<circ> snd)") (auto dest!: sym [THEN findoverlap_append])

definition lf_wakelock :: "lockf \<Rightarrow> lockf \<times> nat list" where
  "lf_wakelock l = (l\<lparr>lf_block := []\<rparr>, lf_block l)"

definition lf_addblock :: "lockf \<Rightarrow> nat list \<Rightarrow> lockf" where
  "lf_addblock l blocked = l\<lparr>lf_block := lf_block l @ blocked\<rparr>"

abbreviation after_end :: "lockf \<Rightarrow> int" where
  "after_end l \<equiv> s32 (lf_end l + 1)"

text \<open>\<^verbatim>\<open>lf_split\<close>: what is linked at the place of \<open>lock1\<close> afterwards: what is left of it,
  the contained \<open>lock2\<close> and the last part.  With a common start \<open>lock2\<close> is not linked.\<close>

definition lf_split :: "lockf \<Rightarrow> lockf \<Rightarrow> lockf \<times> lockf list \<times> lockf list" where
  "lf_split lock1 lock2 =
     (if lf_start lock1 = lf_start lock2 then (lock1\<lparr>lf_start := after_end lock2\<rparr>, [], [])
      else if lf_end lock1 = lf_end lock2 then (lock1\<lparr>lf_end := lf_start lock2 - 1\<rparr>, [lock2], [])
      else (lock1\<lparr>lf_end := lf_start lock2 - 1\<rparr>, [lock2],
            [lock1\<lparr>lf_start := after_end lock2, lf_block := []\<rparr>]))"

text \<open>The loop of \<^verbatim>\<open>lf_clearlock\<close>.  \<open>front\<close> is the list up to \<^verbatim>\<open>*prev\<close>; the result is the
  list and the requests woken.\<close>

function clear_loop :: "lockf \<Rightarrow> lockf list \<Rightarrow> nat list \<Rightarrow> lockf list \<Rightarrow> fault + (lockf list \<times> nat list)" where
  "clear_loop unlock front woken rest =
     (case lf_findoverlap SELF unlock rest of
        (Disjoint, sk, rs) \<Rightarrow> Inr (front @ sk @ rs, woken)
      | (c, sk, []) \<Rightarrow> Inr (front @ sk, woken)
      | (c, sk, ov0 # rs) \<Rightarrow>
          (case lf_wakelock ov0 of (ov, wk) \<Rightarrow>
             (case c of
                Equal \<Rightarrow> Inr (front @ sk @ rs, woken @ wk)
              | Contains \<Rightarrow>
                  if lf_start ov = lf_start unlock
                  then Inr (front @ sk @ ov\<lparr>lf_start := after_end unlock\<rparr> # rs, woken @ wk)
                  else (case lf_split ov unlock of (ov1, mid, tail) \<Rightarrow>
                          Inr (front @ sk @ ov1 # tail @ rs, woken @ wk))
              | Contained \<Rightarrow> clear_loop unlock (front @ sk) (woken @ wk) rs
              | StartsBefore \<Rightarrow>
                  clear_loop unlock (front @ sk @ [ov\<lparr>lf_end := lf_start unlock - 1\<rparr>]) (woken @ wk) rs
              | EndsAfter \<Rightarrow> Inr (front @ sk @ ov\<lparr>lf_start := after_end unlock\<rparr> # rs, woken @ wk)
              | _ \<Rightarrow> Inl FindoverlapPanic)))"
  by pat_completeness auto

termination clear_loop
  by (relation "measure (\<lambda>(u, f, w, r). length r)") (auto dest!: sym [THEN findoverlap_append])

definition lf_clearlock :: "lockf \<Rightarrow> lockf list \<Rightarrow> fault + (lockf list \<times> nat list)" where
  "lf_clearlock unlock head = clear_loop unlock [] [] head"

text \<open>The loop of \<^verbatim>\<open>lf_setlock\<close> that adds the lock.  While it is not linked (\<open>None\<close>),
  \<open>front\<close> is the list up to \<^verbatim>\<open>*prev\<close>; afterwards the list is \<open>front\<close>, the lock and
  \<open>mid\<close>, with \<^verbatim>\<open>prev\<close> at its end.  Linking or freeing the lock when it is linked
  already would corrupt the list: \<open>DoubleLink\<close>.\<close>

abbreviation downgrades :: "lockf \<Rightarrow> lockf \<Rightarrow> bool" where
  "downgrades lock ov \<equiv> lf_type lock = F_RDLCK \<and> lf_type ov = F_WRLCK"

function set_loop :: "lockf list \<Rightarrow> lockf \<Rightarrow> lockf list option \<Rightarrow> nat list \<Rightarrow> lockf list \<Rightarrow>
    fault + (lockf list \<times> nat list)" where
  "set_loop front lock linked woken rest =
     (case lf_findoverlap SELF lock rest of
        (Disjoint, sk, rs) \<Rightarrow>
          Inr (case linked of None \<Rightarrow> front @ sk @ lock # rs | Some mid \<Rightarrow> front @ lock # mid @ sk @ rs, woken)
      | (c, sk, []) \<Rightarrow> Inl FindoverlapPanic
      | (c, sk, ov # rs) \<Rightarrow>
          (case c of
             Equal \<Rightarrow>
               if linked \<noteq> None then Inl DoubleLink
               else
                 let (ov1, wk) = (if downgrades lock ov then lf_wakelock ov else (ov, [])) in
                 Inr (front @ sk @ ov1\<lparr>lf_type := lf_type lock\<rparr> # rs, woken @ wk)
           | Contains \<Rightarrow>
               if linked \<noteq> None then Inl DoubleLink
               else if lf_type ov = lf_type lock then Inr (front @ sk @ ov # rs, woken)
               else if lf_start ov = lf_start lock then
                 (case lf_wakelock (ov\<lparr>lf_start := after_end lock\<rparr>) of (ov1, wk) \<Rightarrow>
                    Inr (front @ sk @ lock # ov1 # rs, woken @ wk))
               else
                 (case lf_split ov lock of (ov1, mid, tail) \<Rightarrow>
                    (case lf_wakelock ov1 of (ov2, wk) \<Rightarrow>
                       Inr (front @ sk @ ov2 # mid @ tail @ rs, woken @ wk)))
           | Contained \<Rightarrow>
               let (lock1, wk) =
                 (if downgrades lock ov then (lock, lf_block ov)
                  else (lf_addblock (lock\<lparr>lf_block := lf_block ov\<rparr>) (lf_block lock), [])) in
               (case linked of
                  None \<Rightarrow> set_loop (front @ sk) lock1 (Some []) (woken @ wk) rs
                | Some mid \<Rightarrow> set_loop front lock1 (Some (mid @ sk)) (woken @ wk) rs)
           | StartsBefore \<Rightarrow>
               if linked \<noteq> None then Inl DoubleLink
               else
                 (case lf_wakelock (ov\<lparr>lf_end := lf_start lock - 1\<rparr>) of (ov1, wk) \<Rightarrow>
                    set_loop (front @ sk @ [ov1]) lock (Some []) (woken @ wk) rs)
           | EndsAfter \<Rightarrow>
               (case lf_wakelock (ov\<lparr>lf_start := after_end lock\<rparr>) of (ov1, wk) \<Rightarrow>
                  Inr (case linked of
                         None \<Rightarrow> front @ sk @ lock # ov1 # rs
                       | Some mid \<Rightarrow> front @ lock # mid @ sk @ ov1 # rs, woken @ wk))
           | _ \<Rightarrow> Inl FindoverlapPanic))"
  by pat_completeness auto

termination set_loop
  by (relation "measure (\<lambda>(f, l, k, w, r). length r)") (auto dest!: sym [THEN findoverlap_append])

declare lf_getblock.simps [simp del] clear_loop.simps [simp del] set_loop.simps [simp del]

text \<open>Deadlock detection follows the chain of sleeping owners.  \<open>waits p\<close> is the owner
  of the lock that process \<open>p\<close> sleeps on in \<^verbatim>\<open>lf_setlock\<close>, and whether that lock has
  POSIX semantics.\<close>

type_synonym wait_table = "nat \<Rightarrow> (nat \<times> bool) option"

fun deadlock_chain :: "nat \<Rightarrow> wait_table \<Rightarrow> nat \<Rightarrow> nat \<Rightarrow> bool" where
  "deadlock_chain 0 waits me w = False"
| "deadlock_chain (Suc i) waits me w =
     (case waits w of
        None \<Rightarrow> False
      | Some (owner, posix) \<Rightarrow> posix \<and> (owner = me \<or> deadlock_chain i waits me owner))"

definition maxlockdepth :: nat where "maxlockdepth = 50"

datatype setres =
    Granted "lockf list" "nat list"
  | Failed errno
  | Blocked "lockf list" "nat list" nat
  | Fault fault

definition block_on :: "lockf \<Rightarrow> nat \<Rightarrow> lockf list \<Rightarrow> lockf list" where
  "block_on lock req ls =
     (case lf_getblock lock ls of None \<Rightarrow> ls | Some (pre, b, post) \<Rightarrow> pre @ lf_addblock b [req] # post)"

text \<open>One turn of \<^verbatim>\<open>lf_setlock\<close>, up to its return or its sleep; after a wake-up the
  next turn is the same function.\<close>

definition lf_setlock :: "wait_table \<Rightarrow> nat \<Rightarrow> lockf \<Rightarrow> lockf list \<Rightarrow> setres" where
  "lf_setlock waits req lock head =
     (case lf_getblock lock head of
        None \<Rightarrow>
          (case set_loop [] lock None [] head of Inl f \<Rightarrow> Fault f | Inr (ls, w) \<Rightarrow> Granted ls w)
      | Some (pre, block, post) \<Rightarrow>
          if \<not> lf_wait lock then Failed EAGAIN
          else if lf_posix lock \<and> lf_posix block \<and> deadlock_chain maxlockdepth waits (lf_id lock) (lf_id block)
          then Failed EDEADLK
          else
            (case (if lf_flock lock \<and> lf_type lock = F_WRLCK then lf_clearlock lock head else Inr (head, [])) of
               Inl f \<Rightarrow> Fault f
             | Inr (ls, w) \<Rightarrow> Blocked (block_on lock req ls) w (lf_id block)))"

text \<open>What \<^verbatim>\<open>lf_setlock\<close> does when a signal ends its sleep.\<close>

definition lf_interrupted :: "lockf \<Rightarrow> lockf list \<Rightarrow> fault + (lockf list \<times> nat list)" where
  "lf_interrupted lock head = lf_clearlock lock head"

record flock =
  l_start :: int
  l_len :: int
  l_pid :: int
  l_type :: ltype
  l_whence :: nat

definition lf_getlock :: "(nat \<Rightarrow> int) \<Rightarrow> lockf \<Rightarrow> lockf list \<Rightarrow> flock \<Rightarrow> flock" where
  "lf_getlock pid_of lock head fl =
     (case lf_getblock lock head of
        None \<Rightarrow> fl\<lparr>l_type := F_UNLCK\<rparr>
      | Some (pre, b, post) \<Rightarrow>
          fl\<lparr>l_type := lf_type b, l_whence := 0, l_start := lf_start b,
             l_len := (if lf_end b = - 1 then 0 else s32 (lf_end b - lf_start b + 1)),
             l_pid := (if lf_posix b then pid_of (lf_id b) else - 1)\<rparr>)"

datatype lockop = OpSetlk | OpUnlck | OpGetlk | OpOther

datatype advres = AErr errno | ASet setres | AClear "fault + (lockf list \<times> nat list)" | AGet flock

definition lf_range :: "int \<Rightarrow> flock \<Rightarrow> (int \<times> int) option" where
  "lf_range isize fl =
     (let start = (if l_whence fl \<le> 1 then Some (l_start fl)
                   else if l_whence fl = 2 then Some (s32 (isize + l_start fl)) else None) in
      case start of
        None \<Rightarrow> None
      | Some st \<Rightarrow> if st < 0 then None
                   else Some (st, if l_len fl = 0 then - 1 else s32 (st + l_len fl - 1)))"

definition lf_advlock :: "(nat \<Rightarrow> int) \<Rightarrow> wait_table \<Rightarrow> nat \<Rightarrow> int \<Rightarrow> nat \<Rightarrow> lockop \<Rightarrow> flock \<Rightarrow>
    bool \<times> bool \<times> bool \<Rightarrow> lockf list \<Rightarrow> advres" where
  "lf_advlock pid_of waits req isize owner op fl flags head =
     (if head = [] \<and> op \<noteq> OpSetlk then AGet (fl\<lparr>l_type := F_UNLCK\<rparr>)
      else case lf_range isize fl of
        None \<Rightarrow> AErr EINVAL
      | Some (st, en) \<Rightarrow>
          let lock = \<lparr>lf_posix = fst flags, lf_flock = fst (snd flags), lf_wait = snd (snd flags),
                      lf_type = l_type fl, lf_start = st, lf_end = en, lf_id = owner, lf_block = []\<rparr> in
          (case op of
             OpSetlk \<Rightarrow> ASet (lf_setlock waits req lock head)
           | OpUnlck \<Rightarrow> AClear (lf_clearlock lock head)
           | OpGetlk \<Rightarrow> AGet (lf_getlock pid_of lock head fl)
           | OpOther \<Rightarrow> AErr EINVAL))"

section \<open>Ranges and what the list means\<close>

definition in_range :: "int \<Rightarrow> lockf \<Rightarrow> bool" where
  "in_range b l \<longleftrightarrow> lf_start l \<le> b \<and> (lf_end l = - 1 \<or> b \<le> lf_end l)"

text \<open>A range as \<^verbatim>\<open>fcntl\<close> means it, with room for the offset after its end.\<close>

definition range_ok :: "lockf \<Rightarrow> bool" where
  "range_ok l \<longleftrightarrow> 0 \<le> lf_start l \<and> lf_start l < 2147483648 \<and>
     (lf_end l = - 1 \<or> lf_start l \<le> lf_end l \<and> lf_end l < 2147483647)"

definition before :: "lockf \<Rightarrow> lockf \<Rightarrow> bool" where
  "before x y \<longleftrightarrow> lf_end x \<noteq> - 1 \<and> lf_end x < lf_start y"

text \<open>The locks of one owner are sorted and do not overlap.\<close>

abbreviation own_order :: "lockf \<Rightarrow> lockf \<Rightarrow> bool" where
  "own_order x y \<equiv> lf_id x = lf_id y \<longrightarrow> before x y"

definition list_ok :: "lockf list \<Rightarrow> bool" where
  "list_ok ls \<longleftrightarrow> (\<forall>x \<in> set ls. range_ok x) \<and> sorted_wrt own_order ls"

text \<open>Owner \<open>i\<close> has a lock of type \<open>ty\<close> on byte \<open>b\<close>.\<close>

definition covers :: "lockf list \<Rightarrow> nat \<Rightarrow> int \<Rightarrow> ltype \<Rightarrow> bool" where
  "covers ls i b ty \<longleftrightarrow> (\<exists>l \<in> set ls. lf_id l = i \<and> in_range b l \<and> lf_type l = ty)"

lemma overlap_case_complete: "overlap_case lock lf \<noteq> Default"
  by (auto simp: overlap_case_def Let_def)

lemma overlap_disjoint: "overlap_case lock lf = Disjoint \<longleftrightarrow> before lf lock \<or> before lock lf"
  by (auto simp: overlap_case_def before_def Let_def)

lemma findoverlap_self:
  "lf_findoverlap SELF lock ls = (c, sk, rs) \<Longrightarrow>
   ls = sk @ rs \<and> (\<forall>x \<in> set sk. lf_id x = lf_id lock \<longrightarrow> before x lock) \<and>
   (if c = Disjoint then rs = [] \<or> (\<exists>y rs'. rs = y # rs' \<and> lf_id y = lf_id lock \<and> before lock y)
    else \<exists>y rs'. rs = y # rs' \<and> lf_id y = lf_id lock \<and> overlap_case lock y = c)"
proof (induction ls arbitrary: sk)
  case (Cons lf ls)
  obtain c1 sk1 rs1 where r: "lf_findoverlap SELF lock ls = (c1, sk1, rs1)" by (metis prod_cases3)
  consider "lf_id lf \<noteq> lf_id lock" | "lf_id lf = lf_id lock" "overlap_case lock lf \<noteq> Disjoint"
    | "lf_id lf = lf_id lock" "before lock lf" "overlap_case lock lf = Disjoint"
    | "lf_id lf = lf_id lock" "overlap_case lock lf = Disjoint" "\<not> before lock lf"
    by blast
  then show ?case
  proof cases
    case 4
    then have "before lf lock" by (simp add: overlap_disjoint)
    then show ?thesis using 4 Cons r by (auto simp: skips_def before_def)
  qed (use Cons r in \<open>auto simp: skips_def before_def\<close>)
qed simp

text \<open>What each case says about the two ranges.\<close>

lemma overlap_caseD:
  assumes "overlap_case lock ov = c" "c \<noteq> Disjoint"
  shows "c = Equal \<Longrightarrow> lf_start ov = lf_start lock \<and> lf_end ov = lf_end lock"
    "c = Contains \<Longrightarrow> lf_start ov \<le> lf_start lock \<and> lf_end lock \<noteq> - 1 \<and>
       (lf_end lock \<le> lf_end ov \<or> lf_end ov = - 1) \<and> (lf_start ov = lf_start lock \<longrightarrow> lf_end ov \<noteq> lf_end lock)"
    "c = Contained \<Longrightarrow> lf_start lock \<le> lf_start ov \<and>
       (lf_end lock = - 1 \<or> lf_end ov \<noteq> - 1 \<and> lf_end ov \<le> lf_end lock)"
    "c = StartsBefore \<Longrightarrow> lf_start ov < lf_start lock \<and> (lf_start lock \<le> lf_end ov \<or> lf_end ov = - 1) \<and>
       (lf_end lock = - 1 \<or> lf_end ov \<noteq> - 1 \<and> lf_end ov < lf_end lock)"
    "c = EndsAfter \<Longrightarrow> lf_start lock < lf_start ov \<and> lf_end lock \<noteq> - 1 \<and> lf_start ov \<le> lf_end lock \<and>
       (lf_end lock < lf_end ov \<or> lf_end ov = - 1)"
  using assms by (auto simp: overlap_case_def Let_def split: if_splits)

lemma after_end_eq: "range_ok l \<Longrightarrow> lf_end l \<noteq> - 1 \<Longrightarrow> s32 (lf_end l + 1) = lf_end l + 1"
  by (auto simp: range_ok_def intro: s32_fits)

lemma covers_append [simp]: "covers (xs @ ys) i b ty \<longleftrightarrow> covers xs i b ty \<or> covers ys i b ty"
  by (auto simp: covers_def)

lemma covers_Cons [simp]:
  "covers (x # xs) i b ty \<longleftrightarrow> lf_id x = i \<and> in_range b x \<and> lf_type x = ty \<or> covers xs i b ty"
  by (auto simp: covers_def)

lemma covers_Nil [simp]: "\<not> covers [] i b ty"
  by (simp add: covers_def)

lemma list_ok_append [simp]:
  "list_ok (xs @ ys) \<longleftrightarrow> list_ok xs \<and> list_ok ys \<and> (\<forall>x \<in> set xs. \<forall>y \<in> set ys. own_order x y)"
  by (auto simp: list_ok_def sorted_wrt_append)

lemma list_ok_Cons [simp]:
  "list_ok (x # xs) \<longleftrightarrow> range_ok x \<and> list_ok xs \<and> (\<forall>y \<in> set xs. own_order x y)"
  by (auto simp: list_ok_def)

lemma list_ok_Nil [simp]: "list_ok []"
  by (simp add: list_ok_def)

lemma before_trans: "before x y \<Longrightarrow> range_ok y \<Longrightarrow> before y z \<Longrightarrow> before x z"
  by (auto simp: before_def range_ok_def)

lemma before_disjoint: "before x y \<Longrightarrow> in_range b x \<Longrightarrow> \<not> in_range b y"
  by (auto simp: before_def in_range_def)

text \<open>Updates of a lock and its range.\<close>

lemma overlap_case_block [simp]: "overlap_case l (ov\<lparr>lf_block := w\<rparr>) = overlap_case l ov"
  by (simp add: overlap_case_def Let_def)

lemma upd_ranges [simp]:
  "in_range b (l\<lparr>lf_block := w\<rparr>) = in_range b l" "range_ok (l\<lparr>lf_block := w\<rparr>) = range_ok l"
  "in_range b (l\<lparr>lf_type := t\<rparr>) = in_range b l" "range_ok (l\<lparr>lf_type := t\<rparr>) = range_ok l"
  "before (l\<lparr>lf_block := w\<rparr>) y = before l y" "before x (l\<lparr>lf_block := w\<rparr>) = before x l"
  "before (l\<lparr>lf_type := t\<rparr>) y = before l y" "before x (l\<lparr>lf_type := t\<rparr>) = before x l"
  by (simp_all add: in_range_def range_ok_def before_def)

lemma cut_end:
  assumes "range_ok l" "lf_start l < e" "e < 2147483647"
  shows "range_ok (l\<lparr>lf_end := e - 1\<rparr>)"
    "in_range b (l\<lparr>lf_end := e - 1\<rparr>) \<longleftrightarrow> lf_start l \<le> b \<and> b < e"
  using assms by (auto simp: range_ok_def in_range_def)

section \<open>Replacing an overlap by pieces of it\<close>

definition within :: "lockf \<Rightarrow> lockf \<Rightarrow> bool" where
  "within p ov \<longleftrightarrow> lf_id p = lf_id ov \<and> lf_start ov \<le> lf_start p \<and>
     (lf_end ov = - 1 \<or> lf_end p \<noteq> - 1 \<and> lf_end p \<le> lf_end ov)"

lemma within_before: "within p ov \<Longrightarrow> before x ov \<Longrightarrow> before x p" "within p ov \<Longrightarrow> before ov z \<Longrightarrow> before p z"
  by (auto simp: within_def before_def)

lemma list_ok_replace:
  assumes "list_ok (xs @ ov # ys)" "list_ok ps" "\<forall>p \<in> set ps. within p ov"
  shows "list_ok (xs @ ps @ ys)"
proof -
  have id: "lf_id p = lf_id ov" if "p \<in> set ps" for p using assms(3) that by (simp add: within_def)
  have "own_order x p" if "x \<in> set xs" "p \<in> set ps" for x p
    using assms(1,3) that within_before(1) [of p ov x] id by simp
  moreover have "own_order p y" if "y \<in> set ys" "p \<in> set ps" for p y
    using assms(1,3) that within_before(2) [of p ov y] id by simp
  ultimately show ?thesis using assms(1,2) by auto
qed

text \<open>The part of a list behind a lock that reaches the end of a range is outside it.\<close>

abbreviation reaches_end :: "lockf \<Rightarrow> lockf \<Rightarrow> bool" where
  "reaches_end ov u \<equiv> lf_end ov = - 1 \<or> lf_end u \<noteq> - 1 \<and> lf_end u \<le> lf_end ov"

lemma behind_outside:
  "reaches_end ov u \<Longrightarrow> before ov z \<Longrightarrow> in_range b z \<Longrightarrow> \<not> in_range b u"
  by (auto simp: before_def in_range_def)

lemma behind_before: "reaches_end ov u \<Longrightarrow> before ov z \<Longrightarrow> before u z"
  by (auto simp: before_def)

lemma self_behind:
  assumes "list_ok (y # rs)" "lf_id y = i" "before u y"
  shows "\<forall>z \<in> set (y # rs). lf_id z = i \<longrightarrow> before u z"
  using assms before_trans [of u y] by auto

text \<open>The pieces that \<^verbatim>\<open>lf_clearlock\<close> leaves of an overlap that it does not go past.\<close>

fun left_pieces :: "lockf \<Rightarrow> ovcase \<Rightarrow> lockf \<Rightarrow> lockf list" where
  "left_pieces u Contains ov =
     (if lf_start ov = lf_start u then [ov\<lparr>lf_start := after_end u\<rparr>]
      else (case lf_split ov u of (ov1, mid, tail) \<Rightarrow> ov1 # tail))"
| "left_pieces u EndsAfter ov = [ov\<lparr>lf_start := after_end u\<rparr>]"
| "left_pieces u c ov = []"

lemma left_pieces_spec:
  assumes "range_ok u" "range_ok ov" "overlap_case u ov = c" "c \<in> {Equal, Contains, EndsAfter}"
  shows "list_ok (left_pieces u c ov)" "\<forall>p \<in> set (left_pieces u c ov). within p ov" "reaches_end ov u"
    "covers (left_pieces u c ov) i b ty \<longleftrightarrow> lf_id ov = i \<and> in_range b ov \<and> lf_type ov = ty \<and> \<not> in_range b u"
proof -
  have e: "lf_end u \<noteq> - 1 \<Longrightarrow> s32 (lf_end u + 1) = lf_end u + 1" using after_end_eq [OF assms(1)] .
  have "c \<noteq> Disjoint" using assms(4) by auto
  note D = overlap_caseD [OF assms(3) this]
  show "reaches_end ov u" using D(1,2,5) assms(4) by auto
  consider (1) "c = Equal" | (2) "c = Contains" "lf_start ov = lf_start u"
    | (3) "c = Contains" "lf_start ov \<noteq> lf_start u" | (4) "c = EndsAfter" using assms(4) by auto
  note cs = this
  have "list_ok (left_pieces u c ov) \<and> (\<forall>p \<in> set (left_pieces u c ov). within p ov) \<and>
    (covers (left_pieces u c ov) i b ty \<longleftrightarrow> lf_id ov = i \<and> in_range b ov \<and> lf_type ov = ty \<and> \<not> in_range b u)"
  proof (cases rule: cs)
    case 1
    then show ?thesis using D(1) by (auto simp: in_range_def)
  next
    case 2
    then show ?thesis using D(2) e assms(1,2) by (auto simp: in_range_def range_ok_def within_def)
  next
    case 3
    then show ?thesis using D(2) e assms(1,2)
      by (auto simp: lf_split_def in_range_def range_ok_def within_def before_def)
  next
    case 4
    then show ?thesis using D(5) e assms(1,2) by (auto simp: in_range_def range_ok_def within_def)
  qed
  then show "list_ok (left_pieces u c ov)" "\<forall>p \<in> set (left_pieces u c ov). within p ov"
    "covers (left_pieces u c ov) i b ty \<longleftrightarrow> lf_id ov = i \<and> in_range b ov \<and> lf_type ov = ty \<and> \<not> in_range b u"
    by auto
qed

section \<open>Clearing\<close>

abbreviation others :: "nat \<Rightarrow> lockf list \<Rightarrow> lockf list" where
  "others i \<equiv> filter (\<lambda>l. lf_id l \<noteq> i)"

lemma clear_stop:
  assumes "lf_findoverlap SELF u rest = (c, sk, ov # rs)" "c \<in> {Equal, Contains, EndsAfter}"
  shows "clear_loop u front wk rest =
    Inr (front @ sk @ left_pieces u c (ov\<lparr>lf_block := []\<rparr>) @ rs, wk @ lf_block ov)"
  using assms by (subst clear_loop.simps) (auto simp: lf_wakelock_def split: prod.splits)

lemma left_pieces_id: "\<forall>p \<in> set (left_pieces u c ov). lf_id p = lf_id ov"
  by (cases "(u, c, ov)" rule: left_pieces.cases) (auto simp: lf_split_def)

lemma outside_eqI:
  assumes "\<And>z. z \<in> set zs \<Longrightarrow> lf_id z = lf_id u \<Longrightarrow> before z u \<or> before u z"
  shows "covers zs i b ty \<Longrightarrow> \<not> (i = lf_id u \<and> in_range b u)"
  using assms before_disjoint by (fastforce simp: covers_def)

lemma clear_loop_spec:
  assumes "range_ok u" "list_ok (front @ rest)" "\<forall>x \<in> set front. lf_id x = lf_id u \<longrightarrow> before x u"
  shows "\<exists>ls w. clear_loop u front wk rest = Inr (ls, w) \<and> list_ok ls \<and>
    (\<forall>i b ty. covers ls i b ty \<longleftrightarrow> covers (front @ rest) i b ty \<and> \<not> (i = lf_id u \<and> in_range b u)) \<and>
    others (lf_id u) ls = others (lf_id u) (front @ rest)"
  using assms(2,3)
proof (induction "length rest" arbitrary: front wk rest rule: less_induct)
  case less
  obtain c sk rs where f: "lf_findoverlap SELF u rest = (c, sk, rs)" by (metis prod_cases3)
  note fs = findoverlap_self [OF f]
  have pre: "\<forall>x \<in> set (front @ sk). lf_id x = lf_id u \<longrightarrow> before x u" using fs less.prems by auto
  show ?case
  proof (cases "c = Disjoint")
    case True
    have out: "clear_loop u front wk rest = Inr (front @ rest, wk)"
      using f fs True by (subst clear_loop.simps) simp
    have "before z u \<or> before u z" if "z \<in> set (front @ rest)" "lf_id z = lf_id u" for z
    proof (cases "z \<in> set (front @ sk)")
      case False
      then have "z \<in> set rs" using that fs by auto
      then obtain y rs' where y: "rs = y # rs'" "lf_id y = lf_id u" "before u y" using fs True by auto
      have "list_ok (y # rs')" using less.prems(1) fs y(1) by simp
      then show ?thesis using self_behind [OF _ y(2,3)] \<open>z \<in> set rs\<close> y(1) that(2) by blast
    qed (use pre that in blast)
    then show ?thesis using out less.prems outside_eqI [of "front @ rest" u] by blast
  next
    case False
    then obtain ov rs' where ov: "rs = ov # rs'" "lf_id ov = lf_id u" "overlap_case u ov = c" using fs by auto
    let ?ov = "ov\<lparr>lf_block := []\<rparr>"
    have lo: "list_ok ((front @ sk) @ ov # rs')" using less.prems(1) fs ov(1) by simp
    then have rov: "range_ok ov" by simp
    have len: "length rs' < length rest" using fs ov(1) by simp
    have cov: "overlap_case u ?ov = c" using ov(3) by simp
    note D = overlap_caseD [OF ov(3) False]
    consider "c \<in> {Equal, Contains, EndsAfter}" | "c = Contained" | "c = StartsBefore"
      using overlap_case_complete [of u ov] ov(3) False by (cases c) auto
    then show ?thesis
    proof cases
      case 1
      note lp = left_pieces_spec [OF assms(1) _ cov 1]
      have "list_ok ((front @ sk) @ left_pieces u c ?ov @ rs')"
        by (rule list_ok_replace [OF _ lp(1,2)]) (use lo rov in auto)
      moreover have "covers (front @ sk @ left_pieces u c ?ov @ rs') i b ty \<longleftrightarrow>
          covers (front @ rest) i b ty \<and> \<not> (i = lf_id u \<and> in_range b u)" for i b ty
      proof -
        have "covers rs' i b ty \<Longrightarrow> \<not> (i = lf_id u \<and> in_range b u)"
          by (rule outside_eqI [of rs' u]) (use lo ov(2) lp(3) rov behind_before [of ov u] in auto)
        moreover have "covers (front @ sk) i b ty \<Longrightarrow> \<not> (i = lf_id u \<and> in_range b u)"
          by (rule outside_eqI [of "front @ sk" u]) (use pre in auto)
        ultimately show ?thesis using fs ov(1,2) lp(4) [of i b ty] rov by auto
      qed
      moreover have "others (lf_id u) (left_pieces u c ?ov) = []"
        using left_pieces_id [of u c ?ov] ov(2) by (auto simp: filter_empty_conv)
      ultimately show ?thesis using clear_stop [OF f [unfolded ov(1)] 1] fs ov(1,2) by simp
    next
      case 2
      have out: "clear_loop u front wk rest = clear_loop u (front @ sk) (wk @ lf_block ov) rs'"
        using f ov(1) 2 by (subst clear_loop.simps) (simp add: lf_wakelock_def)
      have "in_range b ov \<Longrightarrow> in_range b u" for b using D(3) [OF 2] by (auto simp: in_range_def)
      then show ?thesis
        using less.hyps [OF len, of "front @ sk" "wk @ lf_block ov"] lo pre fs ov(1,2) unfolding out by fastforce
    next
      case 3
      let ?cut = "?ov\<lparr>lf_end := lf_start u - 1\<rparr>"
      have out: "clear_loop u front wk rest = clear_loop u (front @ sk @ [?cut]) (wk @ lf_block ov) rs'"
        using f ov(1) 3 by (subst clear_loop.simps) (simp add: lf_wakelock_def)
      have d: "lf_start ov < lf_start u" "lf_start u \<le> lf_end ov \<or> lf_end ov = - 1"
        "lf_end u = - 1 \<or> lf_end ov \<noteq> - 1 \<and> lf_end ov < lf_end u" using D(4) [OF 3] by auto
      have cut: "range_ok ?cut" "within ?cut ov" "before ?cut u"
        "\<And>b. in_range b ?cut \<longleftrightarrow> in_range b ov \<and> \<not> in_range b u"
        using d rov assms(1) by (auto simp: range_ok_def within_def before_def in_range_def)
      have "list_ok ((front @ sk) @ [?cut] @ rs')"
        by (rule list_ok_replace [OF lo]) (use cut in auto)
      then show ?thesis
        using less.hyps [OF len, of "front @ sk @ [?cut]" "wk @ lf_block ov"] pre cut fs ov(1,2)
        unfolding out by fastforce
    qed
  qed
qed

section \<open>Adding\<close>

text \<open>The lists that result from adding a lock to the locks \<open>ls\<close>.\<close>

definition adds :: "lockf \<Rightarrow> lockf list \<Rightarrow> lockf list \<Rightarrow> bool" where
  "adds lock ls ls' \<longleftrightarrow> list_ok ls' \<and>
     (\<forall>i b ty. covers ls' i b ty \<longleftrightarrow>
        (if i = lf_id lock \<and> in_range b lock then ty = lf_type lock else covers ls i b ty)) \<and>
     others (lf_id lock) ls' = others (lf_id lock) ls"

lemma adds_block [simp]: "adds (lock\<lparr>lf_block := w\<rparr>) ls ls' = adds lock ls ls'"
  by (simp add: adds_def)

lemma in_range_start: "range_ok l \<Longrightarrow> in_range (lf_start l) l"
  by (auto simp: range_ok_def in_range_def)

text \<open>Inserting the lock between the owner's locks before and after it.\<close>

lemma adds_insert:
  assumes "range_ok lock" "list_ok (xs @ ys)"
    "\<forall>x \<in> set xs. lf_id x = lf_id lock \<longrightarrow> before x lock" "\<forall>y \<in> set ys. lf_id y = lf_id lock \<longrightarrow> before lock y"
    "\<And>i b ty. \<not> (i = lf_id lock \<and> in_range b lock) \<Longrightarrow> covers (xs @ ys) i b ty \<longleftrightarrow> covers ls i b ty"
    "others (lf_id lock) (xs @ ys) = others (lf_id lock) ls"
  shows "adds lock ls (xs @ lock # ys)"
proof -
  have "list_ok (xs @ lock # ys)" using assms(1-4) by auto
  moreover have "covers (xs @ ys) i b ty \<Longrightarrow> \<not> (i = lf_id lock \<and> in_range b lock)" for i b ty
    by (rule outside_eqI [of "xs @ ys"]) (use assms(3,4) in auto)
  then have "covers (xs @ lock # ys) i b ty \<longleftrightarrow>
      (if i = lf_id lock \<and> in_range b lock then ty = lf_type lock else covers ls i b ty)" for i b ty
    using assms(5) [of i b ty] by auto
  ultimately show ?thesis using assms(6) by (auto simp: adds_def)
qed

lemma lock1_block: "\<exists>w v. (if downgrades lock ov then (lock, lf_block ov)
    else (lf_addblock (lock\<lparr>lf_block := lf_block ov\<rparr>) (lf_block lock), [])) = (lock\<lparr>lf_block := w\<rparr>, v)"
  by (cases lock) (auto simp: lf_addblock_def)

text \<open>Once the lock is linked, what is left to do is to absorb the owner's locks that
  begin inside it.\<close>

lemma set_loop_linked:
  assumes "range_ok lock" "list_ok (front @ mid @ rest)" "\<forall>x \<in> set front. lf_id x = lf_id lock \<longrightarrow> before x lock"
    "\<forall>x \<in> set mid. lf_id x \<noteq> lf_id lock" "\<forall>x \<in> set rest. lf_id x = lf_id lock \<longrightarrow> lf_start lock < lf_start x"
  shows "\<exists>ls w. set_loop front lock (Some mid) wk rest = Inr (ls, w) \<and> adds lock (front @ mid @ rest) ls"
  using assms
proof (induction "length rest" arbitrary: lock mid wk rest rule: less_induct)
  case less
  obtain c sk rs where f: "lf_findoverlap SELF lock rest = (c, sk, rs)" by (metis prod_cases3)
  note fs = findoverlap_self [OF f]
  have sk: "\<forall>x \<in> set sk. lf_id x \<noteq> lf_id lock"
  proof (intro ballI notI)
    fix x assume x: "x \<in> set sk" "lf_id x = lf_id lock"
    then have "before x lock" "lf_start lock < lf_start x" "range_ok x" using fs less.prems(2,5) by (auto simp: list_ok_def)
    then show False by (auto simp: before_def range_ok_def)
  qed
  show ?case
  proof (cases "c = Disjoint")
    case True
    have out: "set_loop front lock (Some mid) wk rest = Inr (front @ lock # mid @ rest, wk)"
      using f fs True by (subst set_loop.simps) simp
    have "\<forall>y \<in> set rs. lf_id y = lf_id lock \<longrightarrow> before lock y"
    proof (cases rs)
      case (Cons y rs')
      then have "lf_id y = lf_id lock" "before lock y" "list_ok (y # rs')" using fs True less.prems(2) by auto
      then show ?thesis using self_behind [of y rs'] Cons by blast
    qed simp
    then have "adds lock (front @ mid @ rest) (front @ lock # mid @ rest)"
      by (intro adds_insert) (use less.prems fs sk in auto)
    then show ?thesis using out by blast
  next
    case False
    then obtain ov rs' where ov: "rs = ov # rs'" "lf_id ov = lf_id lock" "overlap_case lock ov = c" using fs by auto
    have lo: "list_ok ((front @ mid @ sk) @ ov # rs')" using less.prems(2) fs ov(1) by simp
    then have rov: "range_ok ov" by simp
    have len: "length rs' < length rest" using fs ov(1) by simp
    have later: "lf_start lock < lf_start ov" using less.prems(5) fs ov(1,2) by auto
    note D = overlap_caseD [OF ov(3) False]
    have "c = Contained \<or> c = EndsAfter"
      using overlap_case_complete [of lock ov] ov(3) False D later by (cases c) auto
    then show ?thesis
    proof
      assume c: "c = Contained"
      obtain w v where l1: "(if downgrades lock ov then (lock, lf_block ov)
          else (lf_addblock (lock\<lparr>lf_block := lf_block ov\<rparr>) (lf_block lock), [])) = (lock\<lparr>lf_block := w\<rparr>, v)"
        using lock1_block by blast
      let ?l = "lock\<lparr>lf_block := w\<rparr>"
      have out: "set_loop front lock (Some mid) wk rest = set_loop front ?l (Some (mid @ sk)) (wk @ v) rs'"
        using f ov(1) c by (subst set_loop.simps) (simp only: l1 Let_def prod.case list.case ovcase.case option.case)
      have "in_range b ov \<Longrightarrow> in_range b lock" for b using D(3) [OF c] by (auto simp: in_range_def)
      moreover have "list_ok (front @ (mid @ sk) @ rs')" using lo by simp
      moreover have "\<forall>x \<in> set (mid @ sk). lf_id x \<noteq> lf_id ?l" using less.prems(4) sk by auto
      moreover have "\<forall>x \<in> set rs'. lf_id x = lf_id ?l \<longrightarrow> lf_start ?l < lf_start x"
        using less.prems(5) fs ov(1) by auto
      moreover have "\<forall>x \<in> set front. lf_id x = lf_id ?l \<longrightarrow> before x ?l" using less.prems(3) by simp
      moreover have "range_ok ?l" using less.prems(1) by simp
      ultimately obtain ls u where r: "set_loop front ?l (Some (mid @ sk)) (wk @ v) rs' = Inr (ls, u)"
          "adds ?l (front @ (mid @ sk) @ rs') ls" and inr: "\<And>b. in_range b ov \<Longrightarrow> in_range b lock"
        using less.hyps [OF len, of ?l "mid @ sk" "wk @ v"] by blast
      then have "adds lock (front @ mid @ rest) ls"
        using fs ov(1,2) inr by (auto simp: adds_def)
      then show ?thesis by (intro exI [of _ ls] exI [of _ u]) (simp add: out r(1))
    next
      assume c: "c = EndsAfter"
      let ?ov = "ov\<lparr>lf_start := after_end lock, lf_block := []\<rparr>"
      note d = D(5) [OF c]
      have e: "s32 (lf_end lock + 1) = lf_end lock + 1" using after_end_eq [OF less.prems(1)] d by simp
      have p: "within ?ov ov" "range_ok ?ov" "before lock ?ov" "\<And>b. in_range b ?ov \<longleftrightarrow> in_range b ov \<and> \<not> in_range b lock"
        using d e rov less.prems(1) by (auto simp: within_def range_ok_def before_def in_range_def)
      have out: "set_loop front lock (Some mid) wk rest = Inr (front @ lock # mid @ sk @ ?ov # rs', wk @ lf_block ov)"
        using f ov(1) c by (subst set_loop.simps) (simp add: lf_wakelock_def)
      have lo': "list_ok ((front @ mid @ sk) @ [?ov] @ rs')" by (rule list_ok_replace [OF lo]) (use p in auto)
      then have "\<forall>y \<in> set (?ov # rs'). lf_id y = lf_id lock \<longrightarrow> before lock y"
        using p(3) ov(2) by (intro self_behind) auto
      then have "adds lock (front @ mid @ rest) (front @ lock # (mid @ sk @ ?ov # rs'))"
        by (intro adds_insert) (use less.prems lo' fs sk ov(1,2) p(4) in auto)
      then show ?thesis using out by auto
    qed
  qed
qed

text \<open>The pieces that replace an overlap equal to or containing the lock.\<close>

definition set_pieces :: "lockf \<Rightarrow> lockf \<Rightarrow> lockf list" where
  "set_pieces lock ov =
     (if overlap_case lock ov = Equal then
        [if downgrades lock ov then ov\<lparr>lf_type := lf_type lock, lf_block := []\<rparr> else ov\<lparr>lf_type := lf_type lock\<rparr>]
      else if lf_type ov = lf_type lock then [ov]
      else if lf_start ov = lf_start lock then [lock, ov\<lparr>lf_start := after_end lock, lf_block := []\<rparr>]
      else (case lf_split ov lock of (ov1, mid, tail) \<Rightarrow> ov1\<lparr>lf_block := []\<rparr> # mid @ tail))"

lemma set_pieces_spec:
  assumes "range_ok lock" "range_ok ov" "lf_id ov = lf_id lock" "overlap_case lock ov \<in> {Equal, Contains}"
  shows "list_ok (set_pieces lock ov)" "\<forall>p \<in> set (set_pieces lock ov). within p ov" "reaches_end ov lock"
    "covers (set_pieces lock ov) i b ty \<longleftrightarrow>
       i = lf_id ov \<and> in_range b ov \<and> ty = (if in_range b lock then lf_type lock else lf_type ov)"
proof -
  define c where "c = overlap_case lock ov"
  have "c \<noteq> Disjoint" using assms(4) by (auto simp: c_def)
  note D = overlap_caseD [OF c_def [symmetric] this]
  have e: "lf_end lock \<noteq> - 1 \<Longrightarrow> s32 (lf_end lock + 1) = lf_end lock + 1" using after_end_eq [OF assms(1)] .
  show "reaches_end ov lock" using D(1,2) assms(4) by (auto simp: c_def)
  consider (1) "c = Equal" | (2) "c = Contains" "lf_type ov = lf_type lock"
    | (3) "c = Contains" "lf_type ov \<noteq> lf_type lock" "lf_start ov = lf_start lock"
    | (4) "c = Contains" "lf_type ov \<noteq> lf_type lock" "lf_start ov \<noteq> lf_start lock"
    using assms(4) by (auto simp: c_def)
  then have "list_ok (set_pieces lock ov) \<and> (\<forall>p \<in> set (set_pieces lock ov). within p ov) \<and>
    (covers (set_pieces lock ov) i b ty \<longleftrightarrow>
       i = lf_id ov \<and> in_range b ov \<and> ty = (if in_range b lock then lf_type lock else lf_type ov))"
  proof cases
    case 1
    then show ?thesis using D(1) assms(2) by (auto simp: set_pieces_def c_def in_range_def within_def)
  next
    case 2
    then show ?thesis using D(2) assms(2) by (auto simp: set_pieces_def c_def in_range_def within_def range_ok_def)
  next
    case 3
    then show ?thesis using D(2) e assms
      by (auto simp: set_pieces_def c_def in_range_def within_def range_ok_def before_def)
  next
    case 4
    then show ?thesis using D(2) e assms
      by (auto simp: set_pieces_def c_def lf_split_def in_range_def within_def range_ok_def before_def)
  qed
  then show "list_ok (set_pieces lock ov)" "\<forall>p \<in> set (set_pieces lock ov). within p ov"
    "covers (set_pieces lock ov) i b ty \<longleftrightarrow>
       i = lf_id ov \<and> in_range b ov \<and> ty = (if in_range b lock then lf_type lock else lf_type ov)"
    by auto
qed

lemma set_stop:
  assumes "lf_findoverlap SELF lock rest = (c, sk, ov # rs)" "overlap_case lock ov = c" "c \<in> {Equal, Contains}"
  shows "\<exists>w. set_loop front lock None wk rest = Inr (front @ sk @ set_pieces lock ov @ rs, w)"
  using assms by (subst set_loop.simps)
    (auto simp: lf_wakelock_def set_pieces_def Let_def split: prod.splits)

lemma set_loop_spec:
  assumes "range_ok lock" "list_ok rest"
  shows "\<exists>ls w. set_loop [] lock None wk rest = Inr (ls, w) \<and> adds lock rest ls"
proof -
  obtain c sk rs where f: "lf_findoverlap SELF lock rest = (c, sk, rs)" by (metis prod_cases3)
  note fs = findoverlap_self [OF f]
  have pre: "\<forall>x \<in> set sk. lf_id x = lf_id lock \<longrightarrow> before x lock" using fs by auto
  show ?thesis
  proof (cases "c = Disjoint")
    case True
    have out: "set_loop [] lock None wk rest = Inr (sk @ lock # rs, wk)"
      using f True by (subst set_loop.simps) simp
    have "\<forall>y \<in> set rs. lf_id y = lf_id lock \<longrightarrow> before lock y"
    proof (cases rs)
      case (Cons y rs')
      then have "lf_id y = lf_id lock" "before lock y" "list_ok (y # rs')" using fs True assms(2) by auto
      then show ?thesis using self_behind [of y rs'] Cons by blast
    qed simp
    then have "adds lock rest (sk @ lock # rs)" by (intro adds_insert) (use assms fs in auto)
    then show ?thesis using out by blast
  next
    case False
    then obtain ov rs' where ov: "rs = ov # rs'" "lf_id ov = lf_id lock" "overlap_case lock ov = c" using fs by auto
    have lo: "list_ok (sk @ ov # rs')" using assms(2) fs ov(1) by simp
    then have rov: "range_ok ov" by simp
    note D = overlap_caseD [OF ov(3) False]
    have behind: "lf_start lock < lf_start x" if "x \<in> set rs'" "lf_id x = lf_id lock"
        "lf_start lock \<le> lf_end ov \<or> lf_end ov = - 1" for x
      using lo that ov(2) by (auto simp: before_def)
    consider "c \<in> {Equal, Contains}" | "c = Contained" | "c = StartsBefore" | "c = EndsAfter"
      using overlap_case_complete [of lock ov] ov(3) False by (cases c) auto
    then show ?thesis
    proof cases
      case 1
      note sp = set_pieces_spec [OF assms(1) rov ov(2) 1 [folded ov(3)]]
      have "covers (sk @ set_pieces lock ov @ rs') i b ty \<longleftrightarrow>
          (if i = lf_id lock \<and> in_range b lock then ty = lf_type lock else covers rest i b ty)" for i b ty
      proof -
        have "covers rs' i b ty \<Longrightarrow> \<not> (i = lf_id lock \<and> in_range b lock)"
          by (rule outside_eqI [of rs' lock]) (use lo ov(2) sp(3) behind_before [of ov lock] in auto)
        moreover have "covers sk i b ty \<Longrightarrow> \<not> (i = lf_id lock \<and> in_range b lock)"
          by (rule outside_eqI [of sk lock]) (use pre in auto)
        moreover have "in_range b lock \<Longrightarrow> in_range b ov"
          using D(1,2) 1 by (auto simp: in_range_def)
        ultimately show ?thesis using fs ov(1,2) sp(4) [of i b ty] by auto
      qed
      moreover have "others (lf_id lock) (set_pieces lock ov) = []"
        using sp(2) ov(2) by (auto simp: filter_empty_conv within_def)
      ultimately have "adds lock rest (sk @ set_pieces lock ov @ rs')"
        using list_ok_replace [OF lo sp(1,2)] fs ov(1,2) by (simp add: adds_def)
      then show ?thesis using set_stop [OF f [unfolded ov(1)] ov(3) 1, of "[]" wk] by auto
    next
      case 2
      obtain w v where l1: "(if downgrades lock ov then (lock, lf_block ov)
          else (lf_addblock (lock\<lparr>lf_block := lf_block ov\<rparr>) (lf_block lock), [])) = (lock\<lparr>lf_block := w\<rparr>, v)"
        using lock1_block by blast
      let ?l = "lock\<lparr>lf_block := w\<rparr>"
      have out: "set_loop [] lock None wk rest = set_loop sk ?l (Some []) (wk @ v) rs'"
        using f ov(1) 2 by (subst set_loop.simps)
          (simp only: l1 Let_def prod.case list.case ovcase.case option.case append_Nil)
      have d: "lf_start lock \<le> lf_start ov" using D(3) [OF 2] by simp
      have "\<forall>x \<in> set rs'. lf_id x = lf_id ?l \<longrightarrow> lf_start ?l < lf_start x"
        using behind d rov by (auto simp: range_ok_def)
      then obtain ls u where r: "set_loop sk ?l (Some []) (wk @ v) rs' = Inr (ls, u)" "adds ?l (sk @ [] @ rs') ls"
        using set_loop_linked [of ?l sk "[]" rs' "wk @ v"] assms(1) lo pre by auto
      have "in_range b ov \<Longrightarrow> in_range b lock" for b using D(3) [OF 2] by (auto simp: in_range_def)
      then have "adds lock rest ls" using r(2) fs ov(1,2) by (auto simp: adds_def)
      then show ?thesis by (intro exI [of _ ls] exI [of _ u]) (simp add: out r(1))
    next
      case 3
      let ?cut = "ov\<lparr>lf_end := lf_start lock - 1, lf_block := []\<rparr>"
      have out: "set_loop [] lock None wk rest = set_loop (sk @ [?cut]) lock (Some []) (wk @ lf_block ov) rs'"
        using f ov(1) 3 by (subst set_loop.simps) (simp add: lf_wakelock_def)
      note d = D(4) [OF 3]
      have cut: "range_ok ?cut" "within ?cut ov" "before ?cut lock"
        "\<And>b. in_range b ?cut \<longleftrightarrow> in_range b ov \<and> \<not> in_range b lock"
        using d rov assms(1) by (auto simp: range_ok_def within_def before_def in_range_def)
      have lo': "list_ok (sk @ [?cut] @ rs')" by (rule list_ok_replace [OF lo]) (use cut in auto)
      then obtain ls u where r: "set_loop (sk @ [?cut]) lock (Some []) (wk @ lf_block ov) rs' = Inr (ls, u)"
          "adds lock ((sk @ [?cut]) @ [] @ rs') ls"
        using set_loop_linked [of lock "sk @ [?cut]" "[]" rs' "wk @ lf_block ov"] assms(1) pre cut(3) behind d by auto
      then have "adds lock rest ls" using fs ov(1,2) cut(4) by (auto simp: adds_def)
      then show ?thesis by (intro exI [of _ ls] exI [of _ u]) (simp add: out r(1))
    next
      case 4
      let ?ov = "ov\<lparr>lf_start := after_end lock, lf_block := []\<rparr>"
      note d = D(5) [OF 4]
      have e: "s32 (lf_end lock + 1) = lf_end lock + 1" using after_end_eq [OF assms(1)] d by simp
      have p: "within ?ov ov" "range_ok ?ov" "before lock ?ov" "\<And>b. in_range b ?ov \<longleftrightarrow> in_range b ov \<and> \<not> in_range b lock"
        using d e rov assms(1) by (auto simp: within_def range_ok_def before_def in_range_def)
      have out: "set_loop [] lock None wk rest = Inr (sk @ lock # ?ov # rs', wk @ lf_block ov)"
        using f ov(1) 4 by (subst set_loop.simps) (simp add: lf_wakelock_def)
      have lo': "list_ok (sk @ [?ov] @ rs')" by (rule list_ok_replace [OF lo]) (use p in auto)
      then have "\<forall>y \<in> set (?ov # rs'). lf_id y = lf_id lock \<longrightarrow> before lock y"
        using p(3) ov(2) by (intro self_behind) auto
      then have "adds lock rest (sk @ lock # (?ov # rs'))"
        by (intro adds_insert) (use assms lo' pre fs ov(1,2) p(4) in auto)
      then show ?thesis using out by auto
    qed
  qed
qed

section \<open>Blocking\<close>

definition blocks :: "lockf \<Rightarrow> lockf \<Rightarrow> bool" where
  "blocks lock x \<longleftrightarrow> lf_id x \<noteq> lf_id lock \<and> overlap_case lock x \<noteq> Disjoint \<and>
     (lf_type lock = F_WRLCK \<or> lf_type x = F_WRLCK)"

lemma findoverlap_others:
  "lf_findoverlap OTHERS lock ls = (c, sk, rs) \<Longrightarrow>
   ls = sk @ rs \<and> (\<forall>x \<in> set sk. lf_id x = lf_id lock \<or> overlap_case lock x = Disjoint) \<and>
   (if c = Disjoint then rs = []
    else \<exists>y rs'. rs = y # rs' \<and> lf_id y \<noteq> lf_id lock \<and> overlap_case lock y = c)"
  by (induction ls arbitrary: sk) (auto simp: skips_def split: if_splits prod.splits)

lemma getblock_find: "map_option (fst \<circ> snd) (lf_getblock lock ls) = find (blocks lock) ls"
proof (induction "length ls" arbitrary: ls rule: less_induct)
  case less
  obtain c sk rs where f: "lf_findoverlap OTHERS lock ls = (c, sk, rs)" by (metis prod_cases3)
  note fs = findoverlap_others [OF f]
  have "\<forall>x \<in> set sk. \<not> blocks lock x" using fs by (auto simp: blocks_def)
  then have sk: "find (blocks lock) (sk @ xs) = find (blocks lock) xs" for xs
    by (induction sk) auto
  show ?case
  proof (cases "c = Disjoint")
    case True
    then have "lf_getblock lock ls = None" using f by (subst lf_getblock.simps) simp
    then show ?thesis using fs True sk [of "[]"] by simp
  next
    case False
    then obtain y rs' where y: "rs = y # rs'" "lf_id y \<noteq> lf_id lock" "overlap_case lock y = c" using fs by auto
    have out: "lf_getblock lock ls = (if lf_type lock = F_WRLCK \<or> lf_type y = F_WRLCK then Some (sk, y, rs')
        else map_option (\<lambda>(pre, b, post). (sk @ y # pre, b, post)) (lf_getblock lock rs'))"
      using f y False by (subst lf_getblock.simps) (cases c, simp_all)
    have len: "length rs' < length ls" using fs y(1) by simp
    show ?thesis
    proof (cases "lf_type lock = F_WRLCK \<or> lf_type y = F_WRLCK")
      case True
      then show ?thesis using out fs sk y False by (auto simp: blocks_def)
    next
      case nb: False
      have "\<not> blocks lock y" using nb by (simp add: blocks_def)
      then show ?thesis using out nb fs sk y(1) less.hyps [OF len]
        by (auto simp: option.map_comp comp_def split_beta)
    qed
  qed
qed

lemma getblock_Some:
  "lf_getblock lock ls = Some (pre, b, post) \<Longrightarrow> ls = pre @ b # post \<and> blocks lock b"
proof (induction "length ls" arbitrary: ls pre rule: less_induct)
  case less
  obtain c sk rs where f: "lf_findoverlap OTHERS lock ls = (c, sk, rs)" by (metis prod_cases3)
  note fs = findoverlap_others [OF f]
  have "c \<noteq> Disjoint" using less.prems f by (subst (asm) lf_getblock.simps) auto
  then obtain y rs' where y: "rs = y # rs'" "lf_id y \<noteq> lf_id lock" "overlap_case lock y = c" using fs by auto
  have out: "lf_getblock lock ls = (if lf_type lock = F_WRLCK \<or> lf_type y = F_WRLCK then Some (sk, y, rs')
      else map_option (\<lambda>(pre, b, post). (sk @ y # pre, b, post)) (lf_getblock lock rs'))"
    using f y \<open>c \<noteq> Disjoint\<close> by (subst lf_getblock.simps) (cases c, simp_all)
  have len: "length rs' < length ls" using fs y(1) by simp
  show ?case
  proof (cases "lf_type lock = F_WRLCK \<or> lf_type y = F_WRLCK")
    case True
    then show ?thesis using out less.prems fs y \<open>c \<noteq> Disjoint\<close> by (auto simp: blocks_def)
  next
    case False
    then obtain pre1 where "lf_getblock lock rs' = Some (pre1, b, post)" "pre = sk @ y # pre1"
      using out less.prems by (cases "lf_getblock lock rs'") auto
    then show ?thesis using less.hyps [OF len] fs y(1) by auto
  qed
qed

lemma find_None_blocks: "lf_getblock lock ls = None \<longleftrightarrow> (\<forall>x \<in> set ls. \<not> blocks lock x)"
  using getblock_find [of lock ls] find_None_iff [of "blocks lock" ls] by (metis map_option_is_None)

lemma overlap_ranges:
  assumes "range_ok x" "range_ok y"
  shows "overlap_case x y \<noteq> Disjoint \<longleftrightarrow> (\<exists>b. in_range b x \<and> in_range b y)"
proof
  assume "overlap_case x y \<noteq> Disjoint"
  then have "in_range (max (lf_start x) (lf_start y)) x \<and> in_range (max (lf_start x) (lf_start y)) y"
    using assms by (auto simp: overlap_disjoint before_def in_range_def range_ok_def max_def)
  then show "\<exists>b. in_range b x \<and> in_range b y" by blast
next
  assume "\<exists>b. in_range b x \<and> in_range b y"
  then show "overlap_case x y \<noteq> Disjoint" using before_disjoint unfolding overlap_disjoint by blast
qed

text \<open>A request is blocked exactly when some byte of it is locked by another owner in
  a conflicting way.\<close>

definition conflicts :: "lockf \<Rightarrow> lockf list \<Rightarrow> bool" where
  "conflicts lock ls \<longleftrightarrow> (\<exists>j b ty. j \<noteq> lf_id lock \<and> in_range b lock \<and> covers ls j b ty \<and>
     (lf_type lock = F_WRLCK \<or> ty = F_WRLCK))"

lemma getblock_conflicts:
  assumes "list_ok ls" "range_ok lock"
  shows "lf_getblock lock ls = None \<longleftrightarrow> \<not> conflicts lock ls"
proof -
  have "range_ok x" if "x \<in> set ls" for x using assms(1) that by (simp add: list_ok_def)
  then have "(\<exists>x \<in> set ls. blocks lock x) \<longleftrightarrow> conflicts lock ls"
    using overlap_ranges [OF assms(2)] unfolding blocks_def conflicts_def covers_def by blast
  then show ?thesis using find_None_blocks by auto
qed

lemma find_others: "find (blocks lock) ls = find (blocks lock) (others (lf_id lock) ls)"
  by (induction ls) (auto simp: blocks_def)

text \<open>A request that blocks, after clearing locks of its own, blocks on the lock found first.\<close>

lemma block_on_spec:
  "list_ok (block_on lock req ls) = list_ok ls" "covers (block_on lock req ls) i b ty = covers ls i b ty"
proof -
  have "list_ok (block_on lock req ls) = list_ok ls \<and> covers (block_on lock req ls) i b ty = covers ls i b ty"
  proof (cases "lf_getblock lock ls")
    case (Some r)
    obtain pre x post where r: "r = (pre, x, post)" by (cases r)
    then have "ls = pre @ x # post" using getblock_Some Some by blast
    then show ?thesis using Some r by (simp add: block_on_def lf_addblock_def)
  qed (simp add: block_on_def)
  then show "list_ok (block_on lock req ls) = list_ok ls" "covers (block_on lock req ls) i b ty = covers ls i b ty"
    by auto
qed

lemma clearlock_spec:
  assumes "range_ok u" "list_ok ls"
  shows "\<exists>ls' w. lf_clearlock u ls = Inr (ls', w) \<and> list_ok ls' \<and>
    (\<forall>i b ty. covers ls' i b ty \<longleftrightarrow> covers ls i b ty \<and> \<not> (i = lf_id u \<and> in_range b u)) \<and>
    others (lf_id u) ls' = others (lf_id u) ls"
  using clear_loop_spec [of u "[]" ls "[]"] assms by (simp add: lf_clearlock_def)

section \<open>Deadlock detection\<close>

lemma chain_relpow:
  "deadlock_chain n waits me w \<longleftrightarrow>
     (\<exists>k. 1 \<le> k \<and> k \<le> n \<and> (w, me) \<in> {(p, q). waits p = Some (q, True)} ^^ k)"
proof (induction n arbitrary: w)
  case (Suc n)
  let ?W = "{(p, q). waits p = Some (q, True)}"
  have shift: "(\<exists>k. 1 \<le> k \<and> k \<le> Suc m \<and> P k) \<longleftrightarrow> P 1 \<or> (\<exists>k. 1 \<le> k \<and> k \<le> m \<and> P (Suc k))" for m and P :: "nat \<Rightarrow> bool"
  proof
    assume "\<exists>k. 1 \<le> k \<and> k \<le> Suc m \<and> P k"
    then obtain k where k: "1 \<le> k" "k \<le> Suc m" "P k" by blast
    then show "P 1 \<or> (\<exists>k. 1 \<le> k \<and> k \<le> m \<and> P (Suc k))"
      by (cases "k = 1") (auto intro!: exI [of _ "k - 1"])
  qed (auto intro: exI [of _ "Suc k" for k])
  have step: "(w, me) \<in> ?W ^^ Suc k \<longleftrightarrow> (\<exists>q. waits w = Some (q, True) \<and> (q, me) \<in> ?W ^^ k)" for k
    using relpow_Suc_D2 [of w me k ?W] relpow_Suc_I2 [of w _ ?W me k] by auto
  have "(\<exists>k. 1 \<le> k \<and> k \<le> Suc n \<and> (w, me) \<in> ?W ^^ k) \<longleftrightarrow>
      (\<exists>q. waits w = Some (q, True) \<and> (q = me \<or> (\<exists>k. 1 \<le> k \<and> k \<le> n \<and> (q, me) \<in> ?W ^^ k)))"
    unfolding shift step using step [of 0] by auto
  then show ?case using Suc.IH by (auto split: option.splits)
qed simp

section \<open>Histories of one file\<close>

text \<open>The requests made for a file, in any order: a turn of \<^verbatim>\<open>lf_setlock\<close> that grants or
  blocks, an unlock, and a wait ended by a signal.\<close>

inductive lstep :: "lockf list \<Rightarrow> lockf list \<Rightarrow> bool" where
  l_grant: "range_ok lock \<Longrightarrow> lf_setlock waits req lock ls = Granted ls' w \<Longrightarrow> lstep ls ls'"
| l_block: "range_ok lock \<Longrightarrow> lf_setlock waits req lock ls = Blocked ls' w o1 \<Longrightarrow> lstep ls ls'"
| l_clear: "range_ok lock \<Longrightarrow> lf_clearlock lock ls = Inr (ls', w) \<Longrightarrow> lstep ls ls'"
| l_intr: "range_ok lock \<Longrightarrow> lf_interrupted lock ls = Inr (ls', w) \<Longrightarrow> lstep ls ls'"

definition exclusive :: "lockf list \<Rightarrow> bool" where
  "exclusive ls \<longleftrightarrow> (\<forall>i j b t1 t2. i \<noteq> j \<and> covers ls i b t1 \<and> covers ls j b t2 \<longrightarrow> t1 \<noteq> F_WRLCK)"

lemma exclusive_shrink:
  "exclusive ls \<Longrightarrow> (\<And>i b ty. covers ls' i b ty \<Longrightarrow> covers ls i b ty) \<Longrightarrow> exclusive ls'"
  unfolding exclusive_def by blast

lemma setlock_granted:
  assumes "list_ok ls" "range_ok lock"
  shows "lf_setlock waits req lock ls = Granted ls' w \<Longrightarrow> \<not> conflicts lock ls \<and> adds lock ls ls'"
    "\<not> conflicts lock ls \<Longrightarrow> \<exists>ls' w. lf_setlock waits req lock ls = Granted ls' w"
proof -
  obtain ls1 w1 where s: "set_loop [] lock None [] ls = Inr (ls1, w1)" "adds lock ls ls1"
    using set_loop_spec [OF assms(2,1)] by blast
  note g = getblock_conflicts [OF assms]
  show "lf_setlock waits req lock ls = Granted ls' w \<Longrightarrow> \<not> conflicts lock ls \<and> adds lock ls ls'"
    using s g by (auto simp: lf_setlock_def split: option.splits if_splits sum.splits)
  show "\<not> conflicts lock ls \<Longrightarrow> \<exists>ls' w. lf_setlock waits req lock ls = Granted ls' w"
    using s g by (auto simp: lf_setlock_def)
qed

lemma setlock_blocked:
  assumes "list_ok ls" "range_ok lock" "lf_setlock waits req lock ls = Blocked ls' w o1"
  shows "list_ok ls' \<and> (\<forall>i b ty. covers ls' i b ty \<longrightarrow> covers ls i b ty)"
proof -
  obtain ls1 w1 where c: "lf_clearlock lock ls = Inr (ls1, w1)" "list_ok ls1"
      "\<forall>i b ty. covers ls1 i b ty \<longrightarrow> covers ls i b ty"
    using clearlock_spec [OF assms(2,1)] by blast
  have "ls' = block_on lock req ls \<or> ls' = block_on lock req ls1"
    using assms(3) c(1) by (auto simp: lf_setlock_def split: option.splits if_splits sum.splits)
  then show ?thesis using c(2,3) assms(1) by (auto simp: block_on_spec)
qed


lemma exclusive_adds:
  assumes "exclusive ls" "\<not> conflicts lock ls" "adds lock ls ls'"
  shows "exclusive ls'"
proof -
  have c: "covers ls' i b ty \<longleftrightarrow>
      (if i = lf_id lock \<and> in_range b lock then ty = lf_type lock else covers ls i b ty)" for i b ty
    using assms(3) by (simp add: adds_def)
  show ?thesis unfolding exclusive_def
  proof (intro allI impI)
    fix i j b t1 t2
    assume a: "i \<noteq> j \<and> covers ls' i b t1 \<and> covers ls' j b t2"
    consider "i = lf_id lock" "in_range b lock" | "j = lf_id lock" "in_range b lock"
      | "\<not> (i = lf_id lock \<and> in_range b lock)" "\<not> (j = lf_id lock \<and> in_range b lock)" by blast
    then show "t1 \<noteq> F_WRLCK"
    proof cases
      case 1
      then have "t1 = lf_type lock" "covers ls j b t2" using a c [of i b t1] c [of j b t2] by auto
      moreover have "j \<noteq> lf_id lock" using a 1 by auto
      then have "lf_type lock \<noteq> F_WRLCK"
        using assms(2) 1(2) \<open>covers ls j b t2\<close> unfolding conflicts_def by blast
      ultimately show ?thesis by simp
    next
      case 2
      then have "covers ls i b t1" using a c [of i b t1] by auto
      then show ?thesis using assms(2) a 2 unfolding conflicts_def by blast
    next
      case 3
      then have "covers ls i b t1" "covers ls j b t2" using a c [of i b t1] c [of j b t2] by auto
      then show ?thesis using assms(1) a unfolding exclusive_def by blast
    qed
  qed
qed

lemma cleared_inv:
  assumes "range_ok u" "list_ok ls \<and> exclusive ls" "lf_clearlock u ls = Inr (ls', w)"
  shows "list_ok ls' \<and> exclusive ls'"
proof -
  have ok: "list_ok ls" using assms(2) by simp
  have c: "list_ok ls'" "\<And>i b ty. covers ls' i b ty \<Longrightarrow> covers ls i b ty"
    using clearlock_spec [OF assms(1) ok] assms(3) by auto
  then show ?thesis using exclusive_shrink [of ls ls'] assms(2) by simp
qed

lemma lstep_inv: "lstep ls ls' \<Longrightarrow> list_ok ls \<and> exclusive ls \<Longrightarrow> list_ok ls' \<and> exclusive ls'"
proof (induction rule: lstep.induct)
  case (l_grant lock waits req ls ls' w)
  then have "\<not> conflicts lock ls" "adds lock ls ls'" using setlock_granted(1) by blast+
  then show ?case using exclusive_adds l_grant.prems by (auto simp: adds_def)
next
  case (l_block lock waits req ls ls' w o1)
  then have "list_ok ls'" "\<And>i b ty. covers ls' i b ty \<Longrightarrow> covers ls i b ty"
    using setlock_blocked [of ls lock waits req ls' w o1] by blast+
  then show ?case using exclusive_shrink [of ls ls'] l_block.prems by simp
next
  case (l_clear lock ls ls' w)
  then show ?case using cleared_inv by blast
next
  case (l_intr lock ls ls' w)
  then show ?case using cleared_inv unfolding lf_interrupted_def by blast
qed

section \<open>Properties\<close>

definition req :: "nat \<Rightarrow> ltype \<Rightarrow> int \<Rightarrow> int \<Rightarrow> lockf" where
  "req i ty st en = \<lparr>lf_posix = True, lf_flock = False, lf_wait = True, lf_type = ty, lf_start = st,
     lf_end = en, lf_id = i, lf_block = []\<rparr>"

text \<open>
  C7: record locks exclude, for requests with proper ranges.  Whatever sequence of lock requests,
  waits, unlocks and interrupted waits is made for a file, each with a range that does not end
  before it begins and does not reach the largest offset (\<open>range_ok\<close>), a byte that one owner
  has locked for writing is not locked by any other, and the locks of each
  owner stay sorted and free of overlaps.  \<^verbatim>\<open>lf_advlock\<close> does not refuse other ranges, a negative length
  for example, and \<open>lockf_offsets_unchecked\<close> below shows that the order is lost then.
\<close>

theorem record_locks_exclude:
  assumes "lstep\<^sup>*\<^sup>* [] ls"
  shows "list_ok ls \<and> (\<forall>i j b t1 t2. i \<noteq> j \<and> covers ls i b t1 \<and> covers ls j b t2 \<longrightarrow> t1 \<noteq> F_WRLCK)"
proof -
  have "list_ok ls \<and> exclusive ls"
    using assms
  proof (induction rule: rtranclp_induct)
    case (step y z)
    then show ?case using lstep_inv by blast
  qed (simp add: exclusive_def)
  then show ?thesis by (simp add: exclusive_def)
qed

theorem record_locks_exclude_witness:
  "\<exists>ls. lstep\<^sup>*\<^sup>* [] ls \<and> ls = [req 1 F_WRLCK 0 9] \<and> list_ok ls"
proof -
  have "lf_setlock (\<lambda>_. None) 0 (req 1 F_WRLCK 0 9) [] = Granted [req 1 F_WRLCK 0 9] []"
    by (simp add: lf_setlock_def lf_getblock.simps set_loop.simps)
  then have "lstep\<^sup>*\<^sup>* [] [req 1 F_WRLCK 0 9]"
    by (intro r_into_rtranclp l_grant) (auto simp: req_def range_ok_def)
  then show ?thesis using record_locks_exclude [of "[req 1 F_WRLCK 0 9]"] by blast
qed



text \<open>
  Unlocking a range takes exactly the owner's locks on that range away.  Locks
  of others, and the owner's outside the range, remain.
\<close>

theorem lf_clearlock_removes_range:
  assumes "list_ok ls" "range_ok u"
  shows "\<exists>ls' w. lf_clearlock u ls = Inr (ls', w) \<and> list_ok ls' \<and>
    (\<forall>i b ty. covers ls' i b ty \<longleftrightarrow> covers ls i b ty \<and> \<not> (i = lf_id u \<and> in_range b u))"
  using clearlock_spec [OF assms(2,1)] by blast

theorem lf_clearlock_removes_range_witness:
  "\<exists>ls' w. lf_clearlock (req 1 F_UNLCK 3 5) [req 1 F_WRLCK 0 9] = Inr (ls', w) \<and>
     covers ls' 1 6 F_WRLCK \<and> \<not> covers ls' 1 4 F_WRLCK"
proof -
  have "list_ok [req 1 F_WRLCK 0 9]" "range_ok (req 1 F_UNLCK 3 5)" by (auto simp: req_def range_ok_def)
  from lf_clearlock_removes_range [OF this] show ?thesis by (auto simp: req_def in_range_def)
qed

text \<open>
  A wait that a signal interrupts gives up locks.  \<^verbatim>\<open>lf_setlock\<close> then runs
  \<^verbatim>\<open>lf_clearlock\<close> on the request, and the owner loses every lock it already had on
  the range it asked for.
\<close>

theorem interrupted_wait_loses_locks:
  assumes "list_ok ls" "range_ok lock" "lf_interrupted lock ls = Inr (ls', w)" "in_range b lock"
  shows "\<not> covers ls' (lf_id lock) b ty"
  using clearlock_spec [OF assms(2,1)] assms(3,4) by (auto simp: lf_interrupted_def)

theorem interrupted_wait_loses_locks_witness:
  "\<exists>ls' w. lf_interrupted (req 1 F_WRLCK 0 9) [req 1 F_RDLCK 0 9, req 2 F_RDLCK 0 9] = Inr (ls', w) \<and>
     \<not> covers ls' 1 4 F_RDLCK"
proof -
  let ?ls = "[req 1 F_RDLCK 0 9, req 2 F_RDLCK 0 9]" and ?l = "req 1 F_WRLCK 0 9"
  have ok: "list_ok ?ls" "range_ok ?l" "in_range 4 ?l" by (auto simp: req_def range_ok_def in_range_def)
  obtain ls' w where r: "lf_interrupted ?l ?ls = Inr (ls', w)"
    using clearlock_spec [OF ok(2,1)] by (auto simp: lf_interrupted_def)
  then show ?thesis using interrupted_wait_loses_locks [OF ok(1,2) r ok(3), of F_RDLCK] by (auto simp: req_def)
qed

text \<open>
  C30: the deadlock check is exact up to its depth.  It succeeds when, and only
  when, following the POSIX locks that the owners sleep on leads from the owner of
  the blocking lock back to the requester in at most \<^verbatim>\<open>MAXDEPTH\<close> steps.
\<close>

theorem deadlock_chain_exact:
  "deadlock_chain n waits me w \<longleftrightarrow>
     (\<exists>k. 1 \<le> k \<and> k \<le> n \<and> (w, me) \<in> {(p, q). waits p = Some (q, True)} ^^ k)"
  by (rule chain_relpow)

text \<open>
  Offsets are not checked for overflow.  A process that has locked a whole
  file and unlocks all of it but the first byte, with the largest length there is,
  is left with every byte locked; and a negative length is accepted and gives a
  range that ends before it begins, after which one owner has locks that overlap.
\<close>

theorem lockf_offsets_unchecked:
  "(\<exists>ls' w. lf_clearlock (req 1 F_UNLCK 1 2147483647) [req 1 F_WRLCK 0 (- 1)] = Inr (ls', w) \<and>
      (\<forall>b. covers ls' 1 (int b) F_WRLCK)) \<and>
   lf_range 0 \<lparr>l_start = 10, l_len = - 5, l_pid = 0, l_type = F_RDLCK, l_whence = 0\<rparr> = Some (10, 4) \<and>
   (\<exists>ls'. lf_setlock (\<lambda>_. None) 0 (req 1 F_RDLCK 10 4) [req 1 F_WRLCK 3 20] = Granted ls' [] \<and> \<not> list_ok ls')"
proof (intro conjI)
  have "lf_clearlock (req 1 F_UNLCK 1 2147483647) [req 1 F_WRLCK 0 (- 1)] =
      Inr ([req 1 F_WRLCK 0 0, req 1 F_WRLCK (- 2147483648) (- 1)], [])"
    by (simp add: lf_clearlock_def clear_loop.simps req_def skips_def overlap_case_def lf_wakelock_def lf_split_def s32_def)
  moreover have "\<forall>b. covers [req 1 F_WRLCK 0 0, req 1 F_WRLCK (- 2147483648) (- 1)] 1 (int b) F_WRLCK"
    by (simp add: req_def in_range_def)
  ultimately show "\<exists>ls' w. lf_clearlock (req 1 F_UNLCK 1 2147483647) [req 1 F_WRLCK 0 (- 1)] = Inr (ls', w) \<and>
      (\<forall>b. covers ls' 1 (int b) F_WRLCK)" by blast
  show "lf_range 0 \<lparr>l_start = 10, l_len = - 5, l_pid = 0, l_type = F_RDLCK, l_whence = 0\<rparr> = Some (10, 4)"
    by code_simp
  have "lf_setlock (\<lambda>_. None) 0 (req 1 F_RDLCK 10 4) [req 1 F_WRLCK 3 20] =
      Granted [req 1 F_WRLCK 3 9, req 1 F_RDLCK 10 4, req 1 F_WRLCK 5 20] []"
    by (simp add: lf_setlock_def lf_getblock.simps set_loop.simps req_def skips_def overlap_case_def
        lf_wakelock_def lf_split_def s32_def)
  moreover have "\<not> list_ok [req 1 F_WRLCK 3 9, req 1 F_RDLCK 10 4, req 1 F_WRLCK 5 20]"
    by (simp add: req_def range_ok_def)
  ultimately show "\<exists>ls'. lf_setlock (\<lambda>_. None) 0 (req 1 F_RDLCK 10 4) [req 1 F_WRLCK 3 20] = Granted ls' [] \<and> \<not> list_ok ls'"
    by blast
qed

end
