(* ===== verification/Descrip.thy ===== *)
theory Descrip
  imports Cred Lockf
begin

text \<open>
  File descriptors (\<^verbatim>\<open>src/sys/kern/kern_descrip.c\<close>), and the parts of \<^verbatim>\<open>open\<close> and \<^verbatim>\<open>socket\<close> that create
  and drop them.  File structures live in a store; a table of descriptors holds their
  addresses.  The list of all open files is the list \<open>filehead\<close> of addresses.  Calls
  that leave this part of the kernel (vnode operations and the operations of a file) are recorded in order; what
  they return is given by the record \<open>fops\<close>.  \<open>None\<close> is a panic, a use of a freed file structure or
  an access outside an array.  The high-water mark and the lowest free descriptor are \<^verbatim>\<open>u_short\<close>; they are numbers
  here, as a table has fewer than 65536 entries.
\<close>

section \<open>State\<close>

datatype ftype = DTYPE_VNODE nat | DTYPE_SOCKET nat

record kfile =
  f_flag :: u16
  f_type :: ftype
  f_count :: int
  f_msgcount :: int
  f_cred :: nat
  f_offset :: int

record filedesc =
  fd_ofiles :: "nat option list"
  fd_ofileflags :: "u8 list"
  fd_cdir :: nat
  fd_rdir :: "nat option"
  fd_lastfile :: nat
  fd_freefile :: nat
  fd_cmask :: u16
  fd_refcnt :: nat

abbreviation fd_nfiles :: "filedesc \<Rightarrow> nat" where
  "fd_nfiles fdp \<equiv> length (fd_ofiles fdp)"

abbreviation (input) NDFILE :: nat where "NDFILE \<equiv> 20"
abbreviation (input) NDEXTENT :: nat where "NDEXTENT \<equiv> 50"
abbreviation (input) UF_EXCLOSE :: u8 where "UF_EXCLOSE \<equiv> 1"
abbreviation (input) UF_MAPPED :: u8 where "UF_MAPPED \<equiv> 2"
abbreviation (input) FREAD :: u16 where "FREAD \<equiv> 1"
abbreviation (input) FWRITE :: u16 where "FWRITE \<equiv> 2"
abbreviation (input) FNONBLOCK :: u16 where "FNONBLOCK \<equiv> 0x4"
abbreviation (input) FASYNC :: u16 where "FASYNC \<equiv> 0x40"
abbreviation (input) FHASLOCK :: u16 where "FHASLOCK \<equiv> 0x4000"
abbreviation (input) FCNTLFLAGS :: u16 where "FCNTLFLAGS \<equiv> 0xcc"
abbreviation (input) FMASK :: u16 where "FMASK \<equiv> 0xcf"
abbreviation (input) O_SHLOCK :: u32 where "O_SHLOCK \<equiv> 0x10"
abbreviation (input) O_EXLOCK :: u32 where "O_EXLOCK \<equiv> 0x20"
abbreviation (input) LOCK_SH :: u32 where "LOCK_SH \<equiv> 1"
abbreviation (input) LOCK_EX :: u32 where "LOCK_EX \<equiv> 2"
abbreviation (input) LOCK_NB :: u32 where "LOCK_NB \<equiv> 4"
abbreviation (input) LOCK_UN :: u32 where "LOCK_UN \<equiv> 8"

record dproc = proc +
  p_fd :: filedesc
  p_rlim_ofile :: nat
  p_sadvlck :: bool
  p_dupfd :: int

text \<open>The owner of a lock, the requests to a device, and the recorded calls.\<close>

datatype owner = Proc int | File nat

datatype fioctl = FIONBIO u16 | FIOASYNC u16 | TIOCGPGRP | TIOCSPGRP int

datatype fcall = ADVLOCK nat owner lockop flock "bool \<times> bool \<times> bool" | FO_CLOSE nat | FO_IOCTL nat fioctl
  | VREF nat | VRELE nat | VOP_UNLOCK nat | VN_CLOSE nat

record fkern =
  k_files :: "nat \<rightharpoonup> kfile"
  filehead :: "nat list"
  nfiles :: nat
  maxfiles :: nat
  maxfdescs :: nat
  k_next :: nat
  k_creds :: ucreds
  so_pgid :: "nat \<Rightarrow> int"
  k_calls :: "fcall list"

record fops =
  fo_close :: "nat \<Rightarrow> errno option"
  fo_ioctl :: "nat \<Rightarrow> fioctl \<Rightarrow> errno option \<times> int"
  vop_advlock :: "nat \<Rightarrow> owner \<Rightarrow> lockop \<Rightarrow> flock \<Rightarrow> bool \<times> bool \<times> bool \<Rightarrow> errno option \<times> flock"
  copyout :: "errno option"
  pfind_pgid :: "int \<Rightarrow> int option"

definition k_log :: "fcall \<Rightarrow> fkern \<Rightarrow> fkern" where
  "k_log c k = k\<lparr>k_calls := k_calls k @ [c]\<rparr>"

definition upd_file :: "nat \<Rightarrow> (kfile \<Rightarrow> kfile) \<Rightarrow> fkern \<Rightarrow> fkern" where
  "upd_file a f k = k\<lparr>k_files := (k_files k)(a := map_option f (k_files k a))\<rparr>"

definition on_fd :: "(filedesc \<Rightarrow> filedesc) \<Rightarrow> dproc \<Rightarrow> dproc" where
  "on_fd f p = p\<lparr>p_fd := f (p_fd p)\<rparr>"

definition fd_file :: "filedesc \<Rightarrow> nat \<Rightarrow> nat option" where
  "fd_file fdp i = (if i < fd_nfiles fdp then fd_ofiles fdp ! i else None)"

section \<open>Descriptors\<close>

definition getdtablesize :: "dproc \<Rightarrow> nat" where
  "getdtablesize p = p_rlim_ofile p"

function scan_free :: "nat \<Rightarrow> nat \<Rightarrow> nat option list \<Rightarrow> nat option" where
  "scan_free i lim fs = (if i < lim then if fs ! i = None then Some i else scan_free (Suc i) lim fs else None)"
  by auto
termination by (relation "measure (\<lambda>(i, lim, _). lim - i)") auto

declare scan_free.simps [simp del]

text \<open>The arrays are copied to larger ones, whose new parts are zero.\<close>

definition fd_expand :: "filedesc \<Rightarrow> filedesc" where
  "fd_expand fdp =
     (let n = (if fd_nfiles fdp < NDEXTENT then NDEXTENT else 2 * fd_nfiles fdp) in
      fdp\<lparr>fd_ofiles := fd_ofiles fdp @ replicate (n - fd_nfiles fdp) None,
          fd_ofileflags := fd_ofileflags fdp @ replicate (n - fd_nfiles fdp) 0\<rparr>)"

lemma fd_expand_grows: "fd_nfiles fdp < fd_nfiles (fd_expand fdp)"
  by (auto simp: fd_expand_def Let_def)

function fdalloc :: "nat \<Rightarrow> nat \<Rightarrow> filedesc \<Rightarrow> (errno + nat) \<times> filedesc" where
  "fdalloc lim want fdp =
     (case scan_free (max want (fd_freefile fdp)) (min (fd_nfiles fdp) lim) (fd_ofiles fdp) of
        Some i \<Rightarrow>
          (Inr i, fdp\<lparr>fd_ofileflags := (fd_ofileflags fdp)[i := 0], fd_lastfile := max i (fd_lastfile fdp),
             fd_freefile := (if want \<le> fd_freefile fdp then i else fd_freefile fdp)\<rparr>)
      | None \<Rightarrow>
          if fd_nfiles fdp \<ge> lim then (Inl EMFILE, fdp)
          else fdalloc lim want (fd_expand fdp))"
  by auto
termination
proof (relation "measure (\<lambda>(lim, _, fdp). lim - fd_nfiles fdp)")
  show "((lim, want, fd_expand fdp), lim, want, fdp) \<in> measure (\<lambda>(lim, _, fdp). lim - fd_nfiles fdp)"
    if "\<not> lim \<le> fd_nfiles fdp" for lim want fdp
    using that fd_expand_grows [of fdp] by auto
qed simp

declare fdalloc.simps [simp del]

fun avail_loop :: "int \<Rightarrow> nat option list \<Rightarrow> bool" where
  "avail_loop n [] = False"
| "avail_loop n (f # fs) = (if f = None then n - 1 \<le> 0 \<or> avail_loop (n - 1) fs else avail_loop n fs)"

definition fdavail :: "nat \<Rightarrow> int \<Rightarrow> filedesc \<Rightarrow> bool" where
  "fdavail lim n fdp =
     (let i = int lim - int (fd_nfiles fdp); n = (if i > 0 then n - i else n) in
      i > 0 \<and> n \<le> 0 \<or> avail_loop n (drop (fd_freefile fdp) (fd_ofiles fdp)))"

section \<open>File structures\<close>

definition crhold :: "nat \<Rightarrow> ucreds \<Rightarrow> ucreds" where
  "crhold c cs = cs(c := map_option (\<lambda>cr. cr\<lparr>cr_ref := cr_ref cr + 1\<rparr>) (cs c))"

definition insert_after :: "nat option \<Rightarrow> nat \<Rightarrow> nat list \<Rightarrow> nat list" where
  "insert_after fq a fs =
     (case fq of None \<Rightarrow> a # fs
      | Some b \<Rightarrow> takeWhile (\<lambda>x. x \<noteq> b) fs @ b # a # tl (dropWhile (\<lambda>x. x \<noteq> b) fs))"

text \<open>\<open>mem\<close> is what the memory of the new structure holds.  The result is the descriptor and the
  address.\<close>

definition falloc :: "kfile \<Rightarrow> dproc \<Rightarrow> fkern \<Rightarrow> (errno + nat \<times> nat) \<times> dproc \<times> fkern" where
  "falloc mem p k =
     (case fdalloc (p_rlim_ofile p) 0 (p_fd p) of
        (Inl e, fdp) \<Rightarrow> (Inl e, p\<lparr>p_fd := fdp\<rparr>, k)
      | (Inr i, fdp) \<Rightarrow>
          if nfiles k \<ge> maxfiles k then (Inl ENFILE, p\<lparr>p_fd := fdp\<rparr>, k)
          else
            let a = k_next k; c = pc_ucred (p_cred p) in
            (Inr (i, a), p\<lparr>p_fd := fdp\<lparr>fd_ofiles := (fd_ofiles fdp)[i := Some a]\<rparr>\<rparr>,
             k\<lparr>nfiles := nfiles k + 1, k_next := a + 1, filehead := insert_after (fd_file fdp 0) a (filehead k),
               k_files := (k_files k)(a \<mapsto> mem\<lparr>f_count := 1, f_msgcount := 0, f_offset := 0, f_cred := c\<rparr>),
               k_creds := crhold c (k_creds k)\<rparr>))"

definition ffree :: "nat \<Rightarrow> fkern \<Rightarrow> fkern option" where
  "ffree a k =
     (case k_files k a of None \<Rightarrow> None
      | Some fp \<Rightarrow> Some (k\<lparr>filehead := remove1 a (filehead k), k_creds := crfree (f_cred fp) (k_creds k), nfiles := nfiles k - 1,
          k_files := (k_files k)(a := None)\<rparr>))"

definition whole_file :: "ltype \<Rightarrow> flock" where
  "whole_file t = \<lparr>l_start = 0, l_len = 0, l_pid = 0, l_type = t, l_whence = 0\<rparr>"

definition unlock_if :: "bool \<Rightarrow> owner \<Rightarrow> bool \<times> bool \<times> bool \<Rightarrow> kfile \<Rightarrow> fkern \<Rightarrow> fkern" where
  "unlock_if b ow fl fp k =
     (case f_type fp of DTYPE_VNODE vp \<Rightarrow> if b then k_log (ADVLOCK vp ow OpUnlck (whole_file F_UNLCK) fl) k else k | _ \<Rightarrow> k)"

definition closef :: "fops \<Rightarrow> nat \<Rightarrow> dproc \<Rightarrow> fkern \<Rightarrow> (errno option \<times> fkern) option" where
  "closef ops a p k =
     (case k_files k a of None \<Rightarrow> None
      | Some fp \<Rightarrow>
          let k = unlock_if (p_sadvlck p) (Proc (p_pid p)) (True, False, False) fp k;
              n = s16 (f_count fp - 1);
              k = upd_file a (\<lambda>fp. fp\<lparr>f_count := n\<rparr>) k in
          if n > 0 then Some (None, k)
          else if n < 0 then None
          else
            let k = unlock_if (f_flag fp AND FHASLOCK \<noteq> 0) (File a) (False, True, False) fp k in
            map_option (Pair (fo_close ops a)) (ffree a (k_log (FO_CLOSE a) k)))"

section \<open>System calls\<close>

text \<open>The end of \<^verbatim>\<open>dup\<close>, \<^verbatim>\<open>dup2\<close>, \<^verbatim>\<open>fcntl\<close> and \<^verbatim>\<open>dupfdopen\<close>: the descriptor \<open>new\<close> refers to the file \<open>a\<close> too.\<close>

definition dup_to :: "nat \<Rightarrow> nat \<Rightarrow> u8 \<Rightarrow> dproc \<Rightarrow> fkern \<Rightarrow> (dproc \<times> fkern) option" where
  "dup_to new a fl p k =
     (if k_files k a = None \<or> new \<ge> fd_nfiles (p_fd p) then None
      else Some
        (on_fd (\<lambda>fdp. fdp\<lparr>fd_ofiles := (fd_ofiles fdp)[new := Some a], fd_ofileflags := (fd_ofileflags fdp)[new := fl],
           fd_lastfile := max new (fd_lastfile fdp)\<rparr>) p,
         upd_file a (\<lambda>fp. fp\<lparr>f_count := s16 (f_count fp + 1)\<rparr>) k))"

definition munmapfd :: "nat \<Rightarrow> dproc \<Rightarrow> dproc" where
  "munmapfd fd = on_fd (\<lambda>fdp. fdp\<lparr>fd_ofileflags := (fd_ofileflags fdp)[fd := fd_ofileflags fdp ! fd AND NOT UF_MAPPED]\<rparr>)"

definition munmap_if_mapped :: "nat \<Rightarrow> dproc \<Rightarrow> dproc" where
  "munmap_if_mapped fd p = (if fd_ofileflags (p_fd p) ! fd AND UF_MAPPED \<noteq> 0 then munmapfd fd p else p)"

type_synonym sysret = "(errno + int) \<times> dproc \<times> fkern"

definition dup_into :: "nat \<Rightarrow> nat \<Rightarrow> dproc \<Rightarrow> fkern \<Rightarrow> sysret option" where
  "dup_into old new p k =
     (case fd_file (p_fd p) old of None \<Rightarrow> None
      | Some a \<Rightarrow> map_option (\<lambda>(p, k). (Inr (int new), p, k)) (dup_to new a (fd_ofileflags (p_fd p) ! old AND NOT UF_EXCLOSE) p k))"

text \<open>\<open>old\<close> and \<open>new\<close> are unsigned.\<close>

definition dup2 :: "fops \<Rightarrow> nat \<Rightarrow> nat \<Rightarrow> dproc \<Rightarrow> fkern \<Rightarrow> sysret option" where
  "dup2 ops old new p k =
     (if fd_file (p_fd p) old = None \<or> new \<ge> p_rlim_ofile p \<or> new \<ge> maxfdescs k then Some (Inl EBADF, p, k)
      else if old = new then Some (Inr (int new), p, k)
      else if new \<ge> fd_nfiles (p_fd p) then
        (case fdalloc (p_rlim_ofile p) new (p_fd p) of
           (Inl e, fdp) \<Rightarrow> Some (Inl e, p\<lparr>p_fd := fdp\<rparr>, k)
         | (Inr i, fdp) \<Rightarrow> if new \<noteq> i then None else dup_into old new (p\<lparr>p_fd := fdp\<rparr>) k)
      else
        (case fd_file (p_fd p) new of
           None \<Rightarrow> dup_into old new p k
         | Some b \<Rightarrow>
             let p = munmap_if_mapped new p in
             (case closef ops b p k of None \<Rightarrow> None | Some (_, k) \<Rightarrow> dup_into old new p k)))"

definition dup_from :: "nat \<Rightarrow> nat \<Rightarrow> dproc \<Rightarrow> fkern \<Rightarrow> sysret option" where
  "dup_from old want p k =
     (case fdalloc (p_rlim_ofile p) want (p_fd p) of
        (Inl e, fdp) \<Rightarrow> Some (Inl e, p\<lparr>p_fd := fdp\<rparr>, k)
      | (Inr i, fdp) \<Rightarrow> dup_into old i (p\<lparr>p_fd := fdp\<rparr>) k)"

text \<open>\<^verbatim>\<open>dup\<close>.  \<open>junk\<close> is the word behind the argument, which \<^verbatim>\<open>dup2\<close> takes for its second one.\<close>

definition dup :: "fops \<Rightarrow> u32 \<Rightarrow> u32 \<Rightarrow> dproc \<Rightarrow> fkern \<Rightarrow> sysret option" where
  "dup ops junk i p k =
     (if i AND NOT 0x3f \<noteq> 0 then dup2 ops (unat (i AND 0x3f)) (unat junk) p k
      else if fd_file (p_fd p) (unat i) = None then Some (Inl EBADF, p, k)
      else dup_from (unat i) 0 p k)"

fun lower_last :: "nat \<Rightarrow> nat option list \<Rightarrow> nat" where
  "lower_last 0 fs = 0"
| "lower_last (Suc n) fs = (if fs ! Suc n = None then lower_last n fs else Suc n)"

definition close :: "fops \<Rightarrow> nat \<Rightarrow> dproc \<Rightarrow> fkern \<Rightarrow> sysret option" where
  "close ops fd p k =
     (case fd_file (p_fd p) fd of
        None \<Rightarrow> Some (Inl EBADF, p, k)
      | Some a \<Rightarrow>
          let p = munmap_if_mapped fd p;
              p = on_fd (\<lambda>fdp. let fs = (fd_ofiles fdp)[fd := None] in
                fdp\<lparr>fd_ofiles := fs, fd_lastfile := lower_last (fd_lastfile fdp) fs, fd_freefile := min fd (fd_freefile fdp),
                  fd_ofileflags := (fd_ofileflags fdp)[fd := 0]\<rparr>) p in
          map_option (\<lambda>(e, k). (case e of None \<Rightarrow> Inr 0 | Some e \<Rightarrow> Inl e, p, k)) (closef ops a p k))"

section \<open>File control\<close>

text \<open>What \<^verbatim>\<open>copyin\<close> finds at the address of a lock.  \<^verbatim>\<open>F_GETLK\<close> does not look at the type of the
  lock but leaves it to the vnode; it is modelled for locks with one of the three types.\<close>

datatype ulock = Copyin_error errno | Copyin_bad_type | Copyin_lock flock

datatype fcmd = F_DUPFD u32 | F_GETFD | F_SETFD u32 | F_GETFL | F_SETFL u32 | F_GETOWN | F_SETOWN int
  | F_SETLK bool ulock | F_GETLK "errno + flock" | F_OTHER

definition VOP_ADVLOCK :: "fops \<Rightarrow> nat \<Rightarrow> owner \<Rightarrow> lockop \<Rightarrow> flock \<Rightarrow> bool \<times> bool \<times> bool \<Rightarrow> fkern \<Rightarrow> (errno option \<times> flock) \<times> fkern" where
  "VOP_ADVLOCK ops vp ow op fl fg k = (vop_advlock ops vp ow op fl fg, k_log (ADVLOCK vp ow op fl fg) k)"

definition file_ioctl :: "fops \<Rightarrow> nat \<Rightarrow> fioctl \<Rightarrow> fkern \<Rightarrow> (errno option \<times> int) \<times> fkern" where
  "file_ioctl ops a c k = (fo_ioctl ops a c, k_log (FO_IOCTL a c) k)"

abbreviation sys_error :: "errno option \<Rightarrow> errno + int" where
  "sys_error e \<equiv> case e of None \<Rightarrow> Inr 0 | Some e \<Rightarrow> Inl e"

definition setfl :: "fops \<Rightarrow> nat \<Rightarrow> u32 \<Rightarrow> kfile \<Rightarrow> fkern \<Rightarrow> (errno + int) \<times> fkern" where
  "setfl ops a arg fp k =
     (let fl = (f_flag fp AND NOT FCNTLFLAGS) OR (ucast (arg + 1) AND FCNTLFLAGS);
          k = upd_file a (\<lambda>fp. fp\<lparr>f_flag := fl\<rparr>) k;
          ((e, _), k) = file_ioctl ops a (FIONBIO (fl AND FNONBLOCK)) k in
      if e \<noteq> None then (sys_error e, k)
      else
        let ((e, _), k) = file_ioctl ops a (FIOASYNC (fl AND FASYNC)) k in
        if e = None then (Inr 0, k)
        else
          let k = upd_file a (\<lambda>fp. fp\<lparr>f_flag := fl AND NOT FNONBLOCK\<rparr>) k;
              (_, k) = file_ioctl ops a (FIONBIO 0) k in
          (sys_error e, k))"

definition getown :: "fops \<Rightarrow> nat \<Rightarrow> kfile \<Rightarrow> fkern \<Rightarrow> (errno + int) \<times> fkern" where
  "getown ops a fp k =
     (case f_type fp of
        DTYPE_SOCKET so \<Rightarrow> (Inr (so_pgid k so), k)
      | _ \<Rightarrow> let ((e, v), k) = file_ioctl ops a TIOCGPGRP k in (case e of None \<Rightarrow> Inr (- v) | Some e \<Rightarrow> Inl e, k))"

definition setown :: "fops \<Rightarrow> nat \<Rightarrow> int \<Rightarrow> kfile \<Rightarrow> fkern \<Rightarrow> (errno + int) \<times> fkern" where
  "setown ops a arg fp k =
     (case f_type fp of
        DTYPE_SOCKET so \<Rightarrow> (Inr 0, k\<lparr>so_pgid := (so_pgid k)(so := arg)\<rparr>)
      | _ \<Rightarrow>
          (case (if arg \<le> 0 then Some (- arg) else pfind_pgid ops arg) of
             None \<Rightarrow> (Inl ESRCH, k)
           | Some pg \<Rightarrow> let ((e, _), k) = file_ioctl ops a (TIOCSPGRP pg) k in (sys_error e, k)))"

definition from_current :: "kfile \<Rightarrow> flock \<Rightarrow> flock" where
  "from_current fp fl = (if l_whence fl = 1 then fl\<lparr>l_start := s32 (l_start fl + f_offset fp)\<rparr> else fl)"

definition setlk :: "fops \<Rightarrow> bool \<Rightarrow> ulock \<Rightarrow> kfile \<Rightarrow> dproc \<Rightarrow> fkern \<Rightarrow> sysret" where
  "setlk ops wait ul fp p k =
     (case f_type fp of
        DTYPE_SOCKET _ \<Rightarrow> (Inl EBADF, p, k)
      | DTYPE_VNODE vp \<Rightarrow>
          (case ul of
             Copyin_error e \<Rightarrow> (Inl e, p, k)
           | Copyin_bad_type \<Rightarrow> (Inl EINVAL, p, k)
           | Copyin_lock fl \<Rightarrow>
               let fl = from_current fp fl; call = (\<lambda>op fg k. let ((e, _), k) = VOP_ADVLOCK ops vp (Proc (p_pid p)) op fl fg k in (sys_error e, k));
                   need = (case l_type fl of F_RDLCK \<Rightarrow> FREAD | F_WRLCK \<Rightarrow> FWRITE | F_UNLCK \<Rightarrow> 0) in
               if l_type fl = F_UNLCK then let (r, k) = call OpUnlck (True, False, False) k in (r, p, k)
               else if f_flag fp AND need = 0 then (Inl EBADF, p, k)
               else let (r, k) = call OpSetlk (True, False, wait) k in (r, p\<lparr>p_sadvlck := True\<rparr>, k)))"

definition getlk :: "fops \<Rightarrow> errno + flock \<Rightarrow> kfile \<Rightarrow> dproc \<Rightarrow> fkern \<Rightarrow> (errno + int) \<times> fkern" where
  "getlk ops ul fp p k =
     (case f_type fp of
        DTYPE_SOCKET _ \<Rightarrow> (Inl EBADF, k)
      | DTYPE_VNODE vp \<Rightarrow>
          (case ul of
             Inl e \<Rightarrow> (Inl e, k)
           | Inr fl \<Rightarrow>
               let ((e, _), k) = VOP_ADVLOCK ops vp (Proc (p_pid p)) OpGetlk (from_current fp fl) (True, False, False) k in
               (if e = None then sys_error (copyout ops) else sys_error e, k)))"

definition fcntl :: "fops \<Rightarrow> nat \<Rightarrow> fcmd \<Rightarrow> dproc \<Rightarrow> fkern \<Rightarrow> sysret option" where
  "fcntl ops fd cmd p k =
     (case fd_file (p_fd p) fd of
        None \<Rightarrow> Some (Inl EBADF, p, k)
      | Some a \<Rightarrow>
          (case k_files k a of None \<Rightarrow> None
           | Some fp \<Rightarrow>
               let pop = fd_ofileflags (p_fd p) ! fd; keep = (\<lambda>(r, k). Some (r, p, k)) in
               (case cmd of
                  F_DUPFD arg \<Rightarrow>
                    if unat arg \<ge> p_rlim_ofile p \<or> unat arg \<ge> maxfdescs k then Some (Inl EINVAL, p, k) else dup_from fd (unat arg) p k
                | F_GETFD \<Rightarrow> keep (Inr (uint (pop AND 1)), k)
                | F_SETFD arg \<Rightarrow>
                    Some (Inr 0, on_fd (\<lambda>fdp. fdp\<lparr>fd_ofileflags := (fd_ofileflags fdp)[fd := (pop AND NOT 1) OR (ucast arg AND 1)]\<rparr>) p, k)
                | F_GETFL \<Rightarrow> keep (Inr (uint (f_flag fp) - 1), k)
                | F_SETFL arg \<Rightarrow> keep (setfl ops a arg fp k)
                | F_GETOWN \<Rightarrow> keep (getown ops a fp k)
                | F_SETOWN arg \<Rightarrow> keep (setown ops a arg fp k)
                | F_SETLK wait ul \<Rightarrow> Some (setlk ops wait ul fp p k)
                | F_GETLK ul \<Rightarrow> keep (getlk ops ul fp p k)
                | F_OTHER \<Rightarrow> Some (Inl EINVAL, p, k))))"

definition flock_call :: "fops \<Rightarrow> nat \<Rightarrow> u32 \<Rightarrow> dproc \<Rightarrow> fkern \<Rightarrow> sysret option" where
  "flock_call ops fd how p k =
     (case fd_file (p_fd p) fd of
        None \<Rightarrow> Some (Inl EBADF, p, k)
      | Some a \<Rightarrow>
          (case k_files k a of None \<Rightarrow> None
           | Some fp \<Rightarrow>
               (case f_type fp of
                  DTYPE_SOCKET _ \<Rightarrow> Some (Inl EOPNOTSUPP, p, k)
                | DTYPE_VNODE vp \<Rightarrow>
                    let call = (\<lambda>op t wait k. let ((e, _), k) = VOP_ADVLOCK ops vp (File a) op (whole_file t) (False, True, wait) k in Some (sys_error e, p, k)) in
                    if how AND LOCK_UN \<noteq> 0 then call OpUnlck F_UNLCK False (upd_file a (\<lambda>fp. fp\<lparr>f_flag := f_flag fp AND NOT FHASLOCK\<rparr>) k)
                    else if how AND (LOCK_EX OR LOCK_SH) = 0 then Some (Inl EBADF, p, k)
                    else call OpSetlk (if how AND LOCK_EX \<noteq> 0 then F_WRLCK else F_RDLCK) (how AND LOCK_NB = 0)
                      (upd_file a (\<lambda>fp. fp\<lparr>f_flag := f_flag fp OR FHASLOCK\<rparr>) k))))"

section \<open>New files\<close>

definition fdopen :: "int \<Rightarrow> dproc \<Rightarrow> errno \<times> dproc" where
  "fdopen minor p = (ENODEV, p\<lparr>p_dupfd := minor\<rparr>)"

definition dupfdopen :: "nat \<Rightarrow> int \<Rightarrow> u32 \<Rightarrow> dproc \<Rightarrow> fkern \<Rightarrow> (errno option \<times> dproc \<times> fkern) option" where
  "dupfdopen indx dfd mode p k =
     (let d = unat (word_of_int dfd :: u32) in
      case fd_file (p_fd p) d of
        None \<Rightarrow> Some (Some EBADF, p, k)
      | Some w \<Rightarrow>
          if fd_file (p_fd p) indx = Some w then Some (Some EBADF, p, k)
          else
            (case k_files k w of None \<Rightarrow> None
             | Some fw \<Rightarrow>
                 if (ucast mode AND (FREAD OR FWRITE)) OR f_flag fw \<noteq> f_flag fw then Some (Some EACCES, p, k)
                 else map_option (Pair None) (dup_to indx w (fd_ofileflags (p_fd p) ! d) p k)))"

text \<open>The result of \<^verbatim>\<open>vn_open\<close>: an error, an open of the descriptor device, or a vnode.\<close>

datatype vn_open = VN_error errno | VN_fdopen int | VN_ok nat

definition clear_fd :: "nat \<Rightarrow> dproc \<Rightarrow> dproc" where
  "clear_fd indx = on_fd (\<lambda>fdp. fdp\<lparr>fd_ofiles := (fd_ofiles fdp)[indx := None]\<rparr>)"

text \<open>The failing and the successful end of \<^verbatim>\<open>open\<close>.  The new structure is freed before \<^verbatim>\<open>dupfdopen\<close> looks at its descriptor; only
  its address is compared.\<close>

definition open_failed :: "nat \<Rightarrow> nat \<Rightarrow> errno \<Rightarrow> u32 \<Rightarrow> dproc \<Rightarrow> fkern \<Rightarrow> sysret option" where
  "open_failed indx a e fmode p k =
     (case ffree a k of None \<Rightarrow> None
      | Some k \<Rightarrow>
          let fail = (\<lambda>e p k. Some (Inl (if e = ERESTART then EINTR else e), clear_fd indx p, k)) in
          if e = ENODEV \<and> s16 (p_dupfd p) \<ge> 0 then
            (case dupfdopen indx (p_dupfd p) fmode p k of None \<Rightarrow> None
             | Some (None, p, k) \<Rightarrow> Some (Inr (int indx), p, k)
             | Some (Some e, p, k) \<Rightarrow> fail e p k)
          else fail e p k)"

definition open_done :: "fops \<Rightarrow> nat \<Rightarrow> nat \<Rightarrow> nat \<Rightarrow> u32 \<Rightarrow> dproc \<Rightarrow> fkern \<Rightarrow> sysret option" where
  "open_done ops indx a vp fmode p k =
     (let k = upd_file a (\<lambda>fp. fp\<lparr>f_flag := ucast fmode AND FMASK\<rparr>) k;
          fin = (\<lambda>k. Some (Inr (int indx), p, upd_file a (\<lambda>fp. fp\<lparr>f_type := DTYPE_VNODE vp\<rparr>) (k_log (VOP_UNLOCK vp) k))) in
      if fmode AND (O_EXLOCK OR O_SHLOCK) = 0 then fin k
      else
        let ((e, _), k) = VOP_ADVLOCK ops vp (File a) OpSetlk (whole_file (if fmode AND O_EXLOCK \<noteq> 0 then F_WRLCK else F_RDLCK))
              (False, True, fmode AND 4 = 0) k in
        (case e of
           None \<Rightarrow> fin (upd_file a (\<lambda>fp. fp\<lparr>f_flag := f_flag fp OR FHASLOCK\<rparr>) k)
         | Some e \<Rightarrow> map_option (\<lambda>k. (Inl e, clear_fd indx p, k)) (ffree a (k_log (VN_CLOSE vp) (k_log (VOP_UNLOCK vp) k)))))"

definition open_file :: "fops \<Rightarrow> kfile \<Rightarrow> vn_open \<Rightarrow> u32 \<Rightarrow> dproc \<Rightarrow> fkern \<Rightarrow> sysret option" where
  "open_file ops mem vn mode p k =
     (case falloc mem p k of
        (Inl e, p, k) \<Rightarrow> Some (Inl e, p, k)
      | (Inr (indx, a), p, k) \<Rightarrow>
          let fmode = mode + 1; p = p\<lparr>p_dupfd := - int indx - 1\<rparr> in
          (case vn of
             VN_ok vp \<Rightarrow> open_done ops indx a vp fmode p k
           | VN_error e \<Rightarrow> open_failed indx a e fmode p k
           | VN_fdopen d \<Rightarrow> let (e, p) = fdopen d p in open_failed indx a e fmode p k))"

definition socket :: "kfile \<Rightarrow> errno + nat \<Rightarrow> dproc \<Rightarrow> fkern \<Rightarrow> sysret option" where
  "socket mem so p k =
     (case falloc mem p k of
        (Inl e, p, k) \<Rightarrow> Some (Inl e, p, k)
      | (Inr (fd, a), p, k) \<Rightarrow>
          let k = upd_file a (\<lambda>fp. fp\<lparr>f_flag := FREAD OR FWRITE\<rparr>) k in
          (case so of
             Inl e \<Rightarrow> map_option (\<lambda>k. (Inl e, clear_fd fd p, k)) (ffree a k)
           | Inr s \<Rightarrow> Some (Inr (int fd), p, upd_file a (\<lambda>fp. fp\<lparr>f_type := DTYPE_SOCKET s\<rparr>) k)))"

section \<open>Fork, exec and exit\<close>

function shrink :: "nat \<Rightarrow> nat \<Rightarrow> nat" where
  "shrink i lastfile = (if i > 2 * NDEXTENT \<and> i \<ge> lastfile * 2 then shrink (i div 2) lastfile else i)"
  by auto
termination by (relation "measure fst") auto

declare shrink.simps [simp del]

text \<open>The references of the entries; \<open>n\<close> is how many are visited.  \<open>None\<close> is a read behind the array, where the code finds the flag bytes of the
  same block of memory (it goes on if the first four are zero, and takes them for a pointer otherwise), or a structure that was freed.\<close>

fun hold_files :: "nat \<Rightarrow> nat option list \<Rightarrow> fkern \<Rightarrow> fkern option" where
  "hold_files 0 fs k = Some k"
| "hold_files (Suc n) [] k = None"
| "hold_files (Suc n) (None # fs) k = hold_files n fs k"
| "hold_files (Suc n) (Some a # fs) k =
     (if k_files k a = None then None else hold_files n fs (upd_file a (\<lambda>fp. fp\<lparr>f_count := s16 (f_count fp + 1)\<rparr>) k))"

definition fdcopy :: "dproc \<Rightarrow> fkern \<Rightarrow> (filedesc \<times> fkern) option" where
  "fdcopy p k =
     (let fdp = p_fd p;
          k = k_log (VREF (fd_cdir fdp)) k;
          k = (case fd_rdir fdp of None \<Rightarrow> k | Some v \<Rightarrow> k_log (VREF v) k);
          i = (if fd_lastfile fdp < NDFILE then NDFILE else shrink (fd_nfiles fdp) (fd_lastfile fdp));
          new = fdp\<lparr>fd_ofiles := take i (fd_ofiles fdp), fd_ofileflags := take i (fd_ofileflags fdp), fd_refcnt := 1\<rparr> in
      map_option (Pair new) (hold_files (Suc (fd_lastfile fdp)) (fd_ofiles new) k))"

fun release_files :: "fops \<Rightarrow> nat \<Rightarrow> nat option list \<Rightarrow> dproc \<Rightarrow> fkern \<Rightarrow> fkern option" where
  "release_files ops 0 fs p k = Some k"
| "release_files ops (Suc n) [] p k = None"
| "release_files ops (Suc n) (None # fs) p k = release_files ops n fs p k"
| "release_files ops (Suc n) (Some a # fs) p k =
     (case closef ops a p k of None \<Rightarrow> None | Some (_, k) \<Rightarrow> release_files ops n fs p k)"

text \<open>\<^verbatim>\<open>fdfree\<close>: the table that remains, if it is still shared.\<close>

definition fdfree :: "fops \<Rightarrow> dproc \<Rightarrow> fkern \<Rightarrow> (filedesc option \<times> fkern) option" where
  "fdfree ops p k =
     (let fdp = p_fd p; n = fd_refcnt fdp - 1 in
      if n > 0 then Some (Some (fdp\<lparr>fd_refcnt := n\<rparr>), k)
      else
        case release_files ops (Suc (fd_lastfile fdp)) (fd_ofiles fdp) p k of
          None \<Rightarrow> None
        | Some k \<Rightarrow>
            let k = k_log (VRELE (fd_cdir fdp)) k in
            Some (None, case fd_rdir fdp of None \<Rightarrow> k | Some v \<Rightarrow> k_log (VRELE v) k))"

fun closeexec_loop :: "fops \<Rightarrow> nat list \<Rightarrow> dproc \<Rightarrow> fkern \<Rightarrow> (dproc \<times> fkern) option" where
  "closeexec_loop ops [] p k = Some (p, k)"
| "closeexec_loop ops (i # is) p k =
     (if i \<ge> fd_nfiles (p_fd p) then None
      else
        case fd_file (p_fd p) i of
          None \<Rightarrow> closeexec_loop ops is p k
        | Some a \<Rightarrow>
            if fd_ofileflags (p_fd p) ! i AND UF_EXCLOSE = 0 then closeexec_loop ops is p k
            else
              let p = munmap_if_mapped i p in
              (case closef ops a p k of None \<Rightarrow> None
               | Some (_, k) \<Rightarrow>
                   closeexec_loop ops is (on_fd (\<lambda>fdp. fdp\<lparr>fd_ofiles := (fd_ofiles fdp)[i := None], fd_ofileflags := (fd_ofileflags fdp)[i := 0],
                     fd_freefile := min i (fd_freefile fdp)\<rparr>) p) k))"

definition fdcloseexec :: "fops \<Rightarrow> dproc \<Rightarrow> fkern \<Rightarrow> (dproc \<times> fkern) option" where
  "fdcloseexec ops p k =
     map_option (\<lambda>(p, k). (on_fd (\<lambda>fdp. fdp\<lparr>fd_lastfile := lower_last (fd_lastfile fdp) (fd_ofiles fdp)\<rparr>) p, k))
       (closeexec_loop ops [0..<Suc (fd_lastfile (p_fd p))] p k)"

end
