(* ===== verification/Descrip_inv.thy ===== *)
theory Descrip_inv
  imports Descrip
begin

text \<open>
  The tables of descriptors and the reference counts of file structures: what each operation
  keeps, for a process and any number of references from elsewhere.
\<close>

section \<open>Tables\<close>

definition fd_ok :: "filedesc \<Rightarrow> bool" where
  "fd_ok fdp \<longleftrightarrow> length (fd_ofileflags fdp) = fd_nfiles fdp \<and> NDFILE \<le> fd_nfiles fdp \<and> fd_lastfile fdp < fd_nfiles fdp \<and>
     fd_freefile fdp \<le> fd_nfiles fdp \<and> fd_refcnt fdp = 1 \<and> (\<forall>j < fd_freefile fdp. fd_ofiles fdp ! j \<noteq> None) \<and>
     (\<forall>j. fd_lastfile fdp < j \<longrightarrow> j < fd_nfiles fdp \<longrightarrow> fd_ofiles fdp ! j = None)"

abbreviation uses :: "filedesc \<Rightarrow> nat \<Rightarrow> nat" where
  "uses fdp a \<equiv> count_list (fd_ofiles fdp) (Some a)"

lemma count_list_update:
  assumes "i < length xs"
  shows "count_list (xs[i := y]) x + (if xs ! i = x then 1 else 0) = count_list xs x + (if y = x then 1 else 0)"
  using assms
proof (induction xs arbitrary: i)
  case (Cons z xs)
  show ?case
  proof (cases i)
    case (Suc n)
    then show ?thesis using Cons.IH [of n] Cons.prems by (simp split: if_splits)
  qed simp
qed simp

lemma count_list_replicate_other: "y \<noteq> x \<Longrightarrow> count_list (replicate n y) x = 0"
  by (induction n) simp_all

lemma count_list_nth: "i < length xs \<Longrightarrow> 0 < count_list xs (xs ! i)"
  by (metis count_list_0_iff neq0_conv nth_mem)

lemma uses_pos: "fd_file fdp i = Some a \<Longrightarrow> 0 < uses fdp a"
  using count_list_nth [of i "fd_ofiles fdp"] by (auto simp: fd_file_def split: if_splits)

lemma scan_free_Some: "scan_free i lim fs = Some j \<Longrightarrow> i \<le> j \<and> j < lim \<and> fs ! j = None \<and> (\<forall>l. i \<le> l \<longrightarrow> l < j \<longrightarrow> fs ! l \<noteq> None)"
proof (induction i lim fs rule: scan_free.induct)
  case (1 i lim fs)
  note eq = scan_free.simps [of i lim fs]
  show ?case
  proof (cases "i < lim \<and> fs ! i \<noteq> None")
    case True
    then have "Suc i \<le> j \<and> j < lim \<and> fs ! j = None \<and> (\<forall>l. Suc i \<le> l \<longrightarrow> l < j \<longrightarrow> fs ! l \<noteq> None)" using 1 eq by auto
    then show ?thesis using True by (metis Suc_le_eq le_neq_implies_less less_imp_le)
  next
    case False
    then show ?thesis using 1(2) eq by (auto split: if_splits)
  qed
qed

lemma scan_free_None: "scan_free i lim fs = None \<Longrightarrow> i \<le> l \<Longrightarrow> l < lim \<Longrightarrow> fs ! l \<noteq> None"
proof (induction i lim fs rule: scan_free.induct)
  case (1 i lim fs)
  note eq = scan_free.simps [of i lim fs]
  have "i < lim" "fs ! i \<noteq> None" "scan_free (Suc i) lim fs = None" using 1(2-4) eq by (auto split: if_splits)
  then show ?case using 1(1,3,4) by (metis Suc_le_eq le_neq_implies_less)
qed

text \<open>The sizes a table can have: that of the array inside the structure, and those \<^verbatim>\<open>fdalloc\<close> grows it to.\<close>

definition table_size :: "nat \<Rightarrow> bool" where
  "table_size n \<longleftrightarrow> n = NDFILE \<or> (\<exists>m. n = NDEXTENT * 2 ^ m)"

lemma fd_expand_size:
  assumes "table_size (fd_nfiles fdp)"
  shows "table_size (fd_nfiles (fd_expand fdp))"
proof (cases "fd_nfiles fdp < NDEXTENT")
  case True
  then show ?thesis by (simp add: fd_expand_def table_size_def exI [of _ 0])
next
  case False
  then obtain m where "fd_nfiles fdp = NDEXTENT * 2 ^ m" using assms by (auto simp: table_size_def)
  then show ?thesis using False by (auto simp: fd_expand_def table_size_def intro!: exI [of _ "Suc m"])
qed

text \<open>What \<^verbatim>\<open>fdalloc\<close> does: the table grows, no entry changes, the descriptor is free.\<close>

definition fd_same :: "filedesc \<Rightarrow> filedesc \<Rightarrow> bool" where
  "fd_same fdp fdp' \<longleftrightarrow> fd_nfiles fdp \<le> fd_nfiles fdp' \<and> fd_file fdp' = fd_file fdp \<and> (\<forall>a. uses fdp' a = uses fdp a) \<and>
     fd_cdir fdp' = fd_cdir fdp \<and> fd_rdir fdp' = fd_rdir fdp \<and> (table_size (fd_nfiles fdp) \<longrightarrow> table_size (fd_nfiles fdp'))"

lemma fd_expand_ok:
  assumes "fd_ok fdp"
  shows "fd_ok (fd_expand fdp) \<and> fd_same fdp (fd_expand fdp) \<and> fd_freefile (fd_expand fdp) = fd_freefile fdp"
proof -
  obtain m where m: "fd_expand fdp = fdp\<lparr>fd_ofiles := fd_ofiles fdp @ replicate m None, fd_ofileflags := fd_ofileflags fdp @ replicate m 0\<rparr>"
    by (simp add: fd_expand_def Let_def)
  have "fd_file (fd_expand fdp) = fd_file fdp" by (rule ext) (auto simp: m fd_file_def nth_append)
  moreover have "fd_cdir (fd_expand fdp) = fd_cdir fdp" "fd_rdir (fd_expand fdp) = fd_rdir fdp" "uses (fd_expand fdp) a = uses fdp a"
    "fd_nfiles fdp \<le> fd_nfiles (fd_expand fdp)" for a by (simp_all add: m count_list_replicate_other)
  ultimately have "fd_same fdp (fd_expand fdp)" using fd_expand_size [of fdp] by (simp add: fd_same_def)
  moreover have "fd_ok (fd_expand fdp)" "fd_freefile (fd_expand fdp) = fd_freefile fdp" using assms by (auto simp: m fd_ok_def nth_append)
  ultimately show ?thesis by simp
qed

lemma fd_same_trans: "fd_same a b \<Longrightarrow> fd_same b c \<Longrightarrow> fd_same a c"
  by (simp add: fd_same_def)

lemma fdalloc_result:
  assumes "fd_ok fdp" "fdalloc lim want fdp = (r, fdp')"
  shows "fd_ok fdp' \<and> fd_same fdp fdp' \<and>
    (case r of
       Inr i \<Rightarrow> want \<le> i \<and> i < lim \<and> i < fd_nfiles fdp' \<and> fd_file fdp i = None \<and> i \<le> fd_lastfile fdp' \<and> fd_freefile fdp' \<le> i \<and> (\<forall>j. want \<le> j \<longrightarrow> j < i \<longrightarrow> fd_file fdp j \<noteq> None)
     | Inl e \<Rightarrow> e = EMFILE \<and> (\<forall>j. want \<le> j \<longrightarrow> j < lim \<longrightarrow> fd_file fdp j \<noteq> None))"
  using assms
proof (induction lim want fdp rule: fdalloc.induct)
  case (1 lim want fdp)
  note eq = fdalloc.simps [of lim want fdp]
  let ?scan = "scan_free (max want (fd_freefile fdp)) (min (fd_nfiles fdp) lim) (fd_ofiles fdp)"
  have below: "fd_file fdp j \<noteq> None" if "j < fd_freefile fdp" for j using 1(2) that by (auto simp: fd_ok_def fd_file_def)
  show ?case
  proof (cases ?scan)
    case (Some i)
    note s = scan_free_Some [OF Some]
    have "r = Inr i" and fdp': "fdp' = fdp\<lparr>fd_ofileflags := (fd_ofileflags fdp)[i := 0], fd_lastfile := max i (fd_lastfile fdp),
        fd_freefile := (if want \<le> fd_freefile fdp then i else fd_freefile fdp)\<rparr>" using 1(3) eq Some by simp_all
    moreover have "fd_ok fdp'"
    proof -
      have "fd_ofiles fdp ! j \<noteq> None" if "want \<le> fd_freefile fdp" "j < i" for j
        using s that 1(2) by (cases "j < fd_freefile fdp") (simp_all add: fd_ok_def)
      then show ?thesis using 1(2) s by (auto simp: fdp' fd_ok_def)
    qed
    moreover have "fd_same fdp fdp'" by (auto simp: fdp' fd_same_def fd_file_def fun_eq_iff)
    moreover have "fd_file fdp j \<noteq> None" if "want \<le> j" "j < i" for j
      using s that below [of j] by (cases "j < fd_freefile fdp") (auto simp: fd_file_def)
    ultimately show ?thesis using s by (auto simp: fd_file_def fdp')
  next
    case None
    show ?thesis
    proof (cases "fd_nfiles fdp \<ge> lim")
      case True
      have "fd_file fdp j \<noteq> None" if "want \<le> j" "j < lim" for j
        using scan_free_None [OF None, of j] that True below [of j] by (cases "j < fd_freefile fdp") (auto simp: fd_file_def)
      then show ?thesis using 1(2,3) eq None True by (auto simp: fd_same_def)
    next
      case False
      note ex = fd_expand_ok [OF 1(2)]
      have "fdalloc lim want (fd_expand fdp) = (r, fdp')" using 1(3) eq None False by simp
      from 1(1) [OF None False conjunct1 [OF ex] this] ex show ?thesis
        using fd_same_trans [of fdp "fd_expand fdp" fdp'] by (auto simp: fd_same_def split: sum.splits)
    qed
  qed
qed

text \<open>\<^verbatim>\<open>fdavail\<close> counts the free descriptors right, unless the limit has fallen below the size of the table.\<close>

lemma avail_loop_count: "0 < n \<Longrightarrow> avail_loop n fs \<longleftrightarrow> n \<le> int (count_list fs None)"
proof (induction n fs rule: avail_loop.induct)
  case (2 n f fs)
  then show ?case by (cases "n = 1") auto
qed simp

lemma count_list_card: "card {j. j < length xs \<and> xs ! j = x} = count_list xs x"
  by (simp add: count_list_eq_length_filter length_filter_conv_card eq_commute)

lemma fdavail_exact:
  assumes "fd_ok fdp" "fd_nfiles fdp \<le> lim" "0 < n"
  shows "fdavail lim n fdp \<longleftrightarrow> n \<le> int (card {j. j < lim \<and> fd_file fdp j = None})"
proof -
  have "{j. j < lim \<and> fd_file fdp j = None} = {j. j < fd_nfiles fdp \<and> fd_ofiles fdp ! j = None} \<union> {fd_nfiles fdp..<lim}"
    using assms(2) by (auto simp: fd_file_def)
  then have c: "card {j. j < lim \<and> fd_file fdp j = None} = count_list (fd_ofiles fdp) None + (lim - fd_nfiles fdp)"
    by (simp add: card_Un_disjoint disjoint_iff count_list_card)
  have "None \<notin> set (take (fd_freefile fdp) (fd_ofiles fdp))" using assms(1) by (auto simp: fd_ok_def in_set_conv_nth)
  then have "count_list (take (fd_freefile fdp) (fd_ofiles fdp)) None = 0" by (simp add: count_list_0_iff)
  then have "count_list (drop (fd_freefile fdp) (fd_ofiles fdp)) None = count_list (fd_ofiles fdp) None"
    using count_list_append [of "take (fd_freefile fdp) (fd_ofiles fdp)" "drop (fd_freefile fdp) (fd_ofiles fdp)" None] by simp
  then show ?thesis
    using assms(2,3) avail_loop_count [of "n - (int lim - int (fd_nfiles fdp))" "drop (fd_freefile fdp) (fd_ofiles fdp)"] c
      avail_loop_count [of n "drop (fd_freefile fdp) (fd_ofiles fdp)"]
    by (cases "n - (int lim - int (fd_nfiles fdp)) \<le> 0") (auto simp: fdavail_def Let_def)
qed

section \<open>Reference counts\<close>

definition cnt_ok :: "(nat \<Rightarrow> nat) \<Rightarrow> fkern \<Rightarrow> nat \<Rightarrow> bool" where
  "cnt_ok r k b = (case k_files k b of None \<Rightarrow> r b = 0 | Some fp \<Rightarrow> f_count fp = int (r b) \<and> 0 < r b)"

definition files_ok :: "fkern \<Rightarrow> bool" where
  "files_ok k \<longleftrightarrow> distinct (filehead k) \<and> set (filehead k) = dom (k_files k) \<and> nfiles k = length (filehead k) \<and> (\<forall>a \<in> dom (k_files k). a < k_next k)"

text \<open>The counts are those of the references \<open>r\<close>, and the list of open files is complete.\<close>

definition good :: "(nat \<Rightarrow> nat) \<Rightarrow> fkern \<Rightarrow> bool" where
  "good r k \<longleftrightarrow> (\<forall>b. cnt_ok r k b) \<and> files_ok k"

lemma goodI: "(\<And>b. cnt_ok r k b) \<Longrightarrow> files_ok k \<Longrightarrow> good r k"
  by (simp add: good_def)

lemma goodD: "good r k \<Longrightarrow> cnt_ok r k b" "good r k \<Longrightarrow> files_ok k"
  by (simp_all add: good_def)

lemma cnt_ok_cong: "k_files k' b = k_files k b \<Longrightarrow> r' b = r b \<Longrightarrow> cnt_ok r' k' b = cnt_ok r k b"
  by (simp add: cnt_ok_def split: option.splits)

lemma cnt_ok_file: "cnt_ok r k a \<Longrightarrow> 0 < r a \<Longrightarrow> \<exists>fp. k_files k a = Some fp \<and> f_count fp = int (r a)"
  by (auto simp: cnt_ok_def split: option.splits)

lemma cnt_ok_pos: "cnt_ok r k a \<Longrightarrow> k_files k a \<noteq> None \<Longrightarrow> 0 < r a"
  by (auto simp: cnt_ok_def split: option.splits)

lemma k_log_fields [simp]: "k_files (k_log c k) = k_files k" "filehead (k_log c k) = filehead k" "nfiles (k_log c k) = nfiles k"
  "k_next (k_log c k) = k_next k" "maxfdescs (k_log c k) = maxfdescs k"
  by (simp_all add: k_log_def)

lemma good_log [simp]: "good r (k_log c k) = good r k"
  by (simp add: good_def cnt_ok_def files_ok_def split: option.splits)

lemma upd_file_fields: "k_files (upd_file a f k) b = (if b = a then map_option f (k_files k a) else k_files k b)"
  "filehead (upd_file a f k) = filehead k" "nfiles (upd_file a f k) = nfiles k" "k_next (upd_file a f k) = k_next k" "dom (k_files (upd_file a f k)) = dom (k_files k)"
  by (auto simp: upd_file_def)

lemma files_ok_upd [simp]: "files_ok (upd_file a f k) = files_ok k"
  by (simp add: files_ok_def upd_file_fields)

lemma good_upd:
  assumes "good r k" "\<And>fp. f_count (f fp) = f_count fp"
  shows "good r (upd_file a f k)"
proof (rule goodI)
  show "cnt_ok r (upd_file a f k) b" for b
    using goodD(1) [OF assms(1), of b] assms(2) by (auto simp: cnt_ok_def upd_file_fields split: option.splits)
qed (simp add: goodD(2) [OF assms(1)])

lemma unlock_if_fields: "k_files (unlock_if b ow fl fp k) = k_files k" "good r (unlock_if b ow fl fp k) = good r k" "files_ok (unlock_if b ow fl fp k) = files_ok k"
  by (auto simp: unlock_if_def files_ok_def split: ftype.split)

lemma good_hold:
  assumes "good r k" "k_files k a \<noteq> None" "r a < 32767"
  shows "good (r(a := r a + 1)) (upd_file a (\<lambda>fp. fp\<lparr>f_count := s16 (f_count fp + 1)\<rparr>) k)"
proof (rule goodI)
  fix b
  have "0 < r a" using cnt_ok_pos [OF goodD(1) [OF assms(1)] assms(2)] .
  then obtain fp where "k_files k a = Some fp" "f_count fp = int (r a)" using cnt_ok_file goodD(1) [OF assms(1)] by blast
  moreover from this assms(3) have "s16 (f_count fp + 1) = int (r a + 1)" by (simp add: s16_small)
  ultimately show "cnt_ok (r(a := r a + 1)) (upd_file a (\<lambda>fp. fp\<lparr>f_count := s16 (f_count fp + 1)\<rparr>) k) b"
    using goodD(1) [OF assms(1), of b] by (cases "b = a") (auto simp: cnt_ok_def upd_file_fields split: option.splits)
qed (simp add: goodD(2) [OF assms(1)])

lemma ffree_good:
  assumes "\<forall>b. b \<noteq> a \<longrightarrow> cnt_ok r k b" "files_ok k" "k_files k a = Some fp"
  shows "\<exists>k'. ffree a k = Some k' \<and> good (r(a := 0)) k' \<and> maxfdescs k' = maxfdescs k"
proof -
  have l: "distinct (filehead k)" "set (filehead k) = dom (k_files k)" "nfiles k = length (filehead k)" "a \<in> set (filehead k)"
    using assms(2,3) by (auto simp: files_ok_def)
  have "set (remove1 a (filehead k)) = dom ((k_files k)(a := None))" "length (remove1 a (filehead k)) = nfiles k - 1" "distinct (remove1 a (filehead k))"
    using l by (auto simp: length_remove1)
  then have "files_ok (k\<lparr>filehead := remove1 a (filehead k), k_creds := c, nfiles := nfiles k - 1, k_files := (k_files k)(a := None)\<rparr>)" for c
    using assms(2) by (auto simp: files_ok_def)
  moreover have "cnt_ok (r(a := 0)) (k\<lparr>filehead := l, k_creds := c, nfiles := n, k_files := (k_files k)(a := None)\<rparr>) b" for b l c n
    using assms(1) [rule_format, of b] by (cases "b = a") (simp_all add: cnt_ok_def split: option.splits)
  ultimately show ?thesis using assms(3) by (simp add: ffree_def goodI)
qed

lemma closef_good:
  assumes "good r k" "0 < r a" "r a \<le> 32767"
  shows "\<exists>e k'. closef ops a p k = Some (e, k') \<and> good (r(a := r a - 1)) k' \<and> maxfdescs k' = maxfdescs k"
proof -
  obtain fp where fp: "k_files k a = Some fp" "f_count fp = int (r a)" using cnt_ok_file goodD(1) [OF assms(1)] assms(2) by blast
  define k1 where "k1 = unlock_if (p_sadvlck p) (Proc (p_pid p)) (True, False, False) fp k"
  define n where "n = int (r a - 1)"
  have sn: "s16 (f_count fp - 1) = n" using assms(2,3) fp(2) by (simp add: n_def s16_small of_nat_diff)
  define k2 where "k2 = upd_file a (\<lambda>fp. fp\<lparr>f_count := n\<rparr>) k1"
  have k1: "k_files k1 = k_files k" "files_ok k1" "maxfdescs k2 = maxfdescs k" using assms(1) by (simp_all add: k1_def k2_def unlock_if_def upd_file_def good_def files_ok_def split: ftype.split)
  have other: "cnt_ok (r(a := r a - 1)) k2 b" if "b \<noteq> a" for b
    using goodD(1) [OF assms(1), of b] that by (simp add: k2_def cnt_ok_def upd_file_fields k1(1) split: option.splits)
  have k2a: "k_files k2 a = Some (fp\<lparr>f_count := n\<rparr>)" by (simp add: k2_def upd_file_fields k1(1) fp(1))
  show ?thesis
  proof (cases "r a = 1")
    case False
    then have "closef ops a p k = Some (None, k2)" using assms(2) fp(1) sn by (simp add: closef_def Let_def k1_def k2_def n_def)
    moreover have "good (r(a := r a - 1)) k2"
    proof (rule goodI)
      show "cnt_ok (r(a := r a - 1)) k2 b" for b
        using other k2a False assms(2) by (cases "b = a") (simp_all add: cnt_ok_def n_def split: option.splits)
    qed (simp add: k2_def k1(2))
    ultimately show ?thesis using k1(3) by blast
  next
    case True
    define k3 where "k3 = k_log (FO_CLOSE a) (unlock_if (f_flag fp AND FHASLOCK \<noteq> 0) (File a) (False, True, False) fp k2)"
    have "closef ops a p k = map_option (Pair (fo_close ops a)) (ffree a k3)"
      using True fp(1) sn by (simp add: closef_def Let_def k1_def k2_def k3_def n_def)
    moreover have "\<forall>b. b \<noteq> a \<longrightarrow> cnt_ok (r(a := r a - 1)) k3 b" using other by (simp add: k3_def cnt_ok_def unlock_if_fields split: option.splits)
    moreover have "files_ok k3" "k_files k3 a = Some (fp\<lparr>f_count := n\<rparr>)" "maxfdescs k3 = maxfdescs k"
      using k1 k2a by (auto simp: k3_def k2_def unlock_if_fields files_ok_def upd_file_fields unlock_if_def split: ftype.split)
    ultimately show ?thesis using ffree_good [of a "r(a := r a - 1)" k3] True by (auto simp: fun_upd_idem)
  qed
qed

section \<open>One process\<close>

text \<open>\<open>other\<close> counts the references from elsewhere.\<close>

definition pinv :: "(nat \<Rightarrow> nat) \<Rightarrow> dproc \<Rightarrow> fkern \<Rightarrow> bool" where
  "pinv other p k \<longleftrightarrow> good (\<lambda>a. other a + uses (p_fd p) a) k \<and> fd_ok (p_fd p) \<and> table_size (fd_nfiles (p_fd p))"

definition few :: "(nat \<Rightarrow> nat) \<Rightarrow> dproc \<Rightarrow> bool" where
  "few other p \<longleftrightarrow> (\<forall>a. other a + uses (p_fd p) a < 32767)"

lemma pinv_log [simp]: "pinv other p (k_log c k) = pinv other p k"
  by (simp add: pinv_def)

lemma pinv_upd: "pinv other p k \<Longrightarrow> (\<And>fp. f_count (f fp) = f_count fp) \<Longrightarrow> pinv other p (upd_file a f k)"
  by (simp add: pinv_def good_upd)

lemma pinv_file:
  assumes "pinv other p k" "fd_file (p_fd p) i = Some a"
  shows "k_files k a \<noteq> None"
  using cnt_ok_file [of _ k a] uses_pos [OF assms(2)] assms(1) by (fastforce simp: pinv_def good_def)

lemma pinv_fd: "pinv other p k \<Longrightarrow> fd_ok fdp \<Longrightarrow> fd_same (p_fd p) fdp \<Longrightarrow> pinv other (p\<lparr>p_fd := fdp\<rparr>) k"
  by (simp add: pinv_def fd_same_def)

lemma on_fd_p_fd [simp]: "p_fd (on_fd f p) = f (p_fd p)"
  by (simp add: on_fd_def)

lemma clear_fd_ofiles [simp]: "fd_ofiles (p_fd (clear_fd i p)) = (fd_ofiles (p_fd p))[i := None]"
  by (simp add: clear_fd_def)

lemma uses_clear:
  assumes "fd_file (p_fd p) i = Some b"
  shows "uses (p_fd (clear_fd i p)) = (uses (p_fd p))(b := uses (p_fd p) b - 1)"
proof
  fix a
  have "i < fd_nfiles (p_fd p)" "fd_ofiles (p_fd p) ! i = Some b" using assms by (auto simp: fd_file_def split: if_splits)
  then show "uses (p_fd (clear_fd i p)) a = ((uses (p_fd p))(b := uses (p_fd p) b - 1)) a"
    using count_list_update [of i "fd_ofiles (p_fd p)" None "Some a"] by (simp split: if_splits)
qed

lemma uses_clear_free: "fd_file (p_fd p) i = None \<Longrightarrow> uses (p_fd (clear_fd i p)) = uses (p_fd p)"
  by (auto simp: fd_file_def list_update_beyond split: if_splits) (metis list_update_id)

lemma fd_file_clear: "fd_file (p_fd (clear_fd i p)) = (fd_file (p_fd p))(i := None)"
  by (auto simp: fd_file_def fun_eq_iff)

lemma munmap_same: "fd_ofiles (p_fd (munmap_if_mapped i p)) = fd_ofiles (p_fd p)" "fd_file (p_fd (munmap_if_mapped i p)) = fd_file (p_fd p)"
  "fd_ok (p_fd (munmap_if_mapped i p)) = fd_ok (p_fd p)" "pinv other (munmap_if_mapped i p) k = pinv other p k"
  by (auto simp: munmap_if_mapped_def munmapfd_def fd_ok_def pinv_def fd_file_def fun_eq_iff)

text \<open>A descriptor, free or about to be overwritten, is made to refer to a file.\<close>

lemma dup_to_ok:
  assumes "fd_ok (p_fd p) \<and> table_size (fd_nfiles (p_fd p))" "good (\<lambda>x. other x + uses (p_fd (clear_fd new p)) x) k" "new < fd_nfiles (p_fd p)"
    and "0 < other a + uses (p_fd (clear_fd new p)) a" "other a + uses (p_fd (clear_fd new p)) a < 32767"
  shows "\<exists>p' k'. dup_to new a fl p k = Some (p', k') \<and> pinv other p' k' \<and> fd_file (p_fd p') = (fd_file (p_fd p))(new := Some a)"
proof -
  let ?r = "\<lambda>x. other x + uses (p_fd (clear_fd new p)) x"
  let ?f = "\<lambda>fdp. fdp\<lparr>fd_ofiles := (fd_ofiles fdp)[new := Some a], fd_ofileflags := (fd_ofileflags fdp)[new := fl], fd_lastfile := max new (fd_lastfile fdp)\<rparr>"
  let ?k = "upd_file a (\<lambda>fp. fp\<lparr>f_count := s16 (f_count fp + 1)\<rparr>) k"
  have a: "k_files k a \<noteq> None" using cnt_ok_file [OF goodD(1) [OF assms(2), of a] assms(4)] by auto
  then have "dup_to new a fl p k = Some (on_fd ?f p, ?k)" using assms(3) by (simp add: dup_to_def)
  moreover have "?r(a := ?r a + 1) = (\<lambda>x. other x + uses (p_fd (on_fd ?f p)) x)"
  proof
    fix x
    have "uses (p_fd (on_fd ?f p)) x = uses (p_fd (clear_fd new p)) x + (if a = x then 1 else 0)"
      using count_list_update [of new "(fd_ofiles (p_fd p))[new := None]" "Some a" "Some x"] assms(3) by simp
    then show "(?r(a := ?r a + 1)) x = other x + uses (p_fd (on_fd ?f p)) x" by simp
  qed
  then have "good (\<lambda>x. other x + uses (p_fd (on_fd ?f p)) x) ?k" using good_hold [OF assms(2) a assms(5)] by simp
  moreover have "fd_ok (?f (p_fd p))" using assms(1,3) by (auto simp: fd_ok_def nth_list_update)
  moreover have "fd_file (?f (p_fd p)) = (fd_file (p_fd p))(new := Some a)" using assms(3) by (auto simp: fd_file_def fun_eq_iff)
  ultimately show ?thesis using assms(1) by (simp add: pinv_def)
qed

lemma dup_into_ok:
  assumes "fd_ok (p_fd p) \<and> table_size (fd_nfiles (p_fd p))" "good (\<lambda>x. other x + uses (p_fd (clear_fd new p)) x) k" "new < fd_nfiles (p_fd p)" "fd_file (p_fd p) old = Some a" "old \<noteq> new" "few other p"
  shows "\<exists>p' k'. dup_into old new p k = Some (Inr (int new), p', k') \<and> pinv other p' k' \<and> fd_file (p_fd p') = (fd_file (p_fd p))(new := Some a)"
proof -
  have "fd_file (p_fd (clear_fd new p)) old = Some a" using assms(4,5) by (simp add: fd_file_clear)
  note pos = uses_pos [OF this]
  have "uses (p_fd (clear_fd new p)) a \<le> uses (p_fd p) a"
    using count_list_update [OF assms(3), of None "Some a"] by simp
  moreover have "other a + uses (p_fd p) a < 32767" using assms(6) by (simp add: few_def)
  ultimately have "other a + uses (p_fd (clear_fd new p)) a < 32767" by linarith
  with dup_to_ok [OF assms(1-3)] pos obtain p' k' where
    "dup_to new a (fd_ofileflags (p_fd p) ! old AND NOT UF_EXCLOSE) p k = Some (p', k')" "pinv other p' k'" "fd_file (p_fd p') = (fd_file (p_fd p))(new := Some a)"
    by (metis add_gr_0)
  then show ?thesis using assms(4) by (simp add: dup_into_def)
qed

end
