(* ===== verification/Descrip_sys.thy ===== *)
theory Descrip_sys
  imports Descrip_inv
begin

text \<open>
  The system calls on descriptors: what each does to the descriptors of its process, and that
  none of them fails or spoils a count, whatever references other processes hold.
\<close>

section \<open>Duplication\<close>

lemma few_fd: "few other p \<Longrightarrow> fd_same (p_fd p) fdp \<Longrightarrow> few other (p\<lparr>p_fd := fdp\<rparr>)"
  by (simp add: few_def fd_same_def)

lemma dup_free_ok:
  assumes "pinv other p k" "few other p" "fd_file (p_fd p) old = Some a" "fd_file (p_fd p) new = None" "new < fd_nfiles (p_fd p)"
  shows "\<exists>p' k'. dup_into old new p k = Some (Inr (int new), p', k') \<and> pinv other p' k' \<and> fd_file (p_fd p') = (fd_file (p_fd p))(new := Some a)"
proof (rule dup_into_ok)
  show "good (\<lambda>x. other x + uses (p_fd (clear_fd new p)) x) k" using assms(1) uses_clear_free [OF assms(4)] by (simp add: pinv_def fun_eq_iff)
  show "old \<noteq> new" using assms(3,4) by auto
qed (use assms in \<open>simp_all add: pinv_def\<close>)

lemma dup_from_result:
  assumes "pinv other p k" "few other p" "fd_file (p_fd p) old = Some a"
  shows "\<exists>res p' k'. dup_from old want p k = Some (res, p', k') \<and> pinv other p' k' \<and>
    (case res of
       Inl e \<Rightarrow> e = EMFILE \<and> fd_file (p_fd p') = fd_file (p_fd p) \<and> (\<forall>j. want \<le> j \<longrightarrow> j < p_rlim_ofile p \<longrightarrow> fd_file (p_fd p) j \<noteq> None)
     | Inr n \<Rightarrow> \<exists>i. n = int i \<and> want \<le> i \<and> i < p_rlim_ofile p \<and> fd_file (p_fd p) i = None \<and> (\<forall>j. want \<le> j \<longrightarrow> j < i \<longrightarrow> fd_file (p_fd p) j \<noteq> None) \<and>
         fd_file (p_fd p') = (fd_file (p_fd p))(i := Some a))"
proof -
  have ok: "fd_ok (p_fd p)" using assms(1) by (simp add: pinv_def)
  obtain r fdp where f: "fdalloc (p_rlim_ofile p) want (p_fd p) = (r, fdp)" by fastforce
  note fr = fdalloc_result [OF ok f]
  note pf = pinv_fd [OF assms(1)] few_fd [OF assms(2)]
  show ?thesis
  proof (cases r)
    case (Inl e)
    then show ?thesis using fr f pf by (auto simp: dup_from_def fd_same_def)
  next
    case (Inr i)
    have same: "fd_file fdp = fd_file (p_fd p)" using fr by (simp add: fd_same_def)
    have "\<exists>p' k'. dup_into old i (p\<lparr>p_fd := fdp\<rparr>) k = Some (Inr (int i), p', k') \<and> pinv other p' k' \<and> fd_file (p_fd p') = (fd_file fdp)(i := Some a)"
      using dup_free_ok [of other "p\<lparr>p_fd := fdp\<rparr>" k old a i] pf fr Inr assms(3) same by simp
    then show ?thesis using f Inr fr same by (auto simp: dup_from_def)
  qed
qed

lemma dup2_result:
  assumes "pinv other p k" "few other p"
  shows "\<exists>res p' k'. dup2 ops old new p k = Some (res, p', k') \<and> pinv other p' k' \<and>
    (if fd_file (p_fd p) old = None \<or> new \<ge> p_rlim_ofile p \<or> new \<ge> maxfdescs k then res = Inl EBADF \<and> p' = p \<and> k' = k
     else res = Inr (int new) \<and> fd_file (p_fd p') = (fd_file (p_fd p))(new := fd_file (p_fd p) old))"
proof (cases "fd_file (p_fd p) old = None \<or> new \<ge> p_rlim_ofile p \<or> new \<ge> maxfdescs k")
  case True
  then show ?thesis using assms(1) by (simp add: dup2_def)
next
  case F: False
  then obtain a where a: "fd_file (p_fd p) old = Some a" by (cases "fd_file (p_fd p) old") auto
  have ok: "fd_ok (p_fd p)" using assms(1) by (simp add: pinv_def)
  consider (same) "old = new" | (grow) "old \<noteq> new" "new \<ge> fd_nfiles (p_fd p)" | (free) "old \<noteq> new" "new < fd_nfiles (p_fd p)" "fd_file (p_fd p) new = None"
    | (used) b where "old \<noteq> new" "new < fd_nfiles (p_fd p)" "fd_file (p_fd p) new = Some b" by fastforce
  then show ?thesis
  proof cases
    case same
    then show ?thesis using F assms(1) by (auto simp: dup2_def fun_eq_iff)
  next
    case grow
    obtain r fdp where f: "fdalloc (p_rlim_ofile p) new (p_fd p) = (r, fdp)" by fastforce
    note fr = fdalloc_result [OF ok f]
    have none: "fd_file (p_fd p) new = None" using grow(2) by (simp add: fd_file_def)
    then have r: "r = Inr new" using fr F by (auto split: sum.splits simp: not_less)
    have "fd_file fdp = fd_file (p_fd p)" using fr by (simp add: fd_same_def)
    then have "\<exists>p' k'. dup_into old new (p\<lparr>p_fd := fdp\<rparr>) k = Some (Inr (int new), p', k') \<and> pinv other p' k' \<and> fd_file (p_fd p') = (fd_file (p_fd p))(new := Some a)"
      using dup_free_ok [of other "p\<lparr>p_fd := fdp\<rparr>" k old a new] pinv_fd [OF assms(1)] few_fd [OF assms(2)] fr r a none by simp
    then show ?thesis using F a grow f r by (simp add: dup2_def)
  next
    case free
    then show ?thesis using dup_free_ok [OF assms a free(3,2)] F a by (simp add: dup2_def)
  next
    case used
    let ?p = "munmap_if_mapped new p"
    let ?r = "\<lambda>x. other x + uses (p_fd p) x"
    have "0 < ?r b" "?r b \<le> 32767" using uses_pos [OF used(3)] assms(2) by (auto simp: few_def intro: less_imp_le)
    with closef_good [of ?r k b ops ?p] assms(1) obtain e k1 where k1: "closef ops b ?p k = Some (e, k1)" "good (?r(b := ?r b - 1)) k1" by (auto simp: pinv_def)
    have "?r(b := ?r b - 1) = (\<lambda>x. other x + uses (p_fd (clear_fd new ?p)) x)"
      using uses_clear [of ?p new b] used(3) uses_pos [OF used(3)] by (auto simp: munmap_same fun_eq_iff)
    then have "\<exists>p' k'. dup_into old new ?p k1 = Some (Inr (int new), p', k') \<and> pinv other p' k' \<and> fd_file (p_fd p') = (fd_file (p_fd p))(new := Some a)"
      using dup_into_ok [of ?p other new k1 old a] assms(1) k1(2) used(1,2) a assms(2) by (simp add: munmap_same few_def pinv_def)
    then show ?thesis using F a used k1(1) by (simp add: dup2_def Let_def)
  qed
qed

lemma dup_result:
  assumes "pinv other p k" "few other p"
  shows "\<exists>res p' k'. dup ops junk i p k = Some (res, p', k') \<and> pinv other p' k'"
proof (cases "i AND NOT 0x3f \<noteq> 0")
  case True
  then show ?thesis using dup2_result [OF assms, of ops "unat (i AND 0x3f)" "unat junk"] by (auto simp: dup_def)
next
  case False
  then show ?thesis using dup_from_result [OF assms, of "unat i" _ 0] assms(1) by (cases "fd_file (p_fd p) (unat i)") (auto simp: dup_def)
qed

section \<open>Closing\<close>

lemma lower_last_le: "lower_last n fs \<le> n"
  by (induction n) (simp_all add: le_SucI)

lemma lower_last_above: "lower_last n fs < j \<Longrightarrow> j \<le> n \<Longrightarrow> fs ! j = None"
  by (induction n) (auto simp: le_Suc_eq split: if_splits)

lemma close_result:
  assumes "pinv other p k" "few other p" "fd_file (p_fd p) fd = Some a"
  shows "\<exists>res p' k'. close ops fd p k = Some (res, p', k') \<and> pinv other p' k' \<and> fd_file (p_fd p') = (fd_file (p_fd p))(fd := None)"
proof -
  let ?p = "munmap_if_mapped fd p" and ?fs = "(fd_ofiles (p_fd p))[fd := None]"
  let ?r = "\<lambda>x. other x + uses (p_fd p) x"
  define p1 where "p1 = on_fd (\<lambda>fdp. fdp\<lparr>fd_ofiles := ?fs, fd_lastfile := lower_last (fd_lastfile fdp) ?fs, fd_freefile := min fd (fd_freefile fdp),
    fd_ofileflags := (fd_ofileflags fdp)[fd := 0]\<rparr>) ?p"
  have fd: "fd < fd_nfiles (p_fd p)" using assms(3) by (auto simp: fd_file_def split: if_splits)
  have ok: "fd_ok (p_fd ?p)" using assms(1) by (simp add: pinv_def munmap_same)
  have ok1: "fd_ok (p_fd p1)"
  proof -
    have "?fs ! j = None" if "lower_last (fd_lastfile (p_fd ?p)) ?fs < j" "j < fd_nfiles (p_fd p)" for j
    proof (cases "j \<le> fd_lastfile (p_fd ?p)")
      case True
      then show ?thesis using that(1) by (rule lower_last_above [rotated])
    next
      case False
      then show ?thesis using ok that(2) by (cases "j = fd") (simp_all add: fd_ok_def munmap_same)
    qed
    then show ?thesis using ok lower_last_le [of "fd_lastfile (p_fd ?p)" ?fs]
      by (auto simp: p1_def fd_ok_def munmap_same intro: le_less_trans)
  qed
  have "0 < ?r a" "?r a \<le> 32767" using uses_pos [OF assms(3)] assms(2) by (auto simp: few_def intro: less_imp_le)
  with closef_good [of ?r k a ops p1] assms(1) obtain e k1 where k1: "closef ops a p1 k = Some (e, k1)" "good (?r(a := ?r a - 1)) k1" by (auto simp: pinv_def)
  have "?r(a := ?r a - 1) = (\<lambda>x. other x + uses (p_fd p1) x)"
    using uses_clear [OF assms(3)] uses_pos [OF assms(3)] by (auto simp: p1_def fun_eq_iff)
  moreover have "fd_file (p_fd p1) = (fd_file (p_fd p))(fd := None)" by (auto simp: p1_def fd_file_def fun_eq_iff)
  moreover have "close ops fd p k = map_option (\<lambda>(e, k). (case e of None \<Rightarrow> Inr 0 | Some e \<Rightarrow> Inl e, p1, k)) (closef ops a p1 k)"
    using assms(3) by (simp add: close_def Let_def p1_def munmap_same on_fd_def)
  moreover have "table_size (fd_nfiles (p_fd p1))" using assms(1) by (simp add: p1_def pinv_def)
  ultimately show ?thesis using k1 ok1 by (simp add: pinv_def)
qed

section \<open>Control\<close>

text \<open>Calls that only change flags or leave the kernel's tables alone.\<close>

lemma setfl_pinv: "pinv other p k \<Longrightarrow> pinv other p (snd (setfl ops a arg fp k))"
  by (simp add: setfl_def file_ioctl_def Let_def split_beta pinv_upd)

lemma getown_pinv: "pinv other p k \<Longrightarrow> pinv other p (snd (getown ops a fp k))"
  by (simp add: getown_def file_ioctl_def Let_def split_beta split: ftype.split)

lemma setown_pinv: "pinv other p k \<Longrightarrow> pinv other p (snd (setown ops a arg fp k))"
  by (simp add: setown_def file_ioctl_def Let_def split_beta pinv_def good_def cnt_ok_def files_ok_def split: ftype.split option.split)

lemma getlk_pinv: "pinv other p k \<Longrightarrow> pinv other p (snd (getlk ops ul fp p k))"
  by (simp add: getlk_def VOP_ADVLOCK_def Let_def split_beta split: ftype.split sum.split)

lemma setlk_pinv: "pinv other p k \<Longrightarrow> setlk ops w ul fp p k = (res, p', k') \<Longrightarrow> pinv other p' k'"
  by (auto simp: setlk_def VOP_ADVLOCK_def Let_def pinv_def split: ftype.splits ulock.splits if_splits prod.splits)

lemma keep_pinv:
  assumes "pinv other p (snd x)"
  shows "\<exists>res p' k'. (\<lambda>(r, k). Some (r, p, k)) x = Some (res, p', k') \<and> pinv other p' k'"
  using assms by (cases x) simp

lemma fcntl_result:
  assumes "pinv other p k" "few other p"
  shows "\<exists>res p' k'. fcntl ops fd cmd p k = Some (res, p', k') \<and> pinv other p' k'"
proof (cases "fd_file (p_fd p) fd")
  case None
  then show ?thesis using assms(1) by (simp add: fcntl_def)
next
  case (Some a)
  then obtain fp where fp: "k_files k a = Some fp" using pinv_file [OF assms(1)] by blast
  note eq = fcntl_def [of ops fd cmd p k, unfolded Some fp option.case Let_def]
  show ?thesis
  proof (cases cmd)
    case (F_DUPFD arg)
    then show ?thesis using eq dup_from_result [OF assms Some, of "unat arg"] assms(1) by auto
  next
    case (F_SETFD arg)
    then show ?thesis using eq assms(1) by (simp add: pinv_def fd_ok_def)
  next
    case (F_SETLK w ul)
    then show ?thesis using eq setlk_pinv [OF assms(1)] by (cases "setlk ops w ul fp p k") simp
  qed (use eq assms(1) keep_pinv setfl_pinv getown_pinv setown_pinv getlk_pinv in \<open>simp_all add: keep_pinv\<close>)
qed

lemma flock_call_result:
  assumes "pinv other p k"
  shows "\<exists>res p' k'. flock_call ops fd how p k = Some (res, p', k') \<and> pinv other p' k'"
proof (cases "fd_file (p_fd p) fd")
  case None
  then show ?thesis using assms(1) by (simp add: flock_call_def)
next
  case (Some a)
  then obtain fp where fp: "k_files k a = Some fp" using pinv_file [OF assms(1)] by blast
  then show ?thesis using assms Some by (simp add: flock_call_def VOP_ADVLOCK_def Let_def pinv_upd split_beta split: ftype.split)
qed

section \<open>New files\<close>

lemma insert_after_set:
  assumes "distinct fs" "a \<notin> set fs" "\<And>b. fq = Some b \<Longrightarrow> b \<in> set fs"
  shows "distinct (insert_after fq a fs) \<and> set (insert_after fq a fs) = insert a (set fs) \<and> length (insert_after fq a fs) = Suc (length fs)"
proof (cases fq)
  case None
  then show ?thesis using assms by (simp add: insert_after_def)
next
  case (Some b)
  then obtain xs ys where "fs = xs @ b # ys" "b \<notin> set xs" using assms(3) by (metis split_list_first)
  moreover from this have "takeWhile (\<lambda>x. x \<noteq> b) fs = xs" "dropWhile (\<lambda>x. x \<noteq> b) fs = b # ys"
    by (auto simp: takeWhile_tail dropWhile_append3 takeWhile_eq_all_conv)
  ultimately show ?thesis using assms(1,2) Some by (auto simp: insert_after_def)
qed

lemma falloc_result:
  assumes "pinv other p k" "falloc mem p k = (res, p', k')"
  shows "pinv other p' k' \<and> (case res of
      Inl e \<Rightarrow> fd_file (p_fd p') = fd_file (p_fd p) \<and> k' = k
    | Inr (i, a) \<Rightarrow> i < p_rlim_ofile p \<and> fd_file (p_fd p) i = None \<and> (\<forall>j < i. fd_file (p_fd p) j \<noteq> None) \<and> fd_file (p_fd p') = (fd_file (p_fd p))(i := Some a) \<and>
        fd_freefile (p_fd p') \<le> i \<and> a = k_next k \<and> other a = 0 \<and> uses (p_fd p') a = 1 \<and> (\<forall>x. x \<noteq> a \<longrightarrow> uses (p_fd p') x = uses (p_fd p) x))"
proof -
  have ok: "fd_ok (p_fd p)" using assms(1) by (simp add: pinv_def)
  obtain r fdp where f: "fdalloc (p_rlim_ofile p) 0 (p_fd p) = (r, fdp)" by fastforce
  note fr = fdalloc_result [OF ok f]
  note pf = pinv_fd [OF assms(1)]
  consider (full) e where "r = Inl e" | (table) i where "r = Inr i" "nfiles k \<ge> maxfiles k" | (new) i where "r = Inr i" "\<not> nfiles k \<ge> maxfiles k" by (cases r) auto
  then show ?thesis
  proof cases
    case full
    then show ?thesis using assms(2) f fr pf by (auto simp: falloc_def fd_same_def)
  next
    case table
    then show ?thesis using assms(2) f fr pf by (auto simp: falloc_def fd_same_def)
  next
    case new
    let ?a = "k_next k" and ?c = "pc_ucred (p_cred p)"
    let ?fd = "fdp\<lparr>fd_ofiles := (fd_ofiles fdp)[i := Some (k_next k)]\<rparr>"
    let ?r = "\<lambda>x. other x + uses (p_fd p) x"
    have p': "res = Inr (i, ?a)" "p' = p\<lparr>p_fd := ?fd\<rparr>" "k' = k\<lparr>nfiles := nfiles k + 1, k_next := ?a + 1, filehead := insert_after (fd_file fdp 0) ?a (filehead k),
        k_files := (k_files k)(?a \<mapsto> mem\<lparr>f_count := 1, f_msgcount := 0, f_offset := 0, f_cred := ?c\<rparr>), k_creds := crhold ?c (k_creds k)\<rparr>"
      using assms(2) f new by (simp_all add: falloc_def Let_def)
    have good: "good ?r k" using assms(1) by (simp add: pinv_def)
    have fresh: "k_files k ?a = None" using goodD(2) [OF good] by (fastforce simp: files_ok_def)
    then have zero: "other ?a = 0" "uses (p_fd p) ?a = 0" using goodD(1) [OF good, of ?a] by (simp_all add: cnt_ok_def)
    have i: "i < fd_nfiles fdp" "fd_ofiles fdp ! i = None" "fd_file fdp = fd_file (p_fd p)" "\<And>x. uses fdp x = uses (p_fd p) x"
      using fr new(1) by (auto simp: fd_same_def fd_file_def dest: fun_cong [of _ _ i])
    have uses': "uses ?fd x = uses (p_fd p) x + (if x = ?a then 1 else 0)" for x
      using count_list_update [OF i(1), of "Some ?a" "Some x"] i(2,4) by auto
    have "b \<in> set (filehead k)" if "fd_file fdp 0 = Some b" for b
      using pinv_file [OF assms(1), of 0 b] that i(3) goodD(2) [OF good] by (auto simp: files_ok_def)
    moreover have l: "distinct (filehead k)" "set (filehead k) = dom (k_files k)" "nfiles k = length (filehead k)" "\<forall>a \<in> dom (k_files k). a < ?a"
      using goodD(2) [OF good] by (simp_all add: files_ok_def)
    ultimately have "distinct (insert_after (fd_file fdp 0) ?a (filehead k)) \<and> set (insert_after (fd_file fdp 0) ?a (filehead k)) = insert ?a (set (filehead k)) \<and>
        length (insert_after (fd_file fdp 0) ?a (filehead k)) = Suc (length (filehead k))"
      using fresh by (intro insert_after_set) auto
    then have "files_ok k'" using l by (auto simp: files_ok_def p'(3) less_Suc_eq)
    moreover have "cnt_ok (\<lambda>x. other x + uses (p_fd p') x) k' b" for b
      using goodD(1) [OF good, of b] zero uses' by (cases "b = ?a") (simp_all add: cnt_ok_def p' split: option.splits)
    moreover have "fd_ok ?fd" using fr new(1) i by (auto simp: fd_ok_def nth_list_update)
    moreover have "fd_file ?fd = (fd_file (p_fd p))(i := Some ?a)" using i(1,3) by (auto simp: fd_file_def fun_eq_iff dest: fun_cong split: if_splits)
    moreover have "table_size (fd_nfiles fdp)" using fr assms(1) by (simp add: pinv_def fd_same_def)
    ultimately show ?thesis using fr new(1) zero uses' by (simp add: pinv_def good_def p')
  qed
qed

lemma fd_ok_clear: "fd_ok (p_fd p) \<Longrightarrow> fd_freefile (p_fd p) \<le> i \<Longrightarrow> fd_ok (p_fd (clear_fd i p))"
  by (auto simp: fd_ok_def clear_fd_def) (metis nth_list_update_eq nth_list_update_neq)

text \<open>The only reference to a new file is given up.\<close>

lemma drop_new_file:
  assumes "pinv other p k" "fd_file (p_fd p) i = Some a" "fd_freefile (p_fd p) \<le> i" "other a = 0" "uses (p_fd p) a = 1"
  shows "\<exists>k'. ffree a k = Some k' \<and> good (\<lambda>x. other x + uses (p_fd (clear_fd i p)) x) k' \<and> pinv other (clear_fd i p) k'"
proof -
  let ?r = "\<lambda>x. other x + uses (p_fd p) x"
  have good: "good ?r k" using assms(1) by (simp add: pinv_def)
  obtain fp where "k_files k a = Some fp" using pinv_file [OF assms(1,2)] by blast
  with ffree_good [of a ?r k] goodD [OF good] obtain k' where k': "ffree a k = Some k'" "good (?r(a := 0)) k'" by blast
  have "?r(a := 0) = (\<lambda>x. other x + uses (p_fd (clear_fd i p)) x)" using uses_clear [OF assms(2)] assms(4,5) by (auto simp: fun_eq_iff)
  then show ?thesis using k' fd_ok_clear [OF _ assms(3)] assms(1) by (simp add: pinv_def)
qed

lemma dupfdopen_result:
  assumes "fd_ok (p_fd p)" "good (\<lambda>x. other x + uses (p_fd (clear_fd i p)) x) k" "pinv other (clear_fd i p) k" "i < fd_nfiles (p_fd p)" "few other p"
  shows "\<exists>e p' k'. dupfdopen i dfd mode p k = Some (e, p', k') \<and> (case e of None \<Rightarrow> pinv other p' k' | Some _ \<Rightarrow> pinv other (clear_fd i p') k')"
proof -
  let ?d = "unat (word_of_int dfd :: u32)"
  show ?thesis
  proof (cases "fd_file (p_fd p) ?d = None \<or> fd_file (p_fd p) i = fd_file (p_fd p) ?d")
    case True
    then have "dupfdopen i dfd mode p k = Some (Some EBADF, p, k)"
      by (cases "fd_file (p_fd p) ?d") (auto simp: dupfdopen_def Let_def)
    then show ?thesis using assms(3) by simp
  next
    case False
    then obtain w where w: "fd_file (p_fd p) ?d = Some w" "fd_file (p_fd p) i \<noteq> Some w" by (cases "fd_file (p_fd p) ?d") auto
    then have "i \<noteq> ?d" by auto
    then have cw: "fd_file (p_fd (clear_fd i p)) ?d = Some w" using w(1) by (simp add: fd_file_clear)
    obtain fw where fw: "k_files k w = Some fw" using pinv_file [OF assms(3) cw] by blast
    show ?thesis
    proof (cases "(ucast mode AND (FREAD OR FWRITE)) OR f_flag fw \<noteq> f_flag fw")
      case True
      then have "dupfdopen i dfd mode p k = Some (Some EACCES, p, k)" using w fw by (simp add: dupfdopen_def Let_def)
      then show ?thesis using assms(3) by simp
    next
      case False
      have "uses (p_fd (clear_fd i p)) w \<le> uses (p_fd p) w" using count_list_update [OF assms(4), of None "Some w"] by simp
      moreover have "other w + uses (p_fd p) w < 32767" using assms(5) by (simp add: few_def)
      ultimately have "other w + uses (p_fd (clear_fd i p)) w < 32767" by linarith
      with dup_to_ok [OF _ assms(2,4), of w "fd_ofileflags (p_fd p) ! ?d"] uses_pos [OF cw] assms(1,3) obtain p' k' where
        "dup_to i w (fd_ofileflags (p_fd p) ! ?d) p k = Some (p', k')" "pinv other p' k'" by (auto simp: pinv_def)
      then show ?thesis using False w fw by (simp add: dupfdopen_def Let_def)
    qed
  qed
qed

lemma open_failed_result:
  assumes "pinv other p k" "fd_file (p_fd p) i = Some a" "fd_freefile (p_fd p) \<le> i" "other a = 0" "uses (p_fd p) a = 1" "few other p"
  shows "\<exists>res p' k'. open_failed i a e fmode p k = Some (res, p', k') \<and> pinv other p' k'"
proof -
  from drop_new_file [OF assms(1-5)] obtain k1 where
    k1: "ffree a k = Some k1" "good (\<lambda>x. other x + uses (p_fd (clear_fd i p)) x) k1" "pinv other (clear_fd i p) k1" by blast
  have "fd_ok (p_fd p)" "i < fd_nfiles (p_fd p)" using assms(1,2) by (auto simp: pinv_def fd_file_def split: if_splits)
  from dupfdopen_result [OF this(1) k1(2,3) this(2) assms(6), of "p_dupfd p" fmode] show ?thesis
    using k1 by (auto simp: open_failed_def split: option.splits)
qed

lemma open_done_result:
  assumes "pinv other p k" "fd_file (p_fd p) i = Some a" "fd_freefile (p_fd p) \<le> i" "other a = 0" "uses (p_fd p) a = 1"
  shows "\<exists>res p' k'. open_done ops i a vp fmode p k = Some (res, p', k') \<and> pinv other p' k'"
proof -
  define t where "t = whole_file (if fmode AND O_EXLOCK \<noteq> 0 then F_WRLCK else F_RDLCK)"
  let ?g = "(False, True, fmode AND 4 = 0)"
  define k1 where "k1 = upd_file a (\<lambda>fp. fp\<lparr>f_flag := ucast fmode AND FMASK\<rparr>) k"
  have k1: "pinv other p k1" by (simp add: k1_def pinv_upd assms(1))
  define k2 where "k2 = k_log (ADVLOCK vp (File a) OpSetlk t ?g) k1"
  have k2: "pinv other p k2" by (simp add: k2_def k1)
  define k3 where "k3 = k_log (VN_CLOSE vp) (k_log (VOP_UNLOCK vp) k2)"
  have "pinv other p k3" by (simp add: k3_def k2)
  from drop_new_file [OF this assms(2-5)] obtain k4 where k4: "ffree a k3 = Some k4" "pinv other (clear_fd i p) k4" by blast
  have "open_done ops i a vp fmode p k =
    (if fmode AND (O_EXLOCK OR O_SHLOCK) = 0 then Some (Inr (int i), p, upd_file a (\<lambda>fp. fp\<lparr>f_type := DTYPE_VNODE vp\<rparr>) (k_log (VOP_UNLOCK vp) k1))
     else case fst (vop_advlock ops vp (File a) OpSetlk t ?g) of
       None \<Rightarrow> Some (Inr (int i), p, upd_file a (\<lambda>fp. fp\<lparr>f_type := DTYPE_VNODE vp\<rparr>) (k_log (VOP_UNLOCK vp) (upd_file a (\<lambda>fp. fp\<lparr>f_flag := f_flag fp OR FHASLOCK\<rparr>) k2)))
     | Some e \<Rightarrow> Some (Inl e, clear_fd i p, k4))"
    using k4(1) unfolding open_done_def k1_def k2_def k3_def t_def [symmetric] by (simp add: VOP_ADVLOCK_def Let_def split_beta split: option.split)
  then show ?thesis using k1 k2 k4(2) by (simp add: pinv_upd split: option.split)
qed

text \<open>A descriptor just allocated.\<close>

lemma falloc_new:
  assumes "pinv other p k" "few other p" "falloc mem p k = (Inr (i, a), p', k')"
  shows "pinv other p' k'" "fd_file (p_fd p') i = Some a" "fd_freefile (p_fd p') \<le> i" "other a = 0" "uses (p_fd p') a = 1" "few other p'"
proof -
  from falloc_result [OF assms(1,3)] have f: "pinv other p' k'" "fd_file (p_fd p') i = Some a" "fd_freefile (p_fd p') \<le> i" "other a = 0" "uses (p_fd p') a = 1"
    "\<And>x. x \<noteq> a \<Longrightarrow> uses (p_fd p') x = uses (p_fd p) x" by auto
  then show "pinv other p' k'" "fd_file (p_fd p') i = Some a" "fd_freefile (p_fd p') \<le> i" "other a = 0" "uses (p_fd p') a = 1" by blast+
  have "other x + uses (p_fd p') x < 32767" for x using f(4-6) assms(2) by (cases "x = a") (simp_all add: few_def)
  then show "few other p'" by (simp add: few_def)
qed

lemma pinv_dupfd [simp]: "pinv other (p\<lparr>p_dupfd := d\<rparr>) k = pinv other p k" "few other (p\<lparr>p_dupfd := d\<rparr>) = few other p"
  by (simp_all add: pinv_def few_def)

lemma open_file_result:
  assumes "pinv other p k" "few other p"
  shows "\<exists>res p' k'. open_file ops mem vn mode p k = Some (res, p', k') \<and> pinv other p' k'"
proof -
  obtain r p1 k1 where f: "falloc mem p k = (r, p1, k1)" by (metis prod_cases3)
  show ?thesis
  proof (cases r)
    case (Inl e)
    then show ?thesis using f falloc_result [OF assms(1) f] by (auto simp: open_file_def)
  next
    case (Inr x)
    then obtain i a where r: "r = Inr (i, a)" by (cases x) auto
    note n = falloc_new [OF assms f [unfolded r]]
    have "\<exists>res p' k'. open_failed i a e fmode (p1\<lparr>p_dupfd := d\<rparr>) k1 = Some (res, p', k') \<and> pinv other p' k'"
      "\<exists>res p' k'. open_done ops i a vp fmode (p1\<lparr>p_dupfd := d\<rparr>) k1 = Some (res, p', k') \<and> pinv other p' k'" for e fmode d vp
      using open_failed_result [of other "p1\<lparr>p_dupfd := d\<rparr>" k1 i a] open_done_result [of other "p1\<lparr>p_dupfd := d\<rparr>" k1 i a] n by simp_all
    then show ?thesis using f r by (auto simp: open_file_def Let_def fdopen_def split: vn_open.split)
  qed
qed

lemma socket_result:
  assumes "pinv other p k" "few other p"
  shows "\<exists>res p' k'. socket mem so p k = Some (res, p', k') \<and> pinv other p' k'"
proof -
  obtain r p1 k1 where f: "falloc mem p k = (r, p1, k1)" by (metis prod_cases3)
  show ?thesis
  proof (cases r)
    case (Inl e)
    then show ?thesis using f falloc_result [OF assms(1) f] by (auto simp: socket_def)
  next
    case (Inr x)
    then obtain i a where r: "r = Inr (i, a)" by (cases x) auto
    note n = falloc_new [OF assms f [unfolded r]]
    let ?k = "upd_file a (\<lambda>fp. fp\<lparr>f_flag := FREAD OR FWRITE\<rparr>) k1"
    have k: "pinv other p1 ?k" by (simp add: pinv_upd n(1))
    from drop_new_file [OF this n(2-5)] obtain k2 where "ffree a ?k = Some k2" "pinv other (clear_fd i p1) k2" by blast
    then show ?thesis using f r k by (auto simp: socket_def Let_def pinv_upd split: sum.split)
  qed
qed

section \<open>Any call\<close>

datatype fd_call = C_dup u32 u32 | C_dup2 nat nat | C_close nat | C_fcntl nat fcmd | C_flock nat u32 | C_open kfile vn_open u32 | C_socket kfile "errno + nat"

fun fd_syscall :: "fops \<Rightarrow> fd_call \<Rightarrow> dproc \<Rightarrow> fkern \<Rightarrow> sysret option" where
  "fd_syscall ops (C_dup junk i) = dup ops junk i"
| "fd_syscall ops (C_dup2 old new) = dup2 ops old new"
| "fd_syscall ops (C_close fd) = close ops fd"
| "fd_syscall ops (C_fcntl fd cmd) = fcntl ops fd cmd"
| "fd_syscall ops (C_flock fd how) = flock_call ops fd how"
| "fd_syscall ops (C_open mem vn mode) = open_file ops mem vn mode"
| "fd_syscall ops (C_socket mem so) = socket mem so"

lemma fd_syscall_result:
  assumes "pinv other p k" "few other p"
  shows "\<exists>res p' k'. fd_syscall ops c p k = Some (res, p', k') \<and> pinv other p' k'"
proof (cases c)
  case (C_dup2 old new)
  then show ?thesis using dup2_result [OF assms, of ops old new] by auto
next
  case (C_close fd)
  then show ?thesis using close_result [OF assms, of fd _ ops] assms(1) by (cases "fd_file (p_fd p) fd") (auto simp: close_def)
qed (use dup_result fcntl_result flock_call_result open_file_result socket_result assms in auto)

end
