(* ===== verification/Descrip_fork.thy ===== *)
theory Descrip_fork
  imports Descrip_sys
begin

text \<open>
  Fork, exec and exit, and the whole system: any number of processes that share file structures.
\<close>

section \<open>Exec\<close>

definition cloexec :: "filedesc \<Rightarrow> nat \<Rightarrow> bool" where
  "cloexec fdp i \<longleftrightarrow> fd_file fdp i \<noteq> None \<and> fd_ofileflags fdp ! i AND UF_EXCLOSE \<noteq> 0"

lemma munmap_flags: "j \<noteq> i \<Longrightarrow> fd_ofileflags (p_fd (munmap_if_mapped i p)) ! j = fd_ofileflags (p_fd p) ! j"
  "length (fd_ofileflags (p_fd (munmap_if_mapped i p))) = length (fd_ofileflags (p_fd p))" "fd_lastfile (p_fd (munmap_if_mapped i p)) = fd_lastfile (p_fd p)"
  by (auto simp: munmap_if_mapped_def munmapfd_def)

lemma few_uses: "few other p \<Longrightarrow> (\<And>a. uses (p_fd p') a \<le> uses (p_fd p) a) \<Longrightarrow> few other p'"
  unfolding few_def by (meson add_left_mono le_less_trans)

text \<open>One descriptor of the loop of \<^verbatim>\<open>fdcloseexec\<close> is closed.\<close>

lemma closeexec_one:
  assumes "pinv other p k" "few other p" "fd_file (p_fd p) i = Some a"
  defines "p1 \<equiv> on_fd (\<lambda>fdp. fdp\<lparr>fd_ofiles := (fd_ofiles fdp)[i := None], fd_ofileflags := (fd_ofileflags fdp)[i := 0], fd_freefile := min i (fd_freefile fdp)\<rparr>) (munmap_if_mapped i p)"
  shows "\<exists>e k'. closef ops a (munmap_if_mapped i p) k = Some (e, k') \<and> pinv other p1 k'" "few other p1" "fd_file (p_fd p1) = (fd_file (p_fd p))(i := None)"
    "fd_nfiles (p_fd p1) = fd_nfiles (p_fd p)" "fd_lastfile (p_fd p1) = fd_lastfile (p_fd p)" "\<And>j. j \<noteq> i \<Longrightarrow> fd_ofileflags (p_fd p1) ! j = fd_ofileflags (p_fd p) ! j"
proof -
  let ?r = "\<lambda>x. other x + uses (p_fd p) x"
  have "0 < ?r a" "?r a \<le> 32767" using uses_pos [OF assms(3)] assms(2) by (auto simp: few_def intro: less_imp_le)
  with closef_good [of ?r k a ops "munmap_if_mapped i p"] assms(1) obtain e k1 where
    k1: "closef ops a (munmap_if_mapped i p) k = Some (e, k1)" "good (?r(a := ?r a - 1)) k1" by (auto simp: pinv_def)
  have u: "uses (p_fd p1) x = (if x = a then uses (p_fd p) a - 1 else uses (p_fd p) x)" for x
    using uses_clear [OF assms(3), THEN fun_cong, of x] by (simp add: p1_def munmap_same)
  then have "?r(a := ?r a - 1) = (\<lambda>x. other x + uses (p_fd p1) x)" using uses_pos [OF assms(3)] by (auto simp: fun_eq_iff)
  moreover have "fd_ok (p_fd p1)"
  proof -
    have "fd_ok (p_fd (munmap_if_mapped i p))" using assms(1) by (simp add: pinv_def munmap_same)
    moreover have "(fd_ofiles (p_fd p))[i := None] ! j = None" if "fd_ofiles (p_fd p) ! j = None" "j < fd_nfiles (p_fd p)" for j
      using that by (cases "j = i") simp_all
    ultimately show ?thesis by (auto simp: p1_def fd_ok_def munmap_same)
  qed
  moreover have "table_size (fd_nfiles (p_fd p1))" using assms(1) by (simp add: p1_def pinv_def munmap_same)
  ultimately show "\<exists>e k'. closef ops a (munmap_if_mapped i p) k = Some (e, k') \<and> pinv other p1 k'" using k1 by (simp add: pinv_def)
  show "few other p1" using few_uses [OF assms(2), of p1] u by simp
  show "fd_file (p_fd p1) = (fd_file (p_fd p))(i := None)" by (auto simp: p1_def fd_file_def fun_eq_iff munmap_same)
  show "fd_nfiles (p_fd p1) = fd_nfiles (p_fd p)" "fd_lastfile (p_fd p1) = fd_lastfile (p_fd p)" "\<And>j. j \<noteq> i \<Longrightarrow> fd_ofileflags (p_fd p1) ! j = fd_ofileflags (p_fd p) ! j"
    by (simp_all add: p1_def munmap_same munmap_flags)
qed

lemma closeexec_loop_result:
  assumes "pinv other p k" "few other p" "\<forall>i \<in> set is. i < fd_nfiles (p_fd p)" "distinct is"
  shows "\<exists>p' k'. closeexec_loop ops is p k = Some (p', k') \<and> pinv other p' k' \<and> fd_lastfile (p_fd p') = fd_lastfile (p_fd p) \<and>
    fd_file (p_fd p') = (\<lambda>i. if i \<in> set is \<and> cloexec (p_fd p) i then None else fd_file (p_fd p) i)"
  using assms
proof (induction "is" arbitrary: p k)
  case (Cons i "is")
  show ?case
  proof (cases "cloexec (p_fd p) i")
    case False
    then have "closeexec_loop ops (i # is) p k = closeexec_loop ops is p k" using Cons.prems(3) by (auto simp: cloexec_def split: option.split)
    with Cons.IH [OF Cons.prems(1,2)] Cons.prems(3,4) False show ?thesis by (auto simp: fun_eq_iff cong: conj_cong)
  next
    case True
    then obtain a where a: "fd_file (p_fd p) i = Some a" "fd_ofileflags (p_fd p) ! i AND UF_EXCLOSE \<noteq> 0" by (auto simp: cloexec_def)
    define p1 where "p1 = on_fd (\<lambda>fdp. fdp\<lparr>fd_ofiles := (fd_ofiles fdp)[i := None], fd_ofileflags := (fd_ofileflags fdp)[i := 0],
      fd_freefile := min i (fd_freefile fdp)\<rparr>) (munmap_if_mapped i p)"
    note one = closeexec_one [OF Cons.prems(1,2) a(1), folded p1_def]
    from one(1) [of ops] obtain e k1 where k1: "closef ops a (munmap_if_mapped i p) k = Some (e, k1)" "pinv other p1 k1" by blast
    have "closeexec_loop ops (i # is) p k = closeexec_loop ops is p1 k1" using Cons.prems(3) a k1(1) by (simp add: Let_def p1_def)
    moreover have "cloexec (p_fd p1) j = cloexec (p_fd p) j" if "j \<noteq> i" for j using that one(3,6) by (simp add: cloexec_def)
    moreover have "i \<notin> set is" using Cons.prems(4) by simp
    ultimately show ?thesis using Cons.IH [OF k1(2) one(2)] Cons.prems(3,4) one(3,4,5) True by (auto simp: fun_eq_iff)
  qed
qed simp

lemma fdcloseexec_result:
  assumes "pinv other p k" "few other p"
  shows "\<exists>p' k'. fdcloseexec ops p k = Some (p', k') \<and> pinv other p' k' \<and>
    fd_file (p_fd p') = (\<lambda>i. if cloexec (p_fd p) i then None else fd_file (p_fd p) i)"
proof -
  have ok: "fd_ok (p_fd p)" using assms(1) by (simp add: pinv_def)
  let ?is = "[0..<Suc (fd_lastfile (p_fd p))]"
  have "\<forall>i \<in> set ?is. i < fd_nfiles (p_fd p)" using ok by (auto simp: fd_ok_def)
  from closeexec_loop_result [OF assms this, of ops] obtain p1 k1 where l: "closeexec_loop ops ?is p k = Some (p1, k1)" "pinv other p1 k1"
    "fd_lastfile (p_fd p1) = fd_lastfile (p_fd p)" "fd_file (p_fd p1) = (\<lambda>i. if i \<in> set ?is \<and> cloexec (p_fd p) i then None else fd_file (p_fd p) i)" by auto
  have "i \<in> set ?is" if "cloexec (p_fd p) i" for i
    using that ok by (cases "i \<le> fd_lastfile (p_fd p)") (auto simp: cloexec_def fd_file_def fd_ok_def split: if_splits)
  then have f: "fd_file (p_fd p1) = (\<lambda>i. if cloexec (p_fd p) i then None else fd_file (p_fd p) i)" using l(4) by (auto simp: fun_eq_iff)
  define p2 where "p2 = on_fd (\<lambda>fdp. fdp\<lparr>fd_lastfile := lower_last (fd_lastfile fdp) (fd_ofiles fdp)\<rparr>) p1"
  have "fd_ok (p_fd p2)"
  proof -
    have "fd_ofiles (p_fd p1) ! j = None" if "lower_last (fd_lastfile (p_fd p1)) (fd_ofiles (p_fd p1)) < j" "j < fd_nfiles (p_fd p1)" for j
      using that l(2) lower_last_above [OF that(1)] by (cases "j \<le> fd_lastfile (p_fd p1)") (simp_all add: pinv_def fd_ok_def)
    then show ?thesis using l(2) lower_last_le [of "fd_lastfile (p_fd p1)" "fd_ofiles (p_fd p1)"] by (auto simp: p2_def pinv_def fd_ok_def intro: le_less_trans)
  qed
  then have "pinv other p2 k1" using l(2) by (simp add: pinv_def p2_def)
  moreover have "fd_file (p_fd p2) = fd_file (p_fd p1)" by (simp add: p2_def fd_file_def fun_eq_iff)
  ultimately show ?thesis using l(1) f by (simp add: fdcloseexec_def p2_def del: upt_Suc)
qed

section \<open>Fork\<close>

lemma hold_files_good:
  assumes "good r k" "n \<le> length fs" "\<And>a. Some a \<in> set (take n fs) \<Longrightarrow> 0 < r a" "\<And>a. r a + count_list (take n fs) (Some a) \<le> 32767"
  shows "\<exists>k'. hold_files n fs k = Some k' \<and> good (\<lambda>a. r a + count_list (take n fs) (Some a)) k'"
  using assms
proof (induction n fs k arbitrary: r rule: hold_files.induct)
  case (4 n a fs k)
  have pos: "0 < r a" using 4(4) by simp
  have "r a < 32767" using 4(5) [of a] by simp
  moreover have ka: "k_files k a \<noteq> None" using cnt_ok_file [OF goodD(1) [OF 4(2)] pos] by auto
  ultimately have g: "good (r(a := r a + 1)) (upd_file a (\<lambda>fp. fp\<lparr>f_count := s16 (f_count fp + 1)\<rparr>) k)" using good_hold 4(2) by blast
  have "\<exists>k'. hold_files n fs (upd_file a (\<lambda>fp. fp\<lparr>f_count := s16 (f_count fp + 1)\<rparr>) k) = Some k' \<and>
      good (\<lambda>x. (r(a := r a + 1)) x + count_list (take n fs) (Some x)) k'"
  proof (rule 4(1) [OF ka g])
    show "n \<le> length fs" using 4(3) by simp
    show "0 < (r(a := r a + 1)) x" if "Some x \<in> set (take n fs)" for x using 4(4) [of x] that by simp
    show "(r(a := r a + 1)) x + count_list (take n fs) (Some x) \<le> 32767" for x using 4(5) [of x] by auto
  qed
  moreover have "(\<lambda>x. (r(a := r a + 1)) x + count_list (take n fs) (Some x)) = (\<lambda>x. r x + count_list (take (Suc n) (Some a # fs)) (Some x))"
    by (auto simp: fun_eq_iff)
  ultimately show ?case using ka by simp
qed simp_all

lemma hold_files_short: "length fs < n \<Longrightarrow> hold_files n fs k = None"
  by (induction n fs k rule: hold_files.induct) simp_all

lemma shrink_bounds: "shrink i l \<le> i \<and> (20 \<le> i \<longrightarrow> 20 \<le> shrink i l)"
proof (induction i l rule: shrink.induct)
  case (1 i l)
  show ?case
  proof (cases "2 * NDEXTENT < i \<and> l * 2 \<le> i")
    case True
    then show ?thesis using 1 by (subst (1 2) shrink.simps) auto
  next
    case False
    then show ?thesis by (subst (1 2) shrink.simps) auto
  qed
qed

lemma count_take:
  assumes "\<And>j. n \<le> j \<Longrightarrow> j < length xs \<Longrightarrow> xs ! j = None"
  shows "count_list (take n xs) (Some a) = count_list xs (Some a)"
proof -
  have "Some a \<notin> set (drop n xs)" using assms by (auto simp: in_set_conv_nth)
  then have "count_list (drop n xs) (Some a) = 0" by (simp add: count_list_0_iff)
  then show ?thesis by (metis add.right_neutral append_take_drop_id count_list_append)
qed

text \<open>The number of entries the copy of a table has.\<close>

definition copy_size :: "filedesc \<Rightarrow> nat" where
  "copy_size fdp = (if fd_lastfile fdp < NDFILE then NDFILE else shrink (fd_nfiles fdp) (fd_lastfile fdp))"

text \<open>A table that has grown is halved while it holds the descriptors in use twice over; it ends up too small exactly when the highest
  of them is the size of a smaller table.\<close>

lemma shrink_size: "\<exists>m. shrink (NDEXTENT * 2 ^ n) l = NDEXTENT * 2 ^ m"
proof (induction n)
  case 0
  show ?case by (rule exI [of _ 0]) (simp add: shrink.simps)
next
  case (Suc n)
  have "shrink (NDEXTENT * 2 ^ Suc n) l = (if 1 < (2 :: nat) ^ n \<and> l \<le> NDEXTENT * 2 ^ n then shrink (NDEXTENT * 2 ^ n) l else NDEXTENT * 2 ^ Suc n)"
    by (subst shrink.simps) auto
  then show ?case using Suc by (auto intro: exI [of _ "Suc n"])
qed

lemma shrink_too_small:
  assumes "l < NDEXTENT * 2 ^ n"
  shows "if \<exists>j. l = 100 * 2 ^ j then shrink (NDEXTENT * 2 ^ n) l = l else l < shrink (NDEXTENT * 2 ^ n) l"
  using assms
proof (induction n)
  case 0
  have "(1 :: nat) \<le> 2 ^ j" for j by simp
  then have "\<not> (\<exists>j. l = 100 * 2 ^ j)" using 0 by (auto simp: not_le [symmetric])
  then show ?case using 0 by (simp add: shrink.simps)
next
  case (Suc n)
  have eq: "shrink (NDEXTENT * 2 ^ Suc n) l = (if 1 < (2 :: nat) ^ n \<and> l \<le> NDEXTENT * 2 ^ n then shrink (NDEXTENT * 2 ^ n) l else NDEXTENT * 2 ^ Suc n)"
    by (subst shrink.simps) auto
  consider (less) "0 < n" "l < NDEXTENT * 2 ^ n" | (same) "0 < n" "l = NDEXTENT * 2 ^ n" | (stop) "n = 0 \<or> NDEXTENT * 2 ^ n < l" by fastforce
  then show ?case
  proof cases
    case less
    have "1 < (2 :: nat) ^ n" by (rule one_less_power) (simp_all add: less)
    then show ?thesis using less Suc.IH eq by simp
  next
    case same
    then obtain m where "n = Suc m" by (cases n) auto
    moreover have "shrink (NDEXTENT * 2 ^ n) l = l" using same by (simp add: shrink.simps)
    moreover have "1 < (2 :: nat) ^ n" by (rule one_less_power) (simp_all add: same)
    ultimately show ?thesis using same(2) eq by auto
  next
    case stop
    have no: "l \<noteq> 100 * 2 ^ j" for j
    proof
      assume l: "l = 100 * 2 ^ j"
      then have "(2 :: nat) ^ j < 2 ^ n" using Suc.prems by simp
      then have "j < n" by simp
      then show False using l stop power_increasing [of "Suc j" n "2 :: nat"] by simp
    qed
    have "\<not> (1 < (2 :: nat) ^ n \<and> l \<le> NDEXTENT * 2 ^ n)" using stop by auto
    then have "shrink (NDEXTENT * 2 ^ Suc n) l = NDEXTENT * 2 ^ Suc n" unfolding eq by (rule if_not_P)
    then show ?thesis using no Suc.prems by simp
  qed
qed

lemma copy_size_table:
  assumes "fd_ok fdp" "table_size (fd_nfiles fdp)"
  shows "table_size (copy_size fdp)" "if \<exists>j. fd_lastfile fdp = 100 * 2 ^ j then copy_size fdp = fd_lastfile fdp else fd_lastfile fdp < copy_size fdp"
proof -
  let ?l = "fd_lastfile fdp"
  consider (small) "?l < NDFILE" | (large) n where "NDFILE \<le> ?l" "fd_nfiles fdp = NDEXTENT * 2 ^ n"
    using assms by (fastforce simp: table_size_def fd_ok_def)
  then have "table_size (copy_size fdp) \<and> (if \<exists>j. ?l = 100 * 2 ^ j then copy_size fdp = ?l else ?l < copy_size fdp)"
  proof cases
    case small
    have "(1 :: nat) \<le> 2 ^ j" for j by simp
    then have "\<not> (\<exists>j. ?l = 100 * 2 ^ j)" using small by (auto simp: not_le [symmetric])
    then show ?thesis using small by (simp add: copy_size_def table_size_def)
  next
    case large
    then show ?thesis using shrink_size [of n ?l] shrink_too_small [of ?l n] assms(1) by (simp add: copy_size_def table_size_def fd_ok_def)
  qed
  then show "table_size (copy_size fdp)" "if \<exists>j. ?l = 100 * 2 ^ j then copy_size fdp = ?l else ?l < copy_size fdp" by blast+
qed

lemma fdcopy_size:
  assumes "fdcopy p k = Some (fdp, k')" "fd_ok (p_fd p)"
  shows "fd_nfiles fdp = copy_size (p_fd p)"
  using assms shrink_bounds [of "fd_nfiles (p_fd p)" "fd_lastfile (p_fd p)"] by (auto simp: fdcopy_def Let_def copy_size_def fd_ok_def)

lemma fdcopy_uses:
  assumes "fdcopy p k = Some (fdp, k')" "fd_ok (p_fd p)" "fd_lastfile (p_fd p) < copy_size (p_fd p)"
  shows "uses fdp a = uses (p_fd p) a"
proof -
  have "fd_ofiles fdp = take (copy_size (p_fd p)) (fd_ofiles (p_fd p))" using assms(1) by (auto simp: fdcopy_def Let_def copy_size_def)
  then show ?thesis using count_take [of "copy_size (p_fd p)" "fd_ofiles (p_fd p)" a] assms(2,3) by (simp add: fd_ok_def)
qed

lemma fdcopy_result:
  assumes "pinv other p k" "\<And>a. other a + 2 * uses (p_fd p) a \<le> 32767" "fd_lastfile (p_fd p) < copy_size (p_fd p)"
  shows "\<exists>fdp k'. fdcopy p k = Some (fdp, k') \<and> good (\<lambda>a. other a + uses (p_fd p) a + uses fdp a) k' \<and> fd_ok fdp \<and> fd_file fdp = fd_file (p_fd p)"
proof -
  let ?fd = "p_fd p"
  have ok: "fd_ok ?fd" and good: "good (\<lambda>a. other a + uses ?fd a) k" using assms(1) by (simp_all add: pinv_def)
  let ?i = "copy_size ?fd" and ?n = "Suc (fd_lastfile ?fd)"
  have i: "?i \<le> fd_nfiles ?fd" "20 \<le> ?i" "?n \<le> ?i" using ok shrink_bounds [of "fd_nfiles ?fd" "fd_lastfile ?fd"] assms(3) by (auto simp: copy_size_def fd_ok_def)
  define new where "new = ?fd\<lparr>fd_ofiles := take ?i (fd_ofiles ?fd), fd_ofileflags := take ?i (fd_ofileflags ?fd), fd_refcnt := 1\<rparr>"
  define k1 where "k1 = (let k = k_log (VREF (fd_cdir ?fd)) k in case fd_rdir ?fd of None \<Rightarrow> k | Some v \<Rightarrow> k_log (VREF v) k)"
  have none: "fd_ofiles ?fd ! j = None" if "?n \<le> j" "j < fd_nfiles ?fd" for j using ok that by (simp add: fd_ok_def)
  have cnt: "count_list (take ?n (fd_ofiles new)) (Some a) = uses ?fd a" for a
    using count_take [of ?n "fd_ofiles ?fd" a] none i(3) by (simp add: new_def min_absorb1)
  have u: "uses new a = uses ?fd a" for a using count_take [of ?i "fd_ofiles ?fd" a] none i(3) by (simp add: new_def)
  have "\<exists>k'. hold_files ?n (fd_ofiles new) k1 = Some k' \<and> good (\<lambda>a. (other a + uses ?fd a) + count_list (take ?n (fd_ofiles new)) (Some a)) k'"
  proof (rule hold_files_good)
    show "good (\<lambda>a. other a + uses ?fd a) k1" using good by (simp add: k1_def Let_def split: option.split)
    show "?n \<le> length (fd_ofiles new)" using i by (simp add: new_def)
    show "0 < other a + uses ?fd a" if "Some a \<in> set (take ?n (fd_ofiles new))" for a
      using that cnt [of a] by (metis add_gr_0 count_list_0_iff neq0_conv)
    show "(other a + uses ?fd a) + count_list (take ?n (fd_ofiles new)) (Some a) \<le> 32767" for a using assms(2) [of a] cnt [of a] by simp
  qed
  then obtain k2 where k2: "hold_files ?n (fd_ofiles new) k1 = Some k2" "good (\<lambda>a. other a + uses ?fd a + uses new a) k2" using cnt u by auto
  moreover have "fdcopy p k = map_option (Pair new) (hold_files ?n (fd_ofiles new) k1)"
    by (simp add: fdcopy_def Let_def new_def k1_def copy_size_def)
  moreover have "fd_freefile ?fd \<le> ?n"
  proof (rule ccontr)
    assume "\<not> fd_freefile ?fd \<le> ?n"
    then have n: "?n < fd_freefile ?fd" by simp
    then have "fd_ofiles ?fd ! ?n \<noteq> None" "?n < fd_nfiles ?fd" using ok unfolding fd_ok_def by (blast, linarith)
    then show False using none [of ?n] by simp
  qed
  then have "fd_ok new" using ok i by (auto simp: fd_ok_def new_def)
  moreover have "fd_file new = fd_file ?fd" using i none by (auto simp: fd_file_def new_def fun_eq_iff)
  ultimately show ?thesis by simp
qed

section \<open>Exit\<close>

lemma release_files_good:
  assumes "good r k" "n \<le> length fs" "\<And>a. count_list (take n fs) (Some a) \<le> r a" "\<And>a. r a \<le> 32767"
  shows "\<exists>k'. release_files ops n fs p k = Some k' \<and> good (\<lambda>a. r a - count_list (take n fs) (Some a)) k'"
  using assms
proof (induction ops n fs p k arbitrary: r rule: release_files.induct)
  case (4 ops n a fs p k)
  have "0 < r a" using 4(4) [of a] by simp
  with closef_good [OF 4(2), of a ops p] 4(5) obtain e k1 where k1: "closef ops a p k = Some (e, k1)" "good (r(a := r a - 1)) k1" by blast
  have "\<exists>k'. release_files ops n fs p k1 = Some k' \<and> good (\<lambda>x. (r(a := r a - 1)) x - count_list (take n fs) (Some x)) k'"
  proof (rule 4(1) [OF k1(1) refl k1(2)])
    show "n \<le> length fs" using 4(3) by simp
    show "count_list (take n fs) (Some x) \<le> (r(a := r a - 1)) x" for x using 4(4) [of x] by auto
    show "(r(a := r a - 1)) x \<le> 32767" for x using 4(5) [of x] 4(5) [of a] by auto
  qed
  moreover have "(\<lambda>x. (r(a := r a - 1)) x - count_list (take n fs) (Some x)) = (\<lambda>x. r x - count_list (take (Suc n) (Some a # fs)) (Some x))"
    by (auto simp: fun_eq_iff)
  ultimately show ?case using k1(1) by simp
qed simp_all

lemma fdfree_result:
  assumes "pinv other p k" "few other p"
  shows "\<exists>k'. fdfree ops p k = Some (None, k') \<and> good other k'"
proof -
  let ?fd = "p_fd p" and ?n = "Suc (fd_lastfile (p_fd p))"
  have ok: "fd_ok ?fd" and good: "good (\<lambda>a. other a + uses ?fd a) k" using assms(1) by (simp_all add: pinv_def)
  have cnt: "count_list (take ?n (fd_ofiles ?fd)) (Some a) = uses ?fd a" for a using count_take [of ?n "fd_ofiles ?fd" a] ok by (simp add: fd_ok_def)
  have "\<exists>k'. release_files ops ?n (fd_ofiles ?fd) p k = Some k' \<and> good (\<lambda>a. (other a + uses ?fd a) - count_list (take ?n (fd_ofiles ?fd)) (Some a)) k'"
    using assms(2) ok by (intro release_files_good [OF good]) (auto simp: cnt few_def fd_ok_def intro: less_imp_le)
  then obtain k1 where "release_files ops ?n (fd_ofiles ?fd) p k = Some k1" "good other k1" by (auto simp: cnt)
  then show ?thesis using ok by (simp add: fdfree_def Let_def fd_ok_def split: option.split)
qed

lemma fdcopy_returns:
  assumes "pinv other p k" "\<And>a. other a + 2 * uses (p_fd p) a \<le> 32767"
  shows "fdcopy p k = None \<longleftrightarrow> copy_size (p_fd p) \<le> fd_lastfile (p_fd p)"
proof (cases "fd_lastfile (p_fd p) < copy_size (p_fd p)")
  case True
  then show ?thesis using fdcopy_result [OF assms True] by auto
next
  case False
  then show ?thesis by (simp add: fdcopy_def Let_def copy_size_def hold_files_short)
qed

section \<open>All processes\<close>

definition refs :: "dproc list \<Rightarrow> nat \<Rightarrow> nat" where
  "refs ps a = sum_list (map (\<lambda>p. uses (p_fd p) a) ps)"

definition few_refs :: "dproc list \<Rightarrow> bool" where
  "few_refs ps \<longleftrightarrow> (\<forall>a. refs ps a < 32767)"

definition sys_ok :: "fkern \<Rightarrow> dproc list \<Rightarrow> bool" where
  "sys_ok k ps \<longleftrightarrow> good (refs ps) k \<and> (\<forall>p \<in> set ps. fd_ok (p_fd p) \<and> table_size (fd_nfiles (p_fd p)))"

text \<open>The system after its start: no file is open.\<close>

definition fd_boot :: "fkern \<Rightarrow> dproc \<Rightarrow> bool" where
  "fd_boot k p \<longleftrightarrow> k_files k = Map.empty \<and> filehead k = [] \<and> nfiles k = 0 \<and> fd_ofiles (p_fd p) = replicate NDFILE None \<and>
     fd_ofileflags (p_fd p) = replicate NDFILE 0 \<and> fd_lastfile (p_fd p) = 0 \<and> fd_freefile (p_fd p) = 0 \<and> fd_refcnt (p_fd p) = 1"

abbreviation AFORK :: u16 where "AFORK \<equiv> 1"

text \<open>The process \<^verbatim>\<open>fork\<close> makes: it has the copied table, its own number, the caller as parent, the accounting flag \<^verbatim>\<open>AFORK\<close> and none of
  the flags of the caller, so it is not known to hold record locks.  \<^verbatim>\<open>p_dupfd\<close> is what the memory held.\<close>

definition forked :: "dproc \<Rightarrow> filedesc \<Rightarrow> int \<Rightarrow> int \<Rightarrow> dproc" where
  "forked p fdp pid junk = p\<lparr>p_fd := fdp, p_pid := pid, p_ppid := p_pid p, p_acflag := AFORK, p_sadvlck := False, p_dupfd := junk\<rparr>"

lemma forked_fd [simp]: "p_fd (forked p fdp pid junk) = fdp"
  by (simp add: forked_def)

text \<open>Any process makes a call, forks, executes a program, exits or changes its limit.  No file is referred to more
  than 32766 times.\<close>

inductive fd_reach :: "fops \<Rightarrow> fkern \<Rightarrow> dproc list \<Rightarrow> bool" for ops where
  boot: "fd_boot k p \<Longrightarrow> fd_reach ops k [p]"
| call: "fd_reach ops k ps \<Longrightarrow> few_refs ps \<Longrightarrow> n < length ps \<Longrightarrow> fd_syscall ops c (ps ! n) k = Some (res, p, k') \<Longrightarrow> fd_reach ops k' (ps[n := p])"
| fork: "fd_reach ops k ps \<Longrightarrow> n < length ps \<Longrightarrow> fdcopy (ps ! n) k = Some (fdp, k') \<Longrightarrow> few_refs (ps @ [forked (ps ! n) fdp pid junk]) \<Longrightarrow>
    fd_reach ops k' (ps @ [forked (ps ! n) fdp pid junk])"
| exec: "fd_reach ops k ps \<Longrightarrow> few_refs ps \<Longrightarrow> n < length ps \<Longrightarrow> fdcloseexec ops (ps ! n) k = Some (p, k') \<Longrightarrow> fd_reach ops k' (ps[n := p])"
| exit: "fd_reach ops k ps \<Longrightarrow> few_refs ps \<Longrightarrow> n < length ps \<Longrightarrow> fdfree ops (ps ! n) k = Some (None, k') \<Longrightarrow> fd_reach ops k' (take n ps @ drop (Suc n) ps)"
| limit: "fd_reach ops k ps \<Longrightarrow> n < length ps \<Longrightarrow> fd_reach ops k (ps[n := (ps ! n)\<lparr>p_rlim_ofile := l\<rparr>])"

definition elsewhere :: "dproc list \<Rightarrow> nat \<Rightarrow> nat \<Rightarrow> nat" where
  "elsewhere ps n = refs (take n ps @ drop (Suc n) ps)"

lemma refs_elsewhere:
  assumes "n < length ps"
  shows "refs ps a = elsewhere ps n a + uses (p_fd (ps ! n)) a" "refs (ps[n := p]) a = elsewhere ps n a + uses (p_fd p) a"
proof -
  have "ps = take n ps @ ps ! n # drop (Suc n) ps" using assms by (simp add: id_take_nth_drop)
  then have "refs ps a = refs (take n ps @ ps ! n # drop (Suc n) ps) a" by simp
  then show "refs ps a = elsewhere ps n a + uses (p_fd (ps ! n)) a" by (simp add: refs_def elsewhere_def)
  show "refs (ps[n := p]) a = elsewhere ps n a + uses (p_fd p) a" using assms by (simp add: upd_conv_take_nth_drop refs_def elsewhere_def)
qed

lemma sys_ok_pinv:
  assumes "sys_ok k ps" "n < length ps"
  shows "pinv (elsewhere ps n) (ps ! n) k"
proof -
  have "refs ps = (\<lambda>a. elsewhere ps n a + uses (p_fd (ps ! n)) a)" using refs_elsewhere(1) [OF assms(2)] by blast
  then show ?thesis using assms by (simp add: sys_ok_def pinv_def)
qed

lemma few_refs_few: "few_refs ps \<Longrightarrow> n < length ps \<Longrightarrow> few (elsewhere ps n) (ps ! n)"
  by (simp add: few_refs_def few_def refs_elsewhere(1))

lemma sys_ok_update:
  assumes "sys_ok k ps" "n < length ps" "pinv (elsewhere ps n) p k'"
  shows "sys_ok k' (ps[n := p])"
proof -
  have "refs (ps[n := p]) = (\<lambda>a. elsewhere ps n a + uses (p_fd p) a)" using refs_elsewhere(2) [OF assms(2)] by blast
  then show ?thesis using assms by (auto simp: sys_ok_def pinv_def dest: set_update_subset_insert [THEN subsetD])
qed

lemma fd_reach_ok:
  assumes "fd_reach ops k ps"
  shows "sys_ok k ps"
  using assms
proof (induction rule: fd_reach.induct)
  case (boot k p)
  then show ?case by (auto simp: fd_boot_def sys_ok_def good_def cnt_ok_def files_ok_def refs_def count_list_replicate_other fd_ok_def table_size_def)
next
  case (call k ps n c res p k')
  from fd_syscall_result [OF sys_ok_pinv [OF call(5,3)] few_refs_few [OF call(2,3)], of ops c] call(4) have "pinv (elsewhere ps n) p k'" by auto
  then show ?case by (rule sys_ok_update [OF call(5,3)])
next
  case (fork k ps n fdp k' pid junk)
  let ?c = "forked (ps ! n) fdp pid junk"
  note inv = sys_ok_pinv [OF fork(5,2)]
  have lf: "fd_lastfile (p_fd (ps ! n)) < copy_size (p_fd (ps ! n))"
  proof (rule ccontr)
    assume "\<not> fd_lastfile (p_fd (ps ! n)) < copy_size (p_fd (ps ! n))"
    then have "fdcopy (ps ! n) k = None" by (simp add: fdcopy_def Let_def copy_size_def hold_files_short)
    then show False using fork(3) by simp
  qed
  have ok: "fd_ok (p_fd (ps ! n))" using inv by (simp add: pinv_def)
  have r: "refs (ps @ [?c]) a = elsewhere ps n a + uses (p_fd (ps ! n)) a + uses fdp a" for a
    using refs_elsewhere(1) [OF fork(2)] by (simp add: refs_def)
  have "elsewhere ps n a + 2 * uses (p_fd (ps ! n)) a \<le> 32767" for a
    using fork(4) r [of a] fdcopy_uses [OF fork(3) ok lf] by (auto simp: few_refs_def mult_2 dest!: spec [of _ a])
  from fdcopy_result [OF inv this lf] fork(3) have "good (\<lambda>a. elsewhere ps n a + uses (p_fd (ps ! n)) a + uses fdp a) k'" "fd_ok fdp" by auto
  moreover have "refs (ps @ [?c]) = (\<lambda>a. elsewhere ps n a + uses (p_fd (ps ! n)) a + uses fdp a)" using r by blast
  moreover have "table_size (fd_nfiles fdp)" using copy_size_table(1) [OF ok] inv fdcopy_size [OF fork(3) ok] by (simp add: pinv_def)
  ultimately show ?case using fork(5) by (simp add: sys_ok_def)
next
  case (exec k ps n p k')
  from fdcloseexec_result [OF sys_ok_pinv [OF exec(5,3)] few_refs_few [OF exec(2,3)], of ops] exec(4) have "pinv (elsewhere ps n) p k'" by auto
  then show ?case by (rule sys_ok_update [OF exec(5,3)])
next
  case (exit k ps n k')
  then have "good (elsewhere ps n) k'" using fdfree_result [OF sys_ok_pinv few_refs_few, of k ps n ops] by simp
  then show ?case using exit(5) by (auto simp: sys_ok_def elsewhere_def dest: in_set_takeD in_set_dropD)
next
  case (limit k ps n l)
  then show ?case using sys_ok_pinv [OF limit(3,2)] sys_ok_update [OF limit(3,2)] by (simp add: pinv_def)
qed

section \<open>A small system\<close>

definition test_fops :: fops where
  "test_fops = \<lparr>fo_close = (\<lambda>_. None), fo_ioctl = (\<lambda>_ _. (None, 0)), vop_advlock = (\<lambda>_ _ _ fl _. (None, fl)), copyout = None, pfind_pgid = (\<lambda>_. None)\<rparr>"

definition test_kern :: fkern where
  "test_kern = \<lparr>k_files = Map.empty, filehead = [], nfiles = 0, maxfiles = 100, maxfdescs = 128, k_next = 0, k_creds = Map.empty, so_pgid = (\<lambda>_. 0), k_calls = []\<rparr>"

definition test_table :: filedesc where
  "test_table = \<lparr>fd_ofiles = replicate 20 None, fd_ofileflags = replicate 20 0, fd_cdir = 1, fd_rdir = None, fd_lastfile = 0, fd_freefile = 0, fd_cmask = 0x12, fd_refcnt = 1\<rparr>"

definition test_proc :: dproc where
  "test_proc = \<lparr>p_pid = 1, p_ppid = 0, p_pgid = 1, p_cred = \<lparr>pc_ucred = 0, p_ruid = 0, p_svuid = 0, p_rgid = 0, p_svgid = 0\<rparr>, p_acflag = 0,
     p_fd = test_table, p_rlim_ofile = 128, p_sadvlck = False, p_dupfd = 0\<rparr>"

definition test_mem :: kfile where
  "test_mem = \<lparr>f_flag = 0, f_type = DTYPE_SOCKET 0, f_count = 0, f_msgcount = 0, f_cred = 0, f_offset = 0\<rparr>"

lemma uses_small: "fd_nfiles (p_fd p) \<le> 20 \<Longrightarrow> uses (p_fd p) a \<le> 20"
  using count_le_length [of "fd_ofiles (p_fd p)" "Some a"] by (rule le_trans)

lemma few_refs_small: "fd_nfiles (p_fd p) \<le> 20 \<Longrightarrow> few_refs [p]"
  unfolding few_refs_def refs_def by (auto intro: le_less_trans [OF uses_small])

text \<open>A socket is opened and its descriptor duplicated.\<close>

lemma test_socket:
  "\<exists>p k. fd_syscall test_fops (C_socket test_mem (Inr 5)) test_proc test_kern = Some (Inr 0, p, k) \<and> fd_ofiles (p_fd p) = (replicate 20 None)[0 := Some 0] \<and>
    fd_lastfile (p_fd p) = 0 \<and> fd_freefile (p_fd p) = 0 \<and> p_rlim_ofile p = 128 \<and> maxfdescs k = 128 \<and> map_option f_count (k_files k 0) = Some 1"
proof -
  have "scan_free 0 20 (replicate 20 None) = Some 0" by (simp add: scan_free.simps)
  then have "fdalloc 128 0 test_table = (Inr 0, test_table\<lparr>fd_ofileflags := (replicate 20 0)[0 := 0]\<rparr>)"
    by (simp add: fdalloc.simps [of 128] test_table_def)
  then show ?thesis
    by (simp add: socket_def falloc_def test_proc_def test_kern_def test_table_def upd_file_def)
qed

lemma test_dup:
  assumes "fd_ofiles (p_fd p) = (replicate 20 None)[0 := Some 0]" "fd_lastfile (p_fd p) = 0" "fd_freefile (p_fd p) = 0" "p_rlim_ofile p = 128" "maxfdescs k = 128"
    "map_option f_count (k_files k 0) = Some 1"
  shows "\<exists>p' k'. fd_syscall test_fops (C_dup 0 0) p k = Some (Inr 1, p', k') \<and> map_option f_count (k_files k' 0) = Some 2 \<and>
    fd_ofiles (p_fd p') = (replicate 20 None)[0 := Some 0, 1 := Some 0] \<and> fd_lastfile (p_fd p') = 1 \<and> p_rlim_ofile p' = 128 \<and> maxfdescs k' = 128"
proof -
  have "scan_free 0 20 (fd_ofiles (p_fd p)) = Some 1" by (simp add: assms scan_free.simps nth_list_update)
  then have "fdalloc 128 0 (p_fd p) = (Inr 1, (p_fd p)\<lparr>fd_ofileflags := (fd_ofileflags (p_fd p))[1 := 0], fd_lastfile := 1, fd_freefile := 1\<rparr>)"
    using assms by (simp add: fdalloc.simps [of 128])
  then show ?thesis
    using assms by (auto simp: dup_def dup_from_def dup_into_def dup_to_def fd_file_def upd_file_def on_fd_def s16_small)
qed

lemma test_reach:
  obtains k p where "fd_reach test_fops k [p]" "map_option f_count (k_files k 0) = Some 2" "fd_ofiles (p_fd p) = (replicate 20 None)[0 := Some 0, 1 := Some 0]"
    "fd_lastfile (p_fd p) = 1" "p_rlim_ofile p = 128" "maxfdescs k = 128"
proof -
  have b: "fd_reach test_fops test_kern [test_proc]"
    by (rule fd_reach.boot) (simp add: fd_boot_def test_kern_def test_proc_def test_table_def)
  have "few_refs [test_proc]" by (rule few_refs_small) (simp add: test_proc_def test_table_def)
  note step = fd_reach.call [OF b this, of 0, simplified]
  obtain p k where 1: "fd_syscall test_fops (C_socket test_mem (Inr 5)) test_proc test_kern = Some (Inr 0, p, k)"
    "fd_ofiles (p_fd p) = (replicate 20 None)[0 := Some 0]" "fd_lastfile (p_fd p) = 0" "fd_freefile (p_fd p) = 0" "p_rlim_ofile p = 128" "maxfdescs k = 128"
    "map_option f_count (k_files k 0) = Some 1" using test_socket by blast
  have "few_refs [p]" by (rule few_refs_small) (simp add: 1(2))
  note step2 = fd_reach.call [OF step [OF 1(1)] this, of 0, simplified]
  show thesis using test_dup [OF 1(2-7)] step2 that by blast
qed

text \<open>The descriptor is duplicated once more, to the number 100, for which the table grows to 200 entries.\<close>

lemma fdalloc_grow:
  assumes "fd_nfiles fdp \<le> want" "fd_nfiles fdp < lim"
  shows "fdalloc lim want fdp = fdalloc lim want (fd_expand fdp)"
proof -
  have "scan_free (max want (fd_freefile fdp)) (min (fd_nfiles fdp) lim) (fd_ofiles fdp) = None" using assms(1) by (simp add: scan_free.simps)
  then show ?thesis using assms(2) by (subst fdalloc.simps) simp
qed

lemma test_dup2_100:
  assumes "fd_ofiles (p_fd p) = (replicate 20 None)[0 := Some 0, 1 := Some 0]" "fd_lastfile (p_fd p) = 1" "fd_freefile (p_fd p) \<le> 20"
    "p_rlim_ofile p = 128" "maxfdescs k = 128" "map_option f_count (k_files k 0) = Some 2"
  shows "\<exists>p' k'. fd_syscall test_fops (C_dup2 0 100) p k = Some (Inr 100, p', k') \<and> fd_file (p_fd p') 100 = Some 0 \<and> fd_lastfile (p_fd p') = 100 \<and> fd_nfiles (p_fd p') = 200"
proof -
  let ?t = "p_fd p"
  let ?e = "fd_expand (fd_expand (fd_expand ?t))"
  have n: "fd_nfiles ?t = 20" "fd_nfiles (fd_expand ?t) = 50" "fd_nfiles (fd_expand (fd_expand ?t)) = 100" "fd_nfiles ?e = 200"
    by (simp_all add: fd_expand_def Let_def assms(1))
  have e: "fd_ofiles ?e = fd_ofiles ?t @ replicate 180 None" "fd_freefile ?e = fd_freefile ?t" "fd_lastfile ?e = 1"
    using assms(1,2) by (simp_all add: fd_expand_def Let_def replicate_add [symmetric])
  have "scan_free 100 128 (fd_ofiles ?e) = Some 100" by (simp add: scan_free.simps [of 100] e(1) assms(1) nth_append)
  then have "fdalloc 128 100 ?e = (Inr 100, ?e\<lparr>fd_ofileflags := (fd_ofileflags ?e)[100 := 0], fd_lastfile := 100\<rparr>)"
    using assms(3) n(4) e(2,3) by (simp add: fdalloc.simps [of 128 100 ?e] max_absorb1)
  then have "fdalloc 128 100 ?t = (Inr 100, ?e\<lparr>fd_ofileflags := (fd_ofileflags ?e)[100 := 0], fd_lastfile := 100\<rparr>)"
    using fdalloc_grow [of ?t 100 128] fdalloc_grow [of "fd_expand ?t" 100 128] fdalloc_grow [of "fd_expand (fd_expand ?t)" 100 128] n by simp
  moreover have "k_files k 0 \<noteq> None" using assms(6) by auto
  ultimately show ?thesis
    using assms n e by (auto simp: dup2_def dup_into_def dup_to_def fd_file_def upd_file_def on_fd_def nth_append)
qed

lemma test_reach_100:
  obtains k p where "fd_reach test_fops k [p]" "fd_file (p_fd p) 100 = Some 0" "fd_lastfile (p_fd p) = 100" "fd_nfiles (p_fd p) = 200"
proof -
  obtain k p where t: "fd_reach test_fops k [p]" "map_option f_count (k_files k 0) = Some 2" "fd_ofiles (p_fd p) = (replicate 20 None)[0 := Some 0, 1 := Some 0]"
    "fd_lastfile (p_fd p) = 1" "p_rlim_ofile p = 128" "maxfdescs k = 128" by (rule test_reach)
  have few: "few_refs [p]" by (rule few_refs_small) (simp add: t(3))
  have "fd_freefile (p_fd p) \<le> 20" using fd_reach_ok [OF t(1)] t(3) by (simp add: sys_ok_def fd_ok_def)
  then show thesis using test_dup2_100 [OF t(3,4) _ t(5,6,2)] fd_reach.call [OF t(1) few, of 0, simplified] that by blast
qed

section \<open>Properties\<close>

text \<open>C3: whatever processes do with their descriptors (opening, duplicating, closing, locking, forking, executing programs, exiting), the
  count of every file structure is the number of descriptors that refer to it, no descriptor refers to a structure that was freed,
  and the list of open files holds each structure in use once.\<close>

theorem descriptors_accounted:
  assumes "fd_reach ops k ps"
  shows "(\<forall>a. case k_files k a of None \<Rightarrow> refs ps a = 0 | Some fp \<Rightarrow> f_count fp = int (refs ps a) \<and> 0 < refs ps a) \<and>
    distinct (filehead k) \<and> set (filehead k) = dom (k_files k) \<and> nfiles k = length (filehead k)"
  using fd_reach_ok [OF assms] by (simp add: sys_ok_def good_def cnt_ok_def files_ok_def)

theorem descriptors_accounted_witness:
  "\<exists>k p. fd_reach test_fops k [p] \<and> map_option f_count (k_files k 0) = Some 2 \<and> refs [p] 0 = 2 \<and> nfiles k = length (filehead k)"
proof -
  obtain k p where t: "fd_reach test_fops k [p]" "map_option f_count (k_files k 0) = Some 2" by (rule test_reach)
  note a = descriptors_accounted [OF t(1)]
  then have "case k_files k 0 of None \<Rightarrow> refs [p] 0 = 0 | Some fp \<Rightarrow> f_count fp = int (refs [p] 0) \<and> 0 < refs [p] 0" by blast
  then have "refs [p] 0 = 2" using t(2) by (cases "k_files k 0") auto
  then show ?thesis using t a by blast
qed

text \<open>C10: no call of any process panics, uses a freed file structure or leaves its table, as long as no file has
  32767 references; copying the table for a fork does so exactly when its high-water mark is not below the size of the copy.\<close>

theorem descriptor_calls_return:
  assumes "fd_reach ops k ps" "few_refs ps" "n < length ps" "\<forall>a. refs ps a + uses (p_fd (ps ! n)) a \<le> 32767"
  shows "fd_syscall ops c (ps ! n) k \<noteq> None \<and> fdcloseexec ops (ps ! n) k \<noteq> None \<and> fdfree ops (ps ! n) k \<noteq> None \<and>
    (fdcopy (ps ! n) k = None \<longleftrightarrow> copy_size (p_fd (ps ! n)) \<le> fd_lastfile (p_fd (ps ! n)))"
proof -
  note inv = sys_ok_pinv [OF fd_reach_ok [OF assms(1)] assms(3)] and few = few_refs_few [OF assms(2,3)]
  have "elsewhere ps n a + 2 * uses (p_fd (ps ! n)) a \<le> 32767" for a using assms(4) refs_elsewhere(1) [OF assms(3), of a] by (auto simp: mult_2 add.assoc dest!: spec [of _ a])
  from fdcopy_returns [OF inv this] show ?thesis
    using fd_syscall_result [OF inv few, of ops c] fdcloseexec_result [OF inv few, of ops] fdfree_result [OF inv few, of ops] by auto
qed

theorem descriptor_calls_return_witness:
  "\<exists>k p. fd_reach test_fops k [p] \<and> fd_syscall test_fops (C_close 1) p k \<noteq> None \<and> fdcopy p k \<noteq> None"
proof -
  obtain k p where t: "fd_reach test_fops k [p]" "fd_ofiles (p_fd p) = (replicate 20 None)[0 := Some 0, 1 := Some 0]" "fd_lastfile (p_fd p) = 1" by (rule test_reach)
  have small: "fd_nfiles (p_fd p) \<le> 20" using t(2) by simp
  have "uses (p_fd p) a + uses (p_fd p) a \<le> 32767" for a using uses_small [OF small, of a] by linarith
  then have "\<forall>a. refs [p] a + uses (p_fd ([p] ! 0)) a \<le> 32767" by (simp add: refs_def)
  from descriptor_calls_return [OF t(1) few_refs_small [OF small] _ this, of "C_close 1"] t(2,3)
  have "fd_syscall test_fops (C_close 1) p k \<noteq> None \<and> fdcopy p k \<noteq> None" by (simp add: copy_size_def)
  then show ?thesis using t(1) by blast
qed

text \<open>C9: on the descriptors of a process, as a map to files, \<^verbatim>\<open>dup2\<close> updates one entry, \<^verbatim>\<open>close\<close> removes one, \<^verbatim>\<open>exec\<close> removes those
  marked for it, and a fork that succeeds gives the child the same map.\<close>

theorem descriptor_calls_refine:
  assumes "fd_reach ops k ps" "few_refs ps" "n < length ps"
  defines "p \<equiv> ps ! n" and "fds \<equiv> \<lambda>p. fd_file (p_fd p)"
  shows "(\<exists>r p' k'. dup2 ops old new p k = Some (r, p', k') \<and>
      (if fds p old = None \<or> p_rlim_ofile p \<le> new \<or> maxfdescs k \<le> new then r = Inl EBADF \<and> fds p' = fds p else r = Inr (int new) \<and> fds p' = (fds p)(new := fds p old))) \<and>
    (\<exists>r p' k'. close ops fd p k = Some (r, p', k') \<and> fds p' = (fds p)(fd := None) \<and> (fds p fd = None \<longrightarrow> r = Inl EBADF)) \<and>
    (\<exists>p' k'. fdcloseexec ops p k = Some (p', k') \<and> fds p' = (\<lambda>i. if cloexec (p_fd p) i then None else fds p i)) \<and>
    (\<forall>fdp k'. fdcopy p k = Some (fdp, k') \<longrightarrow> fd_file fdp = fds p)"
proof -
  have inv: "pinv (elsewhere ps n) p k" and few: "few (elsewhere ps n) p"
    using sys_ok_pinv [OF fd_reach_ok [OF assms(1)] assms(3)] few_refs_few [OF assms(2,3)] by (simp_all add: p_def)
  have "\<exists>r p' k'. close ops fd p k = Some (r, p', k') \<and> fds p' = (fds p)(fd := None) \<and> (fds p fd = None \<longrightarrow> r = Inl EBADF)"
    using close_result [OF inv few, of fd _ ops] by (cases "fds p fd") (auto simp: close_def fds_def fun_eq_iff)
  moreover have "fd_file fdp = fds p" if c: "fdcopy p k = Some (fdp, k')" for fdp k'
  proof -
    have "fd_ok (p_fd p)" using inv by (simp add: pinv_def)
    moreover have "fd_lastfile (p_fd p) < copy_size (p_fd p)"
      using that hold_files_short [of "take (copy_size (p_fd p)) (fd_ofiles (p_fd p))" "Suc (fd_lastfile (p_fd p))"] by (fastforce simp: fdcopy_def Let_def copy_size_def)
    moreover have "fd_ofiles fdp = take (copy_size (p_fd p)) (fd_ofiles (p_fd p))" using that by (auto simp: fdcopy_def Let_def copy_size_def)
    ultimately show ?thesis by (auto simp: fds_def fd_file_def fd_ok_def fun_eq_iff)
  qed
  ultimately show ?thesis using dup2_result [OF inv few, of ops old new] fdcloseexec_result [OF inv few, of ops] unfolding fds_def by (auto split: if_splits)
qed

theorem descriptor_calls_refine_witness:
  "\<exists>k p r p' k'. fd_reach test_fops k [p] \<and> dup2 test_fops 1 30 p k = Some (r, p', k') \<and> r = Inr 30 \<and> fd_file (p_fd p') = (fd_file (p_fd p))(30 := Some 0)"
proof -
  obtain k p where t: "fd_reach test_fops k [p]" "fd_ofiles (p_fd p) = (replicate 20 None)[0 := Some 0, 1 := Some 0]" "p_rlim_ofile p = 128" "maxfdescs k = 128" by (rule test_reach)
  have "few_refs [p]" by (rule few_refs_small) (simp add: t(2))
  note r = conjunct1 [OF descriptor_calls_refine [OF t(1) this, of 0 1 30, simplified]]
  have "fd_file (p_fd p) 1 = Some 0" by (simp add: fd_file_def t(2))
  then show ?thesis using r t(1,3,4) by auto
qed

text \<open>C31: \<^verbatim>\<open>close\<close> closes the file exactly when the last descriptor of any process is gone, and then returns what the file's own routine
  returns; a close by a process that used record locks releases them all, even if the process has the file open through another
  descriptor, and the last close releases the lock of \<^verbatim>\<open>flock\<close>.\<close>

theorem close_last_reference:
  assumes "fd_reach ops k ps" "few_refs ps" "n < length ps" "fd_file (p_fd (ps ! n)) fd = Some a"
  defines "p \<equiv> ps ! n"
  shows "\<exists>fp p' k'. k_files k a = Some fp \<and>
    close ops fd p k = Some (if refs ps a = 1 then sys_error (fo_close ops a) else Inr 0, p', k') \<and>
    k_files k' a = (if refs ps a = 1 then None else Some (fp\<lparr>f_count := int (refs ps a) - 1\<rparr>)) \<and>
    k_calls k' = k_calls k
      @ (case f_type fp of DTYPE_VNODE vp \<Rightarrow> if p_sadvlck p then [ADVLOCK vp (Proc (p_pid p)) OpUnlck (whole_file F_UNLCK) (True, False, False)] else [] | _ \<Rightarrow> [])
      @ (if refs ps a = 1 then
           (case f_type fp of DTYPE_VNODE vp \<Rightarrow> if f_flag fp AND FHASLOCK \<noteq> 0 then [ADVLOCK vp (File a) OpUnlck (whole_file F_UNLCK) (False, True, False)] else [] | _ \<Rightarrow> [])
           @ [FO_CLOSE a]
         else [])"
proof -
  note ok = fd_reach_ok [OF assms(1)]
  have "0 < uses (p_fd p) a" using assms(4) by (simp add: p_def uses_pos)
  then have pos: "0 < refs ps a" using refs_elsewhere(1) [OF assms(3), of a] by (simp add: p_def)
  have "case k_files k a of None \<Rightarrow> refs ps a = 0 | Some fp \<Rightarrow> f_count fp = int (refs ps a) \<and> 0 < refs ps a"
    using ok by (simp add: sys_ok_def good_def cnt_ok_def)
  then obtain fp where fp: "k_files k a = Some fp" "f_count fp = int (refs ps a)" using pos by (cases "k_files k a") auto
  have s: "s16 (int (refs ps a) - 1) = int (refs ps a) - 1" using assms(2) pos by (intro s16_small) (auto simp: few_refs_def dest!: spec [of _ a])
  note cl = closef_def ffree_def unlock_if_def upd_file_def k_log_def munmap_if_mapped_def munmapfd_def on_fd_def
  show ?thesis
    using fp s pos assms(4) by (cases "f_type fp") (auto simp: close_def cl p_def Let_def)
qed

theorem close_last_reference_witness:
  "\<exists>k p p' k'. fd_reach test_fops k [p] \<and> close test_fops 1 p k = Some (Inr 0, p', k') \<and> map_option f_count (k_files k' 0) = Some 1"
proof -
  obtain k p where t: "fd_reach test_fops k [p]" "map_option f_count (k_files k 0) = Some 2" "fd_ofiles (p_fd p) = (replicate 20 None)[0 := Some 0, 1 := Some 0]" by (rule test_reach)
  have few: "few_refs [p]" by (rule few_refs_small) (simp add: t(3))
  have "int (refs [p] 0) = 2" using fd_reach_ok [OF t(1)] t(2) by (auto simp: sys_ok_def good_def cnt_ok_def dest!: spec [of _ 0])
  then have "refs [p] 0 = 2" by simp
  moreover have "fd_file (p_fd ([p] ! 0)) 1 = Some 0" by (simp add: fd_file_def t(3))
  note close_last_reference [OF t(1) few _ this, simplified]
  ultimately have "\<exists>p' k'. close test_fops 1 p k = Some (Inr 0, p', k') \<and> map_option f_count (k_files k' 0) = Some 1" by auto
  then show ?thesis using t(1) by blast
qed

text \<open>C32: a descriptor is the lowest free one from the number wanted on, and \<^verbatim>\<open>EMFILE\<close> is returned exactly when there is none below the limit; the
  search, which extends the table when it is full, ends, and no descriptor changes.\<close>

theorem fdalloc_lowest:
  assumes "fd_ok fdp"
  shows "fst (fdalloc lim want fdp) =
      (if \<exists>j. want \<le> j \<and> j < lim \<and> fd_file fdp j = None then Inr (LEAST j. want \<le> j \<and> fd_file fdp j = None) else Inl EMFILE) \<and>
    fd_file (snd (fdalloc lim want fdp)) = fd_file fdp"
proof -
  obtain r fdp' where f: "fdalloc lim want fdp = (r, fdp')" by fastforce
  note fr = fdalloc_result [OF assms f]
  show ?thesis
  proof (cases r)
    case (Inl e)
    then show ?thesis using fr f by (auto simp: fd_same_def)
  next
    case (Inr i)
    then have "(LEAST j. want \<le> j \<and> fd_file fdp j = None) = i"
      using fr by (intro Least_equality) (auto simp: not_less [symmetric])
    then show ?thesis using fr f Inr by (auto simp: fd_same_def)
  qed
qed

theorem fdalloc_lowest_witness: "fst (fdalloc 64 3 (test_table\<lparr>fd_ofiles := (fd_ofiles test_table)[3 := Some 7], fd_lastfile := 3\<rparr>)) = Inr 4"
proof -
  let ?t = "test_table\<lparr>fd_ofiles := (fd_ofiles test_table)[3 := Some 7], fd_lastfile := 3\<rparr>"
  have ok: "fd_ok ?t" by (auto simp: fd_ok_def test_table_def nth_list_update)
  have f: "fd_file ?t j = (if j = 3 then Some 7 else None)" for j by (simp add: fd_file_def test_table_def nth_list_update)
  have "(LEAST j. 3 \<le> j \<and> fd_file ?t j = None) = 4" by (rule Least_equality) (auto simp: f split: if_splits)
  moreover have "\<exists>j. 3 \<le> j \<and> j < 64 \<and> fd_file ?t j = None" by (rule exI [of _ 4]) (simp add: f)
  ultimately show ?thesis using fdalloc_lowest [OF ok, of 64 3] by simp
qed

text \<open>C40: the table a fork copies is too small exactly when the high-water mark of the caller's descriptors is 100, 200, 400 and so on: the copy then has
  that many entries, so its highest descriptor is missing, and the loop over the copy reads one entry behind the array
  (\<open>None\<close> in the model; in the code the flag bytes in the same block of memory, where four zeros pass for a free entry and fork goes on with the
  descriptor lost).  In every other state, with fewer than 32767 references to a file, the copy is made.\<close>

theorem fork_loses_last_descriptor:
  assumes "fd_reach ops k ps" "n < length ps" "\<forall>a. refs ps a + uses (p_fd (ps ! n)) a \<le> 32767"
  defines "fdp \<equiv> p_fd (ps ! n)"
  shows "(fdcopy (ps ! n) k = None \<longleftrightarrow> (\<exists>j. fd_lastfile fdp = 100 * 2 ^ j)) \<and> (fdcopy (ps ! n) k = None \<longrightarrow> copy_size fdp = fd_lastfile fdp)"
proof -
  note inv = sys_ok_pinv [OF fd_reach_ok [OF assms(1)] assms(2)]
  then have ok: "fd_ok fdp" "table_size (fd_nfiles fdp)" by (simp_all add: pinv_def fdp_def)
  have "elsewhere ps n a + 2 * uses fdp a \<le> 32767" for a
    using assms(3) refs_elsewhere(1) [OF assms(2), of a] by (auto simp: mult_2 add.assoc fdp_def dest!: spec [of _ a])
  from fdcopy_returns [OF inv this [unfolded fdp_def]] have "fdcopy (ps ! n) k = None \<longleftrightarrow> copy_size fdp \<le> fd_lastfile fdp" by (simp add: fdp_def)
  then show ?thesis using copy_size_table(2) [OF ok] by (auto split: if_splits)
qed

theorem fork_loses_last_descriptor_witness:
  "\<exists>k p. fd_reach test_fops k [p] \<and> fd_file (p_fd p) 100 = Some 0 \<and> fdcopy p k = None \<and> copy_size (p_fd p) = 100"
proof -
  obtain k p where t: "fd_reach test_fops k [p]" "fd_file (p_fd p) 100 = Some 0" "fd_lastfile (p_fd p) = 100" "fd_nfiles (p_fd p) = 200" by (rule test_reach_100)
  have "uses (p_fd p) a + uses (p_fd p) a \<le> 32767" for a using count_le_length [of "fd_ofiles (p_fd p)" "Some a"] t(4) by linarith
  then have "\<forall>a. refs [p] a + uses (p_fd ([p] ! 0)) a \<le> 32767" by (simp add: refs_def)
  note r = fork_loses_last_descriptor [OF t(1) _ this, simplified]
  have "\<exists>j. fd_lastfile (p_fd p) = 100 * 2 ^ j" using t(3) by (auto intro: exI [of _ 0])
  then show ?thesis using r t by auto
qed

end
