(* ===== verification/Bytes.thy ===== *)
theory Bytes
  imports Prelude
begin

text \<open>
  Numbers in network byte order: 16- and 32-bit words as sequences of bytes, as the PPP
  daemon's macros (\<^verbatim>\<open>GETSHORT\<close>, \<^verbatim>\<open>PUTLONG\<close>, ...) and the kernel's \<^verbatim>\<open>ntohs\<close>, \<^verbatim>\<open>htonl\<close>, ... read and
  write them, and that reading inverts writing.
\<close>

definition short_of :: "u8 \<Rightarrow> u8 \<Rightarrow> u16" where
  "short_of a b = push_bit 8 (ucast a) OR ucast b"

definition bytes_of_short :: "u16 \<Rightarrow> u8 list" where
  "bytes_of_short s = [ucast (drop_bit 8 s), ucast s]"

definition long_of :: "u8 \<Rightarrow> u8 \<Rightarrow> u8 \<Rightarrow> u8 \<Rightarrow> u32" where
  "long_of a b c d = push_bit 8 (push_bit 8 (push_bit 8 (ucast a) OR ucast b) OR ucast c) OR ucast d"

definition bytes_of_long :: "u32 \<Rightarrow> u8 list" where
  "bytes_of_long l = [ucast (drop_bit 24 l), ucast (drop_bit 16 l), ucast (drop_bit 8 l), ucast l]"

lemma length_bytes_of [simp]: "length (bytes_of_short s) = 2" "length (bytes_of_long l) = 4"
  by (simp_all add: bytes_of_short_def bytes_of_long_def)

lemma short_round_trip [simp]: "short_of (ucast (drop_bit 8 s)) (ucast s) = s"
  unfolding short_of_def by (rule bit_eqI) (auto simp: bit_simps not_less)

lemma long_round_trip [simp]:
  "long_of (ucast (drop_bit 24 l)) (ucast (drop_bit 16 l)) (ucast (drop_bit 8 l)) (ucast l) = l"
proof (rule bit_word_eqI)
  fix n
  assume "n < LENGTH(32)"
  moreover have "n < 8 \<or> 8 \<le> n \<and> n < 16 \<or> 16 \<le> n \<and> n < 24 \<or> 24 \<le> n" by linarith
  ultimately show "bit (long_of (ucast (drop_bit 24 l)) (ucast (drop_bit 16 l)) (ucast (drop_bit 8 l)) (ucast l)) n = bit l n"
    by (elim disjE conjE; simp add: long_of_def bit_simps less_diff_conv2)
qed

lemma byte_high_bits: "\<not> bit (x :: u8) (8 + n)" "\<not> bit x (16 + n)" "\<not> bit x (24 + n)"
  using bit_imp_le_length [of x] by fastforce+

lemma short_bytes [simp]: "bytes_of_short (short_of a b) = [a, b]"
  unfolding bytes_of_short_def short_of_def list.inject
  by (intro conjI bit_word_eqI) (simp_all add: bit_simps byte_high_bits)

lemma long_bytes [simp]: "bytes_of_long (long_of a b c d) = [a, b, c, d]"
  unfolding bytes_of_long_def long_of_def list.inject
  by (intro conjI bit_word_eqI) (simp_all add: bit_simps byte_high_bits)

lemma short_inj: "short_of a b = short_of c d \<longleftrightarrow> a = c \<and> b = d"
  by (auto dest: arg_cong [where f = bytes_of_short])

lemma long_inj: "long_of a b c d = long_of a' b' c' d' \<longleftrightarrow> a = a' \<and> b = b' \<and> c = c' \<and> d = d'"
  by (auto dest: arg_cong [where f = bytes_of_long])

lemma two_bytes: "length d = 2 \<Longrightarrow> d = bytes_of_short (short_of (d ! 0) (d ! 1))"
  by (auto simp: length_Suc_conv numeral_eq_Suc)

lemma four_bytes: "length d = 4 \<Longrightarrow> d = bytes_of_long (long_of (d ! 0) (d ! 1) (d ! 2) (d ! 3))"
  by (auto simp: length_Suc_conv numeral_eq_Suc)

lemma eight_bytes: "length d = 8 \<Longrightarrow> d =
    bytes_of_long (long_of (d ! 0) (d ! 1) (d ! 2) (d ! 3)) @ bytes_of_long (long_of (d ! 4) (d ! 5) (d ! 6) (d ! 7))"
  by (auto simp: length_Suc_conv numeral_eq_Suc)

end
