(* ===== verification/Fcs.thy ===== *)
theory Fcs
  imports Bytes
begin

text \<open>
  The frame check sequence of PPP (\<^verbatim>\<open>src/sys/net/if_ppp.c\<close>, \<^verbatim>\<open>if_ppp.h\<close>): the table-driven
  checksum, the bitwise division it stands for, and what its receiver relies on.
\<close>

section \<open>The frame check sequence\<close>

definition fcstab :: "u16 list" where
  "fcstab =
    [0x0000, 0x1189, 0x2312, 0x329b, 0x4624, 0x57ad, 0x6536, 0x74bf, 0x8c48, 0x9dc1, 0xaf5a, 0xbed3, 0xca6c, 0xdbe5, 0xe97e, 0xf8f7,
     0x1081, 0x0108, 0x3393, 0x221a, 0x56a5, 0x472c, 0x75b7, 0x643e, 0x9cc9, 0x8d40, 0xbfdb, 0xae52, 0xdaed, 0xcb64, 0xf9ff, 0xe876,
     0x2102, 0x308b, 0x0210, 0x1399, 0x6726, 0x76af, 0x4434, 0x55bd, 0xad4a, 0xbcc3, 0x8e58, 0x9fd1, 0xeb6e, 0xfae7, 0xc87c, 0xd9f5,
     0x3183, 0x200a, 0x1291, 0x0318, 0x77a7, 0x662e, 0x54b5, 0x453c, 0xbdcb, 0xac42, 0x9ed9, 0x8f50, 0xfbef, 0xea66, 0xd8fd, 0xc974,
     0x4204, 0x538d, 0x6116, 0x709f, 0x0420, 0x15a9, 0x2732, 0x36bb, 0xce4c, 0xdfc5, 0xed5e, 0xfcd7, 0x8868, 0x99e1, 0xab7a, 0xbaf3,
     0x5285, 0x430c, 0x7197, 0x601e, 0x14a1, 0x0528, 0x37b3, 0x263a, 0xdecd, 0xcf44, 0xfddf, 0xec56, 0x98e9, 0x8960, 0xbbfb, 0xaa72,
     0x6306, 0x728f, 0x4014, 0x519d, 0x2522, 0x34ab, 0x0630, 0x17b9, 0xef4e, 0xfec7, 0xcc5c, 0xddd5, 0xa96a, 0xb8e3, 0x8a78, 0x9bf1,
     0x7387, 0x620e, 0x5095, 0x411c, 0x35a3, 0x242a, 0x16b1, 0x0738, 0xffcf, 0xee46, 0xdcdd, 0xcd54, 0xb9eb, 0xa862, 0x9af9, 0x8b70,
     0x8408, 0x9581, 0xa71a, 0xb693, 0xc22c, 0xd3a5, 0xe13e, 0xf0b7, 0x0840, 0x19c9, 0x2b52, 0x3adb, 0x4e64, 0x5fed, 0x6d76, 0x7cff,
     0x9489, 0x8500, 0xb79b, 0xa612, 0xd2ad, 0xc324, 0xf1bf, 0xe036, 0x18c1, 0x0948, 0x3bd3, 0x2a5a, 0x5ee5, 0x4f6c, 0x7df7, 0x6c7e,
     0xa50a, 0xb483, 0x8618, 0x9791, 0xe32e, 0xf2a7, 0xc03c, 0xd1b5, 0x2942, 0x38cb, 0x0a50, 0x1bd9, 0x6f66, 0x7eef, 0x4c74, 0x5dfd,
     0xb58b, 0xa402, 0x9699, 0x8710, 0xf3af, 0xe226, 0xd0bd, 0xc134, 0x39c3, 0x284a, 0x1ad1, 0x0b58, 0x7fe7, 0x6e6e, 0x5cf5, 0x4d7c,
     0xc60c, 0xd785, 0xe51e, 0xf497, 0x8028, 0x91a1, 0xa33a, 0xb2b3, 0x4a44, 0x5bcd, 0x6956, 0x78df, 0x0c60, 0x1de9, 0x2f72, 0x3efb,
     0xd68d, 0xc704, 0xf59f, 0xe416, 0x90a9, 0x8120, 0xb3bb, 0xa232, 0x5ac5, 0x4b4c, 0x79d7, 0x685e, 0x1ce1, 0x0d68, 0x3ff3, 0x2e7a,
     0xe70e, 0xf687, 0xc41c, 0xd595, 0xa12a, 0xb0a3, 0x8238, 0x93b1, 0x6b46, 0x7acf, 0x4854, 0x59dd, 0x2d62, 0x3ceb, 0x0e70, 0x1ff9,
     0xf78f, 0xe606, 0xd49d, 0xc514, 0xb1ab, 0xa022, 0x92b9, 0x8330, 0x7bc7, 0x6a4e, 0x58d5, 0x495c, 0x3de3, 0x2c6a, 0x1ef1, 0x0f78]"

definition PPP_FCS :: "u16 \<Rightarrow> u8 \<Rightarrow> u16" where
  "PPP_FCS fcs c = drop_bit 8 fcs XOR fcstab ! unat ((fcs XOR ucast c) AND 0xff)"

primrec pppfcs :: "u16 \<Rightarrow> u8 list \<Rightarrow> u16" where
  "pppfcs fcs [] = fcs"
| "pppfcs fcs (c # cs) = pppfcs (PPP_FCS fcs c) cs"

abbreviation (input) PPP_INITFCS :: u16 where "PPP_INITFCS \<equiv> 0xffff"
abbreviation (input) PPP_GOODFCS :: u16 where "PPP_GOODFCS \<equiv> 0xf0b8"

section \<open>The checksum as a division\<close>

text \<open>One bit of the division by the polynomial of CRC-CCITT, low bit first.\<close>

definition fcs_bit :: "u16 \<Rightarrow> u16" where
  "fcs_bit f = drop_bit 1 f XOR (if bit f 0 then 0x8408 else 0)"

definition fcs_byte :: "u16 \<Rightarrow> u16" where
  "fcs_byte f = (fcs_bit ^^ 8) f"

primrec crc_ccitt :: "u16 \<Rightarrow> u8 list \<Rightarrow> u16" where
  "crc_ccitt f [] = f"
| "crc_ccitt f (c # cs) = crc_ccitt (fcs_byte (f XOR ucast c)) cs"

lemma fcs_bit_xor: "fcs_bit (a XOR b) = fcs_bit a XOR fcs_bit b"
  by (rule bit_word_eqI) (auto simp: fcs_bit_def bit_simps)

lemma fcs_byte_xor: "fcs_byte (a XOR b) = fcs_byte a XOR fcs_byte b"
proof -
  have "(fcs_bit ^^ n) (a XOR b) = (fcs_bit ^^ n) a XOR (fcs_bit ^^ n) b" for n
    by (induction n) (simp_all add: fcs_bit_xor)
  then show ?thesis by (simp add: fcs_byte_def)
qed

lemma and_ff: "(x :: u16) AND 0xff = take_bit 8 x"
  by (simp add: take_bit_eq_mask mask_eq_exp_minus_1)

lemma fcs_byte_high: "fcs_byte (push_bit 8 x) = take_bit 8 x"
proof -
  have "(fcs_bit ^^ n) (push_bit 8 x) = push_bit (8 - n) (take_bit 8 x)" if "n \<le> 8" for n
    using that
  proof (induction n)
    case 0
    show ?case unfolding funpow_0 by (rule bit_word_eqI) (auto simp: bit_simps)
  next
    case (Suc n)
    then have "fcs_bit (push_bit (8 - n) (take_bit 8 x)) = push_bit (8 - Suc n) (take_bit 8 x)"
      by (intro bit_word_eqI) (auto simp: fcs_bit_def bit_simps)
    then show ?case using Suc by simp
  qed
  from this [of 8] show ?thesis by (simp add: fcs_byte_def)
qed

text \<open>The table from its entries for the powers of two.\<close>

primrec spread :: "u16 list \<Rightarrow> u16 list" where
  "spread [] = [0]"
| "spread (b # bs) = (let t = spread bs in t @ map ((XOR) b) t)"

lemma fcs_bit_steps:
  "fcs_bit 128 = 64" "fcs_bit 64 = 32" "fcs_bit 32 = 16" "fcs_bit 16 = 8" "fcs_bit 8 = 4" "fcs_bit 4 = 2" "fcs_bit 2 = 1"
  "fcs_bit 1 = 0x8408" "fcs_bit 0x8408 = 0x4204" "fcs_bit 0x4204 = 0x2102" "fcs_bit 0x2102 = 0x1081" "fcs_bit 0x1081 = 0x8c48"
  "fcs_bit 0x8c48 = 0x4624" "fcs_bit 0x4624 = 0x2312" "fcs_bit 0x2312 = 0x1189"
  by (simp_all add: fcs_bit_def bit_0)

lemma fcs_byte_powers: "map fcs_byte [128, 64, 32, 16, 8, 4, 2, 1] = [0x8408, 0x4204, 0x2102, 0x1081, 0x8c48, 0x4624, 0x2312, 0x1189]"
  by (simp add: fcs_byte_def eval_nat_numeral fcs_bit_steps)

lemma fcstab_spread: "fcstab = spread [0x8408, 0x4204, 0x2102, 0x1081, 0x8c48, 0x4624, 0x2312, 0x1189]"
  by (simp add: fcstab_def)

lemma power_xor:
  assumes "j < 2 ^ n"
  shows "(of_nat (2 ^ n + j) :: u16) = of_nat (2 ^ n) XOR of_nat j"
proof -
  have "\<not> bit j n" using assms by (metis bit_take_bit_iff less_irrefl take_bit_nat_eq_self)
  then have "(of_nat (2 ^ n) :: u16) AND of_nat j = 0"
    by (intro bit_word_eqI) (auto simp: bit_simps)
  then show ?thesis by (simp add: disjunctive_add_eq_xor)
qed

lemma length_spread: "length (spread bs) = 2 ^ length bs"
  by (induction bs) (simp_all add: Let_def)

lemma spread_nth: "i < 2 ^ n \<Longrightarrow> spread (map (\<lambda>k. fcs_byte (of_nat (2 ^ k))) (rev [0..<n])) ! i = fcs_byte (of_nat i)"
proof (induction n arbitrary: i)
  case 0
  have "fcs_byte (0 XOR 0) = fcs_byte 0 XOR fcs_byte 0" by (rule fcs_byte_xor)
  then show ?case using 0 by simp
next
  case (Suc n)
  show ?case
  proof (cases "i < 2 ^ n")
    case True
    then show ?thesis using Suc.IH by (simp add: Let_def nth_append length_spread)
  next
    case False
    then obtain j where j: "i = 2 ^ n + j" "j < 2 ^ n" using Suc.prems by (metis add_diff_inverse_nat mult_2 nat_add_left_cancel_less power_Suc)
    then have "fcs_byte (of_nat i) = fcs_byte (of_nat (2 ^ n)) XOR fcs_byte (of_nat j)" using power_xor fcs_byte_xor by metis
    then show ?thesis using Suc.IH [OF j(2)] j by (simp add: Let_def nth_append length_spread)
  qed
qed

lemma fcstab_entries: "i < 256 \<Longrightarrow> fcstab ! i = fcs_byte (of_nat i)"
  using spread_nth [of i 8] fcs_byte_powers by (simp add: fcstab_spread eval_nat_numeral)

lemma fcs_split: "(f :: u16) = push_bit 8 (drop_bit 8 f) XOR take_bit 8 f"
  by (rule bit_word_eqI) (auto simp: bit_simps)

lemma PPP_FCS_byte: "PPP_FCS f c = fcs_byte (f XOR ucast c)"
proof -
  let ?x = "f XOR ucast c"
  let ?i = "unat (?x AND 0xff)"
  have "?x AND 0xff \<le> 0xff" by (rule word_and_le1)
  then have "?i < 256" by (simp add: word_le_nat_alt)
  then have t: "fcstab ! ?i = fcs_byte (?x AND 0xff)" using fcstab_entries by simp
  have h: "drop_bit 8 ?x = drop_bit 8 f" "take_bit 8 (drop_bit 8 f) = drop_bit 8 f"
    by (rule bit_word_eqI; auto simp: bit_simps byte_high_bits dest: bit_imp_le_length)+
  have "fcs_byte ?x = fcs_byte (push_bit 8 (drop_bit 8 ?x)) XOR fcs_byte (?x AND 0xff)"
    using fcs_split [of ?x] fcs_byte_xor and_ff by metis
  then show ?thesis unfolding PPP_FCS_def t h(1) fcs_byte_high h(2) by simp
qed

text \<open>C13: the table-driven checksum is the division by the CRC-CCITT polynomial, bit by bit.\<close>

theorem pppfcs_is_crc_ccitt: "pppfcs fcs cs = crc_ccitt fcs cs"
  by (induction cs arbitrary: fcs) (simp_all add: PPP_FCS_byte)

lemma pppfcs_append [simp]: "pppfcs f (xs @ ys) = pppfcs (pppfcs f xs) ys"
  by (induction xs arbitrary: f) simp_all

text \<open>The complement of the checksum, sent low byte first, brings it to the good value.\<close>

lemma good_fcs: "pppfcs f [ucast (NOT f), ucast (drop_bit 8 (NOT f))] = PPP_GOODFCS"
proof -
  let ?lo = "ucast (ucast (NOT f) :: u8) :: u16" and ?hi = "ucast (ucast (drop_bit 8 (NOT f)) :: u8) :: u16"
  have "?hi = fcs_byte (push_bit 8 ?hi)"
    unfolding fcs_byte_high by (rule bit_word_eqI) (auto simp: bit_simps)
  then have *: "fcs_byte (fcs_byte (f XOR ?lo) XOR ?hi) = fcs_byte (fcs_byte ((f XOR ?lo) XOR push_bit 8 ?hi))"
    unfolding fcs_byte_xor [of "f XOR ?lo" "push_bit 8 ?hi"] by simp
  moreover have "(f XOR ?lo) XOR push_bit 8 ?hi = - 1" "(- 1 :: u16) = 0xffff"
    by ((rule bit_word_eqI, auto simp: bit_simps)[1]) simp
  moreover have "fcs_byte (fcs_byte 0xffff) = PPP_GOODFCS"
  proof -
    have "fcstab ! 255 = 0x0f78" "fcstab ! 135 = 0xf0b7" by (simp_all add: fcstab_def)
    then show ?thesis using PPP_FCS_byte [of "0xffff" 0] PPP_FCS_byte [of "0x0f87" 0] by (simp add: PPP_FCS_def)
  qed
  ultimately show ?thesis by (simp add: PPP_FCS_byte)
qed

end
