(* ===== verification/Slcompress.thy ===== *)
theory Slcompress
  imports Bytes "HOL-Library.Multiset"
begin

text \<open>
  Van Jacobson's TCP/IP header compression for serial lines (\<^verbatim>\<open>src/sys/net/slcompress.c\<close>),
  as compiled with \<^verbatim>\<open>SL_NO_STATS\<close>.  Packets are lists of bytes; a routine that reads
  behind the bytes it was given finds what the function \<open>junk\<close> holds there.  The saved
  headers are buffers of \<^verbatim>\<open>MAX_HDR\<close> bytes, and a copy that would not fit gives \<open>None\<close>.  The
  circular list of transmit states, ending at \<^verbatim>\<open>last_cs\<close>, is a list from the most recently
  used state to the least recently used one.
\<close>

section \<open>Headers\<close>

text \<open>Fields are read through a function from offsets to bytes; \<open>t\<close> is the offset of the TCP
  header.\<close>

type_synonym reader = "nat \<Rightarrow> u8"

definition rd :: "reader \<Rightarrow> u8 list \<Rightarrow> reader" where
  "rd junk m i = (if i < length m then m ! i else junk i)"

definition get16 :: "reader \<Rightarrow> nat \<Rightarrow> u16" where
  "get16 r i = short_of (r i) (r (i + 1))"

definition get32 :: "reader \<Rightarrow> nat \<Rightarrow> u32" where
  "get32 r i = long_of (r i) (r (i + 1)) (r (i + 2)) (r (i + 3))"

definition put :: "u8 list \<Rightarrow> nat \<Rightarrow> u8 list \<Rightarrow> u8 list" where
  "put xs i b = take i b @ xs @ drop (i + length xs) b"

abbreviation ip_hl :: "reader \<Rightarrow> nat" where "ip_hl r \<equiv> unat (r 0 AND 15)"
abbreviation ip_len :: "reader \<Rightarrow> u16" where "ip_len r \<equiv> get16 r 2"
abbreviation ip_id :: "reader \<Rightarrow> u16" where "ip_id r \<equiv> get16 r 4"
abbreviation ip_off :: "reader \<Rightarrow> u16" where "ip_off r \<equiv> get16 r 6"
abbreviation ip_p :: "reader \<Rightarrow> u8" where "ip_p r \<equiv> r 9"
abbreviation ip_src :: "reader \<Rightarrow> u32" where "ip_src r \<equiv> get32 r 12"
abbreviation ip_dst :: "reader \<Rightarrow> u32" where "ip_dst r \<equiv> get32 r 16"
abbreviation th_ports :: "reader \<Rightarrow> nat \<Rightarrow> u32" where "th_ports r t \<equiv> get32 r t"
abbreviation th_seq :: "reader \<Rightarrow> nat \<Rightarrow> u32" where "th_seq r t \<equiv> get32 r (t + 4)"
abbreviation th_ack :: "reader \<Rightarrow> nat \<Rightarrow> u32" where "th_ack r t \<equiv> get32 r (t + 8)"
abbreviation th_off :: "reader \<Rightarrow> nat \<Rightarrow> nat" where "th_off r t \<equiv> unat (drop_bit 4 (r (t + 12)))"
abbreviation th_flags :: "reader \<Rightarrow> nat \<Rightarrow> u8" where "th_flags r t \<equiv> r (t + 13)"
abbreviation th_win :: "reader \<Rightarrow> nat \<Rightarrow> u16" where "th_win r t \<equiv> get16 r (t + 14)"
abbreviation th_sum :: "reader \<Rightarrow> nat \<Rightarrow> u16" where "th_sum r t \<equiv> get16 r (t + 16)"
abbreviation th_urp :: "reader \<Rightarrow> nat \<Rightarrow> u16" where "th_urp r t \<equiv> get16 r (t + 18)"

abbreviation (input) TH_PUSH :: u8 where "TH_PUSH \<equiv> 0x08"
abbreviation (input) TH_ACK :: u8 where "TH_ACK \<equiv> 0x10"
abbreviation (input) TH_URG :: u8 where "TH_URG \<equiv> 0x20"
abbreviation (input) IPPROTO_TCP :: u8 where "IPPROTO_TCP \<equiv> 6"

section \<open>State\<close>

abbreviation (input) MAX_STATES :: nat where "MAX_STATES \<equiv> 16"
abbreviation (input) MAX_HDR :: nat where "MAX_HDR \<equiv> 108"

datatype sltype = TYPE_IP | TYPE_UNCOMPRESSED_TCP | TYPE_COMPRESSED_TCP | TYPE_ERROR

record cstate =
  cs_hlen :: nat
  cs_id :: u8
  cs_hdr :: "u8 list"

record slcompress =
  last_recv :: u8
  last_xmit :: u8
  toss :: bool
  tstate :: "cstate list"
  rstate :: "cstate list"

abbreviation saved :: "cstate \<Rightarrow> reader" where "saved c \<equiv> (!) (cs_hdr c)"

definition sl_compress_init :: slcompress where
  "sl_compress_init =
     (let cs = (\<lambda>i. \<lparr>cs_hlen = 0, cs_id = i, cs_hdr = replicate MAX_HDR 0\<rparr>) in
      \<lparr>last_recv = 255, last_xmit = 255, toss = True,
       tstate = map (\<lambda>i. cs (of_nat i)) (rev [1..<MAX_STATES]) @ [cs 0],
       rstate = replicate MAX_STATES (cs 0)\<rparr>)"

section \<open>Compressing\<close>

abbreviation (input) NEW_C :: u8 where "NEW_C \<equiv> 0x40"
abbreviation (input) NEW_I :: u8 where "NEW_I \<equiv> 0x20"
abbreviation (input) TCP_PUSH_BIT :: u8 where "TCP_PUSH_BIT \<equiv> 0x10"
abbreviation (input) NEW_S :: u8 where "NEW_S \<equiv> 0x08"
abbreviation (input) NEW_A :: u8 where "NEW_A \<equiv> 0x04"
abbreviation (input) NEW_W :: u8 where "NEW_W \<equiv> 0x02"
abbreviation (input) NEW_U :: u8 where "NEW_U \<equiv> 0x01"
abbreviation (input) SPECIAL_I :: u8 where "SPECIAL_I \<equiv> 0x0b"
abbreviation (input) SPECIAL_D :: u8 where "SPECIAL_D \<equiv> 0x0f"
abbreviation (input) SPECIALS_MASK :: u8 where "SPECIALS_MASK \<equiv> 0x0f"

definition long_form :: "u16 \<Rightarrow> u8 list" where
  "long_form n = 0 # bytes_of_short n"

definition ENCODE :: "u16 \<Rightarrow> u8 list" where
  "ENCODE n = (if n \<ge> 256 then long_form n else [ucast n])"

definition ENCODEZ :: "u16 \<Rightarrow> u8 list" where
  "ENCODEZ n = (if n \<ge> 256 \<or> n = 0 then long_form n else [ucast n])"

text \<open>The test of a state against the packet's addresses and ports.\<close>

definition same_conn :: "reader \<Rightarrow> nat \<Rightarrow> cstate \<Rightarrow> bool" where
  "same_conn r t c \<longleftrightarrow> ip_src r = ip_src (saved c) \<and> ip_dst r = ip_dst (saved c) \<and>
     th_ports r t = th_ports (saved c) (4 * ip_hl (saved c))"

text \<open>The first element tried is the head of the list; the one found, or else the last one, is
  moved to the front.\<close>

definition locate :: "(cstate \<Rightarrow> bool) \<Rightarrow> cstate list \<Rightarrow> bool \<times> cstate list" where
  "locate P cs =
     (case dropWhile (\<lambda>c. \<not> P c) cs of
        c # post \<Rightarrow> (True, c # takeWhile (\<lambda>c. \<not> P c) cs @ post)
      | [] \<Rightarrow> (False, last cs # butlast cs))"

text \<open>Only what is expected to change has changed.\<close>

definition same_rest :: "reader \<Rightarrow> reader \<Rightarrow> nat \<Rightarrow> nat \<Rightarrow> bool" where
  "same_rest r h t hlen \<longleftrightarrow> get16 r 0 = get16 h 0 \<and> get16 r 6 = get16 h 6 \<and> get16 r 8 = get16 h 8 \<and> th_off r t = th_off h t \<and>
     map r [20..<t] = map h [20..<t] \<and> map r [t + 20..<hlen] = map h [t + 20..<hlen]"

text \<open>The changing fields, in the order urgent pointer, window, acknowledgement, sequence
  number: the change mask, the encoded changes, and the differences of sequence number
  and acknowledgement.  \<open>None\<close> is \<^verbatim>\<open>goto uncompressed\<close>.\<close>

definition urgent_change :: "reader \<Rightarrow> reader \<Rightarrow> nat \<Rightarrow> (u8 \<times> u8 list) option" where
  "urgent_change r h t =
     (if th_flags r t AND TH_URG \<noteq> 0 then Some (NEW_U, ENCODEZ (th_urp r t))
      else if th_urp r t \<noteq> th_urp h t then None
      else Some (0, []))"

definition window_change :: "reader \<Rightarrow> reader \<Rightarrow> nat \<Rightarrow> u8 \<times> u8 list" where
  "window_change r h t = (let d = th_win r t - th_win h t in if d \<noteq> 0 then (NEW_W, ENCODE d) else (0, []))"

definition long_change :: "u8 \<Rightarrow> u32 \<Rightarrow> (u8 \<times> u8 list) option" where
  "long_change b d = (if d = 0 then Some (0, []) else if d > 0xffff then None else Some (b, ENCODE (ucast d)))"

definition field_changes :: "reader \<Rightarrow> reader \<Rightarrow> nat \<Rightarrow> (u8 \<times> u8 list) option" where
  "field_changes r h t =
     (case urgent_change r h t of None \<Rightarrow> None
      | Some (u, us) \<Rightarrow>
          let (w, ws) = window_change r h t in
          (case long_change NEW_A (th_ack r t - th_ack h t) of None \<Rightarrow> None
           | Some (a, as) \<Rightarrow>
               (case long_change NEW_S (th_seq r t - th_seq h t) of None \<Rightarrow> None
                | Some (s, ss) \<Rightarrow> Some (u OR w OR a OR s, us @ ws @ as @ ss))))"

definition special_case :: "reader \<Rightarrow> reader \<Rightarrow> nat \<Rightarrow> nat \<Rightarrow> u8 \<times> u8 list \<Rightarrow> (u8 \<times> u8 list) option" where
  "special_case r h t hlen cs =
     (let (changes, new_seq) = cs; dS = th_seq r t - th_seq h t; dA = th_ack r t - th_ack h t;
          sent = ucast (ip_len h) - of_nat hlen in
      if changes = 0 then (if ip_len r \<noteq> ip_len h \<and> unat (ip_len h) = hlen then Some cs else None)
      else if changes = SPECIAL_I \<or> changes = SPECIAL_D then None
      else if changes = NEW_S OR NEW_A then Some (if dS = dA \<and> dS = sent then (SPECIAL_I, []) else cs)
      else if changes = NEW_S then Some (if dS = sent then (SPECIAL_D, []) else cs)
      else Some cs)"

definition id_push_changes :: "reader \<Rightarrow> reader \<Rightarrow> nat \<Rightarrow> u8 \<times> u8 list \<Rightarrow> u8 \<times> u8 list" where
  "id_push_changes r h t cs =
     (let (changes, new_seq) = cs; d = ucast (ip_id r) - ucast (ip_id h) :: u32;
          (changes, new_seq) = (if d \<noteq> 1 then (changes OR NEW_I, new_seq @ ENCODEZ (ucast d)) else (changes, new_seq)) in
      (if th_flags r t AND TH_PUSH \<noteq> 0 then changes OR TCP_PUSH_BIT else changes, new_seq))"

definition header_changes :: "reader \<Rightarrow> reader \<Rightarrow> nat \<Rightarrow> nat \<Rightarrow> (u8 \<times> u8 list) option" where
  "header_changes r h t hlen =
     (if \<not> same_rest r h t hlen then None
      else case field_changes r h t of None \<Rightarrow> None
        | Some cs \<Rightarrow> map_option (id_push_changes r h t) (special_case r h t hlen cs))"

text \<open>\<^verbatim>\<open>BCOPY(ip, &cs->cs_ip, hlen)\<close>\<close>

definition save_hdr :: "reader \<Rightarrow> nat \<Rightarrow> cstate \<Rightarrow> cstate" where
  "save_hdr r hlen c = c\<lparr>cs_hdr := put (map r [0..<hlen]) 0 (cs_hdr c)\<rparr>"

definition sl_compress_tcp :: "reader \<Rightarrow> bool \<Rightarrow> u8 list \<Rightarrow> slcompress \<Rightarrow> (sltype \<times> u8 list \<times> slcompress) option" where
  "sl_compress_tcp junk compress_cid m sc =
     (let r = rd junk m; t = 4 * ip_hl r; hlen = t + 4 * th_off r t in
      if ip_off r AND 0x3fff \<noteq> 0 \<or> length m < 40 then Some (TYPE_IP, m, sc)
      else if th_flags r t AND 0x17 \<noteq> TH_ACK then Some (TYPE_IP, m, sc)
      else
        (case locate (same_conn r t) (tstate sc) of
           (found, []) \<Rightarrow> None
         | (found, c # cs) \<Rightarrow>
             let sc = sc\<lparr>tstate := c # cs\<rparr> in
             if hlen > length m then Some (TYPE_IP, m, sc)
             else if hlen > MAX_HDR then None
             else
               let sc = sc\<lparr>tstate := save_hdr r hlen c # cs\<rparr> in
               (case (if found then header_changes r (saved c) t hlen else None) of
                  None \<Rightarrow> Some (TYPE_UNCOMPRESSED_TCP, m[9 := cs_id c], sc\<lparr>last_xmit := cs_id c\<rparr>)
                | Some (changes, new_seq) \<Rightarrow>
                    let rest = bytes_of_short (th_sum r t) @ new_seq @ drop hlen m in
                    if \<not> compress_cid \<or> last_xmit sc \<noteq> cs_id c
                    then Some (TYPE_COMPRESSED_TCP, (changes OR NEW_C) # cs_id c # rest, sc\<lparr>last_xmit := cs_id c\<rparr>)
                    else Some (TYPE_COMPRESSED_TCP, changes # rest, sc))))"

section \<open>Uncompressing\<close>

text \<open>The number at \<^verbatim>\<open>cp\<close>, and \<^verbatim>\<open>cp\<close> behind it: \<^verbatim>\<open>DECODEU\<close>; \<^verbatim>\<open>DECODES\<close> and \<^verbatim>\<open>DECODEL\<close> add it to a
  field.\<close>

definition DECODE :: "reader \<Rightarrow> nat \<Rightarrow> u16 \<times> nat" where
  "DECODE r cp = (if r cp = 0 then (get16 r (cp + 1), cp + 3) else (ucast (r cp), cp + 1))"

definition DECODEU :: "nat \<Rightarrow> reader \<Rightarrow> u8 list \<times> nat \<Rightarrow> u8 list \<times> nat" where
  "DECODEU i r s = (let (h, cp) = s; (v, cp) = DECODE r cp in (put (bytes_of_short v) i h, cp))"

definition DECODES :: "nat \<Rightarrow> reader \<Rightarrow> u8 list \<times> nat \<Rightarrow> u8 list \<times> nat" where
  "DECODES i r s = (let (h, cp) = s; (v, cp) = DECODE r cp in (put (bytes_of_short (get16 ((!) h) i + v)) i h, cp))"

definition DECODEL :: "nat \<Rightarrow> reader \<Rightarrow> u8 list \<times> nat \<Rightarrow> u8 list \<times> nat" where
  "DECODEL i r s = (let (h, cp) = s; (v, cp) = DECODE r cp in (put (bytes_of_long (get32 ((!) h) i + ucast v)) i h, cp))"

definition set_flag :: "nat \<Rightarrow> u8 \<Rightarrow> bool \<Rightarrow> u8 list \<Rightarrow> u8 list" where
  "set_flag t f b h = h[t + 13 := (if b then h ! (t + 13) OR f else h ! (t + 13) AND NOT f)]"

definition add32 :: "u32 \<Rightarrow> nat \<Rightarrow> u8 list \<Rightarrow> u8 list" where
  "add32 d i h = put (bytes_of_long (get32 ((!) h) i + d)) i h"

text \<open>The switch on the special cases.\<close>

definition decode_changes :: "reader \<Rightarrow> u8 \<Rightarrow> nat \<Rightarrow> nat \<Rightarrow> u8 list \<times> nat \<Rightarrow> u8 list \<times> nat" where
  "decode_changes r changes t hlen s =
     (let (h, cp) = s; sent = ucast (ip_len ((!) h)) - of_nat hlen :: u32 in
      if changes AND SPECIALS_MASK = SPECIAL_I then (add32 sent (t + 4) (add32 sent (t + 8) h), cp)
      else if changes AND SPECIALS_MASK = SPECIAL_D then (add32 sent (t + 4) h, cp)
      else
        let s = (if changes AND NEW_U \<noteq> 0 then DECODEU (t + 18) r (set_flag t TH_URG True h, cp) else (set_flag t TH_URG False h, cp));
            s = (if changes AND NEW_W \<noteq> 0 then DECODES (t + 14) r s else s);
            s = (if changes AND NEW_A \<noteq> 0 then DECODEL (t + 8) r s else s) in
        if changes AND NEW_S \<noteq> 0 then DECODEL (t + 4) r s else s)"

definition decode_id :: "reader \<Rightarrow> u8 \<Rightarrow> u8 list \<times> nat \<Rightarrow> u8 list \<times> nat" where
  "decode_id r changes s =
     (if changes AND NEW_I \<noteq> 0 then DECODES 4 r s
      else case s of (h, cp) \<Rightarrow> (put (bytes_of_short (get16 ((!) h) 4 + 1)) 4 h, cp))"

text \<open>The header checksum, over the 16-bit words as the little-endian machine reads them.\<close>

fun sum_words :: "u8 list \<Rightarrow> u32" where
  "sum_words (a # b # xs) = ucast (short_of b a) + sum_words xs"
| "sum_words _ = 0"

definition ip_cksum :: "u8 list \<Rightarrow> u8 list" where
  "ip_cksum h =
     (let s = sum_words h; s = (s AND 0xffff) + drop_bit 16 s; s = (s AND 0xffff) + drop_bit 16 s in
      rev (bytes_of_short (NOT (ucast s))))"

definition rebuild :: "reader \<Rightarrow> u8 \<Rightarrow> nat \<Rightarrow> cstate \<Rightarrow> u8 list \<times> nat" where
  "rebuild r changes cp c =
     (let t = 4 * ip_hl (saved c);
          h = put [r cp, r (cp + 1)] (t + 16) (cs_hdr c);
          h = set_flag t TH_PUSH (changes AND TCP_PUSH_BIT \<noteq> 0) h in
      decode_id r changes (decode_changes r changes t (cs_hlen c) (h, cp + 2)))"

text \<open>The result is the packet and its length, or nothing for a packet that is dropped.\<close>

definition bad :: "slcompress \<Rightarrow> ((u8 list \<times> nat) option \<times> slcompress) option" where
  "bad sc = Some (None, sc\<lparr>toss := True\<rparr>)"

definition uncompressed_in :: "reader \<Rightarrow> u8 list \<Rightarrow> nat \<Rightarrow> slcompress \<Rightarrow> ((u8 list \<times> nat) option \<times> slcompress) option" where
  "uncompressed_in junk buf total_len sc =
     (let r = rd junk buf; n = ip_p r in
      if unat n \<ge> MAX_STATES then bad sc
      else
        let r = r(9 := IPPROTO_TCP); t = 4 * ip_hl r; hlen = t + 4 * th_off r t in
        if hlen > MAX_HDR then None
        else
          let c = save_hdr r hlen (rstate sc ! unat n);
              c = c\<lparr>cs_hdr := put [0, 0] 10 (cs_hdr c), cs_hlen := hlen\<rparr> in
          Some (Some (buf[9 := IPPROTO_TCP], total_len),
            sc\<lparr>last_recv := n, toss := False, rstate := (rstate sc)[unat n := c]\<rparr>))"

text \<open>The move of the data to an aligned address changes no byte of the packet.\<close>

definition compressed_in :: "reader \<Rightarrow> u8 list \<Rightarrow> nat \<Rightarrow> slcompress \<Rightarrow> ((u8 list \<times> nat) option \<times> slcompress) option" where
  "compressed_in junk buf total_len sc =
     (let r = rd junk buf; changes = r 0 in
      if changes AND NEW_C \<noteq> 0 \<and> unat (r 1) \<ge> MAX_STATES then bad sc
      else if changes AND NEW_C = 0 \<and> toss sc then Some (None, sc)
      else
        let (sc, cp) = (if changes AND NEW_C \<noteq> 0 then (sc\<lparr>toss := False, last_recv := r 1\<rparr>, 2) else (sc, 1)) in
        if unat (last_recv sc) \<ge> length (rstate sc) then None
        else
          let i = unat (last_recv sc); c = rstate sc ! i;
              (h, cp) = rebuild r changes cp c in
          if length buf < cp then bad (sc\<lparr>rstate := (rstate sc)[i := c\<lparr>cs_hdr := h\<rparr>]\<rparr>)
          else
            let total_len = total_len - cp + cs_hlen c;
                h = put (bytes_of_short (of_nat total_len)) 2 h;
                sc = sc\<lparr>rstate := (rstate sc)[i := c\<lparr>cs_hdr := h\<rparr>]\<rparr>;
                pkt = take (cs_hlen c) h @ drop cp buf;
                sum = ip_cksum (map (rd junk pkt) [0..<4 * ip_hl (saved c)]) in
            Some (Some (pkt[10 := sum ! 0, 11 := sum ! 1], total_len), sc))"

definition sl_uncompress_tcp_part ::
    "reader \<Rightarrow> u8 list \<Rightarrow> nat \<Rightarrow> sltype \<Rightarrow> slcompress \<Rightarrow> ((u8 list \<times> nat) option \<times> slcompress) option" where
  "sl_uncompress_tcp_part junk buf total_len type sc =
     (case type of
        TYPE_UNCOMPRESSED_TCP \<Rightarrow> uncompressed_in junk buf total_len sc
      | TYPE_COMPRESSED_TCP \<Rightarrow> compressed_in junk buf total_len sc
      | _ \<Rightarrow> bad sc)"

definition sl_uncompress_tcp :: "reader \<Rightarrow> u8 list \<Rightarrow> sltype \<Rightarrow> slcompress \<Rightarrow> ((u8 list \<times> nat) option \<times> slcompress) option" where
  "sl_uncompress_tcp junk buf type sc = sl_uncompress_tcp_part junk buf (length buf) type sc"

section \<open>Reading back\<close>

text \<open>The bytes \<open>xs\<close> stand at offset \<open>cp\<close>.\<close>

definition holds :: "reader \<Rightarrow> nat \<Rightarrow> u8 list \<Rightarrow> bool" where
  "holds r cp xs \<longleftrightarrow> (\<forall>i < length xs. r (cp + i) = xs ! i)"

lemma holds_Nil [simp]: "holds r cp []"
  by (simp add: holds_def)

lemma holds_Cons [simp]: "holds r cp (x # xs) \<longleftrightarrow> r cp = x \<and> holds r (cp + 1) xs"
  by (auto simp: holds_def less_Suc_eq_0_disj)

lemma holds_append [simp]: "holds r cp (xs @ ys) \<longleftrightarrow> holds r cp xs \<and> holds r (cp + length xs) ys"
  by (induction xs arbitrary: cp) (auto simp: add.assoc)

lemma rd_in [simp]: "i < length m \<Longrightarrow> rd junk m i = m ! i"
  by (simp add: rd_def)

lemma holds_rd: "holds (rd junk (pre @ xs @ post)) (length pre) xs"
  by (simp add: holds_def rd_def nth_append)

lemma small_byte:
  assumes "\<not> (256 :: u16) \<le> n"
  shows "ucast (ucast n :: u8) = n"
proof -
  have "unat n < 256" using assms by (simp add: word_le_nat_alt)
  then show ?thesis by (simp add: word_unat_eq_iff unsigned_ucast_eq unsigned_take_bit_eq take_bit_nat_eq_self)
qed

lemma small_byte_zero: "\<not> (256 :: u16) \<le> n \<Longrightarrow> (ucast n :: u8) = 0 \<Longrightarrow> n = 0"
  by (metis small_byte unsigned_0)

lemma decode_long: "holds r cp (long_form n) \<Longrightarrow> DECODE r cp = (n, cp + length (long_form n))"
  by (simp add: long_form_def DECODE_def bytes_of_short_def get16_def)

lemma decode_ENCODEZ: "holds r cp (ENCODEZ n) \<Longrightarrow> DECODE r cp = (n, cp + length (ENCODEZ n))"
  using decode_long [of r cp n] small_byte_zero [of n] small_byte [of n]
  by (auto simp: ENCODEZ_def DECODE_def split: if_splits)

lemma decode_ENCODE: "holds r cp (ENCODE n) \<Longrightarrow> n \<noteq> 0 \<Longrightarrow> DECODE r cp = (n, cp + length (ENCODE n))"
  using decode_long [of r cp n] small_byte_zero [of n] small_byte [of n]
  by (auto simp: ENCODE_def DECODE_def split: if_splits)

section \<open>Headers taken apart\<close>

lemma twenty: "20 \<le> length xs \<Longrightarrow> \<exists>x0 x1 x2 x3 x4 x5 x6 x7 x8 x9 x10 x11 x12 x13 x14 x15 x16 x17 x18 x19 ys.
    xs = [x0, x1, x2, x3, x4, x5, x6, x7, x8, x9, x10, x11, x12, x13, x14, x15, x16, x17, x18, x19] @ ys"
  by (auto simp: Suc_le_length_iff numeral_eq_Suc)

lemma put_app: "put xs (length A + k) (A @ B) = A @ put xs k B"
  by (simp add: put_def add.assoc)

lemma change_bits:
  assumes "u \<in> {0, NEW_U}" "w \<in> {0, NEW_W}" "a \<in> {0, NEW_A}" "s \<in> {0, NEW_S}" "i \<in> {0, NEW_I}" "p \<in> {0, TCP_PUSH_BIT}" "c \<in> {0, NEW_C}"
    "x = u OR w OR a OR s OR i OR p OR c"
  shows "x AND NEW_U = u" "x AND NEW_W = w" "x AND NEW_A = a" "x AND NEW_S = s" "x AND NEW_I = i" "x AND TCP_PUSH_BIT = p" "x AND NEW_C = c"
    "x AND SPECIALS_MASK = (u OR w OR a OR s)"
proof -
  have "u AND NEW_U = u" "u AND NEW_W = 0" "u AND NEW_A = 0" "u AND NEW_S = 0" "u AND NEW_I = 0" "u AND TCP_PUSH_BIT = 0" "u AND NEW_C = 0" "u AND SPECIALS_MASK = u"
    using assms(1) by auto
  moreover have "w AND NEW_U = 0" "w AND NEW_W = w" "w AND NEW_A = 0" "w AND NEW_S = 0" "w AND NEW_I = 0" "w AND TCP_PUSH_BIT = 0" "w AND NEW_C = 0" "w AND SPECIALS_MASK = w"
    using assms(2) by auto
  moreover have "a AND NEW_U = 0" "a AND NEW_W = 0" "a AND NEW_A = a" "a AND NEW_S = 0" "a AND NEW_I = 0" "a AND TCP_PUSH_BIT = 0" "a AND NEW_C = 0" "a AND SPECIALS_MASK = a"
    using assms(3) by auto
  moreover have "s AND NEW_U = 0" "s AND NEW_W = 0" "s AND NEW_A = 0" "s AND NEW_S = s" "s AND NEW_I = 0" "s AND TCP_PUSH_BIT = 0" "s AND NEW_C = 0" "s AND SPECIALS_MASK = s"
    using assms(4) by auto
  moreover have "i AND NEW_U = 0" "i AND NEW_W = 0" "i AND NEW_A = 0" "i AND NEW_S = 0" "i AND NEW_I = i" "i AND TCP_PUSH_BIT = 0" "i AND NEW_C = 0" "i AND SPECIALS_MASK = 0"
    using assms(5) by auto
  moreover have "p AND NEW_U = 0" "p AND NEW_W = 0" "p AND NEW_A = 0" "p AND NEW_S = 0" "p AND NEW_I = 0" "p AND TCP_PUSH_BIT = p" "p AND NEW_C = 0" "p AND SPECIALS_MASK = 0"
    using assms(6) by auto
  moreover have "c AND NEW_U = 0" "c AND NEW_W = 0" "c AND NEW_A = 0" "c AND NEW_S = 0" "c AND NEW_I = 0" "c AND TCP_PUSH_BIT = 0" "c AND NEW_C = c" "c AND SPECIALS_MASK = 0"
    using assms(7) by auto
  ultimately show "x AND NEW_U = u" "x AND NEW_W = w" "x AND NEW_A = a" "x AND NEW_S = s" "x AND NEW_I = i" "x AND TCP_PUSH_BIT = p" "x AND NEW_C = c"
    "x AND SPECIALS_MASK = (u OR w OR a OR s)"
    unfolding assms(8) by (simp_all only: bit.conj_disj_distrib2 or.left_neutral or.right_neutral)
qed

text \<open>A TCP/IP header as the theorems expect it: lengths as its fields say, no reserved bits,
  and an urgent pointer that is zero exactly when it is not in use.\<close>

definition tcp_header :: "u8 list \<Rightarrow> u8 list \<Rightarrow> bool" where
  "tcp_header A B \<longleftrightarrow> 20 \<le> length A \<and> length A = 4 * unat (A ! 0 AND 15) \<and> 20 \<le> length B \<and> length B = 4 * unat (drop_bit 4 (B ! 12)) \<and>
     length A + length B \<le> MAX_HDR \<and> A ! 9 = IPPROTO_TCP \<and> B ! 12 AND 15 = 0 \<and> B ! 13 AND 0xc0 = 0 \<and>
     (B ! 13 AND TH_URG \<noteq> 0 \<longleftrightarrow> get16 ((!) B) 18 \<noteq> 0)"

definition compressible :: "u8 list \<Rightarrow> bool" where
  "compressible B \<longleftrightarrow> B ! 13 AND 0x17 = TH_ACK"

lemma word8_bits: "(x :: u8) = y \<longleftrightarrow> (\<forall>n < 8. bit x n = bit y n)"
  by (auto intro: bit_word_eqI)

lemma flags_cases:
  assumes "x AND 0xc0 = (0 :: u8)" "x AND 0x17 = 0x10"
  shows "x = (0x10 OR (x AND TH_PUSH) OR (x AND TH_URG))"
proof -
  have "x = (x AND 0xc0) OR (x AND 0x17) OR (x AND TH_PUSH) OR (x AND TH_URG)"
    by (rule bit_word_eqI) (auto simp: bit_simps less_Suc_eq numeral_eq_Suc)
  then show ?thesis using assms by simp
qed

lemma masked_bit: "(x :: u8) AND 0x08 \<in> {0, 0x08}" "x AND 0x20 \<in> {0, 0x20}"
  by (cases "bit x 3"; cases "bit x 5"; auto intro!: bit_word_eqI simp: bit_simps less_Suc_eq numeral_eq_Suc)+

section \<open>The changes decoded\<close>

lemma nth_app: "(A @ B) ! (length A + k) = B ! k"
  by simp

lemma get_app: "get16 ((!) (A @ B)) (length A + k) = get16 ((!) B) k" "get32 ((!) (A @ B)) (length A + k) = get32 ((!) B) k"
  by (simp_all only: get16_def get32_def add.assoc nth_append_length_plus)

lemma list_update_app: "(A @ B)[length A + k := x] = A @ B[k := x]"
  by (simp add: list_update_append)

lemmas header_ops = put_app get_app nth_app list_update_app

text \<open>The steps of the decoder on the fixed part of the TCP header.\<close>

lemma decode_urgent:
  assumes "urgent_change r h t = Some (u, us)" "holds r2 cp us" "t = length A"
    "th_urp r t = short_of b18 b19" "th_urp h t = short_of c18 c19"
    "T = [c0, c1, c2, c3, c4, c5, c6, c7, c8, c9, c10, c11, c12, f, c14, c15, s0, s1, c18, c19] @ co"
  shows "(if u \<noteq> 0 then DECODEU (t + 18) r2 (set_flag t TH_URG True (A @ T), cp) else (set_flag t TH_URG False (A @ T), cp)) =
    (A @ [c0, c1, c2, c3, c4, c5, c6, c7, c8, c9, c10, c11, c12, if th_flags r t AND TH_URG \<noteq> 0 then f OR TH_URG else f AND NOT TH_URG,
       c14, c15, s0, s1, b18, b19] @ co, cp + length us)" "u = (if th_flags r t AND TH_URG \<noteq> 0 then NEW_U else 0)"
proof -
  have eq: "th_flags r t AND TH_URG = 0 \<Longrightarrow> b18 = c18 \<and> b19 = c19"
    using assms(1,4,5) by (simp add: urgent_change_def short_inj split: if_splits)
  show "u = (if th_flags r t AND TH_URG \<noteq> 0 then NEW_U else 0)" using assms(1) by (auto simp: urgent_change_def split: if_splits)
  show "(if u \<noteq> 0 then DECODEU (t + 18) r2 (set_flag t TH_URG True (A @ T), cp) else (set_flag t TH_URG False (A @ T), cp)) =
    (A @ [c0, c1, c2, c3, c4, c5, c6, c7, c8, c9, c10, c11, c12, if th_flags r t AND TH_URG \<noteq> 0 then f OR TH_URG else f AND NOT TH_URG,
       c14, c15, s0, s1, b18, b19] @ co, cp + length us)"
  proof (cases "th_flags r t AND TH_URG = 0")
    case True
    then show ?thesis using assms(1) eq by (auto simp: urgent_change_def set_flag_def header_ops assms(3,6) split: if_splits)
  next
    case False
    then have u: "u = NEW_U" "us = ENCODEZ (short_of b18 b19)" using assms(1,4) by (simp_all add: urgent_change_def)
    have "DECODE r2 cp = (short_of b18 b19, cp + length us)" using decode_ENCODEZ assms(2) by (simp add: u)
    then show ?thesis using False by (simp add: u(1) DECODEU_def set_flag_def header_ops assms(3,6) put_def)
  qed
qed

lemma decode_window:
  assumes "window_change r h t = (w, ws)" "holds r2 cp ws" "t = length A"
    "th_win r t = short_of b14 b15" "th_win h t = short_of c14 c15"
    "T = [c0, c1, c2, c3, c4, c5, c6, c7, c8, c9, c10, c11, c12, f, c14, c15, s0, s1, c18, c19] @ co"
  shows "(if w \<noteq> 0 then DECODES (t + 14) r2 (A @ T, cp) else (A @ T, cp)) =
    (A @ [c0, c1, c2, c3, c4, c5, c6, c7, c8, c9, c10, c11, c12, f, b14, b15, s0, s1, c18, c19] @ co, cp + length ws)"
proof (cases "th_win r t - th_win h t = 0")
  case True
  then have "b14 = c14 \<and> b15 = c15" using assms(4,5) by (simp add: short_inj)
  then show ?thesis using assms(1) True by (auto simp: window_change_def assms(6))
next
  case False
  let ?d = "short_of b14 b15 - short_of c14 c15"
  have w: "w = NEW_W" "ws = ENCODE ?d" "?d \<noteq> 0" using assms(1,4,5) False by (auto simp: window_change_def Let_def)
  have "DECODE r2 cp = (?d, cp + length ws)" using decode_ENCODE assms(2) w by simp
  moreover have "get16 ((!) T) 14 = short_of c14 c15" by (simp add: assms(6) get16_def)
  moreover have "put [b14, b15] 14 T = [c0, c1, c2, c3, c4, c5, c6, c7, c8, c9, c10, c11, c12, f, b14, b15, s0, s1, c18, c19] @ co"
    by (simp add: assms(6) put_def)
  ultimately show ?thesis by (simp add: w(1) DECODES_def header_ops assms(3))
qed

lemma long_change_cases:
  assumes "long_change b d = Some (x, xs)"
  obtains "d = 0" "x = 0" "xs = []" | "d \<noteq> 0" "x = b" "xs = ENCODE (ucast d)" "(ucast (ucast d :: u16) :: u32) = d" "(ucast d :: u16) \<noteq> 0"
proof (cases "d = 0")
  case True
  then show ?thesis using assms that(1) by (auto simp: long_change_def)
next
  case False
  then have d: "d \<le> 0xffff" "x = b" "xs = ENCODE (ucast d)" using assms by (auto simp: long_change_def split: if_splits)
  then have "unat d < 2 ^ 16" by (simp add: word_le_nat_alt)
  then have e: "(ucast (ucast d :: u16) :: u32) = d" by (simp add: word_unat_eq_iff unsigned_ucast_eq unsigned_take_bit_eq take_bit_nat_eq_self)
  then have "(ucast d :: u16) \<noteq> 0" using False by (metis unsigned_0)
  with d e False show ?thesis using that(2) by blast
qed

lemma decode_longs:
  assumes "long_change b d = Some (x, xs)" "holds r2 cp xs" "b \<noteq> 0"
  shows "(if x \<noteq> 0 then DECODEL i r2 (H, cp) else (H, cp)) = (if d = 0 then H else add32 d i H, cp + length xs)"
  using assms(1)
proof (cases rule: long_change_cases)
  case 1
  then show ?thesis by simp
next
  case 2
  then have "DECODE r2 cp = (ucast d, cp + length xs)" using decode_ENCODE assms(2) by simp
  then show ?thesis using 2 assms(3) by (simp add: DECODEL_def add32_def)
qed

lemma add32_at:
  assumes "length pre = i" "d = long_of b0 b1 b2 b3 - long_of c0 c1 c2 c3"
  shows "(if d = 0 then pre @ [c0, c1, c2, c3] @ post else add32 d i (pre @ [c0, c1, c2, c3] @ post)) = pre @ [b0, b1, b2, b3] @ post"
proof -
  have g: "get32 ((!) (pre @ [c0, c1, c2, c3] @ post)) i = long_of c0 c1 c2 c3"
    using get_app(2) [of pre "[c0, c1, c2, c3] @ post" 0] assms(1) by (simp add: get32_def)
  show ?thesis
  proof (cases "d = 0")
    case True
    then have "long_of b0 b1 b2 b3 = long_of c0 c1 c2 c3" using assms(2) by simp
    then show ?thesis using True by (simp add: long_inj)
  next
    case False
    then show ?thesis using assms by (simp add: add32_def g put_def del: append_Cons)
  qed
qed

lemma decode_long_at:
  assumes "long_change b d = Some (x, xs)" "holds r2 cp xs" "b \<noteq> 0" "length pre = i" "d = long_of b0 b1 b2 b3 - long_of c0 c1 c2 c3"
  shows "(if x \<noteq> 0 then DECODEL i r2 (pre @ [c0, c1, c2, c3] @ post, cp) else (pre @ [c0, c1, c2, c3] @ post, cp)) =
    (pre @ [b0, b1, b2, b3] @ post, cp + length xs)"
  unfolding decode_longs [OF assms(1,2,3)] add32_at [OF assms(4,5)] ..

text \<open>What the fields of the packet and of the saved header are.\<close>

definition tcp_fields :: "reader \<Rightarrow> nat \<Rightarrow> u8 list \<Rightarrow> bool" where
  "tcp_fields r t B \<longleftrightarrow> (\<forall>k < length B. r (t + k) = B ! k)"

lemma tcp_fields_get:
  assumes "tcp_fields r t ([b0, b1, b2, b3, b4, b5, b6, b7, b8, b9, b10, b11, b12, b13, b14, b15, b16, b17, b18, b19] @ bo)"
  shows "th_ports r t = long_of b0 b1 b2 b3" "th_seq r t = long_of b4 b5 b6 b7" "th_ack r t = long_of b8 b9 b10 b11"
    "r (t + 12) = b12" "th_flags r t = b13" "th_win r t = short_of b14 b15" "th_sum r t = short_of b16 b17" "th_urp r t = short_of b18 b19"
proof -
  let ?B = "[b0, b1, b2, b3, b4, b5, b6, b7, b8, b9, b10, b11, b12, b13, b14, b15, b16, b17, b18, b19] @ bo"
  have r: "r (t + k) = ?B ! k" if "k < 20" for k using assms that by (simp add: tcp_fields_def)
  show "th_ports r t = long_of b0 b1 b2 b3" using r [of 0] r [of 1] r [of 2] r [of 3] by (simp add: get32_def ac_simps)
  show "th_seq r t = long_of b4 b5 b6 b7" using r [of 4] r [of 5] r [of 6] r [of 7] by (simp add: get32_def ac_simps)
  show "th_ack r t = long_of b8 b9 b10 b11" using r [of 8] r [of 9] r [of 10] r [of 11] by (simp add: get32_def ac_simps)
  show "r (t + 12) = b12" "th_flags r t = b13" using r [of 12] r [of 13] by simp_all
  show "th_win r t = short_of b14 b15" using r [of 14] r [of 15] by (simp add: get16_def ac_simps)
  show "th_sum r t = short_of b16 b17" using r [of 16] r [of 17] by (simp add: get16_def ac_simps)
  show "th_urp r t = short_of b18 b19" using r [of 18] r [of 19] by (simp add: get16_def ac_simps)
qed

lemma field_changes_parts:
  assumes "field_changes r h t = Some (ch, ns)"
  obtains u us w ws a as s ss where "urgent_change r h t = Some (u, us)" "window_change r h t = (w, ws)"
    "long_change NEW_A (th_ack r t - th_ack h t) = Some (a, as)" "long_change NEW_S (th_seq r t - th_seq h t) = Some (s, ss)"
    "ch = u OR w OR a OR s" "ns = us @ ws @ as @ ss" "u \<in> {0, NEW_U}" "w \<in> {0, NEW_W}" "a \<in> {0, NEW_A}" "s \<in> {0, NEW_S}"
proof -
  obtain u us w ws a as s ss where *: "urgent_change r h t = Some (u, us)" "window_change r h t = (w, ws)"
    "long_change NEW_A (th_ack r t - th_ack h t) = Some (a, as)" "long_change NEW_S (th_seq r t - th_seq h t) = Some (s, ss)"
    "ch = u OR w OR a OR s" "ns = us @ ws @ as @ ss"
    using assms by (auto simp: field_changes_def Let_def split: option.splits prod.splits)
  moreover have "u \<in> {0, NEW_U}" "w \<in> {0, NEW_W}" "a \<in> {0, NEW_A}" "s \<in> {0, NEW_S}"
    using * by (auto simp: urgent_change_def window_change_def long_change_def Let_def split: if_splits)
  ultimately show thesis using that by blast
qed

lemma decode_regular:
  assumes fc: "field_changes r h t = Some (ch, ns)" and x: "x AND SPECIALS_MASK = ch" "ch \<noteq> SPECIAL_I" "ch \<noteq> SPECIAL_D"
    and st: "holds r2 cp ns" and t: "t = length A"
    and B: "tcp_fields r t ([b0, b1, b2, b3, b4, b5, b6, b7, b8, b9, b10, b11, b12, b13, b14, b15, b16, b17, b18, b19] @ bo)"
    and C: "tcp_fields h t ([c0, c1, c2, c3, c4, c5, c6, c7, c8, c9, c10, c11, c12, c13, c14, c15, c16, c17, c18, c19] @ co)"
  shows "decode_changes r2 x t hlen (A @ [c0, c1, c2, c3, c4, c5, c6, c7, c8, c9, c10, c11, c12, f, c14, c15, s0, s1, c18, c19] @ tail, cp) =
    (A @ [c0, c1, c2, c3, b4, b5, b6, b7, b8, b9, b10, b11, c12, if b13 AND TH_URG \<noteq> 0 then f OR TH_URG else f AND NOT TH_URG,
       b14, b15, s0, s1, b18, b19] @ tail, cp + length ns)"
proof -
  from fc obtain u us w ws a as s ss where p: "urgent_change r h t = Some (u, us)" "window_change r h t = (w, ws)"
    "long_change NEW_A (th_ack r t - th_ack h t) = Some (a, as)" "long_change NEW_S (th_seq r t - th_seq h t) = Some (s, ss)"
    "ch = u OR w OR a OR s" "ns = us @ ws @ as @ ss" "u \<in> {0, NEW_U}" "w \<in> {0, NEW_W}" "a \<in> {0, NEW_A}" "s \<in> {0, NEW_S}"
    by (rule field_changes_parts)
  note bits = change_bits [of u w a s 0 0 0 ch]
  have "x AND NEW_U = ch AND NEW_U" "x AND NEW_W = ch AND NEW_W" "x AND NEW_A = ch AND NEW_A" "x AND NEW_S = ch AND NEW_S"
    unfolding x(1) [symmetric] and.assoc by simp_all
  then have xb: "x AND NEW_U = u" "x AND NEW_W = w" "x AND NEW_A = a" "x AND NEW_S = s" using bits p(5,7-10) by simp_all
  let ?f = "if b13 AND TH_URG \<noteq> 0 then f OR TH_URG else f AND NOT TH_URG"
  note fB = tcp_fields_get [OF B] and fC = tcp_fields_get [OF C]
  have hs: "holds r2 cp us" "holds r2 (cp + length us) ws" "holds r2 (cp + length us + length ws) as"
    "holds r2 (cp + length us + length ws + length as) ss" using st by (simp_all add: p(6) add.assoc)
  note 1 = decode_urgent(1) [OF p(1) hs(1) t fB(8) fC(8) refl, unfolded fB(5)]
  note 2 = decode_window [OF p(2) hs(2) t fB(6) fC(6) refl]
  have 3: "(if a \<noteq> 0 then DECODEL (t + 8) r2 (A @ [c0, c1, c2, c3, c4, c5, c6, c7, c8, c9, c10, c11, c12, ?f, b14, b15, s0, s1, b18, b19] @ tail, cp + length us + length ws)
      else (A @ [c0, c1, c2, c3, c4, c5, c6, c7, c8, c9, c10, c11, c12, ?f, b14, b15, s0, s1, b18, b19] @ tail, cp + length us + length ws)) =
    (A @ [c0, c1, c2, c3, c4, c5, c6, c7, b8, b9, b10, b11, c12, ?f, b14, b15, s0, s1, b18, b19] @ tail, cp + length us + length ws + length as)"
  proof -
    have "(NEW_A :: u8) \<noteq> 0" "length (A @ [c0, c1, c2, c3, c4, c5, c6, c7]) = t + 8" "th_ack r t - th_ack h t = long_of b8 b9 b10 b11 - long_of c8 c9 c10 c11"
      by (simp, simp add: t, simp only: fB(3) fC(3))
    from decode_long_at [OF p(3) hs(3) this, of "[c12, ?f, b14, b15, s0, s1, b18, b19] @ tail"] show ?thesis
      by (simp only: append_assoc append_Cons append_Nil)
  qed
  have 4: "(if s \<noteq> 0 then DECODEL (t + 4) r2 (A @ [c0, c1, c2, c3, c4, c5, c6, c7, b8, b9, b10, b11, c12, ?f, b14, b15, s0, s1, b18, b19] @ tail, cp + length us + length ws + length as)
      else (A @ [c0, c1, c2, c3, c4, c5, c6, c7, b8, b9, b10, b11, c12, ?f, b14, b15, s0, s1, b18, b19] @ tail, cp + length us + length ws + length as)) =
    (A @ [c0, c1, c2, c3, b4, b5, b6, b7, b8, b9, b10, b11, c12, ?f, b14, b15, s0, s1, b18, b19] @ tail, cp + length ns)"
  proof -
    have "(NEW_S :: u8) \<noteq> 0" "length (A @ [c0, c1, c2, c3]) = t + 4" "th_seq r t - th_seq h t = long_of b4 b5 b6 b7 - long_of c4 c5 c6 c7"
      by (simp, simp add: t, simp only: fB(2) fC(2))
    from decode_long_at [OF p(4) hs(4) this, of "[b8, b9, b10, b11, c12, ?f, b14, b15, s0, s1, b18, b19] @ tail"] show ?thesis
      by (simp only: append_assoc append_Cons append_Nil p(6) length_append add.assoc)
  qed
  show ?thesis
    unfolding decode_changes_def prod.case Let_def x(1) if_not_P [OF x(2)] if_not_P [OF x(3)] xb 1 2 3 4 ..
qed

lemma decode_any:
  assumes fc: "field_changes r h t = Some (ch, ns)" and sp: "special_case r h t hlen (ch, ns) = Some (ch', ns')"
    and x: "x AND SPECIALS_MASK = ch'" and st: "holds r2 cp ns'" and t: "t = length A"
    and B: "tcp_fields r t ([b0, b1, b2, b3, b4, b5, b6, b7, b8, b9, b10, b11, b12, b13, b14, b15, b16, b17, b18, b19] @ bo)"
    and C: "tcp_fields h t ([c0, c1, c2, c3, c4, c5, c6, c7, c8, c9, c10, c11, c12, c13, c14, c15, c16, c17, c18, c19] @ co)"
    and len: "get16 ((!) (A @ [c0, c1, c2, c3, c4, c5, c6, c7, c8, c9, c10, c11, c12, f, c14, c15, s0, s1, c18, c19] @ tail)) 2 = ip_len h"
    and urg: "b13 AND TH_URG = 0 \<Longrightarrow> b18 = c18 \<Longrightarrow> b19 = c19 \<Longrightarrow> f AND NOT TH_URG = f"
  shows "decode_changes r2 x t hlen (A @ [c0, c1, c2, c3, c4, c5, c6, c7, c8, c9, c10, c11, c12, f, c14, c15, s0, s1, c18, c19] @ tail, cp) =
    (A @ [c0, c1, c2, c3, b4, b5, b6, b7, b8, b9, b10, b11, c12, if b13 AND TH_URG \<noteq> 0 then f OR TH_URG else f AND NOT TH_URG,
       b14, b15, s0, s1, b18, b19] @ tail, cp + length ns')"
proof (cases "ch' = ch \<and> ns' = ns \<and> ch \<noteq> SPECIAL_I \<and> ch \<noteq> SPECIAL_D")
  case True
  then show ?thesis using decode_regular [OF fc _ _ _ _ t B C] x st by simp
next
  case False
  let ?sent = "ucast (ip_len h) - of_nat hlen :: u32"
  from fc obtain u us w ws a as s ss where p: "urgent_change r h t = Some (u, us)" "window_change r h t = (w, ws)"
    "long_change NEW_A (th_ack r t - th_ack h t) = Some (a, as)" "long_change NEW_S (th_seq r t - th_seq h t) = Some (s, ss)"
    "ch = u OR w OR a OR s" "ns = us @ ws @ as @ ss" "u \<in> {0, NEW_U}" "w \<in> {0, NEW_W}" "a \<in> {0, NEW_A}" "s \<in> {0, NEW_S}"
    by (rule field_changes_parts)
  have bits: "ch AND NEW_U = u" "ch AND NEW_W = w" "ch AND NEW_A = a" using change_bits [of u w a s 0 0 0 ch] p(5,7-10) by simp_all
  note fB = tcp_fields_get [OF B] and fC = tcp_fields_get [OF C]
  from sp False consider (I) "ch = NEW_S OR NEW_A" "ch' = SPECIAL_I" "ns' = []" "th_seq r t - th_seq h t = ?sent" "th_ack r t - th_ack h t = ?sent"
    | (D) "ch = NEW_S" "ch' = SPECIAL_D" "ns' = []" "th_seq r t - th_seq h t = ?sent"
    by (auto simp: special_case_def Let_def split: if_splits)
  then have ch: "ch' = SPECIAL_I \<and> th_ack r t - th_ack h t = ?sent \<or> ch' = SPECIAL_D \<and> th_ack r t = th_ack h t" "u = 0" "w = 0" "ns' = []"
    "th_seq r t - th_seq h t = ?sent"
    using bits p(3) by (cases; auto simp: long_change_def split: if_splits)+
  then have un: "th_flags r t AND TH_URG = 0" "th_urp r t = th_urp h t" "th_win r t = th_win h t"
    using p(1,2) by (auto simp: urgent_change_def window_change_def Let_def split: if_splits)
  then have eq: "b13 AND TH_URG = 0" "b18 = c18" "b19 = c19" "b14 = c14" "b15 = c15"
    using fB fC by (simp_all add: short_inj)
  let ?T = "\<lambda>x4 x5 x6 x7 x8 x9 x10 x11. A @ [c0, c1, c2, c3, x4, x5, x6, x7, x8, x9, x10, x11, c12, f, c14, c15, s0, s1, c18, c19] @ tail"
  have add: "add32 d (t + 8) (?T c4 c5 c6 c7 c8 c9 c10 c11) = ?T c4 c5 c6 c7 b8 b9 b10 b11" if "d = long_of b8 b9 b10 b11 - long_of c8 c9 c10 c11" for d
  proof -
    have "get32 ((!) (?T c4 c5 c6 c7 c8 c9 c10 c11)) (t + 8) = long_of c8 c9 c10 c11" unfolding t get_app by (simp add: get32_def)
    then show ?thesis unfolding add32_def t put_app by (simp add: that put_def)
  qed
  have add': "add32 d (t + 4) (?T c4 c5 c6 c7 x8 x9 x10 x11) = ?T b4 b5 b6 b7 x8 x9 x10 x11" if "d = long_of b4 b5 b6 b7 - long_of c4 c5 c6 c7"
    for d x8 x9 x10 x11
  proof -
    have "get32 ((!) (?T c4 c5 c6 c7 x8 x9 x10 x11)) (t + 4) = long_of c4 c5 c6 c7" unfolding t get_app by (simp add: get32_def)
    then show ?thesis unfolding add32_def t put_app by (simp add: that put_def)
  qed
  have seq: "?sent = long_of b4 b5 b6 b7 - long_of c4 c5 c6 c7" using ch(5) fB(2) fC(2) by simp
  from ch(1) show ?thesis
  proof
    assume *: "ch' = SPECIAL_I \<and> th_ack r t - th_ack h t = ?sent"
    then have "?sent = long_of b8 b9 b10 b11 - long_of c8 c9 c10 c11" using fB(3) fC(3) by simp
    then show ?thesis
      unfolding decode_changes_def prod.case Let_def x len using * add add' [OF seq] urg eq ch(4) by simp
  next
    assume *: "ch' = SPECIAL_D \<and> th_ack r t = th_ack h t"
    then have "b8 = c8 \<and> b9 = c9 \<and> b10 = c10 \<and> b11 = c11" using fB(3) fC(3) by (simp add: long_inj)
    then show ?thesis
      unfolding decode_changes_def prod.case Let_def x len using * add' [OF seq] urg eq ch(4) by simp
  qed
qed

section \<open>The header rebuilt\<close>

lemma ucast_diff: "(ucast (ucast a - ucast b :: u32) :: u16) = a - b"
  by (simp add: word_uint_eq_iff unsigned_ucast_eq uint_word_ariths take_bit_eq_mod mod_simps mod_mod_cancel)

lemma decode_id_at:
  assumes "id_push_changes r h t (ch, ns) = (ch', ns @ is)" "x AND NEW_I = ch' AND NEW_I" "ch AND NEW_I = 0" "holds r2 cp is" "get16 ((!) H) 4 = ip_id h"
  shows "decode_id r2 x (H, cp) = (put (bytes_of_short (ip_id r)) 4 H, cp + length is)"
proof (cases "ucast (ip_id r) - ucast (ip_id h) = (1 :: u32)")
  case True
  then have "ip_id r - ip_id h = 1" using ucast_diff [of "ip_id r" "ip_id h"] by simp
  then have "ip_id h + 1 = ip_id r" by (simp add: algebra_simps)
  moreover have "is = []" "ch' AND NEW_I = 0" using assms(1,3) True by (auto simp: id_push_changes_def bit.conj_disj_distrib2 split: if_splits)
  ultimately show ?thesis using assms(2,5) by (simp add: decode_id_def)
next
  case False
  then have i: "is = ENCODEZ (ip_id r - ip_id h)" "ch' AND NEW_I \<noteq> 0"
    using assms(1,3) by (auto simp: id_push_changes_def ucast_diff bit.conj_disj_distrib2 split: if_splits)
  then show ?thesis using decode_ENCODEZ [of r2 cp "ip_id r - ip_id h"] assms(2,4,5) by (simp add: decode_id_def DECODES_def)
qed

text \<open>Two headers of the same connection.\<close>

lemma same_off:
  assumes "(b :: u8) AND 15 = 0" "c AND 15 = 0" "unat (drop_bit 4 b) = unat (drop_bit 4 c)"
  shows "b = c"
proof -
  have split: "x = push_bit 4 (drop_bit 4 x) + (x AND 15)" for x :: u8
    using bits_ident [of 4 x] by (simp add: take_bit_eq_mask mask_eq_exp_minus_1)
  have "drop_bit 4 b = drop_bit 4 c" using assms(3) by (rule unsigned_word_eqI)
  then show ?thesis using split [of b] split [of c] assms(1,2) by simp
qed

lemma flags_rebuilt:
  assumes "b AND 0xc0 = (0 :: u8)" "b AND 0x17 = 0x10" "c AND 0xc0 = (0 :: u8)" "c AND 0x17 = 0x10"
    "f = (if b AND TH_PUSH \<noteq> 0 then c OR TH_PUSH else c AND NOT TH_PUSH)"
  shows "(if b AND TH_URG \<noteq> 0 then f OR TH_URG else f AND NOT TH_URG) = b" "c AND TH_URG = 0 \<Longrightarrow> f AND NOT TH_URG = f"
proof -
  have b: "b \<in> {0x10, 0x18, 0x30, 0x38}" and c: "c \<in> {0x10, 0x18, 0x30, 0x38}"
    using flags_cases [OF assms(1,2)] flags_cases [OF assms(3,4)] masked_bit [of b] masked_bit [of c] by (auto; metis or.commute or.left_neutral)+
  show "(if b AND TH_URG \<noteq> 0 then f OR TH_URG else f AND NOT TH_URG) = b"
    using b c assms(5) by auto
  show "c AND TH_URG = 0 \<Longrightarrow> f AND NOT TH_URG = f" using b c assms(5) by auto
qed

lemma header_changes_parts:
  assumes "header_changes r h t hlen = Some (ch'', ns'')"
  obtains ch ns ch' ns' js where "same_rest r h t hlen" "field_changes r h t = Some (ch, ns)" "special_case r h t hlen (ch, ns) = Some (ch', ns')"
    "id_push_changes r h t (ch', ns') = (ch'', ns' @ js)" "ns'' = ns' @ js" "ch' AND NEW_I = 0"
    "ch'' AND SPECIALS_MASK = ch'" "ch'' AND TCP_PUSH_BIT \<noteq> 0 \<longleftrightarrow> th_flags r t AND TH_PUSH \<noteq> 0" "ch'' AND NEW_C = 0"
proof -
  obtain ch ns ch' ns' where 1: "same_rest r h t hlen" "field_changes r h t = Some (ch, ns)" "special_case r h t hlen (ch, ns) = Some (ch', ns')"
    "id_push_changes r h t (ch', ns') = (ch'', ns'')"
    using assms by (auto simp: header_changes_def split: if_splits option.splits)
  from 1(2) obtain u us w ws a as s ss where p: "ch = u OR w OR a OR s" "u \<in> {0, NEW_U}" "w \<in> {0, NEW_W}" "a \<in> {0, NEW_A}" "s \<in> {0, NEW_S}"
    by (rule field_changes_parts)
  have "ch AND SPECIALS_MASK = ch" using change_bits(8) [of u w a s 0 0 0 ch] p by simp
  then have ch': "ch' AND SPECIALS_MASK = ch'" using 1(3) by (auto simp: special_case_def Let_def split: if_splits)
  have masks: "ch' AND NEW_I = 0" "ch' AND TCP_PUSH_BIT = 0" "ch' AND NEW_C = 0"
    by (subst ch' [symmetric], simp add: and.assoc)+
  obtain js where "ns'' = ns' @ js" using 1(4) by (auto simp: id_push_changes_def Let_def split: if_splits)
  moreover have "ch'' AND SPECIALS_MASK = ch'" "ch'' AND TCP_PUSH_BIT \<noteq> 0 \<longleftrightarrow> th_flags r t AND TH_PUSH \<noteq> 0" "ch'' AND NEW_C = 0"
    using 1(4) ch' masks by (auto simp: id_push_changes_def Let_def bit.conj_disj_distrib2 split: if_splits)
  ultimately show thesis using that 1 masks(1) by blast
qed

lemma holds_nth: "holds r cp xs \<Longrightarrow> i < length xs \<Longrightarrow> r (cp + i) = xs ! i"
  by (simp add: holds_def)

lemma holds_map: "holds r cp xs \<Longrightarrow> map r [cp..<cp + length xs] = xs"
  by (auto simp: holds_def intro: nth_equalityI)

lemma holds_tcp: "holds r 0 (A @ B) \<Longrightarrow> tcp_fields r (length A) B"
  by (auto simp: holds_def tcp_fields_def dest: spec [of _ "length A + _"])

lemma range_eq: "map r [i..<j] = map h [i..<j] \<Longrightarrow> i \<le> k \<Longrightarrow> k < j \<Longrightarrow> r k = h k"
  by simp

lemma same_header:
  assumes sr: "same_rest r h (length A) (length A + length B)"
    and AB: "tcp_header A B" "holds r 0 (A @ B)" and AC: "tcp_header A' C" "holds h 0 (A' @ C)"
  shows "A' ! 0 = A ! 0" "A' ! 1 = A ! 1" "length A' = length A" "C ! 12 = B ! 12" "length C = length B" "drop 20 A' = drop 20 A" "drop 20 C = drop 20 B"
    "A' ! 6 = A ! 6" "A' ! 7 = A ! 7" "A' ! 8 = A ! 8"
proof -
  have l: "20 \<le> length A" "20 \<le> length B" "20 \<le> length A'" "20 \<le> length C" using AB AC by (simp_all add: tcp_header_def)
  have rA: "r i = A ! i" if "i < length A" for i using holds_nth [OF AB(2), of i] that by (simp add: nth_append)
  have hA: "h i = A' ! i" if "i < length A'" for i using holds_nth [OF AC(2), of i] that by (simp add: nth_append)
  have rB: "r (length A + i) = B ! i" if "i < length B" for i using holds_nth [OF AB(2), of "length A + i"] that by simp
  have hC: "h (length A' + i) = C ! i" if "i < length C" for i using holds_nth [OF AC(2), of "length A' + i"] that by simp
  have ne: "A \<noteq> []" "A' \<noteq> []" "0 < length A" "0 < length A'" using l by auto
  show 0: "A' ! 0 = A ! 0" "A' ! 1 = A ! 1" "A' ! 6 = A ! 6" "A' ! 7 = A ! 7" "A' ! 8 = A ! 8"
    using sr l rA [of 0] rA [of 1] rA [of 6] rA [of 7] rA [of 8] hA [of 0] hA [of 1] hA [of 6] hA [of 7] hA [of 8] ne
    by (simp_all add: same_rest_def get16_def short_inj)
  then show la: "length A' = length A" using AB AC by (simp add: tcp_header_def)
  have "unat (drop_bit 4 (B ! 12)) = unat (drop_bit 4 (C ! 12))"
    using sr rB [of 12] hC [of 12] l by (simp add: same_rest_def la)
  then show c: "C ! 12 = B ! 12" using same_off AB(1) AC(1) by (simp add: tcp_header_def)
  then show lb: "length C = length B" using AB AC by (simp add: tcp_header_def)
  show "drop 20 A' = drop 20 A"
  proof (rule nth_equalityI)
    fix i assume "i < length (drop 20 A')"
    then have i: "20 + i < length A" using la by simp
    then have "r (20 + i) = h (20 + i)"
      using sr range_eq [of r 20 "length A" h "20 + i"] by (simp add: same_rest_def)
    then show "drop 20 A' ! i = drop 20 A ! i" using i rA hA la by simp
  qed (simp add: la)
  show "drop 20 C = drop 20 B"
  proof (rule nth_equalityI)
    fix i assume "i < length (drop 20 C)"
    then have i: "20 + i < length B" using lb by simp
    then have "r (length A + (20 + i)) = h (length A + (20 + i))"
      using sr range_eq [of r "length A + 20" "length A + length B" h "length A + (20 + i)"] by (simp add: same_rest_def)
    then show "drop 20 C ! i = drop 20 B ! i" using i rB [of "20 + i"] hC [of "20 + i"] la lb by simp
  qed (simp add: lb)
qed

lemma rebuild_header:
  assumes hc: "header_changes r h t hlen = Some (ch, ns)" and x: "x = ch OR cb" "cb \<in> {0, NEW_C}"
    and AB: "tcp_header A B" "compressible B" "holds r 0 (A @ B)"
    and AC: "tcp_header A' C" "compressible C" "holds h 0 (A' @ C)"
    and d: "cs_hdr d = A'[10 := 0, 11 := 0] @ C @ tail" "cs_hlen d = hlen"
    and t: "t = length A" "hlen = length A + length B"
    and ports: "th_ports r t = th_ports h (4 * ip_hl h)"
    and st: "holds r2 cp ([B ! 16, B ! 17] @ ns)"
  shows "rebuild r2 x cp d = (put [A ! 4, A ! 5] 4 (A'[10 := 0, 11 := 0]) @ B @ tail, cp + 2 + length ns)"
proof -
  from hc obtain ch1 ns1 ch' ns' js where p: "same_rest r h t hlen" "field_changes r h t = Some (ch1, ns1)" "special_case r h t hlen (ch1, ns1) = Some (ch', ns')"
    "id_push_changes r h t (ch', ns') = (ch, ns' @ js)" "ns = ns' @ js" "ch' AND NEW_I = 0"
    "ch AND SPECIALS_MASK = ch'" "ch AND TCP_PUSH_BIT \<noteq> 0 \<longleftrightarrow> th_flags r t AND TH_PUSH \<noteq> 0" "ch AND NEW_C = 0"
    by (rule header_changes_parts)
  note same = same_header [OF p(1) [unfolded t] AB(1,3) AC(1,3)]
  have xb: "x AND SPECIALS_MASK = ch'" "x AND TCP_PUSH_BIT = ch AND TCP_PUSH_BIT" "x AND NEW_I = ch AND NEW_I"
    using p(7) x by (auto simp: bit.conj_disj_distrib2)
  obtain b0 b1 b2 b3 b4 b5 b6 b7 b8 b9 b10 b11 b12 b13 b14 b15 b16 b17 b18 b19 bo where
    B: "B = [b0, b1, b2, b3, b4, b5, b6, b7, b8, b9, b10, b11, b12, b13, b14, b15, b16, b17, b18, b19] @ bo"
    using twenty [of B] AB(1) by (auto simp: tcp_header_def)
  obtain c0 c1 c2 c3 c4 c5 c6 c7 c8 c9 c10 c11 c12 c13 c14 c15 c16 c17 c18 c19 co where
    C: "C = [c0, c1, c2, c3, c4, c5, c6, c7, c8, c9, c10, c11, c12, c13, c14, c15, c16, c17, c18, c19] @ co"
    using twenty [of C] AC(1) by (auto simp: tcp_header_def)
  have tB: "tcp_fields r t B" and tC: "tcp_fields h t C" using holds_tcp AB(3) AC(3) t same(3) by metis+
  note fB = tcp_fields_get [OF tB [unfolded B]] and fC = tcp_fields_get [OF tC [unfolded C]]
  have "0 < length A'" using AC(1) by (auto simp: tcp_header_def)
  then have h0: "h 0 = A' ! 0" using holds_nth [OF AC(3), of 0] by (simp add: nth_append)
  have thl: "4 * ip_hl h = t" using AC(1) t(1) same(3) by (simp add: h0 tcp_header_def)
  have bc: "c0 = b0" "c1 = b1" "c2 = b2" "c3 = b3" "c12 = b12" "co = bo"
    using ports fB(1) fC(1) same(4,7) by (simp_all add: thl long_inj B C)
  let ?A = "A'[10 := 0, 11 := 0]"
  have la: "length ?A = t" "20 \<le> length A'" "?A ! 0 = A' ! 0" using same(3) t(1) AC(1) by (simp_all add: tcp_header_def)
  have tt: "4 * ip_hl (saved d) = t" using AC(1) t(1) same(3) la by (simp add: d(1) nth_append tcp_header_def)
  define f where "f = (if b13 AND TH_PUSH \<noteq> 0 then c13 OR TH_PUSH else c13 AND NOT TH_PUSH)"
  have fl: "b13 AND 0xc0 = 0" "b13 AND 0x17 = 0x10" "c13 AND 0xc0 = 0" "c13 AND 0x17 = 0x10"
    using AB(1,2) AC(1,2) by (simp_all add: B C tcp_header_def compressible_def)
  have urgB: "b13 AND TH_URG \<noteq> 0 \<longleftrightarrow> short_of b18 b19 \<noteq> 0" "c13 AND TH_URG \<noteq> 0 \<longleftrightarrow> short_of c18 c19 \<noteq> 0"
    using AB(1) AC(1) by (simp_all add: B C tcp_header_def get16_def)
  let ?T = "[c0, c1, c2, c3, c4, c5, c6, c7, c8, c9, c10, c11, c12, f, c14, c15, b16, b17, c18, c19] @ co @ tail"
  have start: "set_flag t TH_PUSH (x AND TCP_PUSH_BIT \<noteq> 0) (put [r2 cp, r2 (cp + 1)] (t + 16) (cs_hdr d)) = ?A @ ?T"
  proof -
    have "r2 cp = b16" "r2 (cp + 1) = b17" using st by (simp_all add: B)
    moreover have "x AND TCP_PUSH_BIT \<noteq> 0 \<longleftrightarrow> b13 AND TH_PUSH \<noteq> 0" using xb(2) p(8) fB(5) by simp
    ultimately show ?thesis
      unfolding d(1) la(1) [symmetric] put_app set_flag_def list_update_app nth_app by (simp add: C put_def f_def)
  qed
  have len: "get16 ((!) (?A @ ?T)) 2 = ip_len h" "get16 ((!) (put x 4 ?A)) 4 = get16 ((!) (put x 4 ?A @ Y)) 4" if "length x = 2" for x Y
    using la holds_nth [OF AC(3), of 2] holds_nth [OF AC(3), of 3] that by (simp_all add: get16_def nth_append put_def numeral_2_eq_2 numeral_3_eq_3)
  have dec: "decode_changes r2 x t hlen (?A @ ?T, cp + 2) = (?A @ B @ tail, cp + 2 + length ns')"
  proof -
    have "holds r2 (cp + 2) ns'" using st by (simp add: p(5))
    moreover have "b13 AND TH_URG = 0 \<Longrightarrow> b18 = c18 \<Longrightarrow> b19 = c19 \<Longrightarrow> f AND NOT TH_URG = f"
      using flags_rebuilt(2) [OF fl f_def] urgB by auto
    ultimately show ?thesis
      using decode_any [OF p(2,3) xb(1) _ la(1) [symmetric] tB [unfolded B] tC [unfolded C], of r2 "cp + 2" f b16 b17 "co @ tail"] len(1) [of "[0, 0]"]
        flags_rebuilt(1) [OF fl f_def] bc by (simp add: B)
  qed
  have id: "ip_id h = get16 ((!) (?A @ B @ tail)) 4" "ip_id r = short_of (A ! 4) (A ! 5)"
    using la holds_nth [OF AC(3), of 4] holds_nth [OF AC(3), of 5] holds_nth [OF AB(3), of 4] holds_nth [OF AB(3), of 5] AB(1)
    by (simp_all add: get16_def nth_append tcp_header_def)
  have "holds r2 (cp + 2 + length ns') js" using st by (simp add: p(5) add.assoc)
  from decode_id_at [OF p(4) xb(3) p(6) this id(1) [symmetric]]
  have "decode_id r2 x (?A @ B @ tail, cp + 2 + length ns') = (put [A ! 4, A ! 5] 4 (?A @ B @ tail), cp + 2 + length ns)"
    by (simp add: id(2) p(5) add.assoc)
  moreover have "put [A ! 4, A ! 5] 4 (?A @ B @ tail) = put [A ! 4, A ! 5] 4 ?A @ B @ tail" using la by (simp add: put_def)
  ultimately show ?thesis unfolding rebuild_def Let_def tt start d(2) dec by simp
qed

section \<open>An error-free link\<close>

text \<open>The IP header of the saved packet, with the new length and identification, is the new IP
  header but for the checksum.\<close>

lemma ip_rebuilt:
  assumes AB: "tcp_header A B" "holds r 0 (A @ B)" and AC: "tcp_header A' C" "holds h 0 (A' @ C)"
    and sr: "same_rest r h (length A) (length A + length B)" and src: "ip_src r = ip_src h" "ip_dst r = ip_dst h"
  shows "put [A ! 2, A ! 3] 2 (put [A ! 4, A ! 5] 4 (A'[10 := 0, 11 := 0]) @ X) = A[10 := 0, 11 := 0] @ X"
proof -
  note same = same_header [OF sr AB AC]
  have l: "20 \<le> length A" "20 \<le> length A'" "A ! 9 = A' ! 9" using AB(1) AC(1) by (simp_all add: tcp_header_def)
  obtain a0 a1 a2 a3 a4 a5 a6 a7 a8 a9 a10 a11 a12 a13 a14 a15 a16 a17 a18 a19 ao where
    A: "A = [a0, a1, a2, a3, a4, a5, a6, a7, a8, a9, a10, a11, a12, a13, a14, a15, a16, a17, a18, a19] @ ao"
    using twenty [OF l(1)] by auto
  obtain d0 d1 d2 d3 d4 d5 d6 d7 d8 d9 d10 d11 d12 d13 d14 d15 d16 d17 d18 d19 ad where
    A': "A' = [d0, d1, d2, d3, d4, d5, d6, d7, d8, d9, d10, d11, d12, d13, d14, d15, d16, d17, d18, d19] @ ad"
    using twenty [OF l(2)] by auto
  have rA: "r i = A ! i" if "i < 20" for i using holds_nth [OF AB(2), of i] that l by (simp add: nth_append)
  have hA: "h i = A' ! i" if "i < 20" for i using holds_nth [OF AC(2), of i] that l by (simp add: nth_append)
  have "long_of a12 a13 a14 a15 = long_of d12 d13 d14 d15" "long_of a16 a17 a18 a19 = long_of d16 d17 d18 d19"
    using src by (simp_all add: get32_def rA hA A A')
  then show ?thesis using same l(3) by (simp add: A A' put_def long_inj)
qed

definition vj_packet :: "u8 list \<Rightarrow> bool" where
  "vj_packet p \<longleftrightarrow>
     (let t = 4 * unat (p ! 0 AND 15); A = take t p; B = take (4 * unat (drop_bit 4 (p ! (t + 12)))) (drop t p) in
      tcp_header A B \<and> get16 ((!) A) 2 = of_nat (length p) \<and> [A ! 10, A ! 11] = ip_cksum (A[10 := 0, 11 := 0]))"

lemma vj_packet_parts:
  assumes "vj_packet p"
  obtains A B D where "p = A @ B @ D" "tcp_header A B" "bytes_of_short (of_nat (length p)) = [A ! 2, A ! 3]"
    "ip_cksum (A[10 := 0, 11 := 0]) = [A ! 10, A ! 11]"
proof -
  let ?t = "4 * unat (p ! 0 AND 15)"
  let ?k = "4 * unat (drop_bit 4 (p ! (?t + 12)))"
  have "p = take ?t p @ take ?k (drop ?t p) @ drop ?k (drop ?t p)" by (metis append_take_drop_id)
  moreover have "bytes_of_short (of_nat (length p)) = [take ?t p ! 2, take ?t p ! 3]"
    using assms by (simp add: vj_packet_def Let_def get16_def flip: short_bytes)
  ultimately show thesis using that assms unfolding vj_packet_def Let_def by metis
qed

text \<open>A transmit state \<open>c\<close> and the receive state \<open>d\<close> for its connection: nothing was sent yet, or
  both hold the last header sent.\<close>

definition fresh :: "cstate \<Rightarrow> bool" where
  "fresh c \<longleftrightarrow> saved c 0 = 0"

definition synced :: "cstate \<Rightarrow> cstate \<Rightarrow> bool" where
  "synced c d \<longleftrightarrow> (\<exists>A B tail tail'. tcp_header A B \<and> compressible B \<and> cs_hdr c = A @ B @ tail \<and>
     cs_hdr d = A[10 := 0, 11 := 0] @ B @ tail' \<and> cs_hlen d = length A + length B)"

definition in_step :: "slcompress \<Rightarrow> slcompress \<Rightarrow> bool" where
  "in_step tx rx \<longleftrightarrow> tstate tx \<noteq> [] \<and> distinct (map cs_id (tstate tx)) \<and> length (rstate rx) = MAX_STATES \<and>
     (\<forall>c \<in> set (tstate tx). unat (cs_id c) < MAX_STATES \<and> (fresh c \<or> synced c (rstate rx ! unat (cs_id c)))) \<and>
     (last_xmit tx \<noteq> 255 \<longrightarrow> last_recv rx = last_xmit tx \<and> \<not> toss rx)"

lemma in_step_init: "in_step sl_compress_init sl_compress_init"
proof -
  have "set (tstate sl_compress_init) = (\<lambda>i. \<lparr>cs_hlen = 0, cs_id = of_nat i, cs_hdr = replicate MAX_HDR 0\<rparr>) ` {0..<16}"
  proof -
    have "{0..<16} = insert 0 {1..<16 :: nat}" by auto
    then show ?thesis by (auto simp: sl_compress_init_def Let_def)
  qed
  moreover have "distinct (map cs_id (tstate sl_compress_init))" by code_simp
  moreover have "unat (of_nat i :: u8) < 16" if "i < 16" for i using that by (simp add: unat_of_nat take_bit_nat_eq_self)
  ultimately show ?thesis by (auto simp: in_step_def fresh_def sl_compress_init_def Let_def)
qed

text \<open>What \<open>locate\<close> does to the list of states.\<close>

lemma locate_set:
  assumes "locate P cs = (found, c # cs')" "cs \<noteq> []"
  shows "mset (c # cs') = mset cs" "found \<longleftrightarrow> P c"
proof -
  have split: "cs = takeWhile (\<lambda>c. \<not> P c) cs @ dropWhile (\<lambda>c. \<not> P c) cs" by simp
  have "mset (c # cs') = mset cs \<and> (found \<longleftrightarrow> P c)"
  proof (cases "dropWhile (\<lambda>c. \<not> P c) cs")
    case Nil
    then have "\<forall>c \<in> set cs. \<not> P c" by simp
    moreover have "c = last cs" "cs' = butlast cs" "\<not> found" using assms(1) Nil by (simp_all add: locate_def)
    ultimately show ?thesis using assms(2) by (cases cs rule: rev_cases) auto
  next
    case (Cons x post)
    then have "P x" by (metis hd_dropWhile list.distinct(1) list.sel(1))
    moreover have "c = x" "cs' = takeWhile (\<lambda>c. \<not> P c) cs @ post" "found" using assms(1) Cons by (simp_all add: locate_def)
    moreover have "mset cs = mset (takeWhile (\<lambda>c. \<not> P c) cs) + mset (x # post)" by (subst split) (simp only: Cons mset_append)
    ultimately show ?thesis by simp
  qed
  then show "mset (c # cs') = mset cs" "found \<longleftrightarrow> P c" by auto
qed

lemma locate_some: "cs \<noteq> [] \<Longrightarrow> \<exists>found c cs'. locate P cs = (found, c # cs')"
  by (auto simp: locate_def split: list.split)

text \<open>The state of the connection is exchanged at both ends.\<close>

lemma in_step_update:
  assumes st: "in_step tx rx" and loc: "mset (c # cs) = mset (tstate tx)"
    and c': "cs_id c' = cs_id c" "synced c' d'"
  shows "in_step (tx\<lparr>tstate := c' # cs, last_xmit := cs_id c\<rparr>)
    (rx\<lparr>toss := False, last_recv := cs_id c, rstate := (rstate rx)[unat (cs_id c) := d']\<rparr>)"
proof -
  have "distinct (map cs_id (c # cs))"
    using st loc by (metis in_step_def mset_eq_imp_distinct_iff mset_map)
  then have d: "distinct (map cs_id cs)" "\<forall>x \<in> set cs. cs_id x \<noteq> cs_id c" by (auto simp: image_iff dest: sym)
  have sub: "set (c # cs) = set (tstate tx)" using loc by (metis set_mset_mset)
  then have inv: "unat (cs_id x) < MAX_STATES" "fresh x \<or> synced x (rstate rx ! unat (cs_id x))" if "x \<in> set (c # cs)" for x
    using st that by (auto simp: in_step_def)
  have other: "(rstate rx)[unat (cs_id c) := d'] ! unat (cs_id x) = rstate rx ! unat (cs_id x)" if "x \<in> set cs" for x
    using d(2) that by (metis nth_list_update_neq unsigned_word_eqI)
  have "(rstate rx)[unat (cs_id c) := d'] ! unat (cs_id c) = d'" using st inv(1) [of c] by (simp add: in_step_def)
  then show ?thesis using st d inv other c' by (auto simp: in_step_def)
qed

lemma packet_fields:
  assumes "tcp_header A B" "p = A @ B @ D"
  shows "holds (rd junk p) 0 (A @ B)" "4 * ip_hl (rd junk p) = length A" "4 * th_off (rd junk p) (length A) = length B"
    "rd junk p (length A + 13) = B ! 13" "th_sum (rd junk p) (length A) = short_of (B ! 16) (B ! 17)" "map (rd junk p) [0..<length A + length B] = A @ B"
proof -
  show h: "holds (rd junk p) 0 (A @ B)" using holds_rd [of junk "[]" "A @ B" D] assms(2) by simp
  have l: "20 \<le> length A" "20 \<le> length B" using assms(1) by (simp_all add: tcp_header_def)
  have "rd junk p 0 = A ! 0" using l assms(2) by (cases A) (auto simp: rd_def)
  then show "4 * ip_hl (rd junk p) = length A" using assms(1) by (simp add: tcp_header_def)
  have B: "rd junk p (length A + i) = B ! i" if "i < 20" for i using l assms(2) that by (simp add: rd_def nth_append)
  then show "4 * th_off (rd junk p) (length A) = length B" using assms(1) by (simp add: tcp_header_def)
  show "rd junk p (length A + 13) = B ! 13" by (simp add: B)
  show "th_sum (rd junk p) (length A) = short_of (B ! 16) (B ! 17)" using B [of 16] B [of 17] by (simp add: get16_def ac_simps)
  show "map (rd junk p) [0..<length A + length B] = A @ B" using holds_map [OF h] by simp
qed

lemma compress_packet:
  assumes AB: "tcp_header A B" "p = A @ B @ D" and loc: "locate (same_conn (rd junk p) (length A)) (tstate tx) = (found, c # cs)"
  defines "c' \<equiv> c\<lparr>cs_hdr := A @ B @ drop (length A + length B) (cs_hdr c)\<rparr>"
  shows "sl_compress_tcp junk cid p tx =
    (if ip_off (rd junk p) AND 0x3fff \<noteq> 0 \<or> \<not> compressible B then Some (TYPE_IP, p, tx)
     else case (if found then header_changes (rd junk p) (saved c) (length A) (length A + length B) else None) of
       None \<Rightarrow> Some (TYPE_UNCOMPRESSED_TCP, p[9 := cs_id c], tx\<lparr>tstate := c' # cs, last_xmit := cs_id c\<rparr>)
     | Some (ch, ns) \<Rightarrow>
         if \<not> cid \<or> last_xmit tx \<noteq> cs_id c
         then Some (TYPE_COMPRESSED_TCP, [ch OR NEW_C, cs_id c] @ [B ! 16, B ! 17] @ ns @ D, tx\<lparr>tstate := c' # cs, last_xmit := cs_id c\<rparr>)
         else Some (TYPE_COMPRESSED_TCP, [ch OR 0] @ [B ! 16, B ! 17] @ ns @ D, tx\<lparr>tstate := c' # cs\<rparr>))"
proof -
  note f = packet_fields [OF AB, of junk]
  have l: "40 \<le> length A + length B" "length A + length B \<le> MAX_HDR" using AB(1) by (simp_all add: tcp_header_def)
  have save: "save_hdr (rd junk p) (length A + length B) c = c'" by (simp add: save_hdr_def put_def f(6) c'_def)
  have drop: "drop (length A + length B) p = D" by (simp add: AB(2))
  show ?thesis
    unfolding sl_compress_tcp_def Let_def f(2) f(3) f(4) f(5) loc prod.case list.case drop
    using l save by (simp add: compressible_def AB(2) split: option.split prod.split)
qed

lemma tcp_header_bytes:
  assumes "tcp_header A B"
  shows "A[9 := IPPROTO_TCP] = A" "9 < length A" "11 < length A"
proof -
  show "A[9 := IPPROTO_TCP] = A" using assms unfolding tcp_header_def by (metis list_update_id)
  show "9 < length A" "11 < length A" using assms by (auto simp: tcp_header_def)
qed

lemma rd_update: "i < length m \<Longrightarrow> (rd junk (m[i := x]))(i := y) = rd junk (m[i := y])"
  by (rule ext) (simp add: rd_def nth_list_update)

lemma uncompressed_received:
  assumes AB: "tcp_header A B" "p = A @ B @ D" and n: "unat n < MAX_STATES"
  shows "uncompressed_in junk (p[9 := n]) len rx = Some (Some (p, len),
    rx\<lparr>toss := False, last_recv := n, rstate := (rstate rx)[unat n := (rstate rx ! unat n)
      \<lparr>cs_hdr := A[10 := 0, 11 := 0] @ B @ drop (length A + length B) (cs_hdr (rstate rx ! unat n)), cs_hlen := length A + length B\<rparr>]\<rparr>)"
proof -
  note f = packet_fields [OF AB, of junk] and b = tcp_header_bytes [OF AB(1)]
  have p9: "p[9 := IPPROTO_TCP] = p" using b by (simp add: AB(2) list_update_append)
  have r: "(rd junk (p[9 := n]))(9 := IPPROTO_TCP) = rd junk p" using rd_update [of 9 p junk n IPPROTO_TCP] b(2) p9 by (simp add: AB(2))
  have n9: "rd junk (p[9 := n]) 9 = n" using b by (simp add: AB(2))
  have put0: "put [0, 0] 10 (A @ X) = A[10 := 0, 11 := 0] @ X" for X
  proof -
    have "20 \<le> length A" using AB(1) by (simp add: tcp_header_def)
    then show ?thesis using twenty [of A] by (auto simp: put_def)
  qed
  have l: "\<not> MAX_HDR < length A + length B" using AB(1) by (simp add: tcp_header_def)
  have save: "save_hdr (rd junk p) (length A + length B) c = c\<lparr>cs_hdr := A @ B @ drop (length A + length B) (cs_hdr c)\<rparr>" for c
    by (simp add: save_hdr_def put_def f(6))
  show ?thesis
    unfolding uncompressed_in_def Let_def n9 r f(2) f(3) save using n l by (simp add: put0 p9)
qed

lemma rebuilt_packet:
  assumes hc: "header_changes r (saved c) (length A) (length A + length B) = Some (ch, ns)" and x: "x = ch OR cb" "cb \<in> {0, NEW_C}"
    and AB: "tcp_header A B" "compressible B" "holds r 0 (A @ B)" and conn: "same_conn r (length A) c"
    and syn: "synced c d" and st: "holds r2 cp ([B ! 16, B ! 17] @ ns)"
  obtains h tail where "rebuild r2 x cp d = (h, cp + 2 + length ns)" "put [A ! 2, A ! 3] 2 h = A[10 := 0, 11 := 0] @ B @ tail"
    "4 * ip_hl (saved d) = length A" "cs_hlen d = length A + length B"
proof -
  obtain A' C tail tail' where s: "tcp_header A' C" "compressible C" "cs_hdr c = A' @ C @ tail" "cs_hdr d = A'[10 := 0, 11 := 0] @ C @ tail'"
    "cs_hlen d = length A' + length C" using syn by (auto simp: synced_def)
  have hold: "holds (saved c) 0 (A' @ C)" unfolding s(3) holds_def by (simp add: nth_append flip: append_assoc)
  have sr: "same_rest r (saved c) (length A) (length A + length B)" using hc by (simp add: header_changes_def split: if_splits)
  note same = same_header [OF sr AB(1,3) s(1) hold]
  have dl: "cs_hlen d = length A + length B" using s(5) same by simp
  have ports: "th_ports r (length A) = th_ports (saved c) (4 * ip_hl (saved c))" and addr: "ip_src r = ip_src (saved c)" "ip_dst r = ip_dst (saved c)"
    using conn by (simp_all add: same_conn_def)
  have "saved d 0 = A' ! 0" using s(1,4) by (auto simp: tcp_header_def nth_append)
  then have t: "4 * ip_hl (saved d) = length A" using s(1) same(3) by (simp add: tcp_header_def)
  show thesis
    using that [OF rebuild_header [OF hc x AB s(1,2) hold s(4) dl refl refl ports st] _ t dl] ip_rebuilt [OF AB(1,3) s(1) hold sr addr] by blast
qed

lemma compressed_received:
  assumes hc: "header_changes (rd junk p) (saved c) (length A) (length A + length B) = Some (ch, ns)"
    and p: "p = A @ B @ D" "tcp_header A B" "compressible B" "bytes_of_short (of_nat (length p)) = [A ! 2, A ! 3]"
      "ip_cksum (A[10 := 0, 11 := 0]) = [A ! 10, A ! 11]"
    and conn: "same_conn (rd junk p) (length A) c" and n: "unat n < MAX_STATES" and syn: "synced c (rstate rx ! unat n)" and rs: "length (rstate rx) = MAX_STATES"
    and buf: "buf = pre @ [B ! 16, B ! 17] @ ns @ D" "pre = [ch OR NEW_C, n] \<or> pre = [ch OR 0] \<and> \<not> toss rx \<and> last_recv rx = n"
  obtains tail where "compressed_in junk' buf (length buf) rx = Some (Some (p, length p),
    rx\<lparr>toss := False, last_recv := n, rstate := (rstate rx)[unat n := (rstate rx ! unat n)\<lparr>cs_hdr := A[10 := 0, 11 := 0] @ B @ tail\<rparr>]\<rparr>)"
    "cs_hlen (rstate rx ! unat n) = length A + length B"
proof -
  let ?x = "hd pre" and ?r = "rd junk' buf" and ?d = "rstate rx ! unat n" and ?len = "length A + length B"
  define cb where "cb = (if length pre = 1 then 0 else NEW_C)"
  have x: "?x = ch OR cb" "cb \<in> {0, NEW_C}" "pre = (if cb = 0 then [ch OR 0] else [ch OR NEW_C, n])" using buf(2) by (auto simp: cb_def)
  have "ch AND NEW_C = 0" using hc by (rule header_changes_parts)
  then have xc: "?x AND NEW_C = cb" using x(1,2) by (auto simp: bit.conj_disj_distrib2)
  have r0: "?r 0 = ?x" "length pre = (if cb = 0 then 1 else 2)" "cb \<noteq> 0 \<Longrightarrow> ?r 1 = n"
    using buf(1) x(3) by (simp_all add: rd_def)
  note f = packet_fields [OF p(2,1)]
  have st: "holds ?r (length pre) ([B ! 16, B ! 17] @ ns)" using holds_rd [of junk' pre "[B ! 16, B ! 17] @ ns" D] buf(1) by simp
  from hc x(1,2) p(2,3) f(1) conn syn st obtain h tail where
    h: "rebuild ?r ?x (length pre) ?d = (h, length pre + 2 + length ns)" "put [A ! 2, A ! 3] 2 h = A[10 := 0, 11 := 0] @ B @ tail"
      "4 * ip_hl (saved ?d) = length A" "cs_hlen ?d = ?len" by (rule rebuilt_packet)
  let ?cp = "length pre + 2 + length ns" and ?A0 = "A[10 := 0, 11 := 0]"
  have len: "length buf - ?cp + ?len = length p" "drop ?cp buf = D" "\<not> length buf < ?cp" using buf(1) p(1) by simp_all
  have pkt: "take ?len (?A0 @ B @ tail) @ D = ?A0 @ B @ D" by simp
  have sum: "map (rd junk' (?A0 @ B @ D)) [0..<length A] = ?A0"
    using holds_map [OF holds_rd [of junk' "[]" ?A0 "B @ D"]] by simp
  have "?A0[10 := A ! 10, 11 := A ! 11] = A"
    by (subst list_update_swap) (simp_all add: list_update_swap [of 10 11])
  then have fin: "(?A0 @ B @ D)[10 := A ! 10, 11 := A ! 11] = p"
    using tcp_header_bytes(2,3) [OF p(2)] by (simp add: p(1) list_update_append)
  have put: "put (bytes_of_short (of_nat (length p))) 2 h = ?A0 @ B @ tail" using h(2) p(4) by simp
  have "compressed_in junk' buf (length buf) rx = Some (Some (p, length p),
    rx\<lparr>toss := False, last_recv := n, rstate := (rstate rx)[unat n := ?d\<lparr>cs_hdr := ?A0 @ B @ tail\<rparr>]\<rparr>)"
  proof (cases "cb = 0")
    case True
    then have rx: "\<not> toss rx" "last_recv rx = n" "rx\<lparr>toss := False, last_recv := n\<rparr> = rx" using buf(2) x(3) by auto
    show ?thesis
      unfolding compressed_in_def Let_def r0(1) xc using True rx n rs h r0(2) len sum fin put pkt p(5) by simp
  next
    case False
    then show ?thesis
      unfolding compressed_in_def Let_def r0(1) xc using n rs h r0(2,3) len sum fin put pkt p(5) by simp
  qed
  then show thesis using h(4) by (rule that)
qed

text \<open>One packet over the link: what the receiver needs is kept by every packet sent.\<close>

lemma vj_packet_sent:
  assumes st: "in_step tx rx" and pk: "vj_packet p"
  obtains (ip) "sl_compress_tcp junk cid p tx = Some (TYPE_IP, p, tx)"
  | (tcp) type m tx' rx' where "sl_compress_tcp junk cid p tx = Some (type, m, tx')" "type \<in> {TYPE_UNCOMPRESSED_TCP, TYPE_COMPRESSED_TCP}"
      "sl_uncompress_tcp junk' m type rx = Some (Some (p, length p), rx')" "in_step tx' rx'"
proof -
  from pk obtain A B D where p: "p = A @ B @ D" "tcp_header A B" "bytes_of_short (of_nat (length p)) = [A ! 2, A ! 3]"
    "ip_cksum (A[10 := 0, 11 := 0]) = [A ! 10, A ! 11]" by (rule vj_packet_parts)
  have ts: "tstate tx \<noteq> []" "length (rstate rx) = MAX_STATES" using st by (simp_all add: in_step_def)
  let ?r = "rd junk p" and ?l = "length A + length B"
  obtain found c cs where loc: "locate (same_conn ?r (length A)) (tstate tx) = (found, c # cs)" using locate_some [OF ts(1)] by metis
  note loc' = locate_set [OF loc ts(1)] and cp = compress_packet [OF p(2,1) loc, of cid]
  have "c \<in> set (tstate tx)" using loc'(1) by (metis list.set_intros(1) set_mset_mset)
  then have c: "unat (cs_id c) < MAX_STATES" "fresh c \<or> synced c (rstate rx ! unat (cs_id c))" using st by (auto simp: in_step_def)
  let ?c = "c\<lparr>cs_hdr := A @ B @ drop ?l (cs_hdr c)\<rparr>" and ?d = "rstate rx ! unat (cs_id c)"
  have syn: "compressible B \<Longrightarrow> cs_hlen d = ?l \<Longrightarrow> synced ?c (d\<lparr>cs_hdr := A[10 := 0, 11 := 0] @ B @ tail\<rparr>)" for d tail
    using p(2) by (auto simp: synced_def)
  let ?hc = "if found then header_changes ?r (saved c) (length A) ?l else None"
  consider (plain) "ip_off ?r AND 0x3fff \<noteq> 0 \<or> \<not> compressible B"
    | (new) "\<not> (ip_off ?r AND 0x3fff \<noteq> 0 \<or> \<not> compressible B)" "?hc = None"
    | (old) ch ns where "\<not> (ip_off ?r AND 0x3fff \<noteq> 0 \<or> \<not> compressible B)" "?hc = Some (ch, ns)"
    by (cases ?hc) auto
  then show thesis
  proof cases
    case plain
    then show ?thesis using ip cp by simp
  next
    case new
    let ?d' = "?d\<lparr>cs_hdr := A[10 := 0, 11 := 0] @ B @ drop ?l (cs_hdr ?d), cs_hlen := ?l\<rparr>"
    have "synced ?c ?d'" using p(2) new(1) by (auto simp: synced_def)
    then have "in_step (tx\<lparr>tstate := ?c # cs, last_xmit := cs_id c\<rparr>) (rx\<lparr>toss := False, last_recv := cs_id c, rstate := (rstate rx)[unat (cs_id c) := ?d']\<rparr>)"
      using in_step_update [OF st loc'(1)] by simp
    moreover have "sl_compress_tcp junk cid p tx = Some (TYPE_UNCOMPRESSED_TCP, p[9 := cs_id c], tx\<lparr>tstate := ?c # cs, last_xmit := cs_id c\<rparr>)"
      using cp new by simp
    ultimately show ?thesis
      using tcp uncompressed_received [OF p(2,1) c(1), of junk' "length p" rx]
      by (simp add: sl_uncompress_tcp_def sl_uncompress_tcp_part_def)
  next
    case old
    then have f: "same_conn ?r (length A) c" "header_changes ?r (saved c) (length A) ?l = Some (ch, ns)" "compressible B"
      using loc'(2) by (auto split: if_splits)
    have sy: "synced c ?d"
    proof (rule ccontr)
      assume "\<not> synced c ?d"
      then have "saved c 0 = 0" using c(2) by (simp add: fresh_def)
      moreover have "get16 ?r 0 = get16 (saved c) 0" using f(2) by (simp add: header_changes_def same_rest_def split: if_splits)
      ultimately have "?r 0 = 0" by (simp add: get16_def short_inj)
      then show False using packet_fields(2) [OF p(2,1), of junk] p(2) by (simp add: tcp_header_def)
    qed
    let ?new = "\<not> cid \<or> last_xmit tx \<noteq> cs_id c"
    let ?pre = "if ?new then [ch OR NEW_C, cs_id c] else [ch OR 0]"
    have "cs_id c \<noteq> 255" using c(1) by auto
    then have "?pre = [ch OR NEW_C, cs_id c] \<or> ?pre = [ch OR 0] \<and> \<not> toss rx \<and> last_recv rx = cs_id c"
      using st by (auto simp: in_step_def)
    from f(2) p(1,2) f(3) p(3,4) f(1) c(1) sy ts(2) refl this
    obtain tail where un: "compressed_in junk' (?pre @ [B ! 16, B ! 17] @ ns @ D) (length (?pre @ [B ! 16, B ! 17] @ ns @ D)) rx = Some (Some (p, length p),
      rx\<lparr>toss := False, last_recv := cs_id c, rstate := (rstate rx)[unat (cs_id c) := ?d\<lparr>cs_hdr := A[10 := 0, 11 := 0] @ B @ tail\<rparr>]\<rparr>)"
      and "cs_hlen ?d = ?l"
      by (rule compressed_received)
    with syn [OF f(3)] have "in_step (tx\<lparr>tstate := ?c # cs, last_xmit := cs_id c\<rparr>)
      (rx\<lparr>toss := False, last_recv := cs_id c, rstate := (rstate rx)[unat (cs_id c) := ?d\<lparr>cs_hdr := A[10 := 0, 11 := 0] @ B @ tail\<rparr>]\<rparr>)"
      using in_step_update [OF st loc'(1)] by simp
    moreover have "sl_compress_tcp junk cid p tx = Some (TYPE_COMPRESSED_TCP, ?pre @ [B ! 16, B ! 17] @ ns @ D, tx\<lparr>tstate := ?c # cs, last_xmit := cs_id c\<rparr>)"
      using cp old by (auto simp: slcompress.surjective)
    ultimately show ?thesis
      using tcp un by (simp add: sl_uncompress_tcp_def sl_uncompress_tcp_part_def)
  qed
qed

section \<open>The link\<close>

text \<open>The sender gives every packet to \<^verbatim>\<open>sl_compress_tcp\<close>; what it changed goes through
  \<^verbatim>\<open>sl_uncompress_tcp\<close> at the other end.\<close>

fun vj_link :: "reader \<Rightarrow> reader \<Rightarrow> bool \<Rightarrow> u8 list list \<Rightarrow> slcompress \<Rightarrow> slcompress \<Rightarrow> u8 list list option" where
  "vj_link junk junk' cid [] tx rx = Some []"
| "vj_link junk junk' cid (p # ps) tx rx =
     (case sl_compress_tcp junk cid p tx of
        None \<Rightarrow> None
      | Some (type, m, tx) \<Rightarrow>
          if type = TYPE_IP then map_option ((#) m) (vj_link junk junk' cid ps tx rx)
          else
            (case sl_uncompress_tcp junk' m type rx of
               None \<Rightarrow> None
             | Some (None, rx) \<Rightarrow> vj_link junk junk' cid ps tx rx
             | Some (Some (q, len), rx) \<Rightarrow> map_option ((#) (take len q)) (vj_link junk junk' cid ps tx rx)))"

text \<open>Packets that are not compressed by their length or as fragments, and TCP packets with
  consistent headers.\<close>

definition link_packet :: "u8 list \<Rightarrow> bool" where
  "link_packet p \<longleftrightarrow> length p < 40 \<or> get16 ((!) p) 6 AND 0x3fff \<noteq> 0 \<or> vj_packet p"

lemma plain_packet:
  assumes "length p < 40 \<or> get16 ((!) p) 6 AND 0x3fff \<noteq> 0"
  shows "sl_compress_tcp junk cid p tx = Some (TYPE_IP, p, tx)"
proof (cases "length p < 40")
  case True
  then show ?thesis by (simp add: sl_compress_tcp_def)
next
  case False
  then have "get16 (rd junk p) 6 = get16 ((!) p) 6" by (simp add: get16_def rd_def)
  then show ?thesis using assms False by (simp add: sl_compress_tcp_def)
qed

lemma vj_link_in_step:
  assumes "in_step tx rx" "\<forall>p \<in> set ps. link_packet p"
  shows "vj_link junk junk' cid ps tx rx = Some ps"
  using assms
proof (induction ps arbitrary: tx rx)
  case (Cons p ps)
  show ?case
  proof (cases "vj_packet p")
    case True
    show ?thesis using Cons.prems(1) True
    proof (cases rule: vj_packet_sent [where junk = junk and junk' = junk' and cid = cid])
      case ip
      then show ?thesis using Cons by simp
    next
      case (tcp type m tx' rx')
      then show ?thesis using Cons.IH [OF tcp(4)] Cons.prems(2) by auto
    qed
  next
    case False
    then have "sl_compress_tcp junk cid p tx = Some (TYPE_IP, p, tx)" using Cons.prems(2) plain_packet by (auto simp: link_packet_def)
    then show ?thesis using Cons by simp
  qed
qed simp

text \<open>C4: header compression is transparent.  Whatever TCP/IP packets with consistent
  headers (lengths, header checksum, no reserved bits, an urgent pointer exactly with the urgent flag)
  and other short packets and fragments are sent over a link without errors, in
  whatever order and from however many connections, each arrives as it was sent, with
  implicit or explicit connection numbers.\<close>

theorem vj_link_transparent:
  assumes "\<forall>p \<in> set ps. link_packet p"
  shows "vj_link junk junk' compress_cid ps sl_compress_init sl_compress_init = Some ps"
  using vj_link_in_step [OF in_step_init assms] .

definition test_packet :: "u8 \<Rightarrow> u8 \<Rightarrow> u8 \<Rightarrow> u8 \<Rightarrow> u8 list" where
  "test_packet n seq flags urp =
    [0x45, 0, 0, 42, 0, n, 0, 0, 64, 6, 102, 204 - n, 10, 0, 0, 1, 10, 0, 0, 2,
     4, 0, 0, 23, 0, 0, 0, seq, 0, 0, 0, 9, 0x50, flags, 16, 0, 3, 4, 0, urp, 97, 98]"

lemma test_packets_ok: "link_packet (test_packet 1 5 0x18 0)" "link_packet (test_packet 2 7 0x10 0)" "link_packet (test_packet 3 7 0x30 9)"
  by code_simp+

theorem vj_link_transparent_witness:
  "vj_link (\<lambda>_. 0) (\<lambda>_. 0) True [test_packet 1 5 0x18 0, test_packet 2 7 0x10 0, test_packet 3 7 0x30 9] sl_compress_init sl_compress_init =
   Some [test_packet 1 5 0x18 0, test_packet 2 7 0x10 0, test_packet 3 7 0x30 9]"
  by (rule vj_link_transparent) (simp only: list.set ball_simps test_packets_ok simp_thms)

text \<open>The urgent flag may come back, shown for two packets.  A sender that clears the urgent flag and leaves the
  urgent pointer as it was, which the comment of the compressor wants to allow, has its
  next data packet sent in the special form for data transfer; the receiver, which changes the
  urgent flag only outside the special forms, delivers the packet with the flag still set.\<close>

theorem vj_urgent_flag_resurrected:
  "vj_link (\<lambda>_. 0) (\<lambda>_. 0) True [test_packet 1 5 0x30 7, test_packet 2 7 0x10 7] sl_compress_init sl_compress_init =
   Some [test_packet 1 5 0x30 7, test_packet 2 7 0x30 7]"
  by code_simp

section \<open>Buffers\<close>

lemma length_codes: "length (ENCODE n) \<le> 3" "length (ENCODEZ n) \<le> 3"
  by (simp_all add: ENCODE_def ENCODEZ_def long_form_def)

lemma new_seq_fits:
  assumes "header_changes r h t hlen = Some (ch, ns)"
  shows "length ns \<le> 15"
proof -
  obtain ch1 ns1 ch' ns' js where p: "field_changes r h t = Some (ch1, ns1)" "special_case r h t hlen (ch1, ns1) = Some (ch', ns')"
    "id_push_changes r h t (ch', ns') = (ch, ns' @ js)" "ns = ns' @ js" using assms by (rule header_changes_parts)
  from p(1) obtain u us w ws a as s ss where q: "urgent_change r h t = Some (u, us)" "window_change r h t = (w, ws)"
    "long_change NEW_A (th_ack r t - th_ack h t) = Some (a, as)" "long_change NEW_S (th_seq r t - th_seq h t) = Some (s, ss)" "ns1 = us @ ws @ as @ ss"
    by (rule field_changes_parts)
  have "length us \<le> 3" "length ws \<le> 3" using q(1,2) length_codes by (auto simp: urgent_change_def window_change_def Let_def split: if_splits)
  moreover have "length as \<le> 3" "length ss \<le> 3" using q(3,4) length_codes by (auto simp: long_change_def split: if_splits)
  ultimately have "length ns1 \<le> 12" by (simp add: q(5))
  then have "length ns' \<le> 12" using p(2) by (auto simp: special_case_def Let_def split: if_splits)
  moreover have "length js \<le> 3" using p(3) length_codes by (auto simp: id_push_changes_def Let_def split: if_splits)
  ultimately show ?thesis by (simp add: p(4))
qed

lemma compressed_shorter:
  assumes "sl_compress_tcp junk compress_cid p sc = Some (TYPE_COMPRESSED_TCP, m, sc')"
    and "5 \<le> ip_hl (rd junk p)" "5 \<le> th_off (rd junk p) (4 * ip_hl (rd junk p))"
  shows "length m + 21 \<le> length p"
proof -
  let ?t = "4 * ip_hl (rd junk p)"
  let ?hlen = "?t + 4 * th_off (rd junk p) ?t"
  have "\<exists>found c cs ch ns. locate (same_conn (rd junk p) ?t) (tstate sc) = (found, c # cs) \<and> \<not> ?hlen > length p \<and>
      header_changes (rd junk p) (saved c) ?t ?hlen = Some (ch, ns) \<and> length m \<le> 4 + length ns + length (drop ?hlen p)"
    using assms(1) by (auto simp: sl_compress_tcp_def Let_def split: if_splits prod.splits list.splits option.splits)
  then obtain c ch ns where "?hlen \<le> length p" "header_changes (rd junk p) (saved c) ?t ?hlen = Some (ch, ns)" "length m \<le> 4 + length ns + (length p - ?hlen)"
    by (auto simp: not_less)
  moreover have "length ns \<le> 15" using calculation(2) by (rule new_seq_fits)
  ultimately show ?thesis using assms(2,3) by linarith
qed

text \<open>The encoded changes fit.  The changes of a packet never fill the sixteen
  bytes set aside for them, and a packet that is sent compressed is at least 21 bytes shorter than it was, so that it
  can be built in the place of its own header.\<close>

theorem vj_compressed_in_place:
  assumes "sl_compress_tcp junk compress_cid p sc = Some (TYPE_COMPRESSED_TCP, m, sc')"
    and "5 \<le> ip_hl (rd junk p)" "5 \<le> th_off (rd junk p) (4 * ip_hl (rd junk p))"
  shows "length m + 21 \<le> length p"
  using assms by (rule compressed_shorter)

definition test_state :: slcompress where
  "test_state = snd (snd (the (sl_compress_tcp (\<lambda>_. 0) True (test_packet 1 5 0x18 0) sl_compress_init)))"

lemma test_compressed: "map_option fst (sl_compress_tcp (\<lambda>_. 0) True (test_packet 2 7 0x10 0) test_state) = Some TYPE_COMPRESSED_TCP"
  "5 \<le> ip_hl (rd (\<lambda>_. 0) (test_packet 2 7 0x10 0))"
  "5 \<le> th_off (rd (\<lambda>_. 0) (test_packet 2 7 0x10 0)) (4 * ip_hl (rd (\<lambda>_. 0) (test_packet 2 7 0x10 0)))"
  by code_simp+

theorem vj_compressed_in_place_witness:
  "\<exists>m sc'. sl_compress_tcp (\<lambda>_. 0) True (test_packet 2 7 0x10 0) test_state = Some (TYPE_COMPRESSED_TCP, m, sc') \<and>
     length m + 21 \<le> length (test_packet 2 7 0x10 0)"
proof -
  obtain m sc' where "sl_compress_tcp (\<lambda>_. 0) True (test_packet 2 7 0x10 0) test_state = Some (TYPE_COMPRESSED_TCP, m, sc')"
    using test_compressed(1) by (auto simp: map_option_eq_Some)
  then show ?thesis using vj_compressed_in_place test_compressed(2,3) by blast
qed

text \<open>The receiver's state.\<close>

definition rx_ok :: "slcompress \<Rightarrow> bool" where
  "rx_ok sc \<longleftrightarrow> length (rstate sc) = MAX_STATES \<and> (toss sc \<or> unat (last_recv sc) < MAX_STATES) \<and>
     (\<forall>c \<in> set (rstate sc). length (cs_hdr c) = MAX_HDR \<and> cs_hlen c \<le> MAX_HDR)"

lemma length_put [simp]: "i + length xs \<le> length b \<Longrightarrow> length (put xs i b) = length b"
  by (simp add: put_def)

lemma ip_hl_bound: "ip_hl r \<le> 15"
proof -
  have "r 0 AND 15 \<le> 15" by (rule word_and_le1)
  then show ?thesis by (simp add: word_le_nat_alt)
qed

lemma decode_lengths:
  "i + 2 \<le> length (fst s) \<Longrightarrow> length (fst (DECODEU i r s)) = length (fst s)"
  "i + 2 \<le> length (fst s) \<Longrightarrow> length (fst (DECODES i r s)) = length (fst s)"
  "i + 4 \<le> length (fst s) \<Longrightarrow> length (fst (DECODEL i r s)) = length (fst s)"
  "i + 4 \<le> length h \<Longrightarrow> length (add32 d i h) = length h"
  "length (set_flag t f b h) = length h"
  by (auto simp: DECODEU_def DECODES_def DECODEL_def add32_def set_flag_def split: prod.split)

lemma rebuild_length:
  assumes "length (cs_hdr c) = MAX_HDR"
  shows "length (fst (rebuild r changes cp c)) = MAX_HDR"
proof -
  have t: "4 * ip_hl (saved c) \<le> 60" using ip_hl_bound [of "saved c"] by simp
  have 1: "length (fst (decode_changes r changes t hlen (h, cp))) = length h" if "t \<le> 60" "length h = MAX_HDR" for t hlen h cp
    using that by (auto simp: decode_changes_def Let_def decode_lengths)
  have 2: "length (fst (decode_id r changes s)) = length (fst s)" if "length (fst s) = MAX_HDR" for s
    using that by (auto simp: decode_id_def decode_lengths split: prod.split)
  show ?thesis unfolding rebuild_def Let_def using t assms by (simp add: 1 2 decode_lengths)
qed

lemma rx_ok_update: "rx_ok sc \<Longrightarrow> length (cs_hdr c) = MAX_HDR \<Longrightarrow> cs_hlen c \<le> MAX_HDR \<Longrightarrow> rx_ok (sc\<lparr>rstate := (rstate sc)[i := c]\<rparr>)"
  by (auto simp: rx_ok_def dest!: set_update_subset_insert [THEN subsetD])

lemma rx_ok_nth: "rx_ok sc \<Longrightarrow> i < MAX_STATES \<Longrightarrow> length (cs_hdr (rstate sc ! i)) = MAX_HDR \<and> cs_hlen (rstate sc ! i) \<le> MAX_HDR"
  by (simp add: rx_ok_def)

lemma uncompressed_in_ok:
  assumes "rx_ok sc"
  shows "case uncompressed_in junk buf len sc of
      Some (res, sc') \<Rightarrow> rx_ok sc'
    | None \<Rightarrow> let r = (rd junk buf)(9 := IPPROTO_TCP); t = 4 * ip_hl r in t + 4 * th_off r t > MAX_HDR"
proof (cases "unat (rd junk buf 9) \<ge> MAX_STATES")
  case True
  then show ?thesis using assms by (simp add: uncompressed_in_def bad_def rx_ok_def)
next
  case False
  let ?n = "rd junk buf 9" and ?r = "(rd junk buf)(9 := IPPROTO_TCP)"
  let ?hlen = "4 * ip_hl ?r + 4 * th_off ?r (4 * ip_hl ?r)"
  let ?c = "save_hdr ?r ?hlen (rstate sc ! unat ?n)"
  have "?hlen \<le> MAX_HDR \<Longrightarrow> length (cs_hdr (?c\<lparr>cs_hdr := put [0, 0] 10 (cs_hdr ?c), cs_hlen := ?hlen\<rparr>)) = MAX_HDR"
    using rx_ok_nth [OF assms, of "unat ?n"] False by (simp add: save_hdr_def)
  moreover have "rx_ok (sc\<lparr>last_recv := ?n, toss := False\<rparr>)" using assms False by (auto simp: rx_ok_def)
  ultimately show ?thesis
    using False rx_ok_update [of "sc\<lparr>last_recv := ?n, toss := False\<rparr>" "?c\<lparr>cs_hdr := put [0, 0] 10 (cs_hdr ?c), cs_hlen := ?hlen\<rparr>" "unat ?n"]
    by (simp add: uncompressed_in_def Let_def)
qed

lemma compressed_in_ok:
  assumes "rx_ok sc"
  shows "\<exists>res sc'. compressed_in junk buf len sc = Some (res, sc') \<and> rx_ok sc'"
proof -
  let ?r = "rd junk buf"
  define sc1 where "sc1 = (if ?r 0 AND NEW_C \<noteq> 0 then sc\<lparr>toss := False, last_recv := ?r 1\<rparr> else sc)"
  consider (bad) "?r 0 AND NEW_C \<noteq> 0" "unat (?r 1) \<ge> MAX_STATES" | (toss) "?r 0 AND NEW_C = 0" "toss sc"
    | (ok) "\<not> (?r 0 AND NEW_C \<noteq> 0 \<and> unat (?r 1) \<ge> MAX_STATES)" "\<not> (?r 0 AND NEW_C = 0 \<and> toss sc)" by auto
  then show ?thesis
  proof cases
    case bad
    then show ?thesis using assms by (simp add: compressed_in_def bad_def rx_ok_def)
  next
    case toss
    then show ?thesis using assms by (simp add: compressed_in_def)
  next
    case ok
    then have sc1: "rx_ok sc1" "unat (last_recv sc1) < length (rstate sc1)" using assms by (auto simp: sc1_def rx_ok_def)
    let ?c = "rstate sc1 ! unat (last_recv sc1)"
    obtain h cp where h: "rebuild ?r (?r 0) (if ?r 0 AND NEW_C \<noteq> 0 then 2 else 1) ?c = (h, cp)" by fastforce
    have c: "length (cs_hdr ?c) = MAX_HDR" "cs_hlen ?c \<le> MAX_HDR" using rx_ok_nth sc1 by (auto simp: rx_ok_def)
    have hl: "length h = MAX_HDR" using rebuild_length [OF c(1)] h by (metis fst_conv)
    have up: "rx_ok (sc1\<lparr>rstate := (rstate sc1)[i := ?c\<lparr>cs_hdr := h'\<rparr>]\<rparr>)" if "length h' = MAX_HDR" for h' i
      using rx_ok_update [OF sc1(1)] that c by simp
    let ?upd = "\<lambda>h. sc1\<lparr>rstate := (rstate sc1)[unat (last_recv sc1) := ?c\<lparr>cs_hdr := h\<rparr>]\<rparr>"
    have "\<exists>res. compressed_in junk buf len sc =
        (if length buf < cp then bad (?upd h) else Some (res, ?upd (put (bytes_of_short (of_nat (len - cp + cs_hlen ?c))) 2 h)))"
      using ok h sc1(2) by (cases "?r 0 AND NEW_C = 0") (auto simp: compressed_in_def sc1_def Let_def)
    moreover have "rx_ok (?upd h\<lparr>toss := True\<rparr>)" using up [OF hl] by (simp add: rx_ok_def)
    ultimately show ?thesis using up [of "put (bytes_of_short (of_nat (len - cp + cs_hlen ?c))) 2 h"] hl by (auto simp: bad_def)
  qed
qed

text \<open>C21: whatever comes in from the line, the receiver uses no state outside its
  table and stays well formed; the one packet it cannot take is an uncompressed one whose header, as
  the packet itself gives its length, is longer than the buffer for it.\<close>

theorem sl_receiver_well_formed:
  assumes "rx_ok sc"
  shows "case sl_uncompress_tcp_part junk buf total_len type sc of
      Some (res, sc') \<Rightarrow> rx_ok sc'
    | None \<Rightarrow> type = TYPE_UNCOMPRESSED_TCP \<and> (let r = (rd junk buf)(9 := IPPROTO_TCP); t = 4 * ip_hl r in t + 4 * th_off r t > MAX_HDR)"
  using assms uncompressed_in_ok [OF assms, of junk buf total_len] compressed_in_ok [OF assms, of junk buf total_len]
  by (cases type) (auto simp: sl_uncompress_tcp_part_def bad_def rx_ok_def split: option.splits)

lemma rx_ok_init: "rx_ok sl_compress_init"
  by (simp add: rx_ok_def sl_compress_init_def Let_def)

theorem sl_receiver_well_formed_witness:
  "rx_ok sl_compress_init \<and>
   (\<exists>res sc'. sl_uncompress_tcp_part (\<lambda>_. 0) [0x4b, 3, 1, 2] 4 TYPE_COMPRESSED_TCP sl_compress_init = Some (res, sc') \<and> rx_ok sc')"
  using sl_receiver_well_formed [OF rx_ok_init, where junk = "\<lambda>_. 0" and buf = "[0x4b, 3, 1, 2]" and total_len = 4 and type = TYPE_COMPRESSED_TCP] rx_ok_init
  by (auto split: option.splits)

text \<open>A packet with all the options its two header length fields can announce.\<close>

definition long_packet :: "u8 \<Rightarrow> u8 list" where
  "long_packet n = [0x4f, 0, 0, 120, 0, 1, 0, 0, 64, n, 0, 0, 10, 0, 0, 1, 10, 0, 0, 2] @ replicate 40 1 @
     [4, 0, 0, 23, 0, 0, 0, 5, 0, 0, 0, 9, 0xf0, 0x10, 16, 0, 3, 4, 0, 0] @ replicate 40 1"

text \<open>The buffer for a saved header is shorter than the longest header, shown for one header.  A packet with a
  header of 120 bytes, all of it options the header formats allow, is copied over
  the end of the 108 bytes of \<^verbatim>\<open>cs_hdr\<close>, by the sender for a packet it forwards and by the
  receiver, whatever its state, for a packet from the line.\<close>

theorem vj_long_header_overruns_buffer:
  assumes "tstate sc \<noteq> []"
  shows "sl_compress_tcp junk compress_cid (long_packet 6) sc = None \<and>
    sl_uncompress_tcp junk' (long_packet 0) TYPE_UNCOMPRESSED_TCP sc' = None"
proof
  let ?r = "rd junk (long_packet 6)"
  obtain found c cs where "locate (same_conn ?r 60) (tstate sc) = (found, c # cs)" using locate_some [OF assms] by metis
  moreover have "?r 0 = 0x4f" "?r 6 = 0" "?r 7 = 0" "?r 72 = 0xf0" "?r 73 = 0x10" "length (long_packet 6) = 120"
    by (simp_all add: long_packet_def rd_def nth_append)
  ultimately show "sl_compress_tcp junk compress_cid (long_packet 6) sc = None"
    by (simp add: sl_compress_tcp_def Let_def get16_def short_of_def)
  have "rd junk' (long_packet 0) 0 = 0x4f" "rd junk' (long_packet 0) 9 = 0" "rd junk' (long_packet 0) 72 = 0xf0"
    by (simp_all add: long_packet_def rd_def nth_append)
  then show "sl_uncompress_tcp junk' (long_packet 0) TYPE_UNCOMPRESSED_TCP sc' = None"
    by (simp add: sl_uncompress_tcp_def sl_uncompress_tcp_part_def uncompressed_in_def Let_def)
qed

theorem vj_long_header_overruns_buffer_witness:
  "sl_compress_tcp (\<lambda>_. 0) True (long_packet 6) sl_compress_init = None \<and>
   sl_uncompress_tcp (\<lambda>_. 0) (long_packet 0) TYPE_UNCOMPRESSED_TCP sl_compress_init = None"
  using vj_long_header_overruns_buffer [of sl_compress_init] by (simp add: sl_compress_init_def Let_def)

end
