(* ===== verification/If_ppp.thy ===== *)
theory If_ppp
  imports Ring Fcs Slcompress Cred
begin

text \<open>
  The PPP line discipline of the kernel (\<^verbatim>\<open>src/sys/net/if_ppp.c\<close>): framing of packets for
  an asynchronous line with its checksum and escapes, header and protocol compression,
  and the receiver.  The record \<open>ppp_softc\<close> holds one unit together with its terminal,
  whose rings are those of \<^verbatim>\<open>Ring\<close>, and the IP input queue.  Chains of mbufs are lists of their
  data.  Of the chain that receives a frame the sizes of its mbufs and the bytes stored are
  kept.  Debugging output and the packet filter tap are left out.  \<open>None\<close> is a reference through a null
  pointer or an overrun.
\<close>

section \<open>State\<close>

abbreviation (input) PPP_HEADER_LEN :: nat where "PPP_HEADER_LEN \<equiv> 4"
abbreviation (input) PPP_FCS_LEN :: nat where "PPP_FCS_LEN \<equiv> 2"
abbreviation (input) PPP_ALLSTATIONS :: u8 where "PPP_ALLSTATIONS \<equiv> 0xff"
abbreviation (input) PPP_UI :: u8 where "PPP_UI \<equiv> 0x03"
abbreviation (input) PPP_FLAG :: u8 where "PPP_FLAG \<equiv> 0x7e"
abbreviation (input) PPP_ESCAPE :: u8 where "PPP_ESCAPE \<equiv> 0x7d"
abbreviation (input) PPP_TRANS :: u8 where "PPP_TRANS \<equiv> 0x20"
abbreviation (input) PPP_IP :: u16 where "PPP_IP \<equiv> 0x21"
abbreviation (input) PPP_XNS :: u16 where "PPP_XNS \<equiv> 0x25"
abbreviation (input) PPP_VJC_COMP :: u16 where "PPP_VJC_COMP \<equiv> 0x2d"
abbreviation (input) PPP_VJC_UNCOMP :: u16 where "PPP_VJC_UNCOMP \<equiv> 0x2f"
abbreviation (input) PPP_LCP :: u16 where "PPP_LCP \<equiv> 0xc021"
abbreviation (input) PPP_MTU :: int where "PPP_MTU \<equiv> 1500"
abbreviation (input) PPP_MRU :: int where "PPP_MRU \<equiv> 1500"
abbreviation (input) PPP_MAXMRU :: int where "PPP_MAXMRU \<equiv> 65000"
abbreviation (input) IFQ_MAXLEN :: nat where "IFQ_MAXLEN \<equiv> 50"
abbreviation (input) PPP_HIWAT :: nat where "PPP_HIWAT \<equiv> 400"
abbreviation (input) HDROFF :: nat where "HDROFF \<equiv> 108"
abbreviation (input) MHLEN :: nat where "MHLEN \<equiv> 100"

abbreviation (input) SC_COMP_PROT :: u32 where "SC_COMP_PROT \<equiv> 0x1"
abbreviation (input) SC_COMP_AC :: u32 where "SC_COMP_AC \<equiv> 0x2"
abbreviation (input) SC_COMP_TCP :: u32 where "SC_COMP_TCP \<equiv> 0x4"
abbreviation (input) SC_NO_TCP_CCID :: u32 where "SC_NO_TCP_CCID \<equiv> 0x8"
abbreviation (input) SC_REJ_COMP_AC :: u32 where "SC_REJ_COMP_AC \<equiv> 0x10"
abbreviation (input) SC_REJ_COMP_TCP :: u32 where "SC_REJ_COMP_TCP \<equiv> 0x20"
abbreviation (input) SC_MASK :: u32 where "SC_MASK \<equiv> 0xffff"
abbreviation (input) SC_ESCAPED :: u32 where "SC_ESCAPED \<equiv> 0x10000"
abbreviation (input) SC_FLUSH :: u32 where "SC_FLUSH \<equiv> 0x20000"

type_synonym mbufs = "u8 list list"

record 'a ifqueue =
  ifq :: "'a list"
  ifq_maxlen :: nat
  ifq_drops :: nat

text \<open>The two state bits of \<^verbatim>\<open>sc_flags\<close> are fields of their own; \<open>sc_flags\<close> holds the bits
  the user can change.\<close>

record ppp_softc =
  if_mtu :: int
  if_up :: bool
  if_running :: bool
  if_snd :: "mbufs ifqueue"
  if_ibytes :: u32
  if_ipackets :: u32
  if_ierrors :: u32
  if_iqdrops :: u32
  if_obytes :: u32
  if_opackets :: u32
  if_oerrors :: u32
  sc_flags :: u32
  sc_escaped :: bool
  sc_flush :: bool
  sc_ttyp :: bool
  sc_outm :: mbufs
  sc_m :: "nat list"
  sc_in :: "u8 list"
  sc_ilen :: int
  sc_fcs :: u16
  sc_outfcs :: u16
  sc_mru :: int
  sc_asyncmap :: u32
  sc_rasyncmap :: u32
  sc_inq :: "u8 list ifqueue"
  sc_fastq :: "mbufs ifqueue"
  sc_comp :: slcompress
  sc_bytessent :: u32
  t_out :: ringb
  t_can :: ringb
  t_carr_on :: bool
  t_ppp :: bool
  t_wire :: "u8 list"
  ipintrq :: "u8 list ifqueue"

definition IF_QFULL :: "'a ifqueue \<Rightarrow> bool" where
  "IF_QFULL q \<longleftrightarrow> length (ifq q) \<ge> ifq_maxlen q"

definition IF_DROP :: "'a ifqueue \<Rightarrow> 'a ifqueue" where
  "IF_DROP q = q\<lparr>ifq_drops := ifq_drops q + 1\<rparr>"

definition IF_ENQUEUE :: "'a \<Rightarrow> 'a ifqueue \<Rightarrow> 'a ifqueue" where
  "IF_ENQUEUE m q = q\<lparr>ifq := ifq q @ [m]\<rparr>"

text \<open>Does \<^verbatim>\<open>c\<close> need to be escaped?\<close>

definition ESCAPE_P :: "u32 \<Rightarrow> u8 \<Rightarrow> bool" where
  "ESCAPE_P asyncmap c \<longleftrightarrow> c = PPP_FLAG \<or> c = PPP_ESCAPE \<or> c < 0x20 \<and> asyncmap AND push_bit (unat c) 1 \<noteq> 0"

section \<open>Output\<close>

text \<open>The loop over the contiguous parts of the ring: the characters not stored.\<close>

function rb_block :: "u8 list \<Rightarrow> ringb \<Rightarrow> u8 list \<times> ringb" where
  "rb_block cs r =
     (let cc = RB_CONTIGPUT r in
      if cs = [] \<or> cc = 0 then (cs, r)
      else
        let cc = min cc (length cs) in
        rb_block (drop cc cs) (r\<lparr>rb_buf := bcopy cs (rb_buf r) (rb_tl r) cc, rb_tl := RB_ROLLOVER (rb_tl r + cc)\<rparr>))"
  by auto
termination by (relation "measure (length \<circ> fst)") auto

text \<open>The characters of one mbuf: those left over, and how many were sent.\<close>

function send_mbuf :: "u32 \<Rightarrow> u8 list \<Rightarrow> ringb \<Rightarrow> u8 list \<times> nat \<times> ringb" where
  "send_mbuf am cs r =
     (if cs = [] then ([], 0, r)
      else
        let plain = takeWhile (\<lambda>c. \<not> ESCAPE_P am c) cs;
            (left, r) = rb_block plain r;
            ndone = length plain - length left;
            cs' = drop ndone cs in
        if left \<noteq> [] then (cs', ndone, r)
        else if cs' = [] then ([], ndone, r)
        else
          let (e, r1) = putc PPP_ESCAPE r in
          if e \<noteq> 0 then (cs', ndone, r1)
          else
            let (e, r2) = putc (hd cs' XOR PPP_TRANS) r1 in
            if e \<noteq> 0 then (cs', ndone, snd (unputc r2))
            else let (rest, k, r) = send_mbuf am (tl cs') r2 in (rest, ndone + 2 + k, r))"
  by auto
termination by (relation "measure (length \<circ> fst \<circ> snd)") (auto simp: less_Suc_eq_le)

text \<open>The FCS, low byte first, and the closing flag.\<close>

definition escaped :: "u32 \<Rightarrow> u8 \<Rightarrow> u8 list" where
  "escaped am c = (if ESCAPE_P am c then [PPP_ESCAPE, c XOR PPP_TRANS] else [c])"

definition endseq :: "u32 \<Rightarrow> u16 \<Rightarrow> u8 list" where
  "endseq am fcs = escaped am (ucast (NOT fcs)) @ escaped am (ucast (drop_bit 8 (NOT fcs))) @ [PPP_FLAG]"

fun put_end :: "u8 list \<Rightarrow> nat \<Rightarrow> ringb \<Rightarrow> bool \<times> ringb" where
  "put_end [] k r = (True, r)"
| "put_end (c # cs) k r =
     (let (e, r) = putc c r in
      if e \<noteq> 0 then (False, ((\<lambda>r. snd (unputc r)) ^^ k) r) else put_end cs (k + 1) r)"

text \<open>The mbufs of a packet: what is left of the chain (nothing when the packet is finished), the
  checksum so far and the count of characters.\<close>

fun send_chain :: "u32 \<Rightarrow> mbufs \<Rightarrow> u16 \<Rightarrow> nat \<Rightarrow> ringb \<Rightarrow> mbufs \<times> u16 \<times> nat \<times> ringb" where
  "send_chain am [] fcs n r = ([], fcs, n, r)"
| "send_chain am (m # ms) fcs n r =
     (let (rest, k, r) = send_mbuf am m r; n = n + k in
      if rest \<noteq> [] then (rest # ms, fcs, n, r)
      else
        case ms of
          [] \<Rightarrow> let (ok, r) = put_end (endseq am fcs) 0 r in (if ok then ([], fcs, n, r) else ([[]], fcs, n, r))
        | m2 # _ \<Rightarrow> send_chain am ms (pppfcs fcs m2) n r)"

text \<open>\<^verbatim>\<open>tp->t_oproc\<close> starts the device: it takes characters from the front of the ring.  A
  terminal without such a routine is \<open>None\<close>.\<close>

type_synonym oproc = "ringb \<Rightarrow> u8 list \<times> ringb"

definition t_oproc :: "oproc option \<Rightarrow> ppp_softc \<Rightarrow> ppp_softc" where
  "t_oproc oproc sc =
     (case oproc of None \<Rightarrow> sc
      | Some f \<Rightarrow> let (cs, r) = f (t_out sc) in sc\<lparr>t_out := r, t_wire := t_wire sc @ cs\<rparr>)"

text \<open>Header compression of the first mbuf with data: the protocol and the chain.\<close>

definition compress_out :: "reader \<Rightarrow> u32 \<Rightarrow> u16 \<Rightarrow> mbufs \<Rightarrow> slcompress \<Rightarrow> (u16 \<times> mbufs \<times> slcompress) option" where
  "compress_out junk flags protocol ms vj =
     (if \<not> (protocol = PPP_IP \<and> flags AND SC_COMP_TCP \<noteq> 0) then Some (protocol, ms, vj)
      else
        let i = (if hd ms = [] then 1 else 0) in
        if i \<ge> length ms then None
        else if ip_p (rd junk (ms ! i)) \<noteq> IPPROTO_TCP then Some (protocol, ms, vj)
        else
          (case sl_compress_tcp junk (flags AND SC_NO_TCP_CCID = 0) (ms ! i) vj of
             None \<Rightarrow> None
           | Some (type, m, vj) \<Rightarrow>
               Some (case type of TYPE_UNCOMPRESSED_TCP \<Rightarrow> PPP_VJC_UNCOMP | TYPE_COMPRESSED_TCP \<Rightarrow> PPP_VJC_COMP | _ \<Rightarrow> protocol,
                 ms[i := m], vj)))"

text \<open>The compressed address, control and protocol fields.\<close>

definition ppp_fields :: "u32 \<Rightarrow> u8 \<Rightarrow> u8 \<Rightarrow> u16 \<Rightarrow> u8 list" where
  "ppp_fields flags address control protocol =
     (let compac = flags AND SC_COMP_AC \<noteq> 0 \<and> address = PPP_ALLSTATIONS \<and> control = PPP_UI \<and> protocol \<noteq> 0xff \<and> protocol \<noteq> PPP_LCP;
          compprot = flags AND SC_COMP_PROT \<noteq> 0 \<and> protocol < 0x100 in
      (if compac then [] else [address, control]) @ (if compprot then [ucast protocol] else bytes_of_short protocol))"

text \<open>A new packet is made ready: its PPP header is the start of its first mbuf.\<close>

definition start_packet :: "reader \<Rightarrow> mbufs \<Rightarrow> ppp_softc \<Rightarrow> ppp_softc option" where
  "start_packet junk m sc =
     (let r = rd junk (hd m); protocol = get16 r 2 in
      case compress_out junk (sc_flags sc) protocol (drop PPP_HEADER_LEN (hd m) # tl m) (sc_comp sc) of
        None \<Rightarrow> None
      | Some (protocol, ms, vj) \<Rightarrow>
          let m1 = ppp_fields (sc_flags sc) (r 0) (r 1) protocol @ hd ms;
              sc = sc\<lparr>sc_comp := vj\<rparr>;
              sc = (if RB_LEN (t_out sc) = 0 then sc\<lparr>sc_bytessent := sc_bytessent sc + 1, t_out := snd (putc PPP_FLAG (t_out sc))\<rparr> else sc) in
          Some (sc\<lparr>sc_outm := m1 # tl ms, sc_outfcs := pppfcs PPP_INITFCS m1\<rparr>))"

text \<open>The next packet, from the priority queue first.\<close>

definition next_packet :: "ppp_softc \<Rightarrow> mbufs option \<times> ppp_softc" where
  "next_packet sc =
     (case ifq (sc_fastq sc) of
        m # q \<Rightarrow> (Some m, sc\<lparr>sc_fastq := (sc_fastq sc)\<lparr>ifq := q\<rparr>\<rparr>)
      | [] \<Rightarrow>
          (case ifq (if_snd sc) of
             m # q \<Rightarrow> (Some m, sc\<lparr>if_snd := (if_snd sc)\<lparr>ifq := q\<rparr>\<rparr>)
           | [] \<Rightarrow> (None, sc)))"

definition send_packet :: "oproc option \<Rightarrow> ppp_softc \<Rightarrow> bool \<times> ppp_softc" where
  "send_packet oproc sc =
     (let (ms, fcs, n, r) = send_chain (sc_asyncmap sc) (sc_outm sc) (sc_outfcs sc) 0 (t_out sc);
          sc = sc\<lparr>sc_outm := ms, sc_outfcs := fcs, sc_bytessent := sc_bytessent sc + of_nat n, t_out := r\<rparr> in
      if ms \<noteq> [] then (False, t_oproc oproc sc)
      else (True, sc\<lparr>sc_bytessent := sc_bytessent sc + 1, if_opackets := if_opackets sc + 1, if_obytes := sc_bytessent sc + 1\<rparr>))"

text \<open>One round of the loop of \<^verbatim>\<open>pppstart\<close>, and whether there is another.\<close>

definition start_round :: "reader \<Rightarrow> oproc option \<Rightarrow> ppp_softc \<Rightarrow> (bool \<times> ppp_softc) option" where
  "start_round junk oproc sc =
     (let busy = RB_LEN (t_out sc) \<noteq> 0 \<and> oproc \<noteq> None;
          sc = (if busy then t_oproc oproc sc else sc) in
      if busy \<and> RB_LEN (t_out sc) > PPP_HIWAT then Some (False, sc)
      else if sc_outm sc \<noteq> [] then Some (send_packet oproc sc)
      else
        (case next_packet sc of
           (None, sc) \<Rightarrow> Some (False, sc)
         | (Some m, sc) \<Rightarrow> map_option (send_packet oproc) (start_packet junk m sc)))"

definition pending :: "ppp_softc \<Rightarrow> nat" where
  "pending sc = length (ifq (sc_fastq sc)) + length (ifq (if_snd sc)) + (if sc_outm sc = [] then 0 else 1)"

lemma send_packet_pending:
  assumes "send_packet oproc sc = (True, sc')" "sc_outm sc \<noteq> []"
  shows "pending sc' < pending sc"
  using assms by (auto simp: send_packet_def pending_def Let_def split: prod.splits if_splits)

lemma start_packet_queues:
  assumes "start_packet junk m sc = Some sc'"
  shows "sc_fastq sc' = sc_fastq sc" "if_snd sc' = if_snd sc" "sc_outm sc' \<noteq> []"
  using assms by (auto simp: start_packet_def compress_out_def Let_def split: option.splits if_splits prod.splits)

lemma t_oproc_frame: "sc_fastq (t_oproc f sc) = sc_fastq sc" "if_snd (t_oproc f sc) = if_snd sc" "sc_outm (t_oproc f sc) = sc_outm sc"
  by (auto simp: t_oproc_def split: option.split prod.split)

lemma next_packet_pending:
  assumes "next_packet sc = (Some m, sc')"
  shows "length (ifq (sc_fastq sc')) + length (ifq (if_snd sc')) < length (ifq (sc_fastq sc)) + length (ifq (if_snd sc))"
  using assms by (auto simp: next_packet_def split: list.splits)

lemma start_round_pending:
  assumes "start_round junk oproc sc = Some (True, sc')"
  shows "pending sc' < pending sc"
proof -
  define sc1 where "sc1 = (if RB_LEN (t_out sc) \<noteq> 0 \<and> oproc \<noteq> None then t_oproc oproc sc else sc)"
  have p: "pending sc1 = pending sc" by (simp add: sc1_def pending_def t_oproc_frame)
  from assms consider "sc_outm sc1 \<noteq> []" "send_packet oproc sc1 = (True, sc')"
    | m sc2 sc3 where "sc_outm sc1 = []" "next_packet sc1 = (Some m, sc2)" "start_packet junk m sc2 = Some sc3" "send_packet oproc sc3 = (True, sc')"
    unfolding start_round_def Let_def sc1_def [symmetric] by (auto split: if_splits prod.splits option.splits)
  then show ?thesis
  proof cases
    case 1
    then show ?thesis using send_packet_pending p by metis
  next
    case 2
    have "pending sc3 = length (ifq (sc_fastq sc2)) + length (ifq (if_snd sc2)) + 1" using start_packet_queues [OF 2(3)] by (simp add: pending_def)
    moreover have "pending sc' < pending sc3" using send_packet_pending [OF 2(4)] start_packet_queues [OF 2(3)] by simp
    moreover have "pending sc1 = length (ifq (sc_fastq sc1)) + length (ifq (if_snd sc1))" using 2(1) by (simp add: pending_def)
    ultimately show ?thesis using next_packet_pending [OF 2(2)] p by linarith
  qed
qed

function pppstart :: "reader \<Rightarrow> oproc option \<Rightarrow> ppp_softc \<Rightarrow> ppp_softc option" where
  "pppstart junk oproc sc =
     (case start_round junk oproc sc of
        None \<Rightarrow> None
      | Some (True, sc) \<Rightarrow> pppstart junk oproc sc
      | Some (False, sc) \<Rightarrow> Some sc)"
  by auto
termination by (relation "measure (\<lambda>(_, _, sc). pending sc)") (auto dest: start_round_pending)

declare pppstart.simps [simp del] send_mbuf.simps [simp del] rb_block.simps [simp del]

text \<open>\<^verbatim>\<open>pppoutput\<close>.  The destination gives an IP packet, an XNS packet, a packet with the PPP header of
  the caller, or an address of another family; \<open>prepend\<close> tells whether there is room before the data, and when there
  is not whether another mbuf can be had.\<close>

datatype ppp_dst = DST_INET | DST_NS | DST_UNSPEC u8 u8 u16 | DST_OTHER

datatype prepend = In_place | New_mbuf | No_mbuf

definition interactive_ports :: "u16 list" where
  "interactive_ports = [0, 513, 0, 0, 0, 21, 0, 23]"

definition INTERACTIVE :: "u16 \<Rightarrow> bool" where
  "INTERACTIVE p \<longleftrightarrow> interactive_ports ! unat (p AND 7) = p"

text \<open>TCP packets to or from an interactive port go to the priority queue.\<close>

definition ppp_fast :: "reader \<Rightarrow> ppp_dst \<Rightarrow> bool" where
  "ppp_fast r dst \<longleftrightarrow> dst = DST_INET \<and> ip_p r = IPPROTO_TCP \<and>
     (let t = 4 * ip_hl r in INTERACTIVE (short_of (r (t + 1)) (r t)) \<or> INTERACTIVE (short_of (r (t + 3)) (r (t + 2))))"

definition ppp_header :: "ppp_dst \<Rightarrow> u8 list" where
  "ppp_header dst =
     (case dst of
        DST_UNSPEC a c p \<Rightarrow> [a, c] @ bytes_of_short p
      | DST_NS \<Rightarrow> [PPP_ALLSTATIONS, PPP_UI] @ bytes_of_short PPP_XNS
      | _ \<Rightarrow> [PPP_ALLSTATIONS, PPP_UI] @ bytes_of_short PPP_IP)"

definition is_unspec :: "ppp_dst \<Rightarrow> bool" where
  "is_unspec dst = (case dst of DST_UNSPEC _ _ _ \<Rightarrow> True | _ \<Rightarrow> False)"

definition pppoutput :: "reader \<Rightarrow> oproc option \<Rightarrow> prepend \<Rightarrow> mbufs \<Rightarrow> ppp_dst \<Rightarrow> ppp_softc \<Rightarrow> (errno option \<times> ppp_softc) option" where
  "pppoutput junk oproc room m0 dst sc =
     (if \<not> sc_ttyp sc \<or> \<not> if_running sc \<or> \<not> if_up sc \<and> \<not> is_unspec dst then Some (Some ENETDOWN, sc)
      else if \<not> t_carr_on sc then Some (Some EHOSTUNREACH, sc)
      else if dst = DST_OTHER then Some (Some EAFNOSUPPORT, sc)
      else
        let fast = ppp_fast (rd junk (hd m0)) dst; hdr = ppp_header dst in
        if room = No_mbuf then Some (Some ENOBUFS, sc)
        else
          let m0 = (if room = New_mbuf then hdr # m0 else (hdr @ hd m0) # tl m0) in
          if fast then
            if IF_QFULL (sc_fastq sc) then Some (Some ENOBUFS, sc\<lparr>sc_fastq := IF_DROP (sc_fastq sc), if_oerrors := if_oerrors sc + 1\<rparr>)
            else map_option (Pair None) (pppstart junk oproc (sc\<lparr>sc_fastq := IF_ENQUEUE m0 (sc_fastq sc)\<rparr>))
          else
            if IF_QFULL (if_snd sc) then Some (Some ENOBUFS, sc\<lparr>if_snd := IF_DROP (if_snd sc), if_oerrors := if_oerrors sc + 1\<rparr>)
            else map_option (Pair None) (pppstart junk oproc (sc\<lparr>if_snd := IF_ENQUEUE m0 (if_snd sc)\<rparr>)))"

section \<open>Input\<close>

text \<open>The allocator's answers are lists with the size of each mbuf it gives, \<open>None\<close> where it has none.
  \<open>alloc\<close> holds those of one received frame: for the small mbuf and for two calls of \<^verbatim>\<open>pppinit\<close>.\<close>

type_synonym alloc = "bool \<times> nat option list \<times> nat option list"

fun get_mbufs :: "int \<Rightarrow> nat option list \<Rightarrow> nat list option" where
  "get_mbufs len (Some k # as) = (if len - int k \<le> 0 then Some [k] else map_option ((#) k) (get_mbufs (len - int k) as))"
| "get_mbufs len _ = None"

definition pppinit :: "nat option list \<Rightarrow> ppp_softc \<Rightarrow> bool \<times> ppp_softc" where
  "pppinit as sc =
     (let len = int HDROFF + sc_mru sc + int PPP_HEADER_LEN + int PPP_FCS_LEN - int (sum_list (sc_m sc)) in
      if sc_m sc \<noteq> [] \<and> len \<le> 0 then (True, sc)
      else case get_mbufs len as of
        None \<Rightarrow> (False, sc\<lparr>sc_m := []\<rparr>)
      | Some ks \<Rightarrow> (True, sc\<lparr>sc_m := sc_m sc @ ks\<rparr>))"

text \<open>The mbuf of the chain that holds the \<open>n\<close>th byte, and the bytes before it there.\<close>

fun mbuf_at :: "nat \<Rightarrow> nat list \<Rightarrow> nat \<times> nat" where
  "mbuf_at n [] = (0, n)"
| "mbuf_at n (k # ks) = (if n < k then (0, n) else let (j, i) = mbuf_at (n - k) ks in (Suc j, i))"

definition in_sizes :: "ppp_softc \<Rightarrow> nat list" where
  "in_sizes sc = (hd (sc_m sc) - HDROFF) # tl (sc_m sc)"

text \<open>\<^verbatim>\<open>ppp_btom\<close> takes the received chain, up to the current mbuf \<open>j\<close> with \<open>len\<close> bytes, out of the
  unit: whether it succeeds.\<close>

definition ppp_btom :: "alloc \<Rightarrow> nat \<Rightarrow> nat \<Rightarrow> ppp_softc \<Rightarrow> bool \<times> ppp_softc" where
  "ppp_btom al j len sc =
     (let (small, as1, as2) = al in
      if len \<le> MHLEN \<and> \<not> small then (False, sc)
      else
        let (ok, sc) = pppinit as1 (sc\<lparr>sc_m := drop (if len > MHLEN then Suc j else j) (sc_m sc)\<rparr>) in
        if ok then (True, sc)
        else
          let (ok, sc) = pppinit as2 sc in
          (False, if ok then sc else sc\<lparr>if_up := False\<rparr>))"

text \<open>A complete packet goes to IP or to the reader of the terminal.\<close>

definition pass_up :: "u16 \<Rightarrow> u8 list \<Rightarrow> ppp_softc \<Rightarrow> ppp_softc" where
  "pass_up proto m sc =
     (if proto = PPP_IP then
        if \<not> if_up sc then sc\<lparr>if_ierrors := if_ierrors sc + 1\<rparr>
        else if IF_QFULL (ipintrq sc)
        then sc\<lparr>ipintrq := IF_DROP (ipintrq sc), if_ierrors := if_ierrors sc + 1, if_iqdrops := if_iqdrops sc + 1\<rparr>
        else sc\<lparr>ipintrq := IF_ENQUEUE (drop PPP_HEADER_LEN m) (ipintrq sc)\<rparr>
      else
        let sc = sc\<lparr>t_can := snd (putc 0 (t_can sc))\<rparr> in
        if IF_QFULL (sc_inq sc)
        then sc\<lparr>sc_inq := IF_DROP (sc_inq sc), if_ierrors := if_ierrors sc + 1, if_iqdrops := if_iqdrops sc + 1\<rparr>
        else sc\<lparr>sc_inq := IF_ENQUEUE m (sc_inq sc)\<rparr>)"

text \<open>Decompression of a received packet: \<open>Inl\<close> where the packet is dropped, else the protocol and the data.\<close>

definition decompress_in :: "reader \<Rightarrow> u16 \<Rightarrow> u8 list \<Rightarrow> int \<Rightarrow> ppp_softc \<Rightarrow> (ppp_softc + u16 \<times> u8 list \<times> nat \<times> ppp_softc) option" where
  "decompress_in junk proto m ilen sc =
     (let k = hd (in_sizes sc) in
      if proto \<noteq> PPP_VJC_COMP \<and> proto \<noteq> PPP_VJC_UNCOMP then Some (Inr (proto, m, min k (length m), sc))
      else if sc_flags sc AND SC_REJ_COMP_TCP \<noteq> 0 then Some (Inl (sc\<lparr>if_ierrors := if_ierrors sc + 1\<rparr>))
      else
        (case sl_uncompress_tcp_part junk (drop PPP_HEADER_LEN (take k m)) (nat (ilen - int PPP_HEADER_LEN))
            (if proto = PPP_VJC_COMP then TYPE_COMPRESSED_TCP else TYPE_UNCOMPRESSED_TCP) (sc_comp sc) of
           None \<Rightarrow> None
         | Some (None, vj) \<Rightarrow> Some (Inl (sc\<lparr>sc_comp := vj, if_ierrors := if_ierrors sc + 1\<rparr>))
         | Some (Some (pkt, xlen), vj) \<Rightarrow>
             if xlen = 0 then Some (Inl (sc\<lparr>sc_comp := vj, if_ierrors := if_ierrors sc + 1\<rparr>))
             else Some (Inr (PPP_IP, take 2 m @ bytes_of_short PPP_IP @ pkt @ drop k m, PPP_HEADER_LEN + length pkt, sc\<lparr>sc_comp := vj\<rparr>))))"

text \<open>A flag ends the frame.\<close>

definition frame_end :: "reader \<Rightarrow> alloc \<Rightarrow> ppp_softc \<Rightarrow> ppp_softc option" where
  "frame_end junk al sc =
     (let ilen = sc_ilen sc; sc = sc\<lparr>sc_ilen := 0\<rparr> in
      if sc_flush sc \<or> ilen > 0 \<and> sc_fcs sc \<noteq> PPP_GOODFCS then
        (case sl_uncompress_tcp junk [] TYPE_ERROR (sc_comp sc) of
           None \<Rightarrow> None
         | Some (_, vj) \<Rightarrow>
             let sc = sc\<lparr>sc_comp := vj\<rparr> in
             Some (if \<not> sc_flush sc then sc\<lparr>if_ierrors := if_ierrors sc + 1\<rparr> else sc\<lparr>sc_flush := False\<rparr>))
      else if ilen < int (PPP_HEADER_LEN + PPP_FCS_LEN) then Some (if ilen \<noteq> 0 then sc\<lparr>if_ierrors := if_ierrors sc + 1\<rparr> else sc)
      else
        let n = length (sc_in sc) - PPP_FCS_LEN; m = take n (sc_in sc); ilen = ilen - int PPP_FCS_LEN;
            (j, len) = mbuf_at n (in_sizes sc);
            sc = sc\<lparr>if_ipackets := if_ipackets sc + 1\<rparr> in
        (case decompress_in junk (get16 (rd junk m) 2) m ilen sc of
           None \<Rightarrow> None
         | Some (Inl sc) \<Rightarrow> Some sc
         | Some (Inr (proto, m, first, sc)) \<Rightarrow>
             let (ok, sc) = ppp_btom al j (if j = 0 then first else len) sc in
             Some (if ok then pass_up proto m sc else sc\<lparr>if_ierrors := if_ierrors sc + 1\<rparr>)))"

definition ppp_flush :: "ppp_softc \<Rightarrow> ppp_softc" where
  "ppp_flush sc = sc\<lparr>if_ierrors := if_ierrors sc + 1, sc_flush := True\<rparr>"

text \<open>The first octet starts a packet, with the address and control fields if they were left out.\<close>

definition first_octet :: "u8 \<Rightarrow> ppp_softc \<Rightarrow> (ppp_softc + ppp_softc) option" where
  "first_octet c sc =
     (if sc_ilen sc \<noteq> 0 then Some (Inr sc)
      else if sc_m sc = [] \<or> hd (sc_m sc) < HDROFF + PPP_HEADER_LEN then None
      else
        let sc = sc\<lparr>sc_in := [], sc_fcs := PPP_INITFCS\<rparr> in
        if c = PPP_ALLSTATIONS then Some (Inr sc)
        else if sc_flags sc AND SC_REJ_COMP_AC \<noteq> 0 then Some (Inl (ppp_flush sc))
        else Some (Inr (sc\<lparr>sc_in := [PPP_ALLSTATIONS, PPP_UI], sc_ilen := 2\<rparr>)))"

definition store_octet :: "u8 \<Rightarrow> ppp_softc \<Rightarrow> ppp_softc" where
  "store_octet c sc =
     (if sc_ilen sc = 1 \<and> c \<noteq> PPP_UI then ppp_flush sc
      else
        let sc = (if sc_ilen sc = 2 \<and> c AND 1 = 1 then sc\<lparr>sc_in := sc_in sc @ [0], sc_ilen := 3\<rparr> else sc) in
        if sc_ilen sc = 3 \<and> c AND 1 = 0 then ppp_flush sc
        else
          let sc = sc\<lparr>sc_ilen := s16 (sc_ilen sc + 1)\<rparr> in
          if sc_ilen sc > sc_mru sc + int (PPP_HEADER_LEN + PPP_FCS_LEN) then ppp_flush sc
          else if length (sc_in sc) \<ge> sum_list (in_sizes sc) then ppp_flush sc
          else sc\<lparr>sc_in := sc_in sc @ [c], sc_fcs := PPP_FCS (sc_fcs sc) c\<rparr>)"

text \<open>\<^verbatim>\<open>pppinput\<close> takes a character and whether it came with a framing error.\<close>

definition pppinput :: "reader \<Rightarrow> alloc \<Rightarrow> bool \<times> u8 \<Rightarrow> ppp_softc \<Rightarrow> ppp_softc option" where
  "pppinput junk al ch sc =
     (let (fe, c) = ch; sc = sc\<lparr>if_ibytes := if_ibytes sc + 1\<rparr> in
      if fe then Some (ppp_flush sc)
      else if c = PPP_FLAG then frame_end junk al sc
      else if sc_flush sc then Some sc
      else if c = PPP_ESCAPE then Some (sc\<lparr>sc_escaped := True\<rparr>)
      else if c < 0x20 \<and> sc_rasyncmap sc AND push_bit (unat c) 1 \<noteq> 0 then Some sc
      else
        let c' = (if sc_escaped sc then c XOR PPP_TRANS else c) in
        (case first_octet c' (sc\<lparr>sc_escaped := False\<rparr>) of
           None \<Rightarrow> None
         | Some (Inl sc) \<Rightarrow> Some sc
         | Some (Inr sc) \<Rightarrow> Some (store_octet c' sc)))"

section \<open>Opening, reading, writing and control\<close>

text \<open>What \<^verbatim>\<open>pppattach\<close> sets of the fields of the unit.\<close>

definition pppattach :: "ppp_softc \<Rightarrow> ppp_softc" where
  "pppattach sc = sc\<lparr>if_mtu := PPP_MTU, if_up := False, if_running := False, if_snd := (if_snd sc)\<lparr>ifq_maxlen := IFQ_MAXLEN\<rparr>,
     sc_inq := (sc_inq sc)\<lparr>ifq_maxlen := IFQ_MAXLEN\<rparr>, sc_fastq := (sc_fastq sc)\<lparr>ifq_maxlen := IFQ_MAXLEN\<rparr>\<rparr>"

text \<open>One unit is modelled.  \<^verbatim>\<open>suser\<close> is that of \<^verbatim>\<open>Cred\<close>, with the caller's accounting flags returned.\<close>

definition pppopen :: "ucred \<Rightarrow> u16 \<Rightarrow> nat option list \<Rightarrow> ppp_softc \<Rightarrow> errno option \<times> u16 \<times> ppp_softc" where
  "pppopen cr acflag as sc =
     (case suser cr acflag of
        (Some e, acflag) \<Rightarrow> (Some e, acflag, sc)
      | (None, acflag) \<Rightarrow>
          if t_ppp sc then (None, acflag, sc)
          else if sc_ttyp sc then (Some ENXIO, acflag, sc)
          else
            let sc = sc\<lparr>sc_flags := 0, sc_escaped := False, sc_flush := False, sc_ilen := 0, sc_asyncmap := 0xffffffff, sc_rasyncmap := 0,
                  sc_mru := PPP_MRU, sc_comp := sl_compress_init\<rparr>;
                (ok, sc) = pppinit as sc in
            if \<not> ok then (Some ENOBUFS, acflag, sc\<lparr>if_up := False, if_running := False\<rparr>)
            else (None, acflag, sc\<lparr>sc_ttyp := True, sc_outm := [], t_can := initrb (t_can sc), t_out := initrb (t_out sc), if_running := True\<rparr>))"

text \<open>\<open>ttywflush\<close> is the routine of the terminal layer that waits for the output to drain.\<close>

definition pppclose :: "(ppp_softc \<Rightarrow> ppp_softc) \<Rightarrow> ppp_softc \<Rightarrow> ppp_softc" where
  "pppclose ttywflush sc =
     (let sc = (ttywflush sc)\<lparr>t_ppp := False\<rparr> in
      if \<not> sc_ttyp sc then sc
      else sc\<lparr>if_snd := (if_snd sc)\<lparr>ifq := []\<rparr>, sc_ttyp := False, sc_outm := [], sc_m := [], sc_inq := (sc_inq sc)\<lparr>ifq := []\<rparr>,
        sc_fastq := (sc_fastq sc)\<lparr>ifq := []\<rparr>, if_up := False, if_running := False\<rparr>)"

datatype read_result = Read_error errno | Read_sleep | Read_restart | Read_data "u8 list"

definition pppread :: "bool \<Rightarrow> nat \<Rightarrow> ppp_softc \<Rightarrow> read_result \<times> ppp_softc" where
  "pppread async resid sc =
     (if \<not> t_carr_on sc then (Read_error EIO, sc)
      else if \<not> t_ppp sc then (Read_restart, sc)
      else
        case ifq (sc_inq sc) of
          [] \<Rightarrow> (if async then Read_error EWOULDBLOCK else Read_sleep, sc)
        | m # q \<Rightarrow> (Read_data (take resid m), sc\<lparr>t_can := snd (getc (t_can sc)), sc_inq := (sc_inq sc)\<lparr>ifq := q\<rparr>\<rparr>))"

fun to_mbufs :: "nat list \<Rightarrow> u8 list \<Rightarrow> mbufs option" where
  "to_mbufs ks [] = Some []"
| "to_mbufs [] (c # cs) = None"
| "to_mbufs (k # ks) (c # cs) = map_option ((#) (take k (c # cs))) (to_mbufs ks (drop k (c # cs)))"

definition pppwrite :: "reader \<Rightarrow> oproc option \<Rightarrow> nat list \<Rightarrow> u8 list \<Rightarrow> ppp_softc \<Rightarrow> (errno option \<times> ppp_softc) option" where
  "pppwrite junk oproc ks d sc =
     (if \<not> t_carr_on sc then Some (Some EIO, sc)
      else if \<not> t_ppp sc then Some (Some EINVAL, sc)
      else if int (length d) > if_mtu sc + int PPP_HEADER_LEN \<or> length d < PPP_HEADER_LEN then Some (Some EMSGSIZE, sc)
      else case to_mbufs ks d of
        None \<Rightarrow> Some (Some ENOBUFS, sc)
      | Some m \<Rightarrow>
          let r = rd junk (hd m) in
          pppoutput junk oproc In_place (drop PPP_HEADER_LEN (hd m) # tl m) (DST_UNSPEC (r 0) (r 1) (get16 r 2)) sc)"

datatype ppp_ioctl = FIONREAD | PPPIOCGUNIT | PPPIOCGFLAGS | PPPIOCSFLAGS u32 | PPPIOCSASYNCMAP u32 | PPPIOCGASYNCMAP
  | PPPIOCSRASYNCMAP u32 | PPPIOCGRASYNCMAP | PPPIOCSMRU int | PPPIOCGMRU | OTHER_IOCTL

datatype ioctl_result = Ioctl_ok | Ioctl_data int | Ioctl_error errno | Ioctl_not_mine

definition set_mru :: "int \<Rightarrow> nat option list \<Rightarrow> nat option list \<Rightarrow> ppp_softc \<Rightarrow> ppp_softc" where
  "set_mru mru as1 as2 sc =
     (if \<not> (mru \<ge> PPP_MRU \<and> mru \<le> PPP_MAXMRU) then sc
      else
        let (ok, sc) = pppinit as1 (sc\<lparr>sc_mru := s16 mru\<rparr>) in
        if ok then sc
        else let (ok, sc) = pppinit as2 (sc\<lparr>sc_mru := PPP_MRU\<rparr>) in (if ok then sc else sc\<lparr>if_up := False\<rparr>))"

definition ppptioctl :: "ucred \<Rightarrow> u16 \<Rightarrow> nat option list \<Rightarrow> nat option list \<Rightarrow> ppp_ioctl \<Rightarrow> ppp_softc \<Rightarrow> ioctl_result \<times> u16 \<times> ppp_softc" where
  "ppptioctl cr acflag as1 as2 cmd sc =
     (let priv = (\<lambda>f. case suser cr acflag of (Some e, acflag) \<Rightarrow> (Ioctl_error e, acflag, sc) | (None, acflag) \<Rightarrow> (Ioctl_ok, acflag, f sc));
          get = (\<lambda>x. (Ioctl_data x, acflag, sc)) in
      case cmd of
        FIONREAD \<Rightarrow> get (int (length (ifq (sc_inq sc))))
      | PPPIOCGUNIT \<Rightarrow> get 0
      | PPPIOCGFLAGS \<Rightarrow> get (uint (sc_flags sc OR (if sc_escaped sc then SC_ESCAPED else 0) OR (if sc_flush sc then SC_FLUSH else 0)))
      | PPPIOCSFLAGS d \<Rightarrow> priv (\<lambda>sc. sc\<lparr>sc_flags := d AND SC_MASK\<rparr>)
      | PPPIOCSASYNCMAP d \<Rightarrow> priv (\<lambda>sc. sc\<lparr>sc_asyncmap := d\<rparr>)
      | PPPIOCGASYNCMAP \<Rightarrow> get (uint (sc_asyncmap sc))
      | PPPIOCSRASYNCMAP d \<Rightarrow> priv (\<lambda>sc. sc\<lparr>sc_rasyncmap := d\<rparr>)
      | PPPIOCGRASYNCMAP \<Rightarrow> get (uint (sc_rasyncmap sc))
      | PPPIOCSMRU d \<Rightarrow> priv (set_mru d as1 as2)
      | PPPIOCGMRU \<Rightarrow> get (sc_mru sc)
      | OTHER_IOCTL \<Rightarrow> (Ioctl_not_mine, acflag, sc))"

datatype if_ioctl = SIOCSIFFLAGS bool | SIOCSIFADDR bool | SIOCSIFDSTADDR bool | SIOCSIFMTU int | SIOCGIFMTU | OTHER_SIOC

text \<open>\<^verbatim>\<open>pppioctl\<close>.  The flag of \<open>SIOCSIFFLAGS\<close> is the new \<^verbatim>\<open>IFF_UP\<close>, which the caller has stored already; that of the
  address requests tells whether the address is an Internet one.\<close>

definition pppioctl :: "ucred \<Rightarrow> u16 \<Rightarrow> if_ioctl \<Rightarrow> ppp_softc \<Rightarrow> ioctl_result \<times> u16 \<times> ppp_softc" where
  "pppioctl cr acflag cmd sc =
     (case cmd of
        SIOCSIFFLAGS b \<Rightarrow> (Ioctl_ok, acflag, sc\<lparr>if_up := b \<and> if_running sc\<rparr>)
      | SIOCSIFADDR inet \<Rightarrow> (if inet then Ioctl_ok else Ioctl_error EAFNOSUPPORT, acflag, sc)
      | SIOCSIFDSTADDR inet \<Rightarrow> (if inet then Ioctl_ok else Ioctl_error EAFNOSUPPORT, acflag, sc)
      | SIOCSIFMTU d \<Rightarrow>
          (case suser cr acflag of
             (Some e, acflag) \<Rightarrow> (Ioctl_error e, acflag, sc)
           | (None, acflag) \<Rightarrow> (Ioctl_ok, acflag, sc\<lparr>if_mtu := s16 d\<rparr>))
      | SIOCGIFMTU \<Rightarrow> (Ioctl_data (if_mtu sc), acflag, sc)
      | OTHER_SIOC \<Rightarrow> (Ioctl_error EINVAL, acflag, sc))"

end
