(* ===== verification/Ppp_line.thy ===== *)
theory Ppp_line
  imports If_ppp
begin

text \<open>
  What the output side of the PPP line discipline puts on the line: the frames of the
  packets it takes from its queues, whole and in order, at whatever pace the device
  empties the ring.
\<close>

section \<open>Blocks into the ring\<close>

lemma contigput_full: "rb_inv r \<Longrightarrow> RB_CONTIGPUT r = 0 \<longleftrightarrow> RB_LEN r = RBSZ - 1"
  by (auto simp: rb_inv_def ring_arith split: if_splits)

lemma rb_chunk:
  assumes "rb_inv r" "n \<le> RB_CONTIGPUT r" "n \<le> length cs"
  defines "r' \<equiv> r\<lparr>rb_buf := bcopy cs (rb_buf r) (rb_tl r) n, rb_tl := RB_ROLLOVER (rb_tl r + n)\<rparr>"
  shows "rb_inv r'" "contents r' = contents r @ take n cs" "RB_LEN r' = RB_LEN r + n"
proof -
  have fit: "rb_tl r + n \<le> RBSZ" and len: "RB_LEN r' = RB_LEN r + n"
    using assms(1,2) by (auto simp: r'_def rb_inv_def ring_arith split: if_splits)
  have buf: "rb_tl r + n \<le> length (rb_buf r)" using fit assms(1) by (simp add: rb_inv_def)
  show inv: "rb_inv r'" using assms(1,3) fit buf RBSZ_pos by (auto simp: r'_def rb_inv_def length_bcopy RB_ROLLOVER_def)
  show "RB_LEN r' = RB_LEN r + n" by (fact len)
  show "contents r' = contents r @ take n cs"
  proof (rule contents_append)
    fix i assume i: "i < RB_LEN r"
    then have "rb_ix (rb_hd r) i < RBSZ"
      "\<not> (rb_tl r \<le> rb_ix (rb_hd r) i \<and> rb_ix (rb_hd r) i < rb_tl r + n)"
      using assms(1,2) by (auto simp: rb_inv_def ring_arith split: if_splits)
    then show "rb_buf r' ! rb_ix (rb_hd r) i = rb_buf r ! rb_ix (rb_hd r) i"
      using nth_bcopy [OF buf assms(3), of "rb_ix (rb_hd r) i"] assms(1) by (auto simp: r'_def rb_inv_def)
  next
    fix j assume "j < length (take n cs)"
    then have j: "j < n" by simp
    have "rb_ix (rb_hd r) (RB_LEN r + j) = rb_tl r + j"
      using j assms(1) fit by (auto simp: rb_inv_def ring_arith)
    then show "rb_buf r' ! rb_ix (rb_hd r) (RB_LEN r + j) = take n cs ! j"
      using nth_bcopy [OF buf assms(3), of "rb_tl r + j"] j buf by (simp add: r'_def)
  qed (use assms(3) len in \<open>simp_all add: r'_def\<close>)
qed

lemma rb_block_stores:
  assumes "rb_block cs r = (rest, r')" "rb_inv r"
  shows "rb_inv r' \<and> (rest \<noteq> [] \<longrightarrow> RB_LEN r' = RBSZ - 1) \<and> (\<exists>d. cs = d @ rest \<and> contents r' = contents r @ d)"
  using assms
proof (induction cs r arbitrary: rest r' rule: rb_block.induct)
  case (1 cs r)
  show ?case
  proof (cases "cs = [] \<or> RB_CONTIGPUT r = 0")
    case True
    then show ?thesis using 1(2,3) contigput_full [OF 1(3)] by (subst (asm) rb_block.simps) auto
  next
    case False
    let ?n = "min (RB_CONTIGPUT r) (length cs)"
    let ?r = "r\<lparr>rb_buf := bcopy cs (rb_buf r) (rb_tl r) ?n, rb_tl := RB_ROLLOVER (rb_tl r + ?n)\<rparr>"
    have n: "?n \<le> RB_CONTIGPUT r" "?n \<le> length cs" by simp_all
    note ch = rb_chunk [OF 1(3) n]
    have "rb_block (drop ?n cs) ?r = (rest, r')" using 1(2) False by (subst (asm) rb_block.simps) (simp add: Let_def)
    with 1(1) [OF refl False refl] ch(1) obtain d where "rb_inv r'" "drop ?n cs = d @ rest" "contents r' = contents ?r @ d"
      and "rest \<noteq> [] \<longrightarrow> RB_LEN r' = RBSZ - 1" by metis
    moreover have "cs = take ?n cs @ drop ?n cs" by simp
    ultimately show ?thesis using ch(2) by (metis append.assoc)
  qed
qed

section \<open>Characters escaped\<close>

definition stuffed :: "u32 \<Rightarrow> u8 list \<Rightarrow> u8 list" where
  "stuffed am cs = concat (map (escaped am) cs)"

lemma stuffed_simps [simp]: "stuffed am [] = []" "stuffed am (c # cs) = escaped am c @ stuffed am cs"
  "stuffed am (xs @ ys) = stuffed am xs @ stuffed am ys"
  by (simp_all add: stuffed_def)

lemma stuffed_plain: "\<forall>c \<in> set cs. \<not> ESCAPE_P am c \<Longrightarrow> stuffed am cs = cs"
  by (induction cs) (simp_all add: escaped_def)

lemma putc_cases:
  assumes "rb_inv r"
  obtains (full) "putc c r = (- 1, r)" "RB_LEN r = RBSZ - 1"
  | (room) r' where "putc c r = (0, r')" "rb_inv r'" "contents r' = contents r @ [c]"
proof (cases "RB_LEN r = RBSZ - 1")
  case True
  then show ?thesis using full putc_full [OF assms] by blast
next
  case False
  then show ?thesis using room putc_room [OF assms, of c] RB_LEN_bound [OF assms] by force
qed

text \<open>The stores of one mbuf up to its first escaped character: the ring is full, or the rest follows.\<close>

lemma send_mbuf_step:
  assumes "send_mbuf am cs r = (rest, k, r')" "rb_inv r" "cs \<noteq> []"
  obtains (stop) d where "cs = d @ rest" "rb_inv r'" "contents r' = contents r @ stuffed am d" "rest \<noteq> [] \<longrightarrow> RBSZ \<le> RB_LEN r' + 2"
  | (go) d c cs' r3 k' where "cs = d @ c # cs'" "rb_inv r3" "contents r3 = contents r @ stuffed am (d @ [c])" "send_mbuf am cs' r3 = (rest, k', r')"
proof -
  define plain where "plain = takeWhile (\<lambda>c. \<not> ESCAPE_P am c) cs"
  obtain left r1 where b: "rb_block plain r = (left, r1)" by fastforce
  from rb_block_stores [OF b assms(2)] obtain d where d: "rb_inv r1" "plain = d @ left" "contents r1 = contents r @ d"
    and lf: "left \<noteq> [] \<longrightarrow> RB_LEN r1 = RBSZ - 1" by blast
  have sd: "contents r1 = contents r @ stuffed am d"
    using d(2,3) stuffed_plain [of d am] by (metis Un_iff plain_def set_append set_takeWhileD)
  define cs' where "cs' = drop (length plain - length left) cs"
  have cs: "cs = d @ cs'" using d(2) unfolding cs'_def
    by (metis append_take_drop_id append_eq_conv_conj diff_add_inverse2 length_append plain_def takeWhile_eq_take takeWhile_dropWhile_id append.assoc)
  have step: "send_mbuf am cs r =
    (if left \<noteq> [] then (cs', length plain - length left, r1)
     else if cs' = [] then ([], length plain - length left, r1)
     else let (e, r2) = putc PPP_ESCAPE r1 in
       if e \<noteq> 0 then (cs', length plain - length left, r2)
       else let (e, r3) = putc (hd cs' XOR PPP_TRANS) r2 in
         if e \<noteq> 0 then (cs', length plain - length left, snd (unputc r3))
         else let (rest, k, r) = send_mbuf am (tl cs') r3 in (rest, length plain - length left + 2 + k, r))"
    using assms(3) b unfolding cs'_def by (subst send_mbuf.simps) (simp add: Let_def flip: plain_def)
  have stop': thesis if "rest = cs'" "rb_inv r'" "contents r' = contents r1" "rest \<noteq> [] \<longrightarrow> RBSZ \<le> RB_LEN r' + 2"
    using stop that cs sd by simp
  have sz: "RBSZ \<le> RBSZ - 1 + 2" by simp
  show thesis
  proof (cases "left \<noteq> [] \<or> cs' = []")
    case True
    then show ?thesis using step assms(1) d(1) lf stop' sz by (auto split: if_splits)
  next
    case F: False
    from d(1) show ?thesis
    proof (cases rule: putc_cases [where c = PPP_ESCAPE])
      case full
      then show ?thesis using step assms(1) d(1) F stop' sz by simp
    next
      case r2: (room r2)
      from r2(2) show ?thesis
      proof (cases rule: putc_cases [where c = "hd cs' XOR PPP_TRANS"])
        case full
        moreover from unputc_nonempty [OF r2(2,3)] obtain r4 where "unputc r2 = (uint PPP_ESCAPE, r4)" "rb_inv r4" "contents r4 = contents r1" by blast
        moreover from this r2(3) have "RB_LEN r4 = RB_LEN r1" "RB_LEN r2 = RB_LEN r1 + 1" by (simp_all flip: length_contents)
        ultimately show ?thesis using step assms(1) F stop' r2 sz by auto
      next
        case r3: (room r3)
        have "cs' = dropWhile (\<lambda>c. \<not> ESCAPE_P am c) cs" using F by (simp add: cs'_def plain_def dropWhile_eq_drop)
        then have "ESCAPE_P am (hd cs')" using F hd_dropWhile [of "\<lambda>c. \<not> ESCAPE_P am c" cs] by simp
        then have "contents r3 = contents r @ stuffed am (d @ [hd cs'])" using sd r2(3) r3(3) by (simp add: escaped_def)
        moreover obtain k' where "send_mbuf am (tl cs') r3 = (rest, k', r')" using step assms(1) F r2(1) r3(1) by (auto split: prod.splits)
        ultimately show ?thesis using go [of d "hd cs'" "tl cs'" r3 k'] cs F r3(2) by simp
      qed
    qed
  qed
qed

lemma send_mbuf_stores:
  assumes "send_mbuf am cs r = (rest, k, r')" "rb_inv r"
  shows "rb_inv r' \<and> (rest \<noteq> [] \<longrightarrow> RBSZ \<le> RB_LEN r' + 2) \<and> (\<exists>d. cs = d @ rest \<and> contents r' = contents r @ stuffed am d)"
  using assms
proof (induction cs arbitrary: r k rule: length_induct)
  case (1 cs)
  show ?case
  proof (cases "cs = []")
    case True
    then show ?thesis using 1(2,3) by (subst (asm) send_mbuf.simps) auto
  next
    case False
    from 1(2,3) False show ?thesis
    proof (cases rule: send_mbuf_step)
      case (go d c cs' r3 k')
      then have "length cs' < length cs" by simp
      with 1(1) go obtain e where "rb_inv r'" "rest \<noteq> [] \<longrightarrow> RBSZ \<le> RB_LEN r' + 2" "cs' = e @ rest" "contents r' = contents r3 @ stuffed am e" by metis
      then show ?thesis using go by (intro conjI exI [of _ "d @ c # e"]) simp_all
    qed blast
  qed
qed

section \<open>Frames\<close>

lemma unputc_n:
  assumes "rb_inv r" "contents r = base @ pre"
  shows "rb_inv (((\<lambda>r. snd (unputc r)) ^^ length pre) r) \<and> contents (((\<lambda>r. snd (unputc r)) ^^ length pre) r) = base"
  using assms
proof (induction pre arbitrary: r rule: rev_induct)
  case (snoc c pre)
  then obtain r' where "unputc r = (uint c, r')" "rb_inv r'" "contents r' = base @ pre"
    using unputc_nonempty [of r "base @ pre" c] by auto
  with snoc.IH [of r'] show ?case by (simp add: funpow_Suc_right del: funpow.simps)
qed simp

lemma put_end_all_or_nothing:
  assumes "put_end cs k r = (ok, r')" "rb_inv r" "contents r = base @ pre" "length pre = k"
  shows "rb_inv r' \<and> contents r' = (if ok then contents r @ cs else base) \<and> (\<not> ok \<longrightarrow> RBSZ \<le> RB_LEN r + length cs)"
  using assms
proof (induction cs k r arbitrary: pre rule: put_end.induct)
  case (2 c cs k r)
  from 2(3) show ?case
  proof (cases rule: putc_cases [where c = c])
    case full
    then show ?thesis using 2(2-5) unputc_n [OF 2(3,4)] by auto
  next
    case (room r1)
    moreover from this have "RB_LEN r1 = RB_LEN r + 1" by (simp flip: length_contents)
    ultimately show ?thesis using 2(1) [OF _ refl, of 0 r1 "pre @ [c]"] 2(2,4,5) by simp
  qed
qed auto

text \<open>What is still to be sent of a packet whose remaining mbufs are given: \<open>fcs\<close> covers the first of them.\<close>

fun frame_rest :: "u32 \<Rightarrow> mbufs \<Rightarrow> u16 \<Rightarrow> u8 list" where
  "frame_rest am [] fcs = []"
| "frame_rest am (m # ms) fcs = stuffed am (m @ concat ms) @ endseq am (pppfcs fcs (concat ms))"

lemma endseq_length: "length (endseq am fcs) \<le> 5"
  by (simp add: endseq_def escaped_def)

lemma send_chain_line:
  assumes "send_chain am ms fcs n r = (ms', fcs', n', r')" "rb_inv r"
  shows "rb_inv r' \<and> (ms' \<noteq> [] \<longrightarrow> RBSZ \<le> RB_LEN r' + 5) \<and> contents r' @ frame_rest am ms' fcs' = contents r @ frame_rest am ms fcs"
  using assms
proof (induction am ms fcs n r rule: send_chain.induct)
  case (2 am m ms fcs n r)
  obtain rest k r1 where m: "send_mbuf am m r = (rest, k, r1)" by (cases "send_mbuf am m r") auto
  from send_mbuf_stores [OF this 2(3)] obtain d where d: "rb_inv r1" "m = d @ rest" "contents r1 = contents r @ stuffed am d"
    and full: "rest \<noteq> [] \<longrightarrow> RBSZ \<le> RB_LEN r1 + 2" by blast
  show ?case
  proof (cases "rest = []")
    case False
    then show ?thesis using 2(2) m d full by auto
  next
    case rest: True
    show ?thesis
    proof (cases ms)
      case Nil
      obtain ok r2 where e: "put_end (endseq am fcs) 0 r1 = (ok, r2)" by fastforce
      from put_end_all_or_nothing [OF e d(1), of "contents r1" "[]"]
      have r2: "rb_inv r2" "contents r2 = (if ok then contents r1 @ endseq am fcs else contents r1)" "\<not> ok \<longrightarrow> RBSZ \<le> RB_LEN r1 + length (endseq am fcs)" by simp_all
      moreover have "RB_LEN r2 = (if ok then RB_LEN r1 + length (endseq am fcs) else RB_LEN r1)" using r2(2) by (simp flip: length_contents)
      moreover note endseq_length [of am fcs]
      ultimately show ?thesis using 2(2) m d rest Nil e by (auto split: if_splits)
    next
      case (Cons m2 ms2)
      have "send_chain am ms (pppfcs fcs m2) (n + k) r1 = (ms', fcs', n', r')" using 2(2) m rest Cons by simp
      moreover have "\<not> rest \<noteq> []" using rest by simp
      ultimately show ?thesis
        using 2(1) [OF m [symmetric] refl refl refl _ Cons _ d(1)] d Cons rest by simp
    qed
  qed
qed simp

text \<open>A frame, and the data of a packet from the queue, with the state of the header compression.\<close>

definition with_fcs :: "u8 list \<Rightarrow> u8 list" where
  "with_fcs x = x @ [ucast (NOT (pppfcs PPP_INITFCS x)), ucast (drop_bit 8 (NOT (pppfcs PPP_INITFCS x)))]"

definition ppp_frame :: "u32 \<Rightarrow> u8 list \<Rightarrow> u8 list" where
  "ppp_frame am x = stuffed am (with_fcs x) @ [PPP_FLAG]"

definition ppp_body :: "reader \<Rightarrow> u32 \<Rightarrow> mbufs \<Rightarrow> slcompress \<Rightarrow> (u8 list \<times> slcompress) option" where
  "ppp_body junk flags m vj =
     (let r = rd junk (hd m) in
      map_option (\<lambda>(protocol, ms, vj). (ppp_fields flags (r 0) (r 1) protocol @ concat ms, vj))
        (compress_out junk flags (get16 r 2) (drop PPP_HEADER_LEN (hd m) # tl m) vj))"

primrec ppp_bodies :: "reader \<Rightarrow> u32 \<Rightarrow> mbufs list \<Rightarrow> slcompress \<Rightarrow> (u8 list list \<times> slcompress) option" where
  "ppp_bodies junk flags [] vj = Some ([], vj)"
| "ppp_bodies junk flags (m # q) vj =
     (case ppp_body junk flags m vj of
        None \<Rightarrow> None
      | Some (b, vj) \<Rightarrow> map_option (\<lambda>(bs, vj). (b # bs, vj)) (ppp_bodies junk flags q vj))"

lemma compress_out_chain:
  "compress_out junk flags protocol (m # ms) vj = Some (protocol', ms', vj') \<Longrightarrow> ms' \<noteq> []"
  by (auto simp: compress_out_def Let_def split: if_splits option.splits)

lemma frame_rest_start: "frame_rest am (m # ms) (pppfcs PPP_INITFCS m) = ppp_frame am (m @ concat ms)"
  by (simp add: ppp_frame_def with_fcs_def endseq_def)

text \<open>Everything put on the line, or on its way there.\<close>

definition line :: "ppp_softc \<Rightarrow> u8 list" where
  "line sc = t_wire sc @ contents (t_out sc) @ frame_rest (sc_asyncmap sc) (sc_outm sc) (sc_outfcs sc)"

definition queued :: "ppp_softc \<Rightarrow> mbufs list" where
  "queued sc = ifq (sc_fastq sc) @ ifq (if_snd sc)"

definition device :: "oproc option \<Rightarrow> bool" where
  "device oproc \<longleftrightarrow> (\<forall>f r. oproc = Some f \<longrightarrow> rb_inv r \<longrightarrow> rb_inv (snd (f r)) \<and> contents r = fst (f r) @ contents (snd (f r)))"

definition same_settings :: "ppp_softc \<Rightarrow> ppp_softc \<Rightarrow> bool" where
  "same_settings sc sc' \<longleftrightarrow> sc_flags sc' = sc_flags sc \<and> sc_asyncmap sc' = sc_asyncmap sc"

lemma t_oproc_line:
  assumes "device oproc" "rb_inv (t_out sc)"
  defines "sc' \<equiv> t_oproc oproc sc"
  shows "rb_inv (t_out sc')" "line sc' = line sc" "queued sc' = queued sc" "sc_comp sc' = sc_comp sc" "same_settings sc sc'" "sc_outm sc' = sc_outm sc"
proof -
  have "rb_inv (t_out sc') \<and> t_wire sc' @ contents (t_out sc') = t_wire sc @ contents (t_out sc)"
  proof (cases oproc)
    case None
    then show ?thesis using assms(2) by (simp add: sc'_def t_oproc_def)
  next
    case (Some f)
    then have "rb_inv (snd (f (t_out sc))) \<and> contents (t_out sc) = fst (f (t_out sc)) @ contents (snd (f (t_out sc)))"
      using assms(1,2) by (simp add: device_def)
    then show ?thesis by (simp add: sc'_def t_oproc_def Some split_beta)
  qed
  moreover have "sc_asyncmap sc' = sc_asyncmap sc" "sc_outm sc' = sc_outm sc" "sc_outfcs sc' = sc_outfcs sc" "queued sc' = queued sc"
      "sc_comp sc' = sc_comp sc" "sc_flags sc' = sc_flags sc"
    by (simp_all add: sc'_def t_oproc_def queued_def split_beta split: option.split)
  ultimately show "rb_inv (t_out sc')" "line sc' = line sc" "queued sc' = queued sc" "sc_comp sc' = sc_comp sc" "same_settings sc sc'" "sc_outm sc' = sc_outm sc"
    by (simp_all add: line_def same_settings_def flip: append_assoc)
qed

lemma send_packet_line:
  assumes "send_packet oproc sc = (again, sc')" "device oproc" "rb_inv (t_out sc)"
  shows "rb_inv (t_out sc')" "line sc' = line sc" "queued sc' = queued sc" "sc_comp sc' = sc_comp sc" "same_settings sc sc'" "again \<Longrightarrow> sc_outm sc' = []"
proof -
  obtain ms fcs n r where c: "send_chain (sc_asyncmap sc) (sc_outm sc) (sc_outfcs sc) 0 (t_out sc) = (ms, fcs, n, r)" by (metis prod_cases4)
  define sc1 where "sc1 = sc\<lparr>sc_outm := ms, sc_outfcs := fcs, sc_bytessent := sc_bytessent sc + of_nat n, t_out := r\<rparr>"
  from send_chain_line [OF c assms(3)] have 1: "rb_inv (t_out sc1)" "line sc1 = line sc" "queued sc1 = queued sc" "sc_comp sc1 = sc_comp sc" "same_settings sc sc1"
    by (auto simp: sc1_def line_def queued_def same_settings_def)
  note 2 = t_oproc_line [OF assms(2) 1(1)]
  have "sc' = (if ms \<noteq> [] then t_oproc oproc sc1
      else sc1\<lparr>sc_bytessent := sc_bytessent sc1 + 1, if_opackets := if_opackets sc1 + 1, if_obytes := sc_bytessent sc1 + 1\<rparr>)" "again = (ms = [])"
    using assms(1) by (auto simp: send_packet_def Let_def c sc1_def split: if_splits)
  then show "rb_inv (t_out sc')" "line sc' = line sc" "queued sc' = queued sc" "sc_comp sc' = sc_comp sc" "same_settings sc sc'" "again \<Longrightarrow> sc_outm sc' = []"
    using 1 2 by (auto simp: line_def queued_def same_settings_def sc1_def)
qed

lemma start_packet_line:
  assumes "start_packet junk m sc = Some sc'" "rb_inv (t_out sc)" "sc_outm sc = []"
  shows "\<exists>b fl. ppp_body junk (sc_flags sc) m (sc_comp sc) = Some (b, sc_comp sc') \<and> fl \<in> {[], [PPP_FLAG]} \<and>
    rb_inv (t_out sc') \<and> line sc' = line sc @ fl @ ppp_frame (sc_asyncmap sc) b \<and> queued sc' = queued sc \<and> same_settings sc sc'"
proof -
  let ?r = "rd junk (hd m)"
  obtain protocol ms vj where c: "compress_out junk (sc_flags sc) (get16 ?r 2) (drop PPP_HEADER_LEN (hd m) # tl m) (sc_comp sc) = Some (protocol, ms, vj)"
    using assms(1) by (auto simp: start_packet_def Let_def split: option.splits)
  let ?f = "ppp_fields (sc_flags sc) (?r 0) (?r 1) protocol"
  have ms: "ms = hd ms # tl ms" using compress_out_chain [OF c] by simp
  have b: "ppp_body junk (sc_flags sc) m (sc_comp sc) = Some (?f @ concat ms, vj)" by (simp add: ppp_body_def Let_def c)
  define sc1 where "sc1 = sc\<lparr>sc_comp := vj\<rparr>"
  define sc2 where "sc2 = (if RB_LEN (t_out sc1) = 0 then sc1\<lparr>sc_bytessent := sc_bytessent sc1 + 1, t_out := snd (putc PPP_FLAG (t_out sc1))\<rparr> else sc1)"
  have sc': "sc' = sc2\<lparr>sc_outm := (?f @ hd ms) # tl ms, sc_outfcs := pppfcs PPP_INITFCS (?f @ hd ms)\<rparr>"
    using assms(1) c by (auto simp: start_packet_def Let_def sc2_def sc1_def split: if_splits)
  have fl: "\<exists>fl \<in> {[], [PPP_FLAG]}. rb_inv (t_out sc2) \<and> contents (t_out sc2) = contents (t_out sc) @ fl"
  proof (cases "RB_LEN (t_out sc) = 0")
    case True
    then show ?thesis using putc_room [OF assms(2), of PPP_FLAG] RBSZ_pos by (auto simp: sc2_def sc1_def)
  next
    case False
    then show ?thesis using assms(2) by (simp add: sc2_def sc1_def)
  qed
  have fr: "frame_rest (sc_asyncmap sc) ((?f @ hd ms) # tl ms) (pppfcs PPP_INITFCS (?f @ hd ms)) = ppp_frame (sc_asyncmap sc) (?f @ concat ms)"
    by (subst frame_rest_start) (subst (3) ms, simp)
  have "t_wire sc2 = t_wire sc" "sc_asyncmap sc2 = sc_asyncmap sc" "sc_flags sc2 = sc_flags sc" "queued sc2 = queued sc" "sc_comp sc2 = vj"
    by (simp_all add: sc2_def sc1_def queued_def)
  then show ?thesis using b fl fr assms(3) by (auto simp: sc' line_def queued_def same_settings_def)
qed

section \<open>The line split at its flags\<close>

fun frames_from :: "u8 list \<Rightarrow> u8 list \<Rightarrow> u8 list list" where
  "frames_from acc [] = []"
| "frames_from acc (c # cs) =
     (if c = PPP_FLAG then (if acc = [] then [] else [acc]) @ frames_from [] cs else frames_from (acc @ [c]) cs)"

definition wire_frames :: "u8 list \<Rightarrow> u8 list list" where
  "wire_frames = frames_from []"

definition at_flag :: "u8 list \<Rightarrow> bool" where
  "at_flag cs \<longleftrightarrow> cs = [] \<or> last cs = PPP_FLAG"

lemma frames_from_flag: "frames_from acc (xs @ PPP_FLAG # ys) = frames_from acc (xs @ [PPP_FLAG]) @ frames_from [] ys"
  by (induction acc xs rule: frames_from.induct) simp_all

lemma wire_frames_append: "at_flag xs \<Longrightarrow> wire_frames (xs @ ys) = wire_frames xs @ wire_frames ys"
  using frames_from_flag [of "[]" _ ys] by (cases xs rule: rev_cases) (simp_all add: wire_frames_def at_flag_def)

lemma escaped_no_flag: "PPP_FLAG \<notin> set (escaped am c)"
proof -
  have "c XOR PPP_TRANS = PPP_FLAG \<Longrightarrow> c = PPP_FLAG XOR PPP_TRANS" by (metis bit.xor_self xor.assoc xor.right_neutral)
  then show ?thesis by (auto simp: escaped_def ESCAPE_P_def)
qed

lemma stuffed_no_flag: "PPP_FLAG \<notin> set (stuffed am cs)"
  using escaped_no_flag by (auto simp: stuffed_def)

lemma frames_from_plain: "PPP_FLAG \<notin> set xs \<Longrightarrow> acc @ xs \<noteq> [] \<Longrightarrow> frames_from acc (xs @ [PPP_FLAG]) = [acc @ xs]"
  by (induction acc xs rule: frames_from.induct) auto

lemma stuffed_nonempty: "stuffed am xs = [] \<longleftrightarrow> xs = []"
  by (cases xs) (simp_all add: escaped_def)

lemma wire_frames_frame: "wire_frames (ppp_frame am b) = [stuffed am (with_fcs b)]"
  using frames_from_plain [OF stuffed_no_flag, of "[]" am "with_fcs b"] stuffed_nonempty [of am "with_fcs b"]
  by (simp add: wire_frames_def ppp_frame_def with_fcs_def)

lemma at_flag_frame: "at_flag (xs @ ppp_frame am b)"
  by (simp add: at_flag_def ppp_frame_def)

lemma frame_on_line:
  assumes "at_flag l" "fl \<in> {[], [PPP_FLAG]}"
  shows "wire_frames (l @ fl @ ppp_frame am b) = wire_frames l @ [stuffed am (with_fcs b)]" "at_flag (l @ fl @ ppp_frame am b)"
proof -
  have "at_flag fl" "wire_frames fl = []" using assms(2) by (auto simp: at_flag_def wire_frames_def)
  then show "wire_frames (l @ fl @ ppp_frame am b) = wire_frames l @ [stuffed am (with_fcs b)]"
    by (simp add: wire_frames_append assms(1) wire_frames_frame)
  show "at_flag (l @ fl @ ppp_frame am b)" using at_flag_frame [of "l @ fl"] by simp
qed

section \<open>The loop of pppstart\<close>

lemma ppp_bodies_append: "ppp_bodies junk flags (xs @ ys) vj =
    (case ppp_bodies junk flags xs vj of None \<Rightarrow> None | Some (bs, vj) \<Rightarrow> map_option (\<lambda>(cs, vj). (bs @ cs, vj)) (ppp_bodies junk flags ys vj))"
  by (induction xs arbitrary: vj) (auto split: option.splits simp: option.map_comp comp_def case_prod_unfold option.map_ident)

text \<open>The packets \<open>ps\<close> have left the queues, and their frames have been added to the line.\<close>

definition sent_on :: "reader \<Rightarrow> mbufs list \<Rightarrow> ppp_softc \<Rightarrow> ppp_softc \<Rightarrow> bool" where
  "sent_on junk ps sc sc' \<longleftrightarrow> rb_inv (t_out sc') \<and> at_flag (line sc') \<and> same_settings sc sc' \<and> queued sc = ps @ queued sc' \<and>
     (\<exists>bs. ppp_bodies junk (sc_flags sc) ps (sc_comp sc) = Some (bs, sc_comp sc') \<and>
        wire_frames (line sc') = wire_frames (line sc) @ map (stuffed (sc_asyncmap sc) \<circ> with_fcs) bs)"

lemma sent_on_none:
  "rb_inv (t_out sc') \<Longrightarrow> line sc' = line sc \<Longrightarrow> queued sc' = queued sc \<Longrightarrow> sc_comp sc' = sc_comp sc \<Longrightarrow> same_settings sc sc' \<Longrightarrow>
   at_flag (line sc) \<Longrightarrow> sent_on junk [] sc sc'"
  by (simp add: sent_on_def)

lemma sent_on_trans:
  assumes "sent_on junk ps sc sc1" "sent_on junk qs sc1 sc2"
  shows "sent_on junk (ps @ qs) sc sc2"
  using assms by (auto simp: sent_on_def same_settings_def ppp_bodies_append)

lemma next_packet_queued:
  assumes "next_packet sc = (om, sc')"
  shows "queued sc = (case om of None \<Rightarrow> [] | Some m \<Rightarrow> [m]) @ queued sc'" "sc_comp sc' = sc_comp sc" "line sc' = line sc" "t_out sc' = t_out sc"
    "same_settings sc sc'" "sc_outm sc' = sc_outm sc" "om = None \<Longrightarrow> sc' = sc"
  using assms by (auto simp: next_packet_def queued_def line_def same_settings_def split: list.splits)

lemma start_round_sent:
  assumes "start_round junk oproc sc = Some (again, sc')" "device oproc" "rb_inv (t_out sc)" "at_flag (line sc)"
  shows "\<exists>ps. sent_on junk ps sc sc'"
proof -
  define sc1 where "sc1 = (if RB_LEN (t_out sc) \<noteq> 0 \<and> oproc \<noteq> None then t_oproc oproc sc else sc)"
  have 1: "rb_inv (t_out sc1)" "line sc1 = line sc" "queued sc1 = queued sc" "sc_comp sc1 = sc_comp sc" "same_settings sc sc1"
    using t_oproc_line [OF assms(2,3)] assms(3) by (auto simp: sc1_def same_settings_def)
  then have s1: "sent_on junk [] sc sc1" using sent_on_none assms(4) by simp
  from assms(1) consider "sc' = sc1" | "send_packet oproc sc1 = (again, sc')"
    | "next_packet sc1 = (None, sc')"
    | m sc2 sc3 where "sc_outm sc1 = []" "next_packet sc1 = (Some m, sc2)" "start_packet junk m sc2 = Some sc3" "send_packet oproc sc3 = (again, sc')"
    unfolding start_round_def Let_def sc1_def [symmetric] by (auto split: if_splits prod.splits option.splits)
  then have "\<exists>ps. sent_on junk ps sc1 sc'"
  proof cases
    case 1
    then show ?thesis using s1 by (auto simp: sent_on_def same_settings_def intro: exI [of _ "[]"])
  next
    case 2
    then show ?thesis using send_packet_line [OF 2 assms(2) 1(1)] sent_on_none 1(2) assms(4) by metis
  next
    case 3
    then show ?thesis using next_packet_queued(7) [OF 3] s1 by (auto simp: sent_on_def same_settings_def)
  next
    case 4
    note n = next_packet_queued [OF 4(2)]
    have "sc_outm sc2 = []" "rb_inv (t_out sc2)" using n 4(1) 1 by simp_all
    from start_packet_line [OF 4(3) this(2,1)] obtain b fl where b: "ppp_body junk (sc_flags sc2) m (sc_comp sc2) = Some (b, sc_comp sc3)" "fl \<in> {[], [PPP_FLAG]}"
      "rb_inv (t_out sc3)" "line sc3 = line sc2 @ fl @ ppp_frame (sc_asyncmap sc2) b" "queued sc3 = queued sc2" "same_settings sc2 sc3" by blast
    have "at_flag (line sc2)" using n(3) 1(2) assms(4) by simp
    note f = frame_on_line [OF this b(2), of "sc_asyncmap sc2" b]
    have "sent_on junk [m] sc1 sc3"
      using n b f by (auto simp: sent_on_def same_settings_def)
    moreover have "sent_on junk [] sc3 sc'"
      using send_packet_line [OF 4(4) assms(2) b(3)] sent_on_none f(2) b(4) by metis
    ultimately show ?thesis using sent_on_trans by blast
  qed
  then show ?thesis using sent_on_trans [OF s1] by auto
qed

lemma pppstart_sent:
  assumes "pppstart junk oproc sc = Some sc'" "device oproc" "rb_inv (t_out sc)" "at_flag (line sc)"
  shows "\<exists>ps. sent_on junk ps sc sc'"
  using assms
proof (induction junk oproc sc rule: pppstart.induct)
  case (1 junk oproc sc)
  obtain again sc1 where r: "start_round junk oproc sc = Some (again, sc1)"
    using 1(2) by (subst (asm) pppstart.simps) (auto split: option.splits)
  obtain ps where ps: "sent_on junk ps sc sc1" using start_round_sent [OF r 1(3-5)] by blast
  show ?case
  proof (cases again)
    case True
    then have "pppstart junk oproc sc1 = Some sc'" using 1(2) r by (subst (asm) pppstart.simps) simp
    then obtain qs where "sent_on junk qs sc1 sc'" using 1(1) [OF r refl] True 1(3) ps by (auto simp: sent_on_def)
    then show ?thesis using sent_on_trans [OF ps] by blast
  next
    case False
    then have "sc' = sc1" using 1(2) r by (subst (asm) pppstart.simps) simp
    then show ?thesis using ps by blast
  qed
qed

section \<open>Progress\<close>

text \<open>A device that takes all the characters of the ring.\<close>

definition drains :: "oproc \<Rightarrow> bool" where
  "drains f \<longleftrightarrow> device (Some f) \<and> (\<forall>r. rb_inv r \<longrightarrow> contents (snd (f r)) = [])"

definition left_over :: "ppp_softc \<Rightarrow> nat" where
  "left_over sc = length (frame_rest (sc_asyncmap sc) (sc_outm sc) (sc_outfcs sc))"

definition finished :: "ppp_softc \<Rightarrow> bool" where
  "finished sc \<longleftrightarrow> queued sc = [] \<and> sc_outm sc = [] \<and> contents (t_out sc) = []"

definition less_to_send :: "(ppp_softc \<times> ppp_softc) set" where
  "less_to_send = measures [length \<circ> queued, left_over]"

lemma less_to_send_iff: "(sc', sc) \<in> less_to_send \<longleftrightarrow>
    length (queued sc') < length (queued sc) \<or> length (queued sc') = length (queued sc) \<and> left_over sc' < left_over sc"
  by (simp add: less_to_send_def)

lemma t_oproc_drains:
  assumes "drains f" "rb_inv (t_out sc)"
  shows "contents (t_out (t_oproc (Some f) sc)) = []"
  using assms by (simp add: drains_def t_oproc_def split_beta)

lemma send_packet_progress:
  assumes "send_packet oproc sc = (again, sc')" "device oproc" "rb_inv (t_out sc)" "contents (t_out sc) = []" "sc_outm sc \<noteq> []"
  shows "left_over sc' < left_over sc"
proof -
  obtain ms fcs n r where c: "send_chain (sc_asyncmap sc) (sc_outm sc) (sc_outfcs sc) 0 (t_out sc) = (ms, fcs, n, r)" by (metis prod_cases4)
  from send_chain_line [OF this assms(3)] assms(4) have
    "ms \<noteq> [] \<longrightarrow> RBSZ \<le> RB_LEN r + 5" "length (contents r @ frame_rest (sc_asyncmap sc) ms fcs) = left_over sc"
    by (simp_all add: left_over_def)
  moreover have "0 < left_over sc" using assms(5) by (cases "sc_outm sc") (simp_all add: left_over_def endseq_def)
  moreover have "left_over sc' = length (frame_rest (sc_asyncmap sc) ms fcs)"
    using assms(1) by (auto simp: send_packet_def Let_def c left_over_def t_oproc_def split_beta split: if_splits option.splits)
  moreover have "5 < RBSZ" by (simp add: RBSZ_def)
  ultimately show ?thesis by (cases "ms = []") simp_all
qed

lemma start_packet_defined:
  assumes "ppp_body junk (sc_flags sc) m (sc_comp sc) \<noteq> None"
  shows "start_packet junk m sc \<noteq> None"
  using assms by (auto simp: ppp_body_def start_packet_def Let_def split: option.splits)

text \<open>The packets of the queues can be put into frames.\<close>

definition sendable :: "reader \<Rightarrow> ppp_softc \<Rightarrow> bool" where
  "sendable junk sc \<longleftrightarrow> rb_inv (t_out sc) \<and> at_flag (line sc) \<and> ppp_bodies junk (sc_flags sc) (queued sc) (sc_comp sc) \<noteq> None"

lemma sent_on_sendable:
  assumes "sent_on junk ps sc sc'" "sendable junk sc"
  shows "sendable junk sc'"
  using assms by (auto simp: sent_on_def sendable_def same_settings_def ppp_bodies_append split: option.splits)

lemma start_round_progress:
  assumes "drains f" "sendable junk sc"
  obtains again sc' where "start_round junk (Some f) sc = Some (again, sc')" "\<not> again \<and> finished sc' \<or> (sc', sc) \<in> less_to_send"
proof -
  have dev: "device (Some f)" and inv: "rb_inv (t_out sc)" using assms by (simp_all add: drains_def sendable_def)
  define sc1 where "sc1 = (if RB_LEN (t_out sc) \<noteq> 0 then t_oproc (Some f) sc else sc)"
  have 1: "rb_inv (t_out sc1)" "contents (t_out sc1) = []" "queued sc1 = queued sc" "sc_comp sc1 = sc_comp sc" "same_settings sc sc1"
    using t_oproc_line [OF dev inv] t_oproc_drains [OF assms(1) inv] inv length_contents [of "t_out sc"]
    by (auto simp: sc1_def same_settings_def simp del: length_contents)
  have lo: "left_over sc1 = left_over sc" by (simp add: left_over_def sc1_def t_oproc_def split_beta)
  have len: "RB_LEN (t_out sc1) = 0" using 1(2) length_contents [of "t_out sc1"] by simp
  have start: "start_round junk (Some f) sc =
      (if sc_outm sc1 \<noteq> [] then Some (send_packet (Some f) sc1)
       else case next_packet sc1 of (None, sc) \<Rightarrow> Some (False, sc)
         | (Some m, sc) \<Rightarrow> map_option (send_packet (Some f)) (start_packet junk m sc))"
    using len by (simp add: start_round_def sc1_def Let_def)
  obtain om sc2 where n: "next_packet sc1 = (om, sc2)" by fastforce
  note q = next_packet_queued [OF n]
  consider (old) "sc_outm sc1 \<noteq> []" | (idle) "sc_outm sc1 = []" "om = None" | (new) m where "sc_outm sc1 = []" "om = Some m" by fastforce
  then show thesis
  proof cases
    case old
    obtain again sc' where p: "send_packet (Some f) sc1 = (again, sc')" by fastforce
    then have "queued sc' = queued sc" "left_over sc' < left_over sc"
      using send_packet_line [OF p dev 1(1)] send_packet_progress [OF p dev 1(1,2) old] 1(3) lo by simp_all
    then show ?thesis using that start old p by (simp add: less_to_send_iff)
  next
    case idle
    have "queued sc1 = []" using n idle by (simp add: next_packet_def queued_def split: list.splits)
    then show ?thesis using that [of False sc1] start idle n q(7) 1(2) by (simp add: finished_def)
  next
    case new
    have qs: "queued sc = m # queued sc2" using q(1) new 1(3) by simp
    then have "ppp_body junk (sc_flags sc2) m (sc_comp sc2) \<noteq> None"
      using assms(2) q(2,5) 1(4,5) by (auto simp: sendable_def same_settings_def split: option.splits)
    then obtain sc3 where s: "start_packet junk m sc2 = Some sc3" using start_packet_defined by blast
    obtain again sc' where p: "send_packet (Some f) sc3 = (again, sc')" by fastforce
    have "sc_outm sc2 = []" "rb_inv (t_out sc2)" using q new 1 by simp_all
    from start_packet_line [OF s this(2,1)] have "rb_inv (t_out sc3)" "queued sc3 = queued sc2" by auto
    then have "queued sc' = queued sc2" using send_packet_line [OF p dev] by simp
    then show ?thesis using that start new n s p qs by (simp add: less_to_send_iff)
  qed
qed

lemma pppstart_progress:
  assumes "drains f" "sendable junk sc"
  shows "\<exists>sc'. pppstart junk (Some f) sc = Some sc' \<and> (finished sc' \<or> (sc', sc) \<in> less_to_send)"
  using assms(2)
proof (induction "pending sc" arbitrary: sc rule: less_induct)
  case less
  have dev: "device (Some f)" using assms(1) by (simp add: drains_def)
  from start_round_progress [OF assms(1) less(2)] obtain again sc1 where
    r: "start_round junk (Some f) sc = Some (again, sc1)" "\<not> again \<and> finished sc1 \<or> (sc1, sc) \<in> less_to_send" .
  show ?case
  proof (cases again)
    case True
    have tr: "trans less_to_send" unfolding trans_def less_to_send_iff by linarith
    have "pending sc1 < pending sc" using start_round_pending r(1) True by simp
    moreover have "sendable junk sc1" using less(2) start_round_sent [OF r(1) dev] sent_on_sendable by (auto simp: sendable_def)
    ultimately obtain sc' where "pppstart junk (Some f) sc1 = Some sc'" "finished sc' \<or> (sc', sc1) \<in> less_to_send"
      using less(1) by blast
    moreover have "pppstart junk (Some f) sc = pppstart junk (Some f) sc1" using r(1) True by (subst pppstart.simps) simp
    ultimately show ?thesis using r(2) True transD [OF tr, of sc' sc1 sc] by auto
  next
    case False
    then have "pppstart junk (Some f) sc = Some sc1" using r(1) by (subst pppstart.simps) simp
    then show ?thesis using r(2) by blast
  qed
qed

text \<open>Calls of \<^verbatim>\<open>pppstart\<close>, one for each time the device is ready for more output.\<close>

primrec pppstarts :: "reader \<Rightarrow> oproc option \<Rightarrow> nat \<Rightarrow> ppp_softc \<Rightarrow> ppp_softc option" where
  "pppstarts junk oproc 0 sc = Some sc"
| "pppstarts junk oproc (Suc n) sc = (case pppstart junk oproc sc of None \<Rightarrow> None | Some sc \<Rightarrow> pppstarts junk oproc n sc)"

lemma pppstarts_finish:
  assumes "drains f" "sendable junk sc"
  shows "\<exists>n sc'. pppstarts junk (Some f) n sc = Some sc' \<and> finished sc' \<and> sent_on junk (queued sc) sc sc'"
  using assms(2)
proof (induction sc rule: wf_induct_rule [OF wf_measures [of "[length \<circ> queued, left_over]", folded less_to_send_def]])
  case (1 sc)
  have dev: "device (Some f)" using assms(1) by (simp add: drains_def)
  from pppstart_progress [OF assms(1) 1(2)] obtain sc1 where
    p: "pppstart junk (Some f) sc = Some sc1" "finished sc1 \<or> (sc1, sc) \<in> less_to_send" by blast
  obtain ps where ps: "sent_on junk ps sc sc1" using pppstart_sent [OF p(1) dev] 1(2) by (auto simp: sendable_def)
  have "\<exists>n sc'. pppstarts junk (Some f) n sc1 = Some sc' \<and> finished sc' \<and> sent_on junk (queued sc1) sc1 sc'"
  proof (cases "finished sc1")
    case True
    have "sent_on junk [] sc1 sc1" using ps by (simp add: sent_on_def same_settings_def)
    then show ?thesis using True by (intro exI [of _ 0]) (simp add: finished_def)
  next
    case False
    then show ?thesis using 1(1) p(2) sent_on_sendable [OF ps 1(2)] by blast
  qed
  then obtain n sc' where n: "pppstarts junk (Some f) n sc1 = Some sc'" "finished sc'" "sent_on junk (queued sc1) sc1 sc'" by blast
  moreover have "queued sc = ps @ queued sc1" using ps by (simp add: sent_on_def)
  ultimately show ?case using p(1) sent_on_trans [OF ps n(3)] by (intro exI [of _ "Suc n"]) simp
qed

text \<open>A unit after \<^verbatim>\<open>pppopen\<close>, with all kinds of compression on, and a device that takes every character at
  once.\<close>

definition test_unit :: "mbufs list \<Rightarrow> ppp_softc" where
  "test_unit ms = \<lparr>if_mtu = 1500, if_up = True, if_running = True, if_snd = \<lparr>ifq = ms, ifq_maxlen = 50, ifq_drops = 0\<rparr>,
     if_ibytes = 0, if_ipackets = 0, if_ierrors = 0, if_iqdrops = 0, if_obytes = 0, if_opackets = 0, if_oerrors = 0,
     sc_flags = 7, sc_escaped = False, sc_flush = False, sc_ttyp = True, sc_outm = [], sc_m = [2048], sc_in = [], sc_ilen = 0, sc_fcs = 0, sc_outfcs = 0,
     sc_mru = 1500, sc_asyncmap = 0xffffffff, sc_rasyncmap = 0, sc_inq = \<lparr>ifq = [], ifq_maxlen = 50, ifq_drops = 0\<rparr>,
     sc_fastq = \<lparr>ifq = [], ifq_maxlen = 50, ifq_drops = 0\<rparr>, sc_comp = sl_compress_init, sc_bytessent = 0,
     t_out = \<lparr>rb_hd = 0, rb_tl = 0, rb_buf = replicate 1024 0\<rparr>, t_can = \<lparr>rb_hd = 0, rb_tl = 0, rb_buf = replicate 1024 0\<rparr>,
     t_carr_on = True, t_ppp = True, t_wire = [], ipintrq = \<lparr>ifq = [], ifq_maxlen = 50, ifq_drops = 0\<rparr>\<rparr>"

definition test_device :: oproc where
  "test_device r = (contents r, r\<lparr>rb_hd := rb_tl r\<rparr>)"

lemma test_unit_line:
  "rb_inv (t_out (test_unit ms))" "line (test_unit ms) = []" "queued (test_unit ms) = ms" "at_flag []" "wire_frames [] = []"
  by (simp_all add: test_unit_def rb_inv_def line_def contents_def RB_LEN_def queued_def at_flag_def wire_frames_def RBSZ_def)

definition test_packets :: "mbufs list" where
  "test_packets = [[[0xff, 3, 0, 0x25, 7, 0x7e]], [[0xff, 3, 0xc0, 0x21], [1, 2]]]"

lemma test_packets_bodies:
  "ppp_bodies (\<lambda>_. 0) (sc_flags (test_unit test_packets)) (queued (test_unit test_packets)) (sc_comp (test_unit test_packets)) =
     Some ([[0x25, 7, 0x7e], [0xff, 3, 0xc0, 0x21, 1, 2]], sl_compress_init)"
proof -
  have "short_of 0 0x25 = 0x25" "short_of 0xc0 0x21 = 0xc021" by code_simp+
  then show ?thesis
    by (simp add: test_packets_def test_unit_line) (simp add: test_unit_def ppp_body_def compress_out_def ppp_fields_def Let_def rd_def get16_def bytes_of_short_def)
qed

lemma test_device_drains: "drains test_device"
proof -
  have "contents (r\<lparr>rb_hd := rb_tl r\<rparr>) = []" for r :: ringb by (simp add: contents_def RB_LEN_def)
  then show ?thesis by (auto simp: drains_def device_def test_device_def rb_inv_def)
qed

text \<open>C11: with a device that takes what it is given, packets that can be put into frames do
  not stay in the queues: after finitely many calls of \<^verbatim>\<open>pppstart\<close> the queues, the current packet and the ring are empty
  and the frames of all packets are on the line, in order, after what was there before.\<close>

theorem pppstart_empties_queues:
  assumes "drains f" "rb_inv (t_out sc)" "at_flag (line sc)"
    and "ppp_bodies junk (sc_flags sc) (queued sc) (sc_comp sc) = Some (bs, vj)"
  shows "\<exists>n sc'. pppstarts junk (Some f) n sc = Some sc' \<and> queued sc' = [] \<and> sc_outm sc' = [] \<and> contents (t_out sc') = [] \<and>
    wire_frames (t_wire sc') = wire_frames (line sc) @ map (stuffed (sc_asyncmap sc) \<circ> with_fcs) bs"
proof -
  from pppstarts_finish [OF assms(1), of junk sc] assms(2-4) obtain n sc' where
    s: "pppstarts junk (Some f) n sc = Some sc'" "finished sc'" "sent_on junk (queued sc) sc sc'" by (auto simp: sendable_def)
  then have "line sc' = t_wire sc'" by (simp add: line_def finished_def)
  then show ?thesis using s assms(4) by (auto simp: sent_on_def finished_def intro!: exI [of _ n])
qed

theorem pppstart_empties_queues_witness:
  "\<exists>n sc'. pppstarts (\<lambda>_. 0) (Some test_device) n (test_unit test_packets) = Some sc' \<and>
    wire_frames (t_wire sc') = map (stuffed 0xffffffff \<circ> with_fcs) [[0x25, 7, 0x7e], [0xff, 3, 0xc0, 0x21, 1, 2]]"
  using pppstart_empties_queues [OF test_device_drains _ _ test_packets_bodies]
  by (auto simp: test_unit_line) (auto simp: test_unit_def)

text \<open>C8: whatever packets are queued, however slowly the device empties the ring and
  wherever the previous call had to stop, each call of \<^verbatim>\<open>pppstart\<close> takes packets from the
  priority queue and then the normal queue in order, and adds to the line exactly the frames of these
  packets: their data, after header and field compression, with the checksum, escaped and closed by a flag.\<close>

theorem pppstart_sends_frames:
  assumes "pppstart junk oproc sc = Some sc'" "device oproc" "rb_inv (t_out sc)" "at_flag (line sc)"
  shows "\<exists>ps bs. queued sc = ps @ queued sc' \<and> ppp_bodies junk (sc_flags sc) ps (sc_comp sc) = Some (bs, sc_comp sc') \<and>
    wire_frames (line sc') = wire_frames (line sc) @ map (stuffed (sc_asyncmap sc) \<circ> with_fcs) bs \<and> at_flag (line sc') \<and> rb_inv (t_out sc')"
  using pppstart_sent [OF assms] by (auto simp: sent_on_def)

theorem pppstart_sends_frames_witness:
  "\<exists>sc' ps bs. pppstart (\<lambda>_. 0) (Some test_device) (test_unit test_packets) = Some sc' \<and> test_packets = ps @ queued sc' \<and>
    ppp_bodies (\<lambda>_. 0) 7 ps sl_compress_init = Some (bs, sc_comp sc') \<and> wire_frames (line sc') = map (stuffed 0xffffffff \<circ> with_fcs) bs"
proof -
  have "sendable (\<lambda>_. 0) (test_unit test_packets)" unfolding sendable_def test_packets_bodies by (simp add: test_unit_line)
  from pppstart_progress [OF test_device_drains this] obtain sc' where p: "pppstart (\<lambda>_. 0) (Some test_device) (test_unit test_packets) = Some sc'" by blast
  have "device (Some test_device)" using test_device_drains by (simp add: drains_def)
  from pppstart_sends_frames [OF p this] show ?thesis
    by (auto simp: test_unit_line p) (auto simp: test_unit_def)
qed

end
