(* ===== verification/Ppp_link.thy ===== *)
theory Ppp_link
  imports Ppp_line
begin

text \<open>
  The receiving side of the PPP line discipline, and both sides together: what is sent
  over a line without errors arrives.
\<close>

section \<open>Characters from the line\<close>

primrec ppp_receive :: "reader \<Rightarrow> alloc \<Rightarrow> u8 list \<Rightarrow> ppp_softc \<Rightarrow> ppp_softc option" where
  "ppp_receive junk al [] sc = Some sc"
| "ppp_receive junk al (c # cs) sc =
     (case pppinput junk al (False, c) sc of None \<Rightarrow> None | Some sc \<Rightarrow> ppp_receive junk al cs sc)"

lemma ppp_receive_append: "ppp_receive junk al (xs @ ys) sc =
    (case ppp_receive junk al xs sc of None \<Rightarrow> None | Some sc \<Rightarrow> ppp_receive junk al ys sc)"
  by (induction xs arbitrary: sc) (simp_all split: option.split)

text \<open>Every character the receiver ignores is escaped by the sender.\<close>

definition covers :: "u32 \<Rightarrow> u32 \<Rightarrow> bool" where
  "covers am rm \<longleftrightarrow> (\<forall>c :: u8. c < 0x20 \<longrightarrow> rm AND push_bit (unat c) 1 \<noteq> 0 \<longrightarrow> am AND push_bit (unat c) 1 \<noteq> 0)"

text \<open>What an octet does once its escape is removed, and the fields no octet changes.\<close>

definition octet :: "u8 \<Rightarrow> ppp_softc \<Rightarrow> ppp_softc option" where
  "octet c sc =
     (case first_octet c sc of None \<Rightarrow> None | Some (Inl sc) \<Rightarrow> Some sc | Some (Inr sc) \<Rightarrow> Some (store_octet c sc))"

definition rx_view :: "ppp_softc \<Rightarrow> nat list \<times> int \<times> u32 \<times> u32 \<times> slcompress \<times> u8 list ifqueue \<times> bool" where
  "rx_view sc = (sc_m sc, sc_mru sc, sc_flags sc, sc_rasyncmap sc, sc_comp sc, ipintrq sc, if_up sc)"

definition rx_has :: "u8 list \<Rightarrow> u16 \<Rightarrow> ppp_softc \<Rightarrow> bool" where
  "rx_has x f sc \<longleftrightarrow> sc_in sc = x \<and> sc_ilen sc = int (length x) \<and> sc_fcs sc = f \<and> \<not> sc_flush sc \<and> \<not> sc_escaped sc"

definition rx_idle :: "ppp_softc \<Rightarrow> bool" where
  "rx_idle sc \<longleftrightarrow> sc_ilen sc = 0 \<and> \<not> sc_flush sc \<and> \<not> sc_escaped sc"

text \<open>The unit as \<^verbatim>\<open>pppopen\<close> leaves it: one cluster for the frames of the default size.\<close>

definition rx_room :: "ppp_softc \<Rightarrow> bool" where
  "rx_room sc \<longleftrightarrow> sc_m sc = [2048] \<and> sc_mru sc = PPP_MRU"

lemma below_32: "(c :: u8) < 0x20 \<Longrightarrow> \<not> bit c 5"
proof -
  assume "c < 0x20"
  then have "take_bit 5 c = c" by (simp add: word_unat_eq_iff unsigned_take_bit_eq take_bit_nat_eq_self word_less_nat_alt)
  then show ?thesis by (metis bit_take_bit_iff less_irrefl)
qed

lemma low_trans: "(c :: u8) < 0x20 \<Longrightarrow> \<not> c XOR PPP_TRANS < 0x20"
  using below_32 [of c] below_32 [of "c XOR PPP_TRANS"] by (auto simp: bit_xor_iff)

lemma pppinput_char:
  assumes "c \<noteq> PPP_FLAG" "c \<noteq> PPP_ESCAPE" "\<not> (c < 0x20 \<and> sc_rasyncmap sc AND push_bit (unat c) 1 \<noteq> 0)" "\<not> sc_flush sc"
  shows "pppinput junk al (False, c) sc = octet (if sc_escaped sc then c XOR PPP_TRANS else c) (sc\<lparr>if_ibytes := if_ibytes sc + 1, sc_escaped := False\<rparr>)"
  using assms by (auto simp: pppinput_def octet_def Let_def)

lemma not_escaped: "\<not> sc_escaped sc \<Longrightarrow> sc\<lparr>if_ibytes := k, sc_escaped := False\<rparr> = sc\<lparr>if_ibytes := k\<rparr>"
  by (cases sc) simp

lemma receive_escaped:
  assumes "covers am (sc_rasyncmap sc)" "\<not> sc_flush sc" "\<not> sc_escaped sc"
  shows "ppp_receive junk al (escaped am c) sc = octet c (sc\<lparr>if_ibytes := if_ibytes sc + of_nat (length (escaped am c))\<rparr>)"
proof (cases "ESCAPE_P am c")
  case False
  then have "c \<noteq> PPP_FLAG" "c \<noteq> PPP_ESCAPE" "\<not> (c < 0x20 \<and> sc_rasyncmap sc AND push_bit (unat c) 1 \<noteq> 0)"
    using assms(1) by (auto simp: ESCAPE_P_def covers_def)
  from pppinput_char [OF this assms(2)] show ?thesis using assms(3) False by (simp add: escaped_def not_escaped split: option.split)
next
  case True
  let ?d = "c XOR PPP_TRANS" and ?sc = "sc\<lparr>if_ibytes := if_ibytes sc + 1, sc_escaped := True\<rparr>"
  have esc: "pppinput junk al (False, PPP_ESCAPE) sc = Some ?sc" using assms(2) by (simp add: pppinput_def Let_def)
  have dd: "?d XOR PPP_TRANS = c" by (simp add: xor.assoc)
  have "\<not> ?d < 0x20" "?d \<noteq> PPP_FLAG" "?d \<noteq> PPP_ESCAPE"
    using True low_trans dd by (auto simp: ESCAPE_P_def)
  then have "pppinput junk al (False, ?d) ?sc = octet c (sc\<lparr>if_ibytes := if_ibytes sc + 2, sc_escaped := False\<rparr>)"
    using pppinput_char [of ?d ?sc junk al] assms(2) dd by (simp add: add.commute)
  then show ?thesis using True esc assms(3) by (simp add: escaped_def not_escaped split: option.split)
qed

section \<open>Octets of a frame\<close>

lemma rx_room_sizes: "rx_room sc \<Longrightarrow> in_sizes sc = [1940]" "rx_room sc \<Longrightarrow> sc_m sc = [2048]" "rx_room sc \<Longrightarrow> sc_mru sc = 1500"
  by (simp_all add: rx_room_def in_sizes_def)

lemma rx_view_cong:
  assumes "rx_view sc' = rx_view sc"
  shows "rx_room sc' = rx_room sc" "sc_rasyncmap sc' = sc_rasyncmap sc" "sc_flags sc' = sc_flags sc" "sc_comp sc' = sc_comp sc" "ipintrq sc' = ipintrq sc" "if_up sc' = if_up sc"
  using assms by (auto simp: rx_view_def rx_room_def)

lemma octet_more:
  assumes "rx_has x f sc" "4 \<le> length x" "length x < 1506" "rx_room sc"
  shows "\<exists>sc'. octet c sc = Some sc' \<and> rx_has (x @ [c]) (PPP_FCS f c) sc' \<and> rx_view sc' = rx_view sc"
  using assms rx_room_sizes [OF assms(4)]
  by (auto simp: rx_has_def octet_def first_octet_def store_octet_def rx_view_def in_sizes_def Let_def s16_small)

lemma octet_address:
  assumes "rx_idle sc" "rx_room sc"
  shows "\<exists>sc'. octet PPP_ALLSTATIONS sc = Some sc' \<and> rx_has [PPP_ALLSTATIONS] (PPP_FCS PPP_INITFCS PPP_ALLSTATIONS) sc' \<and> rx_view sc' = rx_view sc"
  using assms rx_room_sizes [OF assms(2)]
  by (auto simp: rx_has_def rx_idle_def octet_def first_octet_def store_octet_def rx_view_def in_sizes_def Let_def s16_small)

lemma octet_control:
  assumes "rx_has [PPP_ALLSTATIONS] f sc" "rx_room sc"
  shows "\<exists>sc'. octet PPP_UI sc = Some sc' \<and> rx_has [PPP_ALLSTATIONS, PPP_UI] (PPP_FCS f PPP_UI) sc' \<and> rx_view sc' = rx_view sc"
  using assms rx_room_sizes [OF assms(2)]
  by (auto simp: rx_has_def octet_def first_octet_def store_octet_def rx_view_def in_sizes_def Let_def s16_small)

text \<open>The first octet of the protocol, with or without address and control before it: an odd one is
  the whole protocol.\<close>

definition before_protocol :: "u8 \<Rightarrow> u16 \<Rightarrow> ppp_softc \<Rightarrow> bool" where
  "before_protocol c f sc \<longleftrightarrow> rx_has [PPP_ALLSTATIONS, PPP_UI] f sc \<or>
     rx_idle sc \<and> f = PPP_INITFCS \<and> c \<noteq> PPP_ALLSTATIONS \<and> sc_flags sc AND SC_REJ_COMP_AC = 0"

lemma octet_protocol:
  assumes "before_protocol c f sc" "rx_room sc"
  shows "\<exists>sc'. octet c sc = Some sc' \<and> rx_has ([PPP_ALLSTATIONS, PPP_UI] @ (if c AND 1 = 1 then [0, c] else [c])) (PPP_FCS f c) sc' \<and> rx_view sc' = rx_view sc"
proof -
  have c: "c AND 1 = 0 \<or> c AND 1 = 1" by (simp add: and_one_eq mod_2_eq_odd)
  define sc1 where "sc1 = (if sc_ilen sc = 0 then sc\<lparr>sc_in := [PPP_ALLSTATIONS, PPP_UI], sc_ilen := 2, sc_fcs := PPP_INITFCS\<rparr> else sc)"
  have sc1: "rx_has [PPP_ALLSTATIONS, PPP_UI] f sc1" "rx_view sc1 = rx_view sc" "first_octet c sc = Some (Inr sc1)"
    using assms rx_room_sizes [OF assms(2)] unfolding before_protocol_def
    by (auto simp: sc1_def rx_has_def rx_idle_def first_octet_def rx_view_def)
  have "rx_room sc1" using rx_view_cong(1) [OF sc1(2)] assms(2) by blast
  then have "rx_has ([PPP_ALLSTATIONS, PPP_UI] @ (if c AND 1 = 1 then [0, c] else [c])) (PPP_FCS f c) (store_octet c sc1)"
    "rx_view (store_octet c sc1) = rx_view sc1"
    using c sc1(1) rx_room_sizes [OF \<open>rx_room sc1\<close>] by (auto simp: rx_has_def store_octet_def rx_view_def in_sizes_def Let_def s16_small)
  then show ?thesis using sc1(2,3) by (simp add: octet_def)
qed

lemma octet_protocol_low:
  assumes "rx_has [PPP_ALLSTATIONS, PPP_UI, h] f sc" "c AND 1 = 1" "rx_room sc"
  shows "\<exists>sc'. octet c sc = Some sc' \<and> rx_has [PPP_ALLSTATIONS, PPP_UI, h, c] (PPP_FCS f c) sc' \<and> rx_view sc' = rx_view sc"
  using assms rx_room_sizes [OF assms(3)]
  by (auto simp: rx_has_def octet_def first_octet_def store_octet_def rx_view_def in_sizes_def Let_def s16_small)

text \<open>Stuffed octets received.\<close>

lemma rx_ibytes: "rx_has x f (sc\<lparr>if_ibytes := k\<rparr>) = rx_has x f sc" "rx_view (sc\<lparr>if_ibytes := k\<rparr>) = rx_view sc"
  "rx_room (sc\<lparr>if_ibytes := k\<rparr>) = rx_room sc" "rx_idle (sc\<lparr>if_ibytes := k\<rparr>) = rx_idle sc" "before_protocol c f (sc\<lparr>if_ibytes := k\<rparr>) = before_protocol c f sc"
  by (simp_all add: rx_has_def rx_view_def rx_room_def rx_idle_def before_protocol_def)

lemma receive_octet:
  assumes "covers am (sc_rasyncmap sc)" "\<not> sc_flush sc" "\<not> sc_escaped sc" "octet c (sc\<lparr>if_ibytes := if_ibytes sc + of_nat (length (escaped am c))\<rparr>) = Some sc'"
  shows "ppp_receive junk al (escaped am c) sc = Some sc'"
  using receive_escaped [OF assms(1-3)] assms(4) by simp

lemma receive_data:
  assumes "rx_has x f sc" "4 \<le> length x" "length x + length ys \<le> 1506" "rx_room sc" "covers am (sc_rasyncmap sc)"
  shows "\<exists>sc'. ppp_receive junk al (stuffed am ys) sc = Some sc' \<and> rx_has (x @ ys) (pppfcs f ys) sc' \<and> rx_view sc' = rx_view sc"
  using assms
proof (induction ys arbitrary: x f sc)
  case (Cons c ys)
  let ?sc = "sc\<lparr>if_ibytes := if_ibytes sc + of_nat (length (escaped am c))\<rparr>"
  obtain sc1 where o: "octet c ?sc = Some sc1" "rx_has (x @ [c]) (PPP_FCS f c) sc1" "rx_view sc1 = rx_view sc"
    using octet_more [of x f ?sc c] Cons.prems by (auto simp: rx_ibytes)
  have "ppp_receive junk al (escaped am c) sc = Some sc1"
    using receive_octet [OF Cons.prems(5) _ _ o(1)] Cons.prems(1) by (simp add: rx_has_def)
  moreover obtain sc' where "ppp_receive junk al (stuffed am ys) sc1 = Some sc'" "rx_has ((x @ [c]) @ ys) (pppfcs (PPP_FCS f c) ys) sc'" "rx_view sc' = rx_view sc1"
    using Cons.IH [OF o(2)] Cons.prems(2,3,4,5) rx_view_cong(1,2) [OF o(3)] by auto
  ultimately show ?case using o(3) by (simp add: ppp_receive_append)
qed simp

text \<open>A protocol number as RFC 1331 has it: the low byte odd, the high byte even.\<close>

definition proto_ok :: "u16 \<Rightarrow> bool" where
  "proto_ok p \<longleftrightarrow> (ucast p :: u8) AND 1 = 1 \<and> (ucast (drop_bit 8 p) :: u8) AND 1 = 0"

lemma before_protocol_clear: "before_protocol c f sc \<Longrightarrow> \<not> sc_flush sc \<and> \<not> sc_escaped sc"
  by (auto simp: before_protocol_def rx_has_def rx_idle_def)

lemma receive_address:
  assumes "rx_idle sc" "rx_room sc" "covers am (sc_rasyncmap sc)"
  shows "\<exists>sc'. ppp_receive junk al (stuffed am [PPP_ALLSTATIONS, PPP_UI]) sc = Some sc' \<and>
    before_protocol c (pppfcs PPP_INITFCS [PPP_ALLSTATIONS, PPP_UI]) sc' \<and> rx_view sc' = rx_view sc"
proof -
  let ?n = "\<lambda>c sc. sc\<lparr>if_ibytes := if_ibytes sc + of_nat (length (escaped am c))\<rparr>"
  obtain sc1 where 1: "octet PPP_ALLSTATIONS (?n PPP_ALLSTATIONS sc) = Some sc1" "rx_has [PPP_ALLSTATIONS] (PPP_FCS PPP_INITFCS PPP_ALLSTATIONS) sc1" "rx_view sc1 = rx_view sc"
    using octet_address [of "?n PPP_ALLSTATIONS sc"] assms by (auto simp: rx_ibytes)
  note v1 = rx_view_cong [OF 1(3)]
  obtain sc2 where 2: "octet PPP_UI (?n PPP_UI sc1) = Some sc2" "rx_has [PPP_ALLSTATIONS, PPP_UI] (PPP_FCS (PPP_FCS PPP_INITFCS PPP_ALLSTATIONS) PPP_UI) sc2" "rx_view sc2 = rx_view sc1"
    using octet_control [of _ "?n PPP_UI sc1"] 1(2) v1(1) assms(2) by (auto simp: rx_ibytes)
  have "ppp_receive junk al (escaped am PPP_ALLSTATIONS) sc = Some sc1"
    using receive_octet [OF assms(3) _ _ 1(1)] assms(1) by (simp add: rx_idle_def)
  moreover have "ppp_receive junk al (escaped am PPP_UI) sc1 = Some sc2"
    using receive_octet [OF _ _ _ 2(1)] 1(2) assms(3) v1(2) by (simp add: rx_has_def)
  ultimately show ?thesis using 1(3) 2 by (simp add: ppp_receive_append before_protocol_def)
qed

lemma receive_protocol:
  assumes "before_protocol c f sc" "rx_room sc" "covers am (sc_rasyncmap sc)" "proto_ok p"
    and pr: "pr = [c] \<and> bytes_of_short p = [0, c] \<or> pr = bytes_of_short p \<and> pr = [c, d]"
  shows "\<exists>sc'. ppp_receive junk al (stuffed am pr) sc = Some sc' \<and> rx_has ([PPP_ALLSTATIONS, PPP_UI] @ bytes_of_short p) (pppfcs f pr) sc' \<and> rx_view sc' = rx_view sc"
proof -
  let ?n = "\<lambda>c sc. sc\<lparr>if_ibytes := if_ibytes sc + of_nat (length (escaped am c))\<rparr>"
  obtain sc1 where 1: "octet c (?n c sc) = Some sc1" "rx_has ([PPP_ALLSTATIONS, PPP_UI] @ (if c AND 1 = 1 then [0, c] else [c])) (PPP_FCS f c) sc1" "rx_view sc1 = rx_view sc"
    using octet_protocol [of c f "?n c sc"] assms(1,2) by (auto simp: rx_ibytes)
  note v1 = rx_view_cong [OF 1(3)]
  have r1: "ppp_receive junk al (escaped am c) sc = Some sc1"
    using receive_octet [OF assms(3) _ _ 1(1)] before_protocol_clear [OF assms(1)] by simp
  from pr show ?thesis
  proof
    assume *: "pr = [c] \<and> bytes_of_short p = [0, c]"
    then have "c AND 1 = 1" using assms(4) by (simp add: proto_ok_def bytes_of_short_def)
    then show ?thesis using * 1 r1 by simp
  next
    assume *: "pr = bytes_of_short p \<and> pr = [c, d]"
    then have cd: "c AND 1 = 0" "d AND 1 = 1" "c AND 1 \<noteq> 1" using assms(4) by (auto simp: proto_ok_def bytes_of_short_def)
    obtain sc2 where 2: "octet d (?n d sc1) = Some sc2" "rx_has [PPP_ALLSTATIONS, PPP_UI, c, d] (PPP_FCS (PPP_FCS f c) d) sc2" "rx_view sc2 = rx_view sc1"
      using octet_protocol_low [of c _ "?n d sc1" d] 1(2) cd v1(1) assms(2) by (auto simp: rx_ibytes)
    have "ppp_receive junk al (escaped am d) sc1 = Some sc2"
      using receive_octet [OF _ _ _ 2(1)] 1(2) assms(3) v1(2) by (simp add: rx_has_def)
    moreover have "bytes_of_short p = [c, d]" "pr = [c, d]" using * by auto
    ultimately show ?thesis using 1(3) 2 r1 by (simp add: ppp_receive_append)
  qed
qed

lemma receive_fields:
  assumes "rx_idle sc" "rx_room sc" "covers am (sc_rasyncmap sc)" "proto_ok p" "flags AND SC_COMP_AC = 0 \<or> sc_flags sc AND SC_REJ_COMP_AC = 0"
  shows "\<exists>sc'. ppp_receive junk al (stuffed am (ppp_fields flags PPP_ALLSTATIONS PPP_UI p)) sc = Some sc' \<and>
    rx_has ([PPP_ALLSTATIONS, PPP_UI] @ bytes_of_short p) (pppfcs PPP_INITFCS (ppp_fields flags PPP_ALLSTATIONS PPP_UI p)) sc' \<and> rx_view sc' = rx_view sc"
proof -
  let ?hi = "ucast (drop_bit 8 p) :: u8" and ?lo = "ucast p :: u8"
  define compac where "compac \<longleftrightarrow> flags AND SC_COMP_AC \<noteq> 0 \<and> p \<noteq> 0xff \<and> p \<noteq> PPP_LCP"
  define compprot where "compprot \<longleftrightarrow> flags AND SC_COMP_PROT \<noteq> 0 \<and> p < 0x100"
  define pr where "pr = (if compprot then [?lo] else [?hi, ?lo])"
  have f: "ppp_fields flags PPP_ALLSTATIONS PPP_UI p = (if compac then [] else [PPP_ALLSTATIONS, PPP_UI]) @ pr"
    by (simp add: ppp_fields_def compac_def compprot_def pr_def bytes_of_short_def)
  have small: "ucast ?lo = p \<and> ?hi = 0" if "p < 0x100"
  proof -
    have "take_bit 8 p = p" using that by (simp add: word_unat_eq_iff unsigned_take_bit_eq take_bit_nat_eq_self word_less_nat_alt)
    then have "drop_bit 8 p = 0" by (metis diff_self_eq_0 drop_bit_take_bit take_bit_0)
    then show ?thesis using small_byte [of p] that by (simp add: not_le)
  qed
  have prc: "pr = [hd pr] \<and> bytes_of_short p = [0, hd pr] \<or> pr = bytes_of_short p \<and> pr = [hd pr, ?lo]"
    using small by (auto simp: pr_def compprot_def bytes_of_short_def)
  have ne: "hd pr \<noteq> PPP_ALLSTATIONS" if compac
  proof
    assume ff: "hd pr = PPP_ALLSTATIONS"
    show False
    proof (cases compprot)
      case True
      then have "p = ucast (PPP_ALLSTATIONS :: u8)" using small ff by (simp add: pr_def compprot_def)
      then show False using that by (simp add: compac_def)
    next
      case False
      then show False using ff assms(4) by (simp add: pr_def proto_ok_def)
    qed
  qed
  obtain sc1 where 1: "ppp_receive junk al (stuffed am (if compac then [] else [PPP_ALLSTATIONS, PPP_UI])) sc = Some sc1"
    "before_protocol (hd pr) (pppfcs PPP_INITFCS (if compac then [] else [PPP_ALLSTATIONS, PPP_UI])) sc1" "rx_view sc1 = rx_view sc"
  proof (cases compac)
    case True
    then have "before_protocol (hd pr) PPP_INITFCS sc" using assms(1,5) ne by (auto simp: before_protocol_def compac_def)
    then show ?thesis using that True by simp
  next
    case False
    obtain sc1 where "ppp_receive junk al (stuffed am [PPP_ALLSTATIONS, PPP_UI]) sc = Some sc1"
      "before_protocol (hd pr) (pppfcs PPP_INITFCS [PPP_ALLSTATIONS, PPP_UI]) sc1" "rx_view sc1 = rx_view sc"
      using receive_address [OF assms(1-3)] by blast
    then show ?thesis using that False by simp
  qed
  obtain sc2 where "ppp_receive junk al (stuffed am pr) sc1 = Some sc2"
    "rx_has ([PPP_ALLSTATIONS, PPP_UI] @ bytes_of_short p) (pppfcs (pppfcs PPP_INITFCS (if compac then [] else [PPP_ALLSTATIONS, PPP_UI])) pr) sc2" "rx_view sc2 = rx_view sc1"
    using receive_protocol [OF 1(2) _ _ assms(4) prc] rx_view_cong [OF 1(3)] assms(2,3) by metis
  then show ?thesis using 1(1,3) by (simp only: f stuffed_simps pppfcs_append ppp_receive_append option.case) auto
qed

section \<open>The end of a frame\<close>

text \<open>What the receiver makes of the data of a packet for IP.\<close>

definition unpack :: "reader \<Rightarrow> u32 \<Rightarrow> u16 \<Rightarrow> u8 list \<Rightarrow> slcompress \<Rightarrow> (u8 list \<times> slcompress) option" where
  "unpack junk flags p d vj =
     (if p = PPP_IP then Some (d, vj)
      else if p = PPP_VJC_COMP \<or> p = PPP_VJC_UNCOMP then
        (if flags AND SC_REJ_COMP_TCP \<noteq> 0 then None
         else case sl_uncompress_tcp junk d (if p = PPP_VJC_COMP then TYPE_COMPRESSED_TCP else TYPE_UNCOMPRESSED_TCP) vj of
           Some (Some (q, n), vj) \<Rightarrow> if n = 0 then None else Some (q, vj)
         | _ \<Rightarrow> None)
      else None)"

definition clusters :: "alloc \<Rightarrow> bool" where
  "clusters al \<longleftrightarrow> (\<exists>as as'. al = (True, Some 2048 # as, as'))"

lemma pppinit_clusters: "clusters (True, as, as') \<Longrightarrow> sc_mru sc = PPP_MRU \<Longrightarrow> sc_m sc = [] \<or> sc_m sc = [2048] \<Longrightarrow> pppinit as sc = (True, sc\<lparr>sc_m := [2048]\<rparr>)"
  by (auto simp: clusters_def pppinit_def)

lemma btom_clusters:
  assumes "clusters al" "rx_room sc"
  shows "ppp_btom al 0 n sc = (True, sc\<lparr>sc_m := [2048]\<rparr>)"
proof -
  obtain as as' where al: "al = (True, as, as')" using assms(1) by (auto simp: clusters_def)
  have m: "sc_m sc = [2048]" "sc_mru sc = PPP_MRU" using assms(2) by (simp_all add: rx_room_def)
  have "pppinit as (sc\<lparr>sc_m := drop (if n > MHLEN then Suc 0 else 0) (sc_m sc)\<rparr>) = (True, sc\<lparr>sc_m := [2048]\<rparr>)"
    using pppinit_clusters [of as as' "sc\<lparr>sc_m := drop (if n > MHLEN then Suc 0 else 0) (sc_m sc)\<rparr>"] assms(1) al m by (auto split: if_splits)
  then show ?thesis by (simp add: ppp_btom_def al)
qed

lemma decompress_unpack:
  assumes "unpack junk (sc_flags sc) p d (sc_comp sc) = Some (q, vj)" "rx_room sc" "length d \<le> 1500" "m = [PPP_ALLSTATIONS, PPP_UI] @ bytes_of_short p @ d"
  shows "\<exists>n. decompress_in junk p m (int (length m)) sc = Some (Inr (PPP_IP, [PPP_ALLSTATIONS, PPP_UI] @ bytes_of_short PPP_IP @ q, n, sc\<lparr>sc_comp := vj\<rparr>))"
proof -
  have k: "hd (in_sizes sc) = 1940" using rx_room_sizes(1) [OF assms(2)] by simp
  have d: "drop PPP_HEADER_LEN (take 1940 m) = d" "drop 1940 m = []" "take 2 m = [PPP_ALLSTATIONS, PPP_UI]" "nat (int (length m) - int PPP_HEADER_LEN) = length d"
    using assms(3,4) by (simp_all add: bytes_of_short_def)
  show ?thesis
  proof (cases "p = PPP_IP")
    case True
    then show ?thesis using assms(1,4) k by (auto simp: decompress_in_def unpack_def)
  next
    case False
    then show ?thesis using assms(1) k d
      by (auto simp: decompress_in_def unpack_def sl_uncompress_tcp_def Let_def split: if_splits option.splits prod.splits)
  qed
qed

lemma frame_end_delivers:
  assumes "rx_has ([PPP_ALLSTATIONS, PPP_UI] @ bytes_of_short p @ d @ [x, y]) PPP_GOODFCS sc" "rx_room sc" "length d \<le> 1500" "clusters al" "if_up sc"
    "unpack junk (sc_flags sc) p d (sc_comp sc) = Some (q, vj)" "\<not> IF_QFULL (ipintrq sc)"
  shows "\<exists>sc'. frame_end junk al sc = Some sc' \<and> rx_idle sc' \<and> rx_view sc' = rx_view (sc\<lparr>sc_comp := vj, ipintrq := IF_ENQUEUE q (ipintrq sc)\<rparr>)"
proof -
  define m where "m = [PPP_ALLSTATIONS, PPP_UI] @ bytes_of_short p @ d"
  define sc1 where "sc1 = sc\<lparr>sc_ilen := 0, if_ipackets := if_ipackets sc + 1\<rparr>"
  have r: "sc_in sc = m @ [x, y]" "sc_ilen sc = int (length m) + 2" "sc_fcs sc = PPP_GOODFCS" "\<not> sc_flush sc" "\<not> sc_escaped sc"
    using assms(1) by (simp_all add: rx_has_def m_def)
  have l: "4 \<le> length m" "length m < 1940" using assms(3) by (simp_all add: m_def)
  have sz: "in_sizes sc1 = [1940]" "rx_room sc1" using rx_room_sizes(1) [OF assms(2)] assms(2) by (simp_all add: sc1_def in_sizes_def rx_room_def)
  have proto: "get16 (rd junk m) 2 = p" using l by (simp add: get16_def rd_def m_def bytes_of_short_def)
  have "unpack junk (sc_flags sc1) p d (sc_comp sc1) = Some (q, vj)" using assms(6) by (simp add: sc1_def)
  from decompress_unpack [OF this sz(2) assms(3) m_def]
  obtain n where dec: "decompress_in junk p m (int (length m)) sc1 = Some (Inr (PPP_IP, [PPP_ALLSTATIONS, PPP_UI] @ bytes_of_short PPP_IP @ q, n, sc1\<lparr>sc_comp := vj\<rparr>))"
    by blast
  have bt: "ppp_btom al 0 n (sc1\<lparr>sc_comp := vj\<rparr>) = (True, sc1\<lparr>sc_comp := vj, sc_m := [2048]\<rparr>)"
    using btom_clusters [OF assms(4), of "sc1\<lparr>sc_comp := vj\<rparr>"] sz(2) by (simp add: rx_room_def)
  have "frame_end junk al sc = Some (pass_up PPP_IP ([PPP_ALLSTATIONS, PPP_UI] @ bytes_of_short PPP_IP @ q) (sc1\<lparr>sc_comp := vj, sc_m := [2048]\<rparr>))"
    using r l rx_room_sizes(1) [OF assms(2)] proto dec bt by (simp add: frame_end_def Let_def in_sizes_def flip: sc1_def)
  moreover have "pass_up PPP_IP ([PPP_ALLSTATIONS, PPP_UI] @ bytes_of_short PPP_IP @ q) (sc1\<lparr>sc_comp := vj, sc_m := [2048]\<rparr>) =
      sc1\<lparr>sc_comp := vj, sc_m := [2048], ipintrq := IF_ENQUEUE q (ipintrq sc)\<rparr>"
    using assms(5,7) by (simp add: pass_up_def sc1_def)
  ultimately show ?thesis using r assms(2) by (auto simp: rx_idle_def rx_view_def sc1_def rx_room_def)
qed

text \<open>A whole frame.\<close>

lemma receive_frame:
  assumes "rx_idle sc" "rx_room sc" "covers am (sc_rasyncmap sc)" "proto_ok p" "flags AND SC_COMP_AC = 0 \<or> sc_flags sc AND SC_REJ_COMP_AC = 0"
    "length d \<le> 1500" "clusters al" "if_up sc" "unpack junk (sc_flags sc) p d (sc_comp sc) = Some (q, vj)" "\<not> IF_QFULL (ipintrq sc)"
  shows "\<exists>sc'. ppp_receive junk al (ppp_frame am (ppp_fields flags PPP_ALLSTATIONS PPP_UI p @ d)) sc = Some sc' \<and> rx_idle sc' \<and>
    rx_view sc' = rx_view (sc\<lparr>sc_comp := vj, ipintrq := IF_ENQUEUE q (ipintrq sc)\<rparr>)"
proof -
  let ?f = "ppp_fields flags PPP_ALLSTATIONS PPP_UI p"
  define x where "x = pppfcs PPP_INITFCS (?f @ d)"
  let ?e = "[ucast (NOT x), ucast (drop_bit 8 (NOT x))]"
  let ?h = "[PPP_ALLSTATIONS, PPP_UI] @ bytes_of_short p"
  from receive_fields [OF assms(1-5)] obtain sc1 where 1: "ppp_receive junk al (stuffed am ?f) sc = Some sc1" "rx_has ?h (pppfcs PPP_INITFCS ?f) sc1" "rx_view sc1 = rx_view sc" by blast
  note v1 = rx_view_cong [OF 1(3)]
  have "4 \<le> length ?h" "length ?h + length (d @ ?e) \<le> 1506" "rx_room sc1" "covers am (sc_rasyncmap sc1)" using assms(2,3,6) v1 by simp_all
  from receive_data [OF 1(2) this] obtain sc2 where 2: "ppp_receive junk al (stuffed am (d @ ?e)) sc1 = Some sc2"
    "rx_has (?h @ d @ ?e) (pppfcs (pppfcs PPP_INITFCS ?f) (d @ ?e)) sc2" "rx_view sc2 = rx_view sc1" by blast
  note v2 = rx_view_cong [OF 2(3)]
  have "pppfcs (pppfcs PPP_INITFCS ?f) (d @ ?e) = pppfcs x ?e" by (simp only: x_def pppfcs_append)
  then have good: "pppfcs (pppfcs PPP_INITFCS ?f) (d @ ?e) = PPP_GOODFCS" using good_fcs [of x] by simp
  let ?sc = "sc2\<lparr>if_ibytes := if_ibytes sc2 + 1\<rparr>"
  have has: "rx_has (?h @ d @ ?e) PPP_GOODFCS ?sc" using 2(2) good by (simp only: rx_ibytes)
  have "\<exists>sc'. frame_end junk al ?sc = Some sc' \<and> rx_idle sc' \<and> rx_view sc' = rx_view (?sc\<lparr>sc_comp := vj, ipintrq := IF_ENQUEUE q (ipintrq ?sc)\<rparr>)"
    using frame_end_delivers [OF _ _ assms(6,7), of p "ucast (NOT x)" "ucast (drop_bit 8 (NOT x))" ?sc junk q vj] has v1 v2 assms(2,8-10) by (simp add: rx_ibytes)
  moreover have "pppinput junk al (False, PPP_FLAG) sc2 = frame_end junk al ?sc" by (simp add: pppinput_def)
  moreover have "ppp_frame am (?f @ d) = stuffed am ?f @ stuffed am (d @ ?e) @ [PPP_FLAG]" by (simp add: ppp_frame_def with_fcs_def x_def)
  moreover have "rx_view (?sc\<lparr>sc_comp := vj, ipintrq := IF_ENQUEUE q (ipintrq ?sc)\<rparr>) = rx_view (sc\<lparr>sc_comp := vj, ipintrq := IF_ENQUEUE q (ipintrq sc)\<rparr>)"
    using 1(3) 2(3) by (simp add: rx_view_def)
  ultimately show ?thesis using 1(1) 2(1) by (auto simp: ppp_receive_append simp del: stuffed_simps)
qed

section \<open>Both ends of the line\<close>

abbreviation (input) IP_HEADER :: "u8 list" where
  "IP_HEADER \<equiv> [PPP_ALLSTATIONS, PPP_UI, 0, 0x21]"

text \<open>A chain that \<^verbatim>\<open>pppoutput\<close> queues for an IP packet kept in one mbuf, with the PPP header in the
  same mbuf or in another; with header compression the packet has to be one that survives it.\<close>

definition ip_chain :: "u32 \<Rightarrow> u8 list \<Rightarrow> mbufs \<Rightarrow> bool" where
  "ip_chain flags p m \<longleftrightarrow> (m = [IP_HEADER @ p] \<or> m = [IP_HEADER, p]) \<and> p \<noteq> [] \<and> length p \<le> 1500 \<and>
     (flags AND SC_COMP_TCP \<noteq> 0 \<longrightarrow> length p < 10 \<or> p ! 9 \<noteq> IPPROTO_TCP \<or> link_packet p)"

definition compatible :: "u32 \<Rightarrow> u32 \<Rightarrow> bool" where
  "compatible flags rflags \<longleftrightarrow> (flags AND SC_COMP_AC = 0 \<or> rflags AND SC_REJ_COMP_AC = 0) \<and> (flags AND SC_COMP_TCP = 0 \<or> rflags AND SC_REJ_COMP_TCP = 0)"

lemma compressed_not_longer:
  assumes "sl_compress_tcp junk cid p vj = Some (type, m, vj')" "vj_packet p" "type \<in> {TYPE_UNCOMPRESSED_TCP, TYPE_COMPRESSED_TCP}"
  shows "length m \<le> length p"
proof (cases "type = TYPE_COMPRESSED_TCP")
  case True
  from assms(2) obtain A B D where p: "p = A @ B @ D" "tcp_header A B" by (rule vj_packet_parts)
  have "5 \<le> ip_hl (rd junk p)" "5 \<le> th_off (rd junk p) (4 * ip_hl (rd junk p))"
    using packet_fields(2,3) [OF p(2,1), of junk] p(2) by (simp_all add: tcp_header_def)
  then have "length m + 21 \<le> length p" using compressed_shorter assms(1) True by blast
  then show ?thesis by simp
next
  case False
  then show ?thesis using assms(1,3)
    by (auto simp: sl_compress_tcp_def Let_def split: if_splits prod.splits list.splits option.splits)
qed

lemma proto_ok_ip: "proto_ok PPP_IP" "proto_ok PPP_VJC_COMP" "proto_ok PPP_VJC_UNCOMP"
  by (simp_all add: proto_ok_def)

lemma body_unpacks:
  assumes b: "ppp_body junk flags m vj = Some (b, vj')" and m: "ip_chain flags p m" and st: "in_step vj rvj" and c: "compatible flags rflags"
  shows "\<exists>pr d rvj'. b = ppp_fields flags PPP_ALLSTATIONS PPP_UI pr @ d \<and> proto_ok pr \<and> length d \<le> 1500 \<and>
    unpack junk' rflags pr d rvj = Some (p, rvj') \<and> in_step vj' rvj'"
proof -
  let ?ms = "drop PPP_HEADER_LEN (hd m) # tl m"
  have hd: "rd junk (hd m) 0 = PPP_ALLSTATIONS" "rd junk (hd m) 1 = PPP_UI" "get16 (rd junk (hd m)) 2 = PPP_IP"
    using m by (auto simp: ip_chain_def rd_def get16_def short_of_def)
  have ms: "?ms = [p] \<or> ?ms = [[], p]" "p \<noteq> []" "length p \<le> 1500" using m by (auto simp: ip_chain_def)
  have plain: ?thesis if "compress_out junk flags PPP_IP ?ms vj = Some (PPP_IP, ms', vj)" "concat ms' = p" for ms'
  proof -
    have "b = ppp_fields flags PPP_ALLSTATIONS PPP_UI PPP_IP @ p" "vj' = vj" using b that hd by (auto simp: ppp_body_def Let_def)
    moreover have "unpack junk' rflags PPP_IP p rvj = Some (p, rvj)" by (simp add: unpack_def)
    ultimately show ?thesis using ms(3) st proto_ok_ip(1) by blast
  qed
  let ?i = "if hd ?ms = [] then 1 else 0 :: nat"
  have i: "?i < length ?ms" "?ms ! ?i = p" "concat (?ms[?i := q]) = q" for q
    using ms(1) by (elim disjE; simp only:; simp add: ms(2))+
  show ?thesis
  proof (cases "flags AND SC_COMP_TCP \<noteq> 0 \<and> ip_p (rd junk p) = IPPROTO_TCP")
    case False
    then have "compress_out junk flags PPP_IP ?ms vj = Some (PPP_IP, ?ms, vj)" using i by (auto simp: compress_out_def Let_def)
    then show ?thesis using plain i(3) [of p] ms(1) by auto
  next
    case True
    have comp: "compress_out junk flags PPP_IP ?ms vj =
        (case sl_compress_tcp junk (flags AND SC_NO_TCP_CCID = 0) p vj of None \<Rightarrow> None
         | Some (type, q, vj) \<Rightarrow> Some (case type of TYPE_UNCOMPRESSED_TCP \<Rightarrow> PPP_VJC_UNCOMP | TYPE_COMPRESSED_TCP \<Rightarrow> PPP_VJC_COMP | _ \<Rightarrow> PPP_IP, ?ms[?i := q], vj))"
      using True i(1,2) unfolding compress_out_def Let_def by (simp add: not_le)
    show ?thesis
    proof (cases "vj_packet p")
      case vj: True
      show ?thesis using st vj
      proof (cases rule: vj_packet_sent [where junk = junk and junk' = junk' and cid = "flags AND SC_NO_TCP_CCID = 0"])
        case ip
        then show ?thesis using plain comp i(3) by simp
      next
        case (tcp type q tx' rx')
        let ?pr = "if type = TYPE_COMPRESSED_TCP then PPP_VJC_COMP else PPP_VJC_UNCOMP"
        have "b = ppp_fields flags PPP_ALLSTATIONS PPP_UI ?pr @ q" "vj' = tx'"
          using b hd comp tcp(1,2) i(3) by (auto simp: ppp_body_def Let_def)
        moreover have "unpack junk' rflags ?pr q rvj = Some (p, rx')" using tcp(2,3) c True ms(2) by (auto simp: unpack_def compatible_def)
        moreover have "length q \<le> 1500" using compressed_not_longer [OF tcp(1) vj tcp(2)] ms(3) by simp
        moreover have "proto_ok ?pr" using proto_ok_ip by simp
        ultimately show ?thesis using tcp(4) by blast
      qed
    next
      case False
      have "length p < 40 \<or> get16 ((!) p) 6 AND 0x3fff \<noteq> 0"
        using False m True by (auto simp: ip_chain_def link_packet_def rd_def split: if_splits)
      from plain_packet [OF this] show ?thesis using plain comp i(3) by simp
    qed
  qed
qed

text \<open>The receiver is ready for frames sent with the given settings.\<close>

definition rx_ready :: "u32 \<Rightarrow> u32 \<Rightarrow> ppp_softc \<Rightarrow> bool" where
  "rx_ready flags am sc \<longleftrightarrow> rx_idle sc \<and> rx_room sc \<and> if_up sc \<and> covers am (sc_rasyncmap sc) \<and> compatible flags (sc_flags sc)"

lemma rx_ready_view: "rx_idle sc' \<Longrightarrow> rx_view sc' = rx_view (sc\<lparr>sc_comp := vj, ipintrq := q\<rparr>) \<Longrightarrow> rx_ready flags am sc \<Longrightarrow>
    rx_ready flags am sc' \<and> sc_comp sc' = vj \<and> ipintrq sc' = q"
  by (auto simp: rx_ready_def rx_view_def rx_room_def)

lemma receive_flag:
  assumes "rx_ready flags am sc"
  shows "\<exists>sc'. pppinput junk al (False, PPP_FLAG) sc = Some sc' \<and> rx_ready flags am sc' \<and> sc_comp sc' = sc_comp sc \<and> ipintrq sc' = ipintrq sc"
  using assms by (auto simp: pppinput_def frame_end_def rx_ready_def rx_idle_def rx_room_def Let_def)

text \<open>One packet of the sender at the receiver.\<close>

lemma receive_packet:
  assumes "ppp_body junk flags m vj = Some (b, vj')" "ip_chain flags p m" "in_step vj (sc_comp sc)" "rx_ready flags am sc" "clusters al"
    "length (ifq (ipintrq sc)) < ifq_maxlen (ipintrq sc)"
  shows "\<exists>sc'. ppp_receive junk' al (ppp_frame am b) sc = Some sc' \<and> rx_ready flags am sc' \<and> in_step vj' (sc_comp sc') \<and>
    ipintrq sc' = IF_ENQUEUE p (ipintrq sc)"
proof -
  have r: "rx_idle sc" "rx_room sc" "covers am (sc_rasyncmap sc)" "compatible flags (sc_flags sc)" "if_up sc" using assms(4) by (simp_all add: rx_ready_def)
  from body_unpacks [OF assms(1-3) r(4)] obtain pr d rvj where
    u: "b = ppp_fields flags PPP_ALLSTATIONS PPP_UI pr @ d" "proto_ok pr" "length d \<le> 1500" "unpack junk' (sc_flags sc) pr d (sc_comp sc) = Some (p, rvj)" "in_step vj' rvj"
    by blast
  have ac: "flags AND SC_COMP_AC = 0 \<or> sc_flags sc AND SC_REJ_COMP_AC = 0" using r(4) by (simp add: compatible_def)
  have "\<not> IF_QFULL (ipintrq sc)" using assms(6) by (simp add: IF_QFULL_def)
  from receive_frame [OF r(1-3) u(2) ac u(3) assms(5) r(5) u(4) this] rx_ready_view [OF _ _ assms(4)] u(1,5) show ?thesis by metis
qed

lemma split_at_flag:
  assumes "at_flag w" "w \<noteq> []"
  obtains xs ys where "w = xs @ PPP_FLAG # ys" "PPP_FLAG \<notin> set xs" "at_flag ys" "wire_frames w = (if xs = [] then [] else [xs]) @ wire_frames ys"
proof -
  have "PPP_FLAG \<in> set w" using assms by (metis at_flag_def last_in_set)
  then obtain xs ys where w: "w = xs @ PPP_FLAG # ys" "PPP_FLAG \<notin> set xs" by (metis split_list_first)
  moreover have "at_flag ys" using assms(1) w(1) by (auto simp: at_flag_def split: if_splits)
  moreover have "wire_frames (xs @ [PPP_FLAG]) = (if xs = [] then [] else [xs])"
    using frames_from_plain [OF w(2), of "[]"] by (simp add: wire_frames_def)
  ultimately show thesis using that wire_frames_append [of "xs @ [PPP_FLAG]" ys] by (simp add: at_flag_def)
qed

lemma receive_stream:
  assumes "at_flag w" "wire_frames w = map (stuffed am \<circ> with_fcs) bs" "ppp_bodies junk flags ms vj = Some (bs, vj')" "list_all2 (ip_chain flags) ps ms"
    "in_step vj (sc_comp sc)" "rx_ready flags am sc" "clusters al" "length (ifq (ipintrq sc)) + length ps \<le> ifq_maxlen (ipintrq sc)"
  shows "\<exists>sc'. ppp_receive junk' al w sc = Some sc' \<and> rx_ready flags am sc' \<and> in_step vj' (sc_comp sc') \<and> ifq (ipintrq sc') = ifq (ipintrq sc) @ ps"
  using assms
proof (induction "length w" arbitrary: w bs ms ps vj sc rule: less_induct)
  case less
  show ?case
  proof (cases "w = []")
    case True
    then have "bs = []" using less.prems(2) by (simp add: wire_frames_def)
    then have "ms = []" "vj' = vj" using less.prems(3) by (cases ms; auto split: option.splits)+
    then show ?thesis using True less.prems by simp
  next
    case False
    with less.prems(1) obtain xs ys where w: "w = xs @ PPP_FLAG # ys" "PPP_FLAG \<notin> set xs" "at_flag ys" "wire_frames w = (if xs = [] then [] else [xs]) @ wire_frames ys"
      by (rule split_at_flag)
    have sh: "length ys < length w" by (simp add: w(1))
    show ?thesis
    proof (cases "xs = []")
      case True
      obtain sc1 where 1: "pppinput junk' al (False, PPP_FLAG) sc = Some sc1" "rx_ready flags am sc1" "sc_comp sc1 = sc_comp sc" "ipintrq sc1 = ipintrq sc"
        using receive_flag [OF less.prems(6)] by blast
      have "wire_frames ys = map (stuffed am \<circ> with_fcs) bs" using less.prems(2) w(4) True by simp
      from less.hyps [OF sh w(3) this less.prems(3,4) _ 1(2) less.prems(7)] less.prems(5,8) 1 show ?thesis
        by (simp add: w(1) True)
    next
      case False
      then have eq: "xs # wire_frames ys = map (stuffed am \<circ> with_fcs) bs" using less.prems(2) w(4) by simp
      then obtain b bs' where bs: "bs = b # bs'" "xs = stuffed am (with_fcs b)" "wire_frames ys = map (stuffed am \<circ> with_fcs) bs'"
        by (cases bs) auto
      then obtain m ms' vj1 where ms: "ms = m # ms'" "ppp_body junk flags m vj = Some (b, vj1)" "ppp_bodies junk flags ms' vj1 = Some (bs', vj')"
        using less.prems(3) by (cases ms) (auto split: option.splits)
      then obtain p ps' where ps: "ps = p # ps'" "ip_chain flags p m" "list_all2 (ip_chain flags) ps' ms'"
        using less.prems(4) by (auto simp: list_all2_Cons2)
      have "length (ifq (ipintrq sc)) < ifq_maxlen (ipintrq sc)" using less.prems(8) ps(1) by simp
      from receive_packet [OF ms(2) ps(2) less.prems(5,6,7) this] obtain sc1 where
        1: "ppp_receive junk' al (ppp_frame am b) sc = Some sc1" "rx_ready flags am sc1" "in_step vj1 (sc_comp sc1)" "ipintrq sc1 = IF_ENQUEUE p (ipintrq sc)" by blast
      have "length (ifq (ipintrq sc1)) + length ps' \<le> ifq_maxlen (ipintrq sc1)" using less.prems(8) ps(1) 1(4) by (simp add: IF_ENQUEUE_def)
      from less.hyps [OF sh w(3) bs(3) ms(3) ps(3) 1(3,2) less.prems(7) this] obtain sc' where
        "ppp_receive junk' al ys sc1 = Some sc'" "rx_ready flags am sc'" "in_step vj' (sc_comp sc')" "ifq (ipintrq sc') = ifq (ipintrq sc1) @ ps'" by blast
      moreover have "w = ppp_frame am b @ ys" by (simp add: w(1) bs(2) ppp_frame_def)
      ultimately show ?thesis using 1 ps(1) by (simp add: ppp_receive_append IF_ENQUEUE_def)
    qed
  qed
qed

section \<open>Histories of the sender\<close>

text \<open>Packets are queued or dropped, \<^verbatim>\<open>pppstart\<close> runs, and the device takes characters, in any
  order; the packets taken from the queues are recorded.\<close>

inductive tx_trace :: "reader \<Rightarrow> ppp_softc \<Rightarrow> mbufs list \<Rightarrow> ppp_softc \<Rightarrow> bool" for junk sc0 where
  start: "tx_trace junk sc0 [] sc0"
| queue: "tx_trace junk sc0 ps sc \<Longrightarrow> tx_trace junk sc0 ps (sc\<lparr>if_snd := IF_ENQUEUE m (if_snd sc)\<rparr>)"
| fast: "tx_trace junk sc0 ps sc \<Longrightarrow> tx_trace junk sc0 ps (sc\<lparr>sc_fastq := IF_ENQUEUE m (sc_fastq sc)\<rparr>)"
| drop: "tx_trace junk sc0 ps sc \<Longrightarrow> tx_trace junk sc0 ps (sc\<lparr>if_snd := IF_DROP (if_snd sc), if_oerrors := e\<rparr>)"
| drop_fast: "tx_trace junk sc0 ps sc \<Longrightarrow> tx_trace junk sc0 ps (sc\<lparr>sc_fastq := IF_DROP (sc_fastq sc), if_oerrors := e\<rparr>)"
| run: "tx_trace junk sc0 ps sc \<Longrightarrow> device oproc \<Longrightarrow> pppstart junk oproc sc = Some sc' \<Longrightarrow> queued sc = qs @ queued sc' \<Longrightarrow> tx_trace junk sc0 (ps @ qs) sc'"
| drain: "tx_trace junk sc0 ps sc \<Longrightarrow> device oproc \<Longrightarrow> tx_trace junk sc0 ps (t_oproc oproc sc)"

definition fresh_line :: "ppp_softc \<Rightarrow> bool" where
  "fresh_line sc \<longleftrightarrow> rb_inv (t_out sc) \<and> contents (t_out sc) = [] \<and> sc_outm sc = [] \<and> t_wire sc = []"

lemma tx_trace_line:
  assumes "tx_trace junk sc0 ps sc" "fresh_line sc0"
  shows "rb_inv (t_out sc) \<and> at_flag (line sc) \<and> same_settings sc0 sc \<and>
    (\<exists>bs. ppp_bodies junk (sc_flags sc0) ps (sc_comp sc0) = Some (bs, sc_comp sc) \<and> wire_frames (line sc) = map (stuffed (sc_asyncmap sc0) \<circ> with_fcs) bs)"
  using assms
proof (induction rule: tx_trace.induct)
  case start
  then show ?case by (simp add: fresh_line_def line_def at_flag_def same_settings_def wire_frames_def)
next
  case (run ps sc oproc sc' qs)
  then have pre: "rb_inv (t_out sc)" "at_flag (line sc)" "same_settings sc0 sc" by simp_all
  obtain qs' where q: "sent_on junk qs' sc sc'" using pppstart_sent [OF run(3,2) pre(1,2)] by blast
  then have "qs' = qs" using run(4) by (simp add: sent_on_def)
  then show ?case using run(5,6) q pre(3) by (auto simp: sent_on_def same_settings_def ppp_bodies_append)
next
  case (drain ps sc oproc)
  then show ?case using t_oproc_line [OF drain(2), of sc] by (auto simp: same_settings_def)
qed (auto simp: line_def same_settings_def)

lemma if_Some_cases: "(if b then x else y) = Some z \<Longrightarrow> (b \<Longrightarrow> x = Some z \<Longrightarrow> P) \<Longrightarrow> (\<not> b \<Longrightarrow> y = Some z \<Longrightarrow> P) \<Longrightarrow> P"
  by (cases b) simp_all

lemma pppoutput_cases:
  assumes "pppoutput junk oproc room m0 dst sc = Some (e, sc')"
  obtains "sc' = sc" | "sc' = sc\<lparr>if_snd := IF_DROP (if_snd sc), if_oerrors := if_oerrors sc + 1\<rparr>"
    | "sc' = sc\<lparr>sc_fastq := IF_DROP (sc_fastq sc), if_oerrors := if_oerrors sc + 1\<rparr>"
    | m where "pppstart junk oproc (sc\<lparr>if_snd := IF_ENQUEUE m (if_snd sc)\<rparr>) = Some sc'"
    | m where "pppstart junk oproc (sc\<lparr>sc_fastq := IF_ENQUEUE m (sc_fastq sc)\<rparr>) = Some sc'"
  using assms unfolding pppoutput_def Let_def
  by (elim if_Some_cases) (simp only: option.inject prod.inject option.map_sel map_option_eq_Some; blast)+

lemma pppoutput_trace:
  assumes "tx_trace junk sc0 ps sc" "device oproc" "rb_inv (t_out sc)" "at_flag (line sc)" "pppoutput junk oproc room m0 dst sc = Some (e, sc')"
  shows "\<exists>qs. tx_trace junk sc0 (ps @ qs) sc'"
proof -
  have run: "\<exists>qs. tx_trace junk sc0 (ps @ qs) sc'" if "tx_trace junk sc0 ps sc1" "pppstart junk oproc sc1 = Some sc'" "t_out sc1 = t_out sc" "line sc1 = line sc" for sc1
    using tx_trace.run [OF that(1) assms(2) that(2)] pppstart_sent [OF that(2) assms(2)] assms(3,4) that(3,4) by (auto simp: sent_on_def)
  have same: "\<exists>qs. tx_trace junk sc0 (ps @ qs) sc'" if "tx_trace junk sc0 ps sc'" using that by (auto intro: exI [of _ "[]"])
  from assms(5) show ?thesis
  proof (cases rule: pppoutput_cases)
    case 1
    then show ?thesis using same assms(1) by simp
  next
    case 2
    then show ?thesis using same tx_trace.drop [OF assms(1)] by simp
  next
    case 3
    then show ?thesis using same tx_trace.drop_fast [OF assms(1)] by simp
  next
    case 4
    then show ?thesis using run [OF tx_trace.queue [OF assms(1)]] by (simp add: line_def)
  next
    case 5
    then show ?thesis using run [OF tx_trace.fast [OF assms(1)]] by (simp add: line_def)
  qed
qed

lemma pppstarts_trace:
  assumes "pppstarts junk oproc n sc = Some sc'" "device oproc" "tx_trace junk sc0 ps sc" "rb_inv (t_out sc)" "at_flag (line sc)"
  shows "\<exists>qs. tx_trace junk sc0 (ps @ qs) sc' \<and> queued sc = qs @ queued sc'"
  using assms(1,3-5)
proof (induction n arbitrary: sc ps)
  case (Suc n)
  then obtain sc1 where p: "pppstart junk oproc sc = Some sc1" "pppstarts junk oproc n sc1 = Some sc'" by (auto split: option.splits)
  from pppstart_sent [OF p(1) assms(2) Suc.prems(3,4)] obtain qs where q: "queued sc = qs @ queued sc1" "rb_inv (t_out sc1)" "at_flag (line sc1)"
    by (auto simp: sent_on_def)
  from Suc.IH [OF p(2) tx_trace.run [OF Suc.prems(2) assms(2) p(1) q(1)] q(2,3)] show ?case using q(1) by auto
qed (auto intro: exI [of _ "[]"])

text \<open>Two TCP packets of a connection, of which the second is compressed, and another packet.\<close>

definition test_ip :: "u8 list list" where
  "test_ip = [test_packet 1 5 0x18 0, test_packet 2 7 0x10 0, [1, 2, 3, 4, 5]]"

definition test_chains :: "mbufs list" where
  "test_chains = map (\<lambda>p. [IP_HEADER @ p]) test_ip"

lemma test_chains_ok: "list_all2 (ip_chain 7) test_ip test_chains"
  using test_packets_ok by (simp add: test_chains_def test_ip_def ip_chain_def test_packet_def)

lemma test_chains_sendable: "sendable (\<lambda>_. 0) (test_unit test_chains)"
proof -
  have "ppp_bodies (\<lambda>_. 0) 7 test_chains sl_compress_init \<noteq> None" by code_simp
  then show ?thesis by (simp add: sendable_def test_unit_line) (simp add: test_unit_def)
qed

text \<open>A unit just opened is in the state the theorem asks for.\<close>

lemma pppopen_ready:
  assumes "pppopen cr acflag (Some 2048 # as) sc = (None, ac, sc')" "\<not> t_ppp sc" "sc_m sc = []" "length (rb_buf (t_out sc)) = RBSZ" "t_wire sc = []"
  shows "fresh_line sc'" "sc_comp sc' = sl_compress_init" "rx_idle sc'" "rx_room sc'" "covers am (sc_rasyncmap sc')" "compatible flags (sc_flags sc')"
proof -
  have "sc' = sc\<lparr>sc_flags := 0, sc_escaped := False, sc_flush := False, sc_ilen := 0, sc_asyncmap := 0xffffffff, sc_rasyncmap := 0,
      sc_mru := PPP_MRU, sc_comp := sl_compress_init, sc_m := [2048], sc_ttyp := True, sc_outm := [], t_can := initrb (t_can sc), t_out := initrb (t_out sc), if_running := True\<rparr>"
    using assms(1-3) by (simp add: pppopen_def pppinit_def Let_def split: if_splits option.splits prod.splits)
  then show "fresh_line sc'" "sc_comp sc' = sl_compress_init" "rx_idle sc'" "rx_room sc'" "covers am (sc_rasyncmap sc')" "compatible flags (sc_flags sc')"
    using assms(4,5) RBSZ_pos by (simp_all add: fresh_line_def rx_idle_def rx_room_def covers_def compatible_def initrb_def rb_inv_def contents_def RB_LEN_def)
qed

text \<open>C2: PPP carries IP packets.  However packets are queued, dropped and sent, and however the
  device empties the ring, once the characters of the packets taken from the queues are on the line, the
  receiver has put exactly these packets, in this order, on the IP input queue.  This holds for every combination of
  field, protocol and header compression that the receiver does not refuse, when the sender escapes every character
  that the receiver ignores.  The receiver is idle as \<^verbatim>\<open>pppopen\<close> leaves it, with a cluster for each frame and room in the
  IP queue; the packets have at most 1500 bytes in one mbuf, and with header compression the TCP packets among them that
  are neither fragments nor shorter than 40 bytes have consistent headers (\<open>vj_packet\<close>: lengths, checksum, no reserved bits, an urgent
  pointer exactly with the urgent flag, at most 108 bytes of header).\<close>

theorem ppp_link_delivers:
  assumes "tx_trace junk tx0 ms tx" "fresh_line tx0" "sc_comp tx0 = sl_compress_init"
    and "list_all2 (ip_chain (sc_flags tx0)) ps ms"
    and "contents (t_out tx) = []" "sc_outm tx = []"
    and "rx_ready (sc_flags tx0) (sc_asyncmap tx0) rx" "sc_comp rx = sl_compress_init" "clusters al"
    and "length (ifq (ipintrq rx)) + length ps \<le> ifq_maxlen (ipintrq rx)"
  shows "\<exists>rx'. ppp_receive junk' al (t_wire tx) rx = Some rx' \<and> ifq (ipintrq rx') = ifq (ipintrq rx) @ ps"
proof -
  have "line tx = t_wire tx" using assms(5,6) by (simp add: line_def)
  with tx_trace_line [OF assms(1,2)] obtain bs where
    "at_flag (t_wire tx)" "wire_frames (t_wire tx) = map (stuffed (sc_asyncmap tx0) \<circ> with_fcs) bs"
    "ppp_bodies junk (sc_flags tx0) ms sl_compress_init = Some (bs, sc_comp tx)"
    using assms(3) by auto
  from receive_stream [OF this assms(4) _ assms(7,9,10)] in_step_init assms(8) show ?thesis by auto
qed

theorem ppp_link_delivers_witness:
  "\<exists>tx rx. tx_trace (\<lambda>_. 0) (test_unit test_chains) test_chains tx \<and>
     ppp_receive (\<lambda>_. 0) (True, [Some 2048], []) (t_wire tx) (test_unit []) = Some rx \<and> ifq (ipintrq rx) = test_ip"
proof -
  let ?tx = "test_unit test_chains" and ?rx = "test_unit []"
  from pppstarts_finish [OF test_device_drains test_chains_sendable] obtain n tx where
    n: "pppstarts (\<lambda>_. 0) (Some test_device) n ?tx = Some tx" "finished tx" by blast
  have "device (Some test_device)" using test_device_drains by (simp add: drains_def)
  from pppstarts_trace [OF n(1) this tx_trace.start] n(2) have tr: "tx_trace (\<lambda>_. 0) ?tx test_chains tx" by (simp add: test_unit_line finished_def)
  have unit: "sc_flags (test_unit ms) = 7" "sc_asyncmap (test_unit ms) = 0xffffffff" "sc_comp (test_unit ms) = sl_compress_init" for ms
    by (simp_all add: test_unit_def)
  have "fresh_line ?tx" by (simp add: fresh_line_def test_unit_line) (simp add: test_unit_def contents_def RB_LEN_def)
  moreover have "rx_ready 7 0xffffffff ?rx"
    by (simp add: rx_ready_def test_unit_def rx_idle_def rx_room_def covers_def compatible_def)
  moreover have "clusters (True, [Some 2048], [])" by (simp add: clusters_def)
  moreover have "length (ifq (ipintrq ?rx)) + length test_ip \<le> ifq_maxlen (ipintrq ?rx)" "ifq (ipintrq ?rx) = []" by (simp_all add: test_unit_def test_ip_def)
  ultimately show ?thesis
    using ppp_link_delivers [OF tr, of test_ip ?rx "(True, [Some 2048], [])" "\<lambda>_. 0"] n(2) test_chains_ok tr by (auto simp: unit finished_def)
qed

end
