(* ===== verification/Ppp_detect.thy ===== *)
theory Ppp_detect
  imports Ppp_link
begin

text \<open>
  What the PPP receiver does with frames damaged on the line, and two ways in which the code of
  \<^verbatim>\<open>src/sys/net/if_ppp.c\<close> loses good ones.
\<close>

section \<open>Errors the checksum finds\<close>

lemma fcs_bit_inj: "fcs_bit a = fcs_bit b \<longleftrightarrow> a = b"
proof
  assume *: "fcs_bit a = fcs_bit b"
  then have "fcs_bit (a XOR b) = 0" by (simp add: fcs_bit_xor)
  moreover have "x = 0" if x: "fcs_bit x = 0" for x
  proof (rule bit_word_eqI)
    fix n assume n: "n < LENGTH(16)"
    have b: "\<not> bit (fcs_bit x) k" for k using x by simp
    have "\<not> bit x 0" using b [of 15] by (auto simp: fcs_bit_def bit_simps dest: bit_imp_le_length split: if_splits)
    then show "bit x n = bit 0 n" using b [of "n - 1"] by (cases n) (auto simp: fcs_bit_def bit_simps)
  qed
  ultimately have "a XOR b = 0" by blast
  then have "bit (a XOR b) n = bit (0 :: u16) n" for n by simp
  then show "a = b" by (intro bit_word_eqI) (simp add: bit_xor_iff)
qed simp

lemma fcs_byte_inj: "fcs_byte a = fcs_byte b \<longleftrightarrow> a = b"
proof -
  have "(fcs_bit ^^ n) a = (fcs_bit ^^ n) b \<longleftrightarrow> a = b" for n by (induction n) (simp_all add: fcs_bit_inj)
  then show ?thesis by (simp add: fcs_byte_def)
qed

lemma xor_cancel_right: "(a :: 'a :: len word) XOR c = b XOR c \<longleftrightarrow> a = b"
  by (metis bit.xor_self xor.assoc xor.right_neutral)

lemma pppfcs_inj: "pppfcs f cs = pppfcs g cs \<longleftrightarrow> f = g"
  by (induction cs arbitrary: f g) (simp_all add: PPP_FCS_byte fcs_byte_inj xor_cancel_right)

lemma pppfcs_two_octets: "pppfcs f [c, d] = fcs_byte (fcs_byte (f XOR (ucast c XOR push_bit 8 (ucast d))))"
proof -
  have "(ucast d :: u16) = fcs_byte (push_bit 8 (ucast d))"
    unfolding fcs_byte_high by (rule bit_word_eqI) (auto simp: bit_simps dest: bit_imp_le_length)
  then have "fcs_byte (f XOR ucast c) XOR ucast d = fcs_byte (f XOR (ucast c XOR push_bit 8 (ucast d)))"
    unfolding fcs_byte_xor [of "f XOR ucast c" "push_bit 8 (ucast d)", unfolded xor.assoc] by simp
  then show ?thesis by (simp add: PPP_FCS_byte)
qed

lemma two_octets_inj:
  assumes "(ucast (c :: u8) :: u16) XOR push_bit 8 (ucast (d :: u8)) = ucast c' XOR push_bit 8 (ucast d')"
  shows "c = c' \<and> d = d'"
proof -
  have b: "bit (ucast c XOR push_bit 8 (ucast d) :: u16) n = bit (ucast c' XOR push_bit 8 (ucast d') :: u16) n" for n using assms by simp
  have "bit c n = bit c' n" if "n < 8" for n using b [of n] that by (simp add: bit_simps)
  moreover have "bit d n = bit d' n" if "n < 8" for n using b [of "n + 8"] that by (auto simp: bit_simps dest: bit_imp_le_length)
  ultimately show ?thesis by (auto intro!: bit_word_eqI)
qed

text \<open>Damage to two neighbouring octets changes the checksum.\<close>

lemma pppfcs_burst: "pppfcs f (a @ [c, d] @ z) = pppfcs f (a @ [c', d'] @ z) \<longleftrightarrow> c = c' \<and> d = d'"
proof -
  have "pppfcs g [c, d] = pppfcs g [c', d'] \<longleftrightarrow> c = c' \<and> d = d'" for g
    unfolding pppfcs_two_octets fcs_byte_inj xor.commute [of g] xor_cancel_right using two_octets_inj by blast
  then show ?thesis unfolding pppfcs_append pppfcs_inj by blast
qed

lemma with_fcs_good: "pppfcs PPP_INITFCS (with_fcs b) = PPP_GOODFCS"
  using good_fcs [of "pppfcs PPP_INITFCS b"] by (simp add: with_fcs_def)

section \<open>The receiver follows the checksum\<close>

definition rx_usable :: "ppp_softc \<Rightarrow> bool" where
  "rx_usable sc \<longleftrightarrow> (case sc_m sc of [] \<Rightarrow> False | k # _ \<Rightarrow> HDROFF + PPP_HEADER_LEN \<le> k) \<and> 0 \<le> sc_mru sc \<and> sc_mru sc \<le> 32000"

definition follows :: "u8 list \<Rightarrow> ppp_softc \<Rightarrow> bool" where
  "follows xs sc \<longleftrightarrow> \<not> sc_escaped sc \<and> (sc_flush sc \<or> (if xs = [] then sc_ilen sc = 0
     else 0 < sc_ilen sc \<and> sc_ilen sc \<le> sc_mru sc + 6 \<and> sc_fcs sc = pppfcs PPP_INITFCS xs))"

definition upper :: "ppp_softc \<Rightarrow> u8 list ifqueue \<times> u8 list ifqueue \<times> ringb \<times> nat list \<times> int \<times> u32" where
  "upper sc = (ipintrq sc, sc_inq sc, t_can sc, sc_m sc, sc_mru sc, sc_rasyncmap sc)"

lemma upper_usable: "upper sc' = upper sc \<Longrightarrow> rx_usable sc' = rx_usable sc \<and> sc_rasyncmap sc' = sc_rasyncmap sc"
  by (simp add: upper_def rx_usable_def)

lemma store_octet_follows:
  assumes "0 \<le> sc_ilen sc" "sc_ilen sc \<le> sc_mru sc + 6" "0 \<le> sc_mru sc" "sc_mru sc \<le> 32000" "\<not> sc_escaped sc" "sc_fcs sc = pppfcs PPP_INITFCS xs"
  shows "follows (xs @ [c]) (store_octet c sc) \<and> upper (store_octet c sc) = upper sc"
  using assms by (auto simp: store_octet_def ppp_flush_def follows_def upper_def Let_def s16_small)

lemma octet_follows:
  assumes "follows xs sc" "\<not> sc_flush sc" "rx_usable sc"
  shows "\<exists>sc'. octet c sc = Some sc' \<and> follows (xs @ [c]) sc' \<and> upper sc' = upper sc"
proof (cases "xs = []")
  case False
  then have "octet c sc = Some (store_octet c sc)" using assms(1,2) by (simp add: octet_def first_octet_def follows_def)
  then show ?thesis using store_octet_follows [of sc xs c] False assms by (simp add: follows_def rx_usable_def)
next
  case True
  let ?sc = "sc\<lparr>sc_in := [], sc_fcs := PPP_INITFCS\<rparr>" and ?sc2 = "sc\<lparr>sc_fcs := PPP_INITFCS, sc_in := [PPP_ALLSTATIONS, PPP_UI], sc_ilen := 2\<rparr>"
  have "sc_ilen sc = 0" "\<not> sc_escaped sc" "0 \<le> sc_mru sc" "sc_mru sc \<le> 32000" "sc_m sc \<noteq> []" "HDROFF + PPP_HEADER_LEN \<le> hd (sc_m sc)"
    using True assms by (auto simp: follows_def rx_usable_def split: list.splits)
  then have "octet c sc = Some (if c = PPP_ALLSTATIONS then store_octet c ?sc
      else if sc_flags sc AND SC_REJ_COMP_AC \<noteq> 0 then ppp_flush ?sc else store_octet c ?sc2)"
    by (simp add: octet_def first_octet_def)
  moreover have "follows ([] @ [c]) (store_octet c ?sc) \<and> upper (store_octet c ?sc) = upper ?sc"
    "follows ([] @ [c]) (store_octet c ?sc2) \<and> upper (store_octet c ?sc2) = upper ?sc2"
    by (rule store_octet_follows; use \<open>sc_ilen sc = 0\<close> \<open>\<not> sc_escaped sc\<close> \<open>0 \<le> sc_mru sc\<close> \<open>sc_mru sc \<le> 32000\<close> in simp)+
  moreover have "follows [c] (ppp_flush ?sc) \<and> upper (ppp_flush ?sc) = upper sc" using \<open>\<not> sc_escaped sc\<close> by (simp add: follows_def ppp_flush_def upper_def)
  ultimately show ?thesis using True by (auto simp: upper_def)
qed

lemma receive_flushed:
  assumes "sc_flush sc" "PPP_FLAG \<notin> set cs"
  shows "ppp_receive junk al cs sc = Some (sc\<lparr>if_ibytes := if_ibytes sc + of_nat (length cs)\<rparr>)"
  using assms by (induction cs arbitrary: sc) (simp_all add: pppinput_def Let_def add.commute add.left_commute)

lemma receive_follows:
  assumes "follows xs sc" "rx_usable sc" "covers am (sc_rasyncmap sc)"
  shows "\<exists>sc'. ppp_receive junk al (stuffed am ys) sc = Some sc' \<and> follows (xs @ ys) sc' \<and> upper sc' = upper sc"
  using assms
proof (induction ys arbitrary: xs sc)
  case (Cons y ys)
  let ?n = "sc\<lparr>if_ibytes := if_ibytes sc + of_nat (length (escaped am y))\<rparr>"
  obtain sc1 where 1: "ppp_receive junk al (escaped am y) sc = Some sc1" "follows (xs @ [y]) sc1" "upper sc1 = upper sc"
  proof (cases "sc_flush sc")
    case True
    then show ?thesis using that [OF receive_flushed [OF True escaped_no_flag]] Cons.prems(1) by (simp add: follows_def upper_def)
  next
    case False
    have "\<not> sc_escaped sc" using Cons.prems(1) by (simp add: follows_def)
    note r = receive_escaped [OF Cons.prems(3) False this]
    have "follows xs ?n" "\<not> sc_flush ?n" "rx_usable ?n" "upper ?n = upper sc" using Cons.prems False by (simp_all add: follows_def rx_usable_def upper_def)
    then show ?thesis using octet_follows [of xs ?n y] r that by auto
  qed
  then show ?case using Cons.IH [OF 1(2)] Cons.prems upper_usable [OF 1(3)] by (auto simp: ppp_receive_append)
qed (auto)

lemma frame_end_bad:
  assumes "sc_flush sc \<or> 0 < sc_ilen sc \<and> sc_fcs sc \<noteq> PPP_GOODFCS"
  shows "\<exists>sc'. frame_end junk al sc = Some sc' \<and> upper sc' = upper sc"
  using assms by (auto simp: frame_end_def Let_def sl_uncompress_tcp_def sl_uncompress_tcp_part_def bad_def upper_def)

text \<open>C12: the receiver drops a frame in which two neighbouring octets, wherever they are in the
  frame or its checksum, were changed: nothing reaches IP or the reader of the terminal.  The octets are those of the frame without
  its escapes; damage on the line that makes or removes a flag or an escape is not covered.\<close>

theorem damaged_frame_dropped:
  assumes "rx_idle rx" "rx_usable rx" "covers am (sc_rasyncmap rx)" "with_fcs b = a @ [c, d] @ z" "(c', d') \<noteq> (c, d)"
  shows "\<exists>rx'. ppp_receive junk al (stuffed am (a @ [c', d'] @ z) @ [PPP_FLAG]) rx = Some rx' \<and> ipintrq rx' = ipintrq rx \<and> sc_inq rx' = sc_inq rx"
proof -
  let ?x = "a @ [c', d'] @ z"
  have "follows [] rx" using assms(1) by (simp add: follows_def rx_idle_def)
  from receive_follows [OF this assms(2,3), of junk al ?x] obtain sc where
    sc: "ppp_receive junk al (stuffed am ?x) rx = Some sc" "follows ?x sc" "upper sc = upper rx" by auto
  have "pppfcs PPP_INITFCS ?x \<noteq> PPP_GOODFCS" using with_fcs_good [of b] pppfcs_burst [of "0xffff" a c d z c' d'] assms(4,5) by auto
  then have "sc_flush sc \<or> 0 < sc_ilen sc \<and> sc_fcs sc \<noteq> PPP_GOODFCS" using sc(2) by (auto simp: follows_def)
  with frame_end_bad [of "sc\<lparr>if_ibytes := if_ibytes sc + 1\<rparr>" junk al] obtain rx' where
    "frame_end junk al (sc\<lparr>if_ibytes := if_ibytes sc + 1\<rparr>) = Some rx'" "upper rx' = upper sc" by (auto simp: upper_def)
  then have "ppp_receive junk al (stuffed am ?x @ [PPP_FLAG]) rx = Some rx'" "ipintrq rx' = ipintrq rx \<and> sc_inq rx' = sc_inq rx"
    using sc(1,3) unfolding ppp_receive_append by (simp_all add: pppinput_def Let_def upper_def)
  then show ?thesis by blast
qed

lemma test_unit_ready: "rx_idle (test_unit ms)" "rx_usable (test_unit ms)" "sc_rasyncmap (test_unit ms) = 0" "ipintrq (test_unit ms) = \<lparr>ifq = [], ifq_maxlen = 50, ifq_drops = 0\<rparr>"
  "sc_inq (test_unit ms) = \<lparr>ifq = [], ifq_maxlen = 50, ifq_drops = 0\<rparr>" "sc_flush (test_unit ms) = False" "sc_m (test_unit ms) = [2048]"
  by (simp_all add: test_unit_def rx_idle_def rx_usable_def)

lemma covers_none: "covers am 0"
  by (simp add: covers_def)

theorem damaged_frame_dropped_witness:
  "\<exists>rx. ppp_receive (\<lambda>_. 0) (True, [Some 2048], []) (stuffed 0xffffffff ([] @ [0x20, 0x46] @ tl (tl (with_fcs [0x21, 0x45, 7, 8]))) @ [PPP_FLAG]) (test_unit []) = Some rx \<and>
     ifq (ipintrq rx) = [] \<and> ifq (sc_inq rx) = []"
proof -
  have w: "with_fcs [0x21, 0x45, 7, 8] = [] @ [0x21, 0x45] @ tl (tl (with_fcs [0x21, 0x45, 7, 8]))" by (simp add: with_fcs_def)
  have "(0x20 :: u8, 0x46 :: u8) \<noteq> (0x21, 0x45)" by simp
  from damaged_frame_dropped [OF test_unit_ready(1,2) _ w this, of "0xffffffff" "[]" "\<lambda>_. 0" "(True, [Some 2048], [])"] show ?thesis
    by (auto simp: test_unit_ready covers_none)
qed

section \<open>Good frames lost\<close>

text \<open>The end of a frame does not depend on the escape nor on the count of characters.\<close>

abbreviation touch :: "u32 \<Rightarrow> bool \<Rightarrow> ppp_softc \<Rightarrow> ppp_softc" where
  "touch x b sc \<equiv> sc\<lparr>if_ibytes := x, sc_escaped := b\<rparr>"

lemma pppinit_escaped: "pppinit as (sc\<lparr>if_ibytes := x, sc_escaped := b\<rparr>) = map_prod id (touch x b) (pppinit as sc)"
  by (simp add: pppinit_def Let_def split: option.split)

lemma pppinit_escaped_m: "pppinit as (sc\<lparr>if_ibytes := x, sc_escaped := b, sc_m := ms\<rparr>) = map_prod id (touch x b) (pppinit as (sc\<lparr>sc_m := ms\<rparr>))"
  by (simp add: pppinit_def Let_def split: option.split)

lemma ppp_btom_escaped: "ppp_btom al j len (sc\<lparr>if_ibytes := x, sc_escaped := b\<rparr>) = map_prod id (touch x b) (ppp_btom al j len sc)"
  by (cases al) (simp add: ppp_btom_def Let_def pppinit_escaped pppinit_escaped_m split_beta)

lemma pass_up_escaped: "pass_up proto m (sc\<lparr>if_ibytes := x, sc_escaped := b\<rparr>) = (pass_up proto m sc)\<lparr>if_ibytes := x, sc_escaped := b\<rparr>"
  by (simp add: pass_up_def Let_def)

lemma decompress_in_escaped: "decompress_in junk proto m ilen (sc\<lparr>if_ibytes := x, sc_escaped := b\<rparr>) =
    map_option (map_sum (touch x b) (map_prod id (map_prod id (map_prod id (touch x b))))) (decompress_in junk proto m ilen sc)"
  by (simp add: decompress_in_def Let_def in_sizes_def split: option.split prod.split)

lemmas escaped_commute = pppinit_escaped ppp_btom_escaped pass_up_escaped decompress_in_escaped

text \<open>A frame that is neither damaged nor too short.\<close>

definition frame_tail :: "alloc \<Rightarrow> nat \<times> nat \<Rightarrow> u16 \<times> u8 list \<times> nat \<times> ppp_softc \<Rightarrow> ppp_softc" where
  "frame_tail al jl y = (let (proto, m, first, sc) = y; r = ppp_btom al (fst jl) (if fst jl = 0 then first else snd jl) sc in
     if fst r then pass_up proto m (snd r) else (snd r)\<lparr>if_ierrors := if_ierrors (snd r) + 1\<rparr>)"

lemma frame_tail_escaped: "frame_tail al jl (p, m, f, touch x b sc) = touch x b (frame_tail al jl (p, m, f, sc))"
  by (simp add: frame_tail_def Let_def ppp_btom_escaped pass_up_escaped)

lemma frame_end_good:
  assumes "\<not> (sc_flush sc \<or> 0 < sc_ilen sc \<and> sc_fcs sc \<noteq> PPP_GOODFCS)" "\<not> sc_ilen sc < int (PPP_HEADER_LEN + PPP_FCS_LEN)"
  defines "m \<equiv> take (length (sc_in sc) - PPP_FCS_LEN) (sc_in sc)"
  shows "frame_end junk al sc = map_option (case_sum id (frame_tail al (mbuf_at (length (sc_in sc) - PPP_FCS_LEN) (in_sizes sc))))
    (decompress_in junk (get16 (rd junk m) 2) m (sc_ilen sc - int PPP_FCS_LEN) (sc\<lparr>sc_ilen := 0, if_ipackets := if_ipackets sc + 1\<rparr>))"
proof -
  have "in_sizes (sc\<lparr>sc_ilen := 0\<rparr>) = in_sizes sc" by (simp add: in_sizes_def)
  then show ?thesis using assms(1,2) by (auto simp: frame_end_def frame_tail_def Let_def m_def split_beta split: option.split sum.split)
qed

lemma frame_end_escaped:
  "frame_end junk al (touch x b sc) = map_option (touch x b) (frame_end junk al sc)"
proof (cases "(sc_flush sc \<or> 0 < sc_ilen sc \<and> sc_fcs sc \<noteq> PPP_GOODFCS) \<or> sc_ilen sc < int (PPP_HEADER_LEN + PPP_FCS_LEN)")
  case True
  then show ?thesis by (auto simp: frame_end_def Let_def split: option.split)
next
  case False
  let ?s = "sc\<lparr>sc_ilen := 0, if_ipackets := if_ipackets sc + 1\<rparr>" and ?t = "touch x b sc"
  have e: "?t\<lparr>sc_ilen := 0, if_ipackets := if_ipackets ?t + 1\<rparr> = touch x b ?s" "in_sizes ?t = in_sizes sc" by (simp_all add: in_sizes_def)
  have s: "sc_flush ?t = sc_flush sc" "sc_ilen ?t = sc_ilen sc" "sc_fcs ?t = sc_fcs sc" "sc_in ?t = sc_in sc" by simp_all
  have f: "case_sum id (frame_tail al jl) (map_sum (touch x b) (map_prod id (map_prod id (map_prod id (touch x b)))) y) = touch x b (case_sum id (frame_tail al jl) y)" for jl y
    by (auto simp: frame_tail_escaped split: sum.split)
  from False have g: "\<not> (sc_flush sc \<or> 0 < sc_ilen sc \<and> sc_fcs sc \<noteq> PPP_GOODFCS)" "\<not> sc_ilen sc < int (PPP_HEADER_LEN + PPP_FCS_LEN)" by blast+
  show ?thesis
    unfolding frame_end_good [OF g] frame_end_good [of ?t, unfolded s, OF g] e decompress_in_escaped option.map_comp comp_def f ..
qed

lemma frame_end_flush:
  assumes "frame_end junk al sc = Some sc'"
  shows "\<not> sc_flush sc'"
proof -
  have i: "sc_flush (snd (pppinit as s)) = sc_flush s" for as s by (simp add: pppinit_def Let_def split: option.split)
  have b: "ppp_btom al j len s = (ok, s') \<Longrightarrow> sc_flush s' = sc_flush s" for j len s ok s'
    using i by (cases al) (auto simp: ppp_btom_def Let_def split_beta split: if_splits)
  have p: "sc_flush (pass_up proto m s) = sc_flush s" for proto m s by (simp add: pass_up_def Let_def)
  have dl: "decompress_in junk proto m ilen s = Some (Inl s') \<Longrightarrow> sc_flush s' = sc_flush s" for proto m ilen s s'
    by (auto simp: decompress_in_def Let_def split: if_splits option.splits)
  have dr: "decompress_in junk proto m ilen s = Some (Inr (p, x, f, s')) \<Longrightarrow> sc_flush s' = sc_flush s" for proto m ilen s p x f s'
    by (auto simp: decompress_in_def Let_def split: if_splits option.splits)
  show ?thesis
  proof (cases "sc_flush sc \<or> 0 < sc_ilen sc \<and> sc_fcs sc \<noteq> PPP_GOODFCS \<or> sc_ilen sc < int (PPP_HEADER_LEN + PPP_FCS_LEN)")
    case True
    then show ?thesis using assms by (auto simp: frame_end_def Let_def split: if_splits option.splits)
  next
    case False
    then show ?thesis using assms by (auto simp: frame_end_def Let_def p dest!: dl dr b split: option.splits sum.splits prod.splits if_splits)
  qed
qed

text \<open>C38: a flag does not end an escape.  The sequence of an escape and a flag, with which a
  frame is abandoned, leaves the receiver as a flag and an escape would: the first octet of the next frame is read as
  if it had been escaped.\<close>

theorem escape_survives_flag:
  assumes "\<not> sc_flush sc"
  shows "ppp_receive junk al [PPP_ESCAPE, PPP_FLAG] sc = ppp_receive junk al [PPP_FLAG, PPP_ESCAPE] sc"
proof -
  let ?n = "if_ibytes sc + 1"
  have flag: "pppinput junk al (False, PPP_FLAG) s = frame_end junk al (s\<lparr>if_ibytes := if_ibytes s + 1\<rparr>)" for s by (simp add: pppinput_def)
  have esc: "pppinput junk al (False, PPP_ESCAPE) sc = Some (touch ?n True sc)" using assms by (simp add: pppinput_def)
  have two: "(touch ?n True sc)\<lparr>if_ibytes := if_ibytes (touch ?n True sc) + 1\<rparr> = touch (?n + 1) True sc" by simp
  have l: "ppp_receive junk al [PPP_ESCAPE, PPP_FLAG] sc = frame_end junk al (touch (?n + 1) True sc)"
    by (simp only: ppp_receive.simps esc flag two option.case) (simp split: option.split)
  have "sc\<lparr>if_ibytes := ?n\<rparr> = touch ?n (sc_escaped sc) sc" by simp
  then have r: "pppinput junk al (False, PPP_FLAG) sc = map_option (touch ?n (sc_escaped sc)) (frame_end junk al sc)"
    using frame_end_escaped [of junk al "sc_escaped sc" ?n sc] by (simp add: pppinput_def)
  show ?thesis
  proof (cases "frame_end junk al sc")
    case None
    then show ?thesis unfolding l frame_end_escaped by (simp add: r)
  next
    case (Some sc')
    then have "pppinput junk al (False, PPP_ESCAPE) (touch ?n (sc_escaped sc) sc') = Some (touch (?n + 1) True sc')"
      using frame_end_flush [OF Some] by (simp add: pppinput_def Let_def)
    then show ?thesis unfolding l frame_end_escaped by (simp add: r Some)
  qed
qed

theorem escape_survives_flag_witness:
  "ppp_receive (\<lambda>_. 0) (True, [Some 2048], []) [PPP_ESCAPE, PPP_FLAG] (test_unit []) = ppp_receive (\<lambda>_. 0) (True, [Some 2048], []) [PPP_FLAG, PPP_ESCAPE] (test_unit [])"
  by (rule escape_survives_flag) (simp add: test_unit_def)

text \<open>A receive unit that does not fit in a \<^verbatim>\<open>short\<close>.\<close>

definition mru_wrapped :: "ppp_softc \<Rightarrow> bool" where
  "mru_wrapped sc \<longleftrightarrow> sc_mru sc < - 6 \<and> sc_m sc \<noteq> [] \<and> HDROFF + PPP_HEADER_LEN \<le> hd (sc_m sc) \<and> (sc_flush sc \<or> sc_ilen sc = 0)"

lemma store_octet_wrapped:
  assumes "sc_mru sc < - 6" "0 \<le> sc_ilen sc" "sc_ilen sc \<le> 2"
  shows "sc_flush (store_octet c sc) \<and> upper (store_octet c sc) = upper sc"
  using assms by (auto simp: store_octet_def ppp_flush_def upper_def Let_def s16_small)

lemma octet_wrapped:
  assumes "mru_wrapped sc" "\<not> sc_flush sc"
  shows "\<exists>sc'. octet c sc = Some sc' \<and> sc_flush sc' \<and> upper sc' = upper sc"
proof -
  let ?sc = "sc\<lparr>sc_in := [], sc_fcs := PPP_INITFCS\<rparr>" and ?sc2 = "sc\<lparr>sc_fcs := PPP_INITFCS, sc_in := [PPP_ALLSTATIONS, PPP_UI], sc_ilen := 2\<rparr>"
  have z: "sc_ilen sc = 0" "sc_mru sc < - 6" using assms by (simp_all add: mru_wrapped_def)
  then have "octet c sc = Some (if c = PPP_ALLSTATIONS then store_octet c ?sc
      else if sc_flags sc AND SC_REJ_COMP_AC \<noteq> 0 then ppp_flush ?sc else store_octet c ?sc2)"
    using assms by (simp add: octet_def first_octet_def mru_wrapped_def)
  moreover have "sc_flush (store_octet c ?sc) \<and> upper (store_octet c ?sc) = upper ?sc" "sc_flush (store_octet c ?sc2) \<and> upper (store_octet c ?sc2) = upper ?sc2"
    by (rule store_octet_wrapped; use z in simp)+
  ultimately show ?thesis by (auto simp: upper_def ppp_flush_def)
qed

lemma pppinput_wrapped:
  assumes "mru_wrapped sc"
  shows "\<exists>sc'. pppinput junk al (False, c) sc = Some sc' \<and> mru_wrapped sc' \<and> upper sc' = upper sc"
proof -
  let ?n = "sc\<lparr>if_ibytes := if_ibytes sc + 1\<rparr>"
  have w: "upper sc' = upper sc \<Longrightarrow> sc_flush sc' \<or> sc_ilen sc' = 0 \<Longrightarrow> mru_wrapped sc'" for sc'
    using assms by (simp add: mru_wrapped_def upper_def)
  consider "c = PPP_FLAG" "sc_flush sc" | "c = PPP_FLAG" "sc_ilen sc = 0" "\<not> sc_flush sc" | "c \<noteq> PPP_FLAG" "sc_flush sc"
    | "c = PPP_ESCAPE" "\<not> sc_flush sc" | "c < 0x20 \<and> sc_rasyncmap sc AND push_bit (unat c) 1 \<noteq> 0" "\<not> sc_flush sc"
    | "c \<noteq> PPP_FLAG" "c \<noteq> PPP_ESCAPE" "\<not> (c < 0x20 \<and> sc_rasyncmap sc AND push_bit (unat c) 1 \<noteq> 0)" "\<not> sc_flush sc"
    using assms by (auto simp: mru_wrapped_def)
  then show ?thesis
  proof cases
    case 1
    then have "\<exists>vj. pppinput junk al (False, c) sc = Some (?n\<lparr>sc_ilen := 0, sc_comp := vj, sc_flush := False\<rparr>)"
      by (simp add: pppinput_def frame_end_def Let_def sl_uncompress_tcp_def sl_uncompress_tcp_part_def bad_def) blast
    then show ?thesis using w by (auto simp: upper_def)
  next
    case 2
    then have "pppinput junk al (False, c) sc = Some (?n\<lparr>sc_ilen := 0\<rparr>)" by (simp add: pppinput_def frame_end_def Let_def)
    then show ?thesis using w by (simp add: upper_def)
  next
    case 3
    then show ?thesis using w by (simp add: pppinput_def Let_def upper_def)
  next
    case 4
    then show ?thesis using w assms by (simp add: pppinput_def Let_def upper_def mru_wrapped_def)
  next
    case 5
    then have "c \<noteq> PPP_FLAG" "c \<noteq> PPP_ESCAPE" by auto
    then show ?thesis using 5 w assms by (simp add: pppinput_def Let_def upper_def mru_wrapped_def)
  next
    case 6
    have "mru_wrapped (?n\<lparr>sc_escaped := False\<rparr>)" "\<not> sc_flush (?n\<lparr>sc_escaped := False\<rparr>)" "upper (?n\<lparr>sc_escaped := False\<rparr>) = upper sc"
      using assms 6 by (simp_all add: mru_wrapped_def upper_def)
    then show ?thesis using pppinput_char [OF 6] octet_wrapped w by metis
  qed
qed

lemma receive_wrapped: "mru_wrapped sc \<Longrightarrow> \<exists>sc'. ppp_receive junk al cs sc = Some sc' \<and> upper sc' = upper sc"
proof (induction cs arbitrary: sc)
  case (Cons c cs)
  from pppinput_wrapped [OF Cons.prems] obtain sc1 where "pppinput junk al (False, c) sc = Some sc1" "mru_wrapped sc1" "upper sc1 = upper sc" by blast
  with Cons.IH show ?case by fastforce
qed simp

text \<open>C37: \<^verbatim>\<open>PPPIOCSMRU\<close> accepts receive units up to 65000, but the field of the unit is a
  \<^verbatim>\<open>short\<close>: after a request above 32767 it is negative, and no frame at all is received any more.\<close>

theorem large_mru_stops_input:
  assumes "cr_uid cr = 0" "32768 \<le> d" "d \<le> 65000" "rx_idle sc" "sc_m sc = [2048]"
  shows "\<exists>ac sc1. ppptioctl cr acflag as1 as2 (PPPIOCSMRU d) sc = (Ioctl_ok, ac, sc1) \<and>
    (\<forall>cs. \<exists>sc2. ppp_receive junk al cs sc1 = Some sc2 \<and> ipintrq sc2 = ipintrq sc \<and> sc_inq sc2 = sc_inq sc)"
proof -
  let ?sc = "sc\<lparr>sc_mru := d - 65536\<rparr>"
  have "s16 d = d - 65536"
  proof -
    have "(d + 32768) mod 65536 = (d - 32768) mod 65536" using mod_add_self2 [of "d - 32768" "65536"] by (simp add: add.commute)
    also have "\<dots> = d - 32768" using assms(2,3) by (intro mod_pos_pos_trivial) simp_all
    finally show ?thesis by (simp add: s16_def)
  qed
  then have i: "ppptioctl cr acflag as1 as2 (PPPIOCSMRU d) sc = (Ioctl_ok, acflag OR ASU, ?sc)"
    using assms by (simp add: ppptioctl_def suser_def set_mru_def pppinit_def Let_def)
  have "mru_wrapped ?sc" using assms by (simp add: mru_wrapped_def rx_idle_def)
  note r = receive_wrapped [OF this]
  have "\<exists>sc2. ppp_receive junk al cs ?sc = Some sc2 \<and> ipintrq sc2 = ipintrq sc \<and> sc_inq sc2 = sc_inq sc" for cs
    using r [of junk al cs] by (auto simp: upper_def)
  then show ?thesis using i by blast
qed

theorem large_mru_stops_input_witness:
  "\<exists>ac sc1. ppptioctl \<lparr>cr_ref = 1, cr_uid = 0, cr_ngroups = 1, cr_groups = [0]\<rparr> 0 [] [] (PPPIOCSMRU 40000) (test_unit []) = (Ioctl_ok, ac, sc1) \<and>
    (\<forall>cs. \<exists>sc2. ppp_receive (\<lambda>_. 0) (True, [Some 2048], []) cs sc1 = Some sc2 \<and> ipintrq sc2 = ipintrq (test_unit []) \<and> sc_inq sc2 = sc_inq (test_unit []))"
  by (rule large_mru_stops_input) (simp_all add: test_unit_ready)

section \<open>The priority queue\<close>

lemma INTERACTIVE_iff: "INTERACTIVE p \<longleftrightarrow> p \<in> {0, 513, 21, 23}"
proof
  assume "INTERACTIVE p"
  moreover have "unat (p AND 7) < length interactive_ports"
    using word_and_le1 [of p 7] by (simp add: interactive_ports_def word_le_nat_alt)
  ultimately have "p \<in> set interactive_ports" unfolding INTERACTIVE_def by (metis nth_mem)
  then show "p \<in> {0, 513, 21, 23}" by (auto simp: interactive_ports_def)
next
  assume "p \<in> {0, 513, 21, 23}"
  then show "INTERACTIVE p" by (auto simp: INTERACTIVE_def interactive_ports_def)
qed

lemma INTERACTIVE_swapped: "INTERACTIVE (short_of b a) \<longleftrightarrow> short_of a b \<in> {0, 0x0102, 0x1500, 0x1700}"
proof -
  have "0 = short_of 0 0" "513 = short_of 2 1" "21 = short_of 0 21" "23 = short_of 0 23"
    "0x0102 = short_of 1 2" "0x1500 = short_of 21 0" "0x1700 = short_of 23 0" by code_simp+
  then have "short_of b a = 0 \<longleftrightarrow> short_of a b = 0" "short_of b a = 513 \<longleftrightarrow> short_of a b = 0x0102"
    "short_of b a = 21 \<longleftrightarrow> short_of a b = 0x1500" "short_of b a = 23 \<longleftrightarrow> short_of a b = 0x1700"
    using short_inj [of b a] short_inj [of a b] by (simp_all only:) auto
  then show ?thesis unfolding INTERACTIVE_iff by simp
qed

lemma ppp_fast_swapped:
  "ppp_fast r DST_INET \<longleftrightarrow> ip_p r = IPPROTO_TCP \<and>
     (get16 r (4 * ip_hl r) \<in> {0, 258, 5376, 5888} \<or> get16 r (4 * ip_hl r + 2) \<in> {0, 258, 5376, 5888})"
  unfolding ppp_fast_def Let_def INTERACTIVE_swapped by (simp add: get16_def numeral_3_eq_3)

text \<open>C39: on a working interface \<^verbatim>\<open>pppoutput\<close> puts an IP packet on the priority queue exactly when it is a TCP
  packet with port 0, 258, 5376 or 5888, and on the ordinary queue otherwise; a packet for a full queue is dropped there.
  The comments of the code want telnet (23), rlogin (513) and ftp control (21) on the priority queue: the ports are
  compared with their bytes swapped, on the i386, and these three never get there unless the other
  port is one of the four.\<close>

theorem priority_by_swapped_ports:
  assumes "sc_ttyp sc" "if_running sc" "if_up sc" "t_carr_on sc" "room \<noteq> No_mbuf"
  shows "let r = rd junk (hd m0); m = (if room = New_mbuf then ppp_header DST_INET # m0 else (ppp_header DST_INET @ hd m0) # tl m0);
      prio = (ip_p r = IPPROTO_TCP \<and>
        (get16 r (4 * ip_hl r) \<in> {0, 258, 5376, 5888} \<or> get16 r (4 * ip_hl r + 2) \<in> {0, 258, 5376, 5888})) in
    pppoutput junk oproc room m0 DST_INET sc =
      (if prio then
         if IF_QFULL (sc_fastq sc) then Some (Some ENOBUFS, sc\<lparr>sc_fastq := IF_DROP (sc_fastq sc), if_oerrors := if_oerrors sc + 1\<rparr>)
         else map_option (Pair None) (pppstart junk oproc (sc\<lparr>sc_fastq := IF_ENQUEUE m (sc_fastq sc)\<rparr>))
       else
         if IF_QFULL (if_snd sc) then Some (Some ENOBUFS, sc\<lparr>if_snd := IF_DROP (if_snd sc), if_oerrors := if_oerrors sc + 1\<rparr>)
         else map_option (Pair None) (pppstart junk oproc (sc\<lparr>if_snd := IF_ENQUEUE m (if_snd sc)\<rparr>)))"
  using assms by (simp add: pppoutput_def ppp_fast_swapped is_unspec_def Let_def)

text \<open>A telnet packet, from port 1029 to port 23.\<close>

definition telnet_packet :: "u8 list" where
  "telnet_packet = [0x45, 0, 0, 40, 0, 1, 0, 0, 64, 6, 0, 0, 10, 0, 0, 1, 10, 0, 0, 2, 4, 5, 0, 23, 0, 0, 0, 1, 0, 0, 0, 1, 0x50, 0x10, 16, 0, 0, 0, 0, 0]"

theorem priority_by_swapped_ports_witness:
  "let sc = (test_unit [])\<lparr>if_running := True, if_up := True, t_carr_on := True, sc_ttyp := True\<rparr> in
   \<not> IF_QFULL (if_snd sc) \<and> pppoutput (\<lambda>_. 0) None In_place [telnet_packet] DST_INET sc =
     map_option (Pair None) (pppstart (\<lambda>_. 0) None (sc\<lparr>if_snd := IF_ENQUEUE [ppp_header DST_INET @ telnet_packet] (if_snd sc)\<rparr>))"
proof -
  let ?sc = "(test_unit [])\<lparr>if_running := True, if_up := True, t_carr_on := True, sc_ttyp := True\<rparr>"
  let ?r = "rd (\<lambda>_. 0) telnet_packet"
  have "ip_hl ?r = 5" "get16 ?r 20 = 1029" "get16 ?r 22 = 23" by code_simp+
  moreover have "\<not> IF_QFULL (if_snd ?sc)" by (simp add: test_unit_def IF_QFULL_def)
  ultimately show ?thesis using priority_by_swapped_ports [of ?sc In_place "\<lambda>_. 0" "[telnet_packet]" None] by simp
qed

end
