(* ===== verification/Fsm.thy ===== *)
theory Fsm
  imports Prelude
begin

text \<open>
  The option negotiation automaton of the PPP daemon
  (\<^verbatim>\<open>src/libexec/pppd/fsm.c\<close>).  The protocol that uses it (LCP, IPCP) supplies the
  functions of \<^verbatim>\<open>fsm_callbacks\<close>, any of which may be absent; they are an argument of
  the operations and act on a negotiation state of type \<open>'c\<close> carried in the
  automaton.  Packets sent, calls to the upper layers and the number of pending
  timeouts are recorded in the state.
\<close>

section \<open>Data\<close>

abbreviation (input) CONFREQ :: u8 where "CONFREQ \<equiv> 1"
abbreviation (input) CONFACK :: u8 where "CONFACK \<equiv> 2"
abbreviation (input) CONFNAK :: u8 where "CONFNAK \<equiv> 3"
abbreviation (input) CONFREJ :: u8 where "CONFREJ \<equiv> 4"
abbreviation (input) TERMREQ :: u8 where "TERMREQ \<equiv> 5"
abbreviation (input) TERMACK :: u8 where "TERMACK \<equiv> 6"
abbreviation (input) CODEREJ :: u8 where "CODEREJ \<equiv> 7"
abbreviation (input) PROTREJ :: u8 where "PROTREJ \<equiv> 8"
abbreviation (input) ECHOREQ :: u8 where "ECHOREQ \<equiv> 9"
abbreviation (input) ECHOREP :: u8 where "ECHOREP \<equiv> 10"
abbreviation (input) DISCREQ :: u8 where "DISCREQ \<equiv> 11"
abbreviation (input) LCP :: u16 where "LCP \<equiv> 0xc021"
abbreviation (input) HEADERLEN :: nat where "HEADERLEN \<equiv> 4"
abbreviation (input) MTU :: nat where "MTU \<equiv> 1500"

datatype fstate = CLOSED | LISTEN | REQSENT | ACKSENT | ACKRCVD | OPEN | TERMSENT

datatype upcall = Up | Down | Closed | ProtRejected u16

text \<open>A packet sent: code, id, the length field and the bytes after the header.\<close>

type_synonym outpkt = "u8 \<times> u8 \<times> nat \<times> u8 list"

record 'c fsm =
  protocol :: u16
  state :: fstate
  lowerup :: bool
  aopending :: bool
  popending :: bool
  fid :: u8
  reqid :: u8
  maxconfreqtransmits :: int
  retransmits :: int
  maxtermtransmits :: int
  nakloops :: int
  maxnakloops :: int
  ci :: 'c
  sent :: "outpkt list"
  calls :: "upcall list"
  timers :: nat

text \<open>\<^verbatim>\<open>addci\<close> gives the bytes it writes, \<^verbatim>\<open>reqci\<close> the reply code, the bytes it
  leaves in the packet and the new state.  \<^verbatim>\<open>closed\<close> may open the connection again and
  so acts on the automaton; nothing calls \<^verbatim>\<open>protreject\<close>.\<close>

record 'c fsm_callbacks =
  resetci :: "('c \<Rightarrow> 'c) option"
  cilen :: "('c \<Rightarrow> nat) option"
  addci :: "('c \<Rightarrow> u8 list) option"
  ackci :: "('c \<Rightarrow> u8 list \<Rightarrow> bool \<times> 'c) option"
  nakci :: "('c \<Rightarrow> u8 list \<Rightarrow> 'c) option"
  rejci :: "('c \<Rightarrow> u8 list \<Rightarrow> 'c) option"
  reqci :: "('c \<Rightarrow> u8 list \<Rightarrow> u8 \<times> u8 list \<times> 'c) option"
  up :: "('c \<Rightarrow> 'c) option"
  down :: "('c \<Rightarrow> 'c) option"
  closed :: "('c fsm \<Rightarrow> 'c fsm) option"
  retransmit :: "('c \<Rightarrow> 'c) option"

section \<open>Sending, timing, calling\<close>

definition send_out :: "outpkt \<Rightarrow> 'c fsm \<Rightarrow> 'c fsm" where
  "send_out p f = f\<lparr>sent := sent f @ [p]\<rparr>"

definition TIMEOUT :: "'c fsm \<Rightarrow> 'c fsm" where
  "TIMEOUT f = f\<lparr>timers := timers f + 1\<rparr>"

definition UNTIMEOUT :: "'c fsm \<Rightarrow> 'c fsm" where
  "UNTIMEOUT f = f\<lparr>timers := timers f - 1\<rparr>"

definition with_ci :: "('c \<Rightarrow> 'c) option \<Rightarrow> 'c fsm \<Rightarrow> 'c fsm" where
  "with_ci g f = (case g of None \<Rightarrow> f | Some h \<Rightarrow> f\<lparr>ci := h (ci f)\<rparr>)"

definition record_call :: "'a option \<Rightarrow> upcall \<Rightarrow> 'c fsm \<Rightarrow> 'c fsm" where
  "record_call g u f = (if g = None then f else f\<lparr>calls := calls f @ [u]\<rparr>)"

definition call :: "('c \<Rightarrow> 'c) option \<Rightarrow> upcall \<Rightarrow> 'c fsm \<Rightarrow> 'c fsm" where
  "call g u f = with_ci g (record_call g u f)"

definition call_closed :: "'c fsm_callbacks \<Rightarrow> 'c fsm \<Rightarrow> 'c fsm" where
  "call_closed cb f = (case closed cb of None \<Rightarrow> f | Some g \<Rightarrow> g (record_call (closed cb) Closed f))"

definition fsm_sdata :: "u8 \<Rightarrow> u8 \<Rightarrow> u8 list \<Rightarrow> 'c fsm \<Rightarrow> 'c fsm" where
  "fsm_sdata code i dat f =
     (let dat = take (MTU - HEADERLEN) dat in send_out (code, i, length dat + HEADERLEN, dat) f)"

definition fsm_sconfreq :: "'c fsm_callbacks \<Rightarrow> 'c fsm \<Rightarrow> 'c fsm" where
  "fsm_sconfreq cb f =
     (let outlen = HEADERLEN + (case cilen cb of None \<Rightarrow> 0 | Some g \<Rightarrow> g (ci f));
          i = fid f + 1;
          dat = (case (cilen cb, addci cb) of (Some _, Some g) \<Rightarrow> g (ci f) | _ \<Rightarrow> []) in
      send_out (CONFREQ, i, outlen, dat) (f\<lparr>fid := i, reqid := i\<rparr>))"

section \<open>Opening, closing, timing out\<close>

definition fsm_init :: "'c fsm \<Rightarrow> 'c fsm" where
  "fsm_init f = f\<lparr>state := CLOSED, lowerup := False, aopending := False, popending := False, fid := 0\<rparr>"

definition clear_pending :: "'c fsm \<Rightarrow> 'c fsm" where
  "clear_pending f = f\<lparr>aopending := False, popending := False\<rparr>"

definition fsm_activeopen :: "'c fsm_callbacks \<Rightarrow> 'c fsm \<Rightarrow> 'c fsm" where
  "fsm_activeopen cb f0 =
     (let f = clear_pending f0 in
      if state f \<in> {REQSENT, ACKRCVD, ACKSENT, OPEN} then f
      else if state f = TERMSENT \<or> \<not> lowerup f then f\<lparr>aopending := True\<rparr>
      else
        let f1 = TIMEOUT (fsm_sconfreq cb (with_ci (resetci cb) f)) in
        f1\<lparr>state := REQSENT, retransmits := 0, nakloops := 0\<rparr>)"

definition fsm_passiveopen :: "'c fsm_callbacks \<Rightarrow> 'c fsm \<Rightarrow> 'c fsm" where
  "fsm_passiveopen cb f0 =
     (let f = clear_pending f0 in
      if state f \<in> {LISTEN, OPEN} then f
      else if state f \<in> {REQSENT, ACKRCVD, ACKSENT, TERMSENT} \<or> \<not> lowerup f then f\<lparr>popending := True\<rparr>
      else (with_ci (resetci cb) f)\<lparr>state := LISTEN, retransmits := 0, nakloops := 0\<rparr>)"

text \<open>\<^verbatim>\<open>fsm_sdata(f, TERMREQ, f->reqid = ++f->id, NULL, 0)\<close>\<close>

definition send_termreq :: "'c fsm \<Rightarrow> 'c fsm" where
  "send_termreq f = (let i = fid f + 1 in fsm_sdata TERMREQ i [] (f\<lparr>fid := i, reqid := i\<rparr>))"

definition fsm_close :: "'c fsm_callbacks \<Rightarrow> 'c fsm \<Rightarrow> 'c fsm" where
  "fsm_close cb f0 =
     (let f = clear_pending f0 in
      if state f \<in> {CLOSED, TERMSENT} then f
      else
        let f1 = (if state f \<in> {REQSENT, ACKRCVD, ACKSENT} then UNTIMEOUT f else f);
            f2 = (if state f1 = OPEN then call (down cb) Down f1 else f1) in
        if state f2 \<in> {ACKSENT, OPEN}
        then (TIMEOUT (send_termreq f2))\<lparr>state := TERMSENT, retransmits := 0\<rparr>
        else call_closed cb (f2\<lparr>state := CLOSED\<rparr>))"

text \<open>The timeout that fires is no longer pending when \<^verbatim>\<open>fsm_timeout\<close> runs.\<close>

definition fsm_timeout :: "'c fsm_callbacks \<Rightarrow> 'c fsm \<Rightarrow> 'c fsm" where
  "fsm_timeout cb f =
     (if state f \<in> {REQSENT, ACKRCVD, ACKSENT} then
        if popending f then fsm_passiveopen cb (f\<lparr>state := CLOSED\<rparr>)
        else if retransmits f > maxconfreqtransmits f then fsm_close cb f
        else
          let f1 = TIMEOUT (fsm_sconfreq cb (with_ci (retransmit cb) f)) in
          f1\<lparr>state := REQSENT, retransmits := retransmits f1 + 1, nakloops := 0\<rparr>
      else if state f = TERMSENT then
        if popending f then fsm_passiveopen cb (f\<lparr>state := CLOSED\<rparr>)
        else
          let f1 = f\<lparr>retransmits := retransmits f + 1\<rparr> in
          if retransmits f1 > maxtermtransmits f1 then call_closed cb (f1\<lparr>state := CLOSED\<rparr>)
          else
            let f2 = TIMEOUT (send_termreq (with_ci (retransmit cb) f1)) in
            f2\<lparr>retransmits := retransmits f2 + 1\<rparr>
      else f)"

definition fsm_lowerup :: "'c fsm_callbacks \<Rightarrow> 'c fsm \<Rightarrow> 'c fsm" where
  "fsm_lowerup cb f0 =
     (let f = f0\<lparr>lowerup := True\<rparr> in
      if aopending f then fsm_activeopen cb f
      else if popending f then fsm_passiveopen cb f
      else f)"

definition fsm_lowerdown :: "'c fsm_callbacks \<Rightarrow> 'c fsm \<Rightarrow> 'c fsm" where
  "fsm_lowerdown cb f0 =
     (let f = f0\<lparr>lowerup := False\<rparr>;
          f1 = (if state f \<in> {REQSENT, ACKRCVD, ACKSENT, TERMSENT} then UNTIMEOUT f else f);
          f2 = (if state f1 = OPEN then call (down cb) Down f1 else f1) in
      call_closed cb (f2\<lparr>state := CLOSED\<rparr>))"

definition fsm_protreject :: "'c fsm_callbacks \<Rightarrow> 'c fsm \<Rightarrow> 'c fsm" where
  "fsm_protreject cb f = fsm_lowerdown cb f"

section \<open>Receiving\<close>

text \<open>\<^verbatim>\<open>f->state = CLOSED; fsm_activeopen(f);\<close>\<close>

definition reopen :: "'c fsm_callbacks \<Rightarrow> 'c fsm \<Rightarrow> 'c fsm" where
  "reopen cb f = fsm_activeopen cb (f\<lparr>state := CLOSED\<rparr>)"

text \<open>The condition \<^verbatim>\<open>callbacks->ackci && (*callbacks->ackci)(f, inp, len)\<close>.\<close>

definition check_ack :: "'c fsm_callbacks \<Rightarrow> u8 list \<Rightarrow> 'c fsm \<Rightarrow> bool \<times> 'c fsm" where
  "check_ack cb dat f =
     (case ackci cb of None \<Rightarrow> (False, f) | Some g \<Rightarrow> (let (ok, c) = g (ci f) dat in (ok, f\<lparr>ci := c\<rparr>)))"

definition fsm_rconfack :: "'c fsm_callbacks \<Rightarrow> u8 list \<Rightarrow> u8 \<Rightarrow> 'c fsm \<Rightarrow> 'c fsm" where
  "fsm_rconfack cb dat i f =
     (if state f \<in> {LISTEN, CLOSED} then fsm_sdata TERMACK i [] f
      else if state f \<in> {ACKRCVD, REQSENT} then
        if i \<noteq> reqid f then f
        else (case check_ack cb dat f of
                (True, f1) \<Rightarrow> f1\<lparr>state := ACKRCVD\<rparr>
              | (False, f1) \<Rightarrow> f1\<lparr>state := REQSENT\<rparr>)
      else if state f = ACKSENT then
        if i \<noteq> reqid f then f
        else (case check_ack cb dat f of
                (True, f1) \<Rightarrow> (call (up cb) Up (UNTIMEOUT f1))\<lparr>state := OPEN\<rparr>
              | (False, f1) \<Rightarrow> f1\<lparr>state := REQSENT\<rparr>)
      else if state f = OPEN then reopen cb (call (down cb) Down f)
      else f)"

text \<open>The common part of a negative reply to our request: take it in, ask again.\<close>

definition renegotiate :: "'c fsm_callbacks \<Rightarrow> ('c \<Rightarrow> u8 list \<Rightarrow> 'c) option \<Rightarrow> u8 list \<Rightarrow> u8 \<Rightarrow> 'c fsm \<Rightarrow> 'c fsm" where
  "renegotiate cb g dat i f =
     (if i \<noteq> reqid f then f
      else
        let f1 = f\<lparr>nakloops := nakloops f + 1\<rparr> in
        if nakloops f1 > maxnakloops f1 then f1
        else
          let f2 = with_ci (map_option (\<lambda>h c. h c dat) g) (UNTIMEOUT f1);
              f3 = TIMEOUT (fsm_sconfreq cb f2) in
          f3\<lparr>retransmits := retransmits f3 + 1\<rparr>)"

definition fsm_rconfnak :: "'c fsm_callbacks \<Rightarrow> u8 list \<Rightarrow> u8 \<Rightarrow> 'c fsm \<Rightarrow> 'c fsm" where
  "fsm_rconfnak cb dat i f =
     (if state f \<in> {LISTEN, CLOSED} then fsm_sdata TERMACK i [] f
      else if state f \<in> {REQSENT, ACKSENT} then renegotiate cb (nakci cb) dat i f
      else if state f = ACKRCVD then f\<lparr>state := REQSENT\<rparr>
      else if state f = OPEN then reopen cb (call (down cb) Down f)
      else f)"

definition fsm_rconfrej :: "'c fsm_callbacks \<Rightarrow> u8 list \<Rightarrow> u8 \<Rightarrow> 'c fsm \<Rightarrow> 'c fsm" where
  "fsm_rconfrej cb dat i f =
     (if state f \<in> {LISTEN, CLOSED} then fsm_sdata TERMACK i [] f
      else if state f \<in> {REQSENT, ACKSENT} then renegotiate cb (rejci cb) dat i f
      else if state f = ACKRCVD then f\<lparr>state := REQSENT\<rparr>
      else if state f = OPEN then reopen cb f
      else f)"

definition fsm_rtermreq :: "'c fsm_callbacks \<Rightarrow> u8 \<Rightarrow> 'c fsm \<Rightarrow> 'c fsm" where
  "fsm_rtermreq cb i f0 =
     (let f = fsm_sdata TERMACK i [] f0 in
      if state f \<in> {ACKRCVD, ACKSENT} then f\<lparr>state := REQSENT\<rparr>
      else if state f = OPEN then call_closed cb ((call (down cb) Down f)\<lparr>state := CLOSED\<rparr>)
      else f)"

definition fsm_rtermack :: "'c fsm_callbacks \<Rightarrow> 'c fsm \<Rightarrow> 'c fsm" where
  "fsm_rtermack cb f =
     (if state f = OPEN then call_closed cb ((call (down cb) Down f)\<lparr>state := CLOSED\<rparr>)
      else if state f = TERMSENT then call_closed cb ((UNTIMEOUT f)\<lparr>state := CLOSED\<rparr>)
      else f)"

text \<open>\<^verbatim>\<open>fsm_rcoderej\<close> only logs.\<close>

definition fsm_rcoderej :: "u8 list \<Rightarrow> 'c fsm \<Rightarrow> 'c fsm" where
  "fsm_rcoderej dat f = f"

definition fsm_rprotrej :: "u8 list \<Rightarrow> 'c fsm \<Rightarrow> 'c fsm" where
  "fsm_rprotrej dat f =
     (case dat of
        b1 # b2 # _ \<Rightarrow>
          if protocol f \<noteq> LCP then f
          else f\<lparr>calls := calls f @ [ProtRejected (push_bit 8 (ucast b1) OR ucast b2)]\<rparr>
      | _ \<Rightarrow> f)"

definition answer_confreq :: "'c fsm_callbacks \<Rightarrow> u8 list \<Rightarrow> u8 \<Rightarrow> 'c fsm \<Rightarrow> 'c fsm" where
  "answer_confreq cb dat i f =
     (let (code, dat', f3) =
            (case reqci cb of
               Some g \<Rightarrow> (let (code, d, c) = g (ci f) dat in (code, d, f\<lparr>ci := c\<rparr>))
             | None \<Rightarrow> (if dat \<noteq> [] then CONFREJ else CONFREQ, dat, f));
          f4 = send_out (code, i, length dat' + HEADERLEN, dat') f3 in
      if code = CONFACK then
        if state f4 = ACKRCVD then (call (up cb) Up (UNTIMEOUT f4))\<lparr>state := OPEN\<rparr>
        else f4\<lparr>state := ACKSENT\<rparr>
      else if state f4 \<noteq> ACKRCVD then f4\<lparr>state := REQSENT\<rparr> else f4)"

definition rconfreq :: "'c fsm_callbacks \<Rightarrow> u8 list \<Rightarrow> u8 \<Rightarrow> 'c fsm \<Rightarrow> 'c fsm" where
  "rconfreq cb dat i f =
     (if state f = TERMSENT then f
      else if state f = CLOSED then fsm_sdata TERMACK i [] f
      else
        let f1 = (if state f = OPEN then call (down cb) Down f else f);
            f2 = (if state f1 \<in> {OPEN, LISTEN} then TIMEOUT (fsm_sconfreq cb f1) else f1) in
        answer_confreq cb dat i f2)"

definition rechoreq :: "u8 list \<Rightarrow> u8 \<Rightarrow> 'c fsm \<Rightarrow> 'c fsm" where
  "rechoreq dat i f =
     (if state f \<in> {CLOSED, LISTEN} then fsm_sdata TERMACK i [] f
      else if state f = OPEN then send_out (ECHOREP, i, length dat + HEADERLEN, dat) f
      else f)"

definition fsm_input :: "'c fsm_callbacks \<Rightarrow> u8 list \<Rightarrow> 'c fsm \<Rightarrow> 'c fsm" where
  "fsm_input cb inpacket f =
     (case inpacket of
        code # i # l1 # l2 # rest \<Rightarrow>
          let len = unat l1 * 256 + unat l2 in
          if len < HEADERLEN \<or> len > length inpacket then f
          else
            let dat = take (len - HEADERLEN) rest in
            if code = CONFREQ then rconfreq cb dat i f
            else if code = CONFACK then fsm_rconfack cb dat i f
            else if code = CONFNAK then fsm_rconfnak cb dat i f
            else if code = CONFREJ then fsm_rconfrej cb dat i f
            else if code = TERMREQ then fsm_rtermreq cb i f
            else if code = TERMACK then fsm_rtermack cb f
            else if code = CODEREJ then fsm_rcoderej dat f
            else if code = PROTREJ then fsm_rprotrej dat f
            else if code = ECHOREQ then rechoreq dat i f
            else if code = ECHOREP \<or> code = DISCREQ then f
            else fsm_sdata CODEREJ (fid f + 1) (take len inpacket) (f\<lparr>fid := fid f + 1\<rparr>)
      | _ \<Rightarrow> f)"

section \<open>Histories\<close>

datatype fevent = ActiveOpen | PassiveOpen | CloseReq | Expire | LowerUp | LowerDown | Input "u8 list"

text \<open>\<open>Expire\<close> runs a pending timeout, if there is one.\<close>

fun fsm_event :: "'c fsm_callbacks \<Rightarrow> fevent \<Rightarrow> 'c fsm \<Rightarrow> 'c fsm" where
  "fsm_event cb ActiveOpen f = fsm_activeopen cb f"
| "fsm_event cb PassiveOpen f = fsm_passiveopen cb f"
| "fsm_event cb CloseReq f = fsm_close cb f"
| "fsm_event cb Expire f = (if timers f = 0 then f else fsm_timeout cb (f\<lparr>timers := timers f - 1\<rparr>))"
| "fsm_event cb LowerUp f = fsm_lowerup cb f"
| "fsm_event cb LowerDown f = fsm_lowerdown cb f"
| "fsm_event cb (Input p) f = fsm_input cb p f"

definition fsm_run :: "'c fsm_callbacks \<Rightarrow> fevent list \<Rightarrow> 'c fsm \<Rightarrow> 'c fsm" where
  "fsm_run cb es f = fold (fsm_event cb) es f"

lemma fsm_run_Cons [simp]: "fsm_run cb (e # es) f = fsm_run cb es (fsm_event cb e f)"
  by (simp add: fsm_run_def)

lemma fsm_run_Nil [simp]: "fsm_run cb [] f = f"
  by (simp add: fsm_run_def)

lemma fsm_run_append: "fsm_run cb (xs @ ys) f = fsm_run cb ys (fsm_run cb xs f)"
  by (simp add: fsm_run_def)

lemma fsm_run_again: "fsm_run cb (replicate (n + 1) e) f = fsm_event cb e (fsm_run cb (replicate n e) f)"
proof -
  have "replicate (n + 1) e = replicate n e @ [e]" by (simp add: replicate_append_same)
  then show ?thesis by (simp only: fsm_run_append fsm_run_Cons fsm_run_Nil)
qed

text \<open>What the elementary actions leave alone.\<close>

lemma with_ci_frame [simp]:
  "state (with_ci g f) = state f" "lowerup (with_ci g f) = lowerup f" "aopending (with_ci g f) = aopending f"
  "popending (with_ci g f) = popending f" "maxconfreqtransmits (with_ci g f) = maxconfreqtransmits f"
  "retransmits (with_ci g f) = retransmits f" "maxtermtransmits (with_ci g f) = maxtermtransmits f"
  "nakloops (with_ci g f) = nakloops f" "maxnakloops (with_ci g f) = maxnakloops f"
  "reqid (with_ci g f) = reqid f" "sent (with_ci g f) = sent f" "calls (with_ci g f) = calls f"
  "timers (with_ci g f) = timers f"
  by (simp_all add: with_ci_def split: option.split)

lemma record_call_frame [simp]:
  "state (record_call g u f) = state f" "lowerup (record_call g u f) = lowerup f"
  "aopending (record_call g u f) = aopending f" "popending (record_call g u f) = popending f"
  "maxconfreqtransmits (record_call g u f) = maxconfreqtransmits f"
  "retransmits (record_call g u f) = retransmits f"
  "maxtermtransmits (record_call g u f) = maxtermtransmits f" "nakloops (record_call g u f) = nakloops f"
  "maxnakloops (record_call g u f) = maxnakloops f" "reqid (record_call g u f) = reqid f"
  "ci (record_call g u f) = ci f" "sent (record_call g u f) = sent f" "timers (record_call g u f) = timers f"
  by (simp_all add: record_call_def)

lemma call_frame [simp]:
  "state (call g u f) = state f" "lowerup (call g u f) = lowerup f" "aopending (call g u f) = aopending f"
  "popending (call g u f) = popending f" "maxconfreqtransmits (call g u f) = maxconfreqtransmits f"
  "retransmits (call g u f) = retransmits f" "maxtermtransmits (call g u f) = maxtermtransmits f"
  "nakloops (call g u f) = nakloops f" "maxnakloops (call g u f) = maxnakloops f"
  "reqid (call g u f) = reqid f" "sent (call g u f) = sent f" "timers (call g u f) = timers f"
  by (simp_all add: call_def)

lemma send_out_frame [simp]:
  "state (send_out p f) = state f" "lowerup (send_out p f) = lowerup f"
  "aopending (send_out p f) = aopending f" "popending (send_out p f) = popending f"
  "maxconfreqtransmits (send_out p f) = maxconfreqtransmits f" "retransmits (send_out p f) = retransmits f"
  "maxtermtransmits (send_out p f) = maxtermtransmits f" "nakloops (send_out p f) = nakloops f"
  "maxnakloops (send_out p f) = maxnakloops f" "reqid (send_out p f) = reqid f" "ci (send_out p f) = ci f"
  "calls (send_out p f) = calls f" "timers (send_out p f) = timers f"
  by (simp_all add: send_out_def)

lemma TIMEOUT_frame [simp]:
  "state (TIMEOUT f) = state f" "lowerup (TIMEOUT f) = lowerup f" "aopending (TIMEOUT f) = aopending f"
  "popending (TIMEOUT f) = popending f" "maxconfreqtransmits (TIMEOUT f) = maxconfreqtransmits f"
  "retransmits (TIMEOUT f) = retransmits f" "maxtermtransmits (TIMEOUT f) = maxtermtransmits f"
  "nakloops (TIMEOUT f) = nakloops f" "maxnakloops (TIMEOUT f) = maxnakloops f" "reqid (TIMEOUT f) = reqid f"
  "ci (TIMEOUT f) = ci f" "sent (TIMEOUT f) = sent f" "calls (TIMEOUT f) = calls f"
  by (simp_all add: TIMEOUT_def)

lemma UNTIMEOUT_frame [simp]:
  "state (UNTIMEOUT f) = state f" "lowerup (UNTIMEOUT f) = lowerup f" "aopending (UNTIMEOUT f) = aopending f"
  "popending (UNTIMEOUT f) = popending f" "maxconfreqtransmits (UNTIMEOUT f) = maxconfreqtransmits f"
  "retransmits (UNTIMEOUT f) = retransmits f" "maxtermtransmits (UNTIMEOUT f) = maxtermtransmits f"
  "nakloops (UNTIMEOUT f) = nakloops f" "maxnakloops (UNTIMEOUT f) = maxnakloops f"
  "reqid (UNTIMEOUT f) = reqid f" "ci (UNTIMEOUT f) = ci f" "sent (UNTIMEOUT f) = sent f"
  "calls (UNTIMEOUT f) = calls f"
  by (simp_all add: UNTIMEOUT_def)

lemma fsm_sdata_frame [simp]:
  "state (fsm_sdata c i d f) = state f" "lowerup (fsm_sdata c i d f) = lowerup f"
  "aopending (fsm_sdata c i d f) = aopending f" "popending (fsm_sdata c i d f) = popending f"
  "maxconfreqtransmits (fsm_sdata c i d f) = maxconfreqtransmits f"
  "retransmits (fsm_sdata c i d f) = retransmits f"
  "maxtermtransmits (fsm_sdata c i d f) = maxtermtransmits f" "nakloops (fsm_sdata c i d f) = nakloops f"
  "maxnakloops (fsm_sdata c i d f) = maxnakloops f" "reqid (fsm_sdata c i d f) = reqid f"
  "ci (fsm_sdata c i d f) = ci f" "calls (fsm_sdata c i d f) = calls f"
  "timers (fsm_sdata c i d f) = timers f"
  by (simp_all add: fsm_sdata_def Let_def)

lemma fsm_sconfreq_frame [simp]:
  "state (fsm_sconfreq cb f) = state f" "lowerup (fsm_sconfreq cb f) = lowerup f"
  "aopending (fsm_sconfreq cb f) = aopending f" "popending (fsm_sconfreq cb f) = popending f"
  "maxconfreqtransmits (fsm_sconfreq cb f) = maxconfreqtransmits f"
  "retransmits (fsm_sconfreq cb f) = retransmits f"
  "maxtermtransmits (fsm_sconfreq cb f) = maxtermtransmits f" "nakloops (fsm_sconfreq cb f) = nakloops f"
  "maxnakloops (fsm_sconfreq cb f) = maxnakloops f" "ci (fsm_sconfreq cb f) = ci f"
  "calls (fsm_sconfreq cb f) = calls f" "timers (fsm_sconfreq cb f) = timers f"
  by (simp_all add: fsm_sconfreq_def Let_def)

lemma send_termreq_frame [simp]:
  "state (send_termreq f) = state f" "lowerup (send_termreq f) = lowerup f"
  "aopending (send_termreq f) = aopending f" "popending (send_termreq f) = popending f"
  "maxconfreqtransmits (send_termreq f) = maxconfreqtransmits f"
  "retransmits (send_termreq f) = retransmits f" "maxtermtransmits (send_termreq f) = maxtermtransmits f"
  "nakloops (send_termreq f) = nakloops f" "maxnakloops (send_termreq f) = maxnakloops f"
  "ci (send_termreq f) = ci f" "calls (send_termreq f) = calls f" "timers (send_termreq f) = timers f"
  by (simp_all add: send_termreq_def Let_def)

lemma clear_pending_frame [simp]:
  "state (clear_pending f) = state f" "lowerup (clear_pending f) = lowerup f"
  "maxconfreqtransmits (clear_pending f) = maxconfreqtransmits f"
  "retransmits (clear_pending f) = retransmits f" "maxtermtransmits (clear_pending f) = maxtermtransmits f"
  "nakloops (clear_pending f) = nakloops f" "maxnakloops (clear_pending f) = maxnakloops f"
  "reqid (clear_pending f) = reqid f" "ci (clear_pending f) = ci f" "sent (clear_pending f) = sent f"
  "calls (clear_pending f) = calls f" "timers (clear_pending f) = timers f"
  by (simp_all add: clear_pending_def)

lemma timers_TIMEOUT [simp]: "timers (TIMEOUT f) = timers f + 1" "timers (UNTIMEOUT f) = timers f - 1"
  by (simp_all add: TIMEOUT_def UNTIMEOUT_def)

lemma calls_call [simp]: "calls (call g u f) = (if g = None then calls f else calls f @ [u])"
  by (simp add: call_def record_call_def)

lemma length_sent [simp]:
  "length (sent (fsm_sconfreq cb f)) = length (sent f) + 1" "length (sent (send_termreq f)) = length (sent f) + 1"
  by (simp_all add: fsm_sconfreq_def send_termreq_def fsm_sdata_def send_out_def Let_def)

lemma clear_pending_flags [simp]: "\<not> aopending (clear_pending f)" "\<not> popending (clear_pending f)"
  by (simp_all add: clear_pending_def)

lemmas fsm_open_defs = fsm_activeopen_def fsm_passiveopen_def fsm_close_def fsm_lowerup_def fsm_lowerdown_def
  fsm_timeout_def

lemmas fsm_receive_defs = fsm_rconfack_def check_ack_def renegotiate_def fsm_rconfnak_def fsm_rconfrej_def fsm_rtermreq_def
  fsm_rtermack_def fsm_rcoderej_def fsm_rprotrej_def rechoreq_def reopen_def

text \<open>What the automaton relies on of \<^verbatim>\<open>closed\<close>, for an invariant \<open>P\<close>.\<close>

definition keeps :: "('c fsm \<Rightarrow> bool) \<Rightarrow> 'c fsm_callbacks \<Rightarrow> bool" where
  "keeps P cb \<longleftrightarrow> (\<forall>g f. closed cb = Some g \<longrightarrow> P f \<longrightarrow> P (g f))"

lemma keeps_closed:
  assumes "keeps P cb" "P f" "\<And>us. P f \<Longrightarrow> P (f\<lparr>calls := us @ [Closed]\<rparr>)"
  shows "P (call_closed cb f)"
  using assms by (auto simp: keeps_def call_closed_def record_call_def split: option.split)

section \<open>One timeout\<close>

abbreviation waiting_states :: "fstate set" where
  "waiting_states \<equiv> {REQSENT, ACKSENT, ACKRCVD, TERMSENT}"

definition timer_ok :: "'c fsm \<Rightarrow> bool" where
  "timer_ok f \<longleftrightarrow> timers f = (if state f \<in> waiting_states then 1 else 0)"

lemma timer_ok_closed: "keeps timer_ok cb \<Longrightarrow> timer_ok f \<Longrightarrow> timer_ok (call_closed cb f)"
  by (erule keeps_closed) (simp_all add: timer_ok_def)

lemma timer_ok_open:
  "timer_ok f \<Longrightarrow> timer_ok (fsm_activeopen cb f)"
  "timer_ok f \<Longrightarrow> timer_ok (fsm_passiveopen cb f)"
  "timer_ok f \<Longrightarrow> timer_ok (fsm_lowerup cb f)"
  by (auto simp: timer_ok_def fsm_open_defs Let_def split: option.splits)

lemma timer_ok_close:
  assumes "keeps timer_ok cb" "timer_ok f"
  shows "timer_ok (fsm_close cb f)" "timer_ok (fsm_lowerdown cb f)"
  using assms unfolding fsm_close_def fsm_lowerdown_def Let_def
  by (auto intro!: timer_ok_closed; auto simp: timer_ok_def Let_def split: option.splits)+

lemma timer_ok_timeout:
  assumes "keeps timer_ok cb" "timer_ok f" "timers f \<noteq> 0"
  shows "timer_ok (fsm_timeout cb (f\<lparr>timers := timers f - 1\<rparr>))"
proof -
  consider (pending) "popending f" | (give_up) "state f \<noteq> TERMSENT" "\<not> popending f" "retransmits f > maxconfreqtransmits f"
    | (again) "state f \<noteq> TERMSENT" "\<not> popending f" "\<not> retransmits f > maxconfreqtransmits f"
    | (ending) "state f = TERMSENT" "\<not> popending f" by blast
  then show ?thesis
  proof cases
    case give_up
    then show ?thesis
      using assms unfolding fsm_timeout_def fsm_close_def Let_def
      by (cases "state f") (auto intro!: timer_ok_closed simp: timer_ok_def [where f = f]; simp add: timer_ok_def)+
  next
    case ending
    then show ?thesis
      using assms unfolding fsm_timeout_def Let_def
      by (auto intro!: timer_ok_closed; simp add: timer_ok_def Let_def split: option.splits)
  qed (use assms in \<open>cases "state f"; auto simp: timer_ok_def fsm_timeout_def fsm_passiveopen_def Let_def split: option.splits\<close>)+
qed

lemma timer_ok_receive:
  "timer_ok f \<Longrightarrow> timer_ok (fsm_rconfack cb dat i f)"
  "timer_ok f \<Longrightarrow> timer_ok (fsm_rconfnak cb dat i f)"
  "timer_ok f \<Longrightarrow> timer_ok (fsm_rconfrej cb dat i f)"
  "timer_ok f \<Longrightarrow> timer_ok (fsm_rprotrej dat f)"
  "timer_ok f \<Longrightarrow> timer_ok (rechoreq dat i f)"
  by (cases "state f"; auto simp: timer_ok_def fsm_receive_defs fsm_activeopen_def Let_def
      split: option.splits list.splits prod.splits bool.splits)+

lemma timer_ok_terminate:
  assumes "keeps timer_ok cb" "timer_ok f"
  shows "timer_ok (fsm_rtermreq cb i f)" "timer_ok (fsm_rtermack cb f)"
  using assms unfolding fsm_rtermreq_def fsm_rtermack_def Let_def
  by (auto intro!: timer_ok_closed; auto simp: timer_ok_def Let_def split: option.splits)+

lemma timer_ok_rconfreq: "timer_ok f \<Longrightarrow> timer_ok (rconfreq cb dat i f)"
  by (cases "state f"; cases "reqci cb")
    (auto simp: timer_ok_def rconfreq_def answer_confreq_def Let_def split: option.splits prod.splits)

lemma timer_ok_fields [simp]:
  "timer_ok (f\<lparr>fid := x\<rparr>) = timer_ok f" "timer_ok (fsm_sdata c i d f) = timer_ok f" "timer_ok (fsm_rcoderej d f) = timer_ok f"
  by (simp_all add: timer_ok_def fsm_rcoderej_def)

text \<open>An invariant that every handler of \<^verbatim>\<open>fsm_input\<close> keeps is kept by it.\<close>

lemma fsm_input_cases:
  assumes "P f"
    and "\<And>dat i rest. inpacket = 1 # i # rest \<Longrightarrow> P (rconfreq cb dat i f)"
    and "\<And>dat i rest. inpacket = 2 # i # rest \<Longrightarrow> P (fsm_rconfack cb dat i f)"
    and "\<And>dat i rest. inpacket = 3 # i # rest \<Longrightarrow> P (fsm_rconfnak cb dat i f)"
    and "\<And>dat i rest. inpacket = 4 # i # rest \<Longrightarrow> P (fsm_rconfrej cb dat i f)"
    and "\<And>i rest. inpacket = 5 # i # rest \<Longrightarrow> P (fsm_rtermreq cb i f)"
    and "\<And>i rest. inpacket = 6 # i # rest \<Longrightarrow> P (fsm_rtermack cb f)"
    and "\<And>dat. P (fsm_rprotrej dat f)" "\<And>dat i. P (rechoreq dat i f)"
    and "\<And>dat. P (fsm_sdata 7 (fid f + 1) dat (f\<lparr>fid := fid f + 1\<rparr>))"
  shows "P (fsm_input cb inpacket f)"
  unfolding fsm_input_def
  using assms by (auto simp: Let_def fsm_rcoderej_def split: list.split)

lemma timer_ok_event:
  assumes "keeps timer_ok cb" "timer_ok f"
  shows "timer_ok (fsm_event cb e f)"
proof (cases e)
  case (Input p)
  then show ?thesis using assms
    by (auto intro!: fsm_input_cases [where P = timer_ok] timer_ok_receive timer_ok_terminate timer_ok_rconfreq)
qed (use assms in \<open>auto intro: timer_ok_open timer_ok_close timer_ok_timeout [unfolded One_nat_def]\<close>)

lemma timer_ok_run: "keeps timer_ok cb \<Longrightarrow> timer_ok f \<Longrightarrow> timer_ok (fsm_run cb es f)"
  by (induction es arbitrary: f) (auto simp: timer_ok_event)

section \<open>Upper layers\<close>

text \<open>The calls \<^verbatim>\<open>up\<close> and \<^verbatim>\<open>down\<close> read in order: \<open>Some b\<close> when they alternate, beginning
  with \<^verbatim>\<open>up\<close>, and \<open>b\<close> says whether the upper layers are up.\<close>

fun updown :: "bool \<Rightarrow> upcall list \<Rightarrow> bool option" where
  "updown b [] = Some b"
| "updown b (Up # us) = (if b then None else updown True us)"
| "updown b (Down # us) = (if b then updown False us else None)"
| "updown b (u # us) = updown b us"

lemma updown_append: "updown b (us @ vs) = (case updown b us of None \<Rightarrow> None | Some c \<Rightarrow> updown c vs)"
  by (induction b us rule: updown.induct) auto

definition up_ok :: "'c fsm \<Rightarrow> bool" where
  "up_ok f \<longleftrightarrow> updown False (calls f) = Some (state f = OPEN)"

definition informed :: "'c fsm_callbacks \<Rightarrow> bool" where
  "informed cb \<longleftrightarrow> up cb \<noteq> None \<and> down cb \<noteq> None"

lemmas up_simps = up_ok_def informed_def updown_append Let_def

lemma up_ok_closed: "keeps up_ok cb \<Longrightarrow> up_ok f \<Longrightarrow> up_ok (call_closed cb f)"
  by (auto simp: keeps_def call_closed_def record_call_def up_ok_def updown_append split: option.split)

lemma up_ok_open:
  "up_ok f \<Longrightarrow> up_ok (fsm_activeopen cb f)"
  "up_ok f \<Longrightarrow> up_ok (fsm_passiveopen cb f)"
  "up_ok f \<Longrightarrow> up_ok (fsm_lowerup cb f)"
  by (cases "state f"; auto simp: up_simps fsm_open_defs split: option.splits)+

lemma up_ok_close:
  assumes "keeps up_ok cb" "informed cb" "up_ok f"
  shows "up_ok (fsm_close cb f)" "up_ok (fsm_lowerdown cb f)"
  using assms unfolding fsm_close_def fsm_lowerdown_def Let_def
  by (auto intro!: up_ok_closed; auto simp: up_simps split: option.splits)+

lemma up_ok_timeout:
  assumes "keeps up_ok cb" "informed cb" "up_ok f"
  shows "up_ok (fsm_timeout cb (f\<lparr>timers := n\<rparr>))"
proof -
  let ?f = "f\<lparr>timers := n\<rparr>"
  have f: "up_ok ?f" using assms(3) by (simp add: up_ok_def)
  have p: "up_ok (fsm_passiveopen cb (?f\<lparr>state := CLOSED\<rparr>))" if "state f \<noteq> OPEN"
    using that assms(3) by (intro up_ok_open) (simp add: up_ok_def)
  show ?thesis
    using assms f p unfolding fsm_timeout_def Let_def
    by (auto intro!: up_ok_closed up_ok_close; auto simp: up_simps split: option.splits)
qed

lemma up_ok_receive:
  "informed cb \<Longrightarrow> up_ok f \<Longrightarrow> up_ok (fsm_rconfack cb dat i f)"
  "informed cb \<Longrightarrow> up_ok f \<Longrightarrow> up_ok (fsm_rconfnak cb dat i f)"
  "up_ok f \<Longrightarrow> up_ok (fsm_rprotrej dat f)"
  "up_ok f \<Longrightarrow> up_ok (rechoreq dat i f)"
  by (cases "state f"; auto simp: up_simps fsm_receive_defs fsm_activeopen_def
      split: option.splits list.splits prod.splits bool.splits)+

lemma up_ok_terminate:
  assumes "keeps up_ok cb" "informed cb" "up_ok f"
  shows "up_ok (fsm_rtermreq cb i f)" "up_ok (fsm_rtermack cb f)"
  using assms unfolding fsm_rtermreq_def fsm_rtermack_def Let_def
  by (auto intro!: up_ok_closed; auto simp: up_simps split: option.splits)+

lemma up_ok_rconfrej: "state f \<noteq> OPEN \<Longrightarrow> up_ok f \<Longrightarrow> up_ok (fsm_rconfrej cb dat i f)"
  by (cases "state f"; auto simp: up_simps fsm_receive_defs split: option.splits)

lemma up_ok_rconfreq: "informed cb \<Longrightarrow> up_ok f \<Longrightarrow> up_ok (rconfreq cb dat i f)"
  by (cases "state f"; cases "reqci cb") (auto simp: up_simps rconfreq_def answer_confreq_def split: option.splits prod.splits)

lemma up_ok_fields [simp]:
  "up_ok (f\<lparr>fid := x\<rparr>) = up_ok f" "up_ok (fsm_sdata c i d f) = up_ok f"
  by (simp_all add: up_ok_def)

text \<open>Event sequences in which no Configure-Reject arrives in state \<open>OPEN\<close>.\<close>

fun no_reject_open :: "'c fsm_callbacks \<Rightarrow> fevent list \<Rightarrow> 'c fsm \<Rightarrow> bool" where
  "no_reject_open cb [] f = True"
| "no_reject_open cb (e # es) f =
     (\<not> (state f = OPEN \<and> (\<exists>rest. e = Input (4 # rest))) \<and> no_reject_open cb es (fsm_event cb e f))"

lemma up_ok_event:
  assumes "keeps up_ok cb" "informed cb" "up_ok f" "\<not> (state f = OPEN \<and> (\<exists>rest. e = Input (4 # rest)))"
  shows "up_ok (fsm_event cb e f)"
proof (cases e)
  case (Input p)
  then show ?thesis using assms
    by (auto intro!: fsm_input_cases [where P = up_ok] up_ok_receive up_ok_terminate up_ok_rconfreq up_ok_rconfrej)
qed (use assms in \<open>auto intro: up_ok_open up_ok_close up_ok_timeout\<close>)

lemma up_ok_run:
  "keeps up_ok cb \<Longrightarrow> informed cb \<Longrightarrow> up_ok f \<Longrightarrow> no_reject_open cb es f \<Longrightarrow> up_ok (fsm_run cb es f)"
  by (induction es arbitrary: f) (auto simp: up_ok_event)

section \<open>What the protocol above may rely on\<close>

text \<open>An invariant of the protocol's state that depends on the link: \<open>A\<close> while the
  automaton is closed, \<open>B\<close> while it negotiates or terminates, \<open>U\<close> while it is open.\<close>

definition app :: "('c \<Rightarrow> 'c) option \<Rightarrow> 'c \<Rightarrow> 'c" where
  "app g c = (case g of None \<Rightarrow> c | Some h \<Rightarrow> h c)"

lemma app_simps [simp]: "app None c = c" "app (Some h) c = h c"
  by (simp_all add: app_def)

lemma ci_with [simp]: "ci (with_ci g f) = app g (ci f)" "ci (call g u f) = app g (ci f)"
  by (simp_all add: with_ci_def call_def record_call_def app_def split: option.split)

definition link_inv :: "('c \<Rightarrow> bool) \<Rightarrow> ('c \<Rightarrow> bool) \<Rightarrow> ('c \<Rightarrow> bool) \<Rightarrow> 'c fsm \<Rightarrow> bool" where
  "link_inv A B U f \<longleftrightarrow> (if state f = CLOSED then A (ci f) else if state f = OPEN then U (ci f) else B (ci f))"

locale link_layer =
  fixes cb :: "'c fsm_callbacks" and A B U :: "'c \<Rightarrow> bool"
  assumes give_up: "B c \<Longrightarrow> A c"
    and reset: "A c \<Longrightarrow> B (app (resetci cb) c)"
    and acked: "ackci cb = Some g \<Longrightarrow> B c \<Longrightarrow> B (snd (g c d))"
    and naked: "B c \<Longrightarrow> B (app (map_option (\<lambda>h c. h c d) (nakci cb)) c)"
    and requested: "reqci cb = Some h \<Longrightarrow> B c \<Longrightarrow> B (snd (snd (h c d)))"
    and retransmitted: "B c \<Longrightarrow> B (app (retransmit cb) c)"
    and goes_up: "B c \<Longrightarrow> U (app (up cb) c)"
    and goes_down: "U c \<Longrightarrow> B (app (down cb) c)"
    and closes: "keeps (link_inv A B U) cb"
begin

abbreviation inv :: "'c fsm \<Rightarrow> bool" where "inv \<equiv> link_inv A B U"

lemma inv_closed: "state f = CLOSED \<Longrightarrow> A (ci f) \<Longrightarrow> inv (call_closed cb f)"
  using keeps_closed [OF closes, of f] by (simp add: link_inv_def)

lemma inv_open: "inv f \<Longrightarrow> inv (fsm_activeopen cb f)" "inv f \<Longrightarrow> inv (fsm_passiveopen cb f)" "inv f \<Longrightarrow> inv (fsm_lowerup cb f)"
  using give_up reset
  by (cases "state f"; auto simp: link_inv_def fsm_activeopen_def fsm_passiveopen_def fsm_lowerup_def Let_def)+

lemma inv_close: "inv f \<Longrightarrow> inv (fsm_close cb f)" "inv f \<Longrightarrow> inv (fsm_lowerdown cb f)"
proof -
  assume "inv f"
  then have a: "state f \<noteq> OPEN \<Longrightarrow> A (ci f)" "state f = OPEN \<Longrightarrow> A (app (down cb) (ci f))" "state f = OPEN \<Longrightarrow> B (app (down cb) (ci f))"
    using give_up goes_down by (auto simp: link_inv_def split: if_splits)
  show "inv (fsm_lowerdown cb f)"
    unfolding fsm_lowerdown_def Let_def by (rule inv_closed) (use a in auto)
  show "inv (fsm_close cb f)"
    unfolding fsm_close_def Let_def using a \<open>inv f\<close>
    by (cases "state f") (auto intro!: inv_closed; simp add: link_inv_def)+
qed

lemma inv_reopen: "A (ci f) \<Longrightarrow> inv (reopen cb f)"
  unfolding reopen_def by (rule inv_open) (simp add: link_inv_def)

lemma inv_timers: "inv (f\<lparr>timers := n\<rparr>) = inv f"
  by (simp add: link_inv_def)

lemma inv_timeout: assumes "inv f" shows "inv (fsm_timeout cb f)"
proof -
  have p: "inv (fsm_passiveopen cb (f\<lparr>state := CLOSED\<rparr>))" if "state f \<in> waiting_states"
    using that assms give_up by (intro inv_open) (auto simp: link_inv_def)
  show ?thesis
    using assms p unfolding fsm_timeout_def Let_def
    by (cases "state f"; auto intro!: inv_closed inv_close; auto simp: link_inv_def intro: give_up retransmitted)
qed

lemma inv_check_ack: "B (ci f) \<Longrightarrow> check_ack cb dat f = (b, f1) \<Longrightarrow> B (ci f1)"
  using acked [of _ "ci f" dat] by (auto simp: check_ack_def split: option.splits prod.splits)

lemma state_check_ack: "check_ack cb dat f = (b, f1) \<Longrightarrow> state f1 = state f"
  by (auto simp: check_ack_def split: option.splits prod.splits)

lemma inv_rconfack: assumes "inv f" shows "inv (fsm_rconfack cb dat i f)"
proof (cases "state f = OPEN")
  case True
  then show ?thesis using assms goes_down give_up by (auto simp: fsm_rconfack_def link_inv_def [of _ _ _ f] intro!: inv_reopen)
next
  case False
  then show ?thesis
    using assms inv_check_ack [of f dat] goes_up
    by (cases "state f") (auto simp: fsm_rconfack_def link_inv_def split: prod.splits bool.splits)
qed

lemma inv_rconfnak: assumes "inv f" shows "inv (fsm_rconfnak cb dat i f)"
proof (cases "state f = OPEN")
  case True
  then show ?thesis using assms goes_down give_up by (auto simp: fsm_rconfnak_def link_inv_def [of _ _ _ f] intro!: inv_reopen)
next
  case False
  then show ?thesis
    using assms naked by (cases "state f") (auto simp: fsm_rconfnak_def renegotiate_def link_inv_def Let_def)
qed

lemma inv_terminate: "inv f \<Longrightarrow> inv (fsm_rtermreq cb i f)" "inv f \<Longrightarrow> inv (fsm_rtermack cb f)"
proof -
  assume "inv f"
  then have a: "state f = OPEN \<Longrightarrow> A (app (down cb) (ci f))" "state f = TERMSENT \<Longrightarrow> A (ci f)"
    using give_up goes_down by (auto simp: link_inv_def split: if_splits)
  show "inv (fsm_rtermreq cb i f)"
    unfolding fsm_rtermreq_def Let_def using a \<open>inv f\<close>
    by (cases "state f") (auto intro!: inv_closed; simp add: link_inv_def)+
  show "inv (fsm_rtermack cb f)"
    unfolding fsm_rtermack_def Let_def using a \<open>inv f\<close>
    by (cases "state f") (auto intro!: inv_closed)
qed

lemma inv_rest: "inv f \<Longrightarrow> inv (fsm_rprotrej dat f)" "inv f \<Longrightarrow> inv (rechoreq dat i f)"
  by (auto simp: fsm_rprotrej_def rechoreq_def link_inv_def split: list.splits)

lemma inv_answer:
  assumes "B (ci f)" "state f \<noteq> CLOSED"
  shows "inv (answer_confreq cb dat i f)"
proof (cases "reqci cb")
  case None
  then show ?thesis using assms by (auto simp: answer_confreq_def link_inv_def Let_def goes_up)
next
  case (Some g)
  obtain code d c where g: "g (ci f) dat = (code, d, c)" by (metis prod_cases3)
  then have "B c" using requested [OF Some assms(1), of dat] by simp
  then show ?thesis using assms(2) goes_up by (auto simp: answer_confreq_def link_inv_def Let_def Some g)
qed

lemma inv_rconfreq: assumes "inv f" shows "inv (rconfreq cb dat i f)"
proof (cases "state f \<in> {TERMSENT, CLOSED}")
  case True
  then show ?thesis using assms by (auto simp: rconfreq_def link_inv_def)
next
  case False
  then show ?thesis
    using assms goes_down by (auto simp: rconfreq_def Let_def link_inv_def [of A B U f] split: if_splits intro!: inv_answer)
qed

lemma inv_sdata: "inv (fsm_sdata c i dat (f\<lparr>fid := x\<rparr>)) = inv f"
  by (simp add: link_inv_def)

lemma inv_input: "inv f \<Longrightarrow> p = [] \<or> hd p \<noteq> CONFREJ \<Longrightarrow> inv (fsm_input cb p f)"
  by (rule fsm_input_cases [where P = inv]) (auto intro: inv_rconfreq inv_rconfack inv_rconfnak inv_terminate inv_rest simp: inv_sdata)

end

section \<open>Giving up\<close>

lemma closed_stays:
  assumes "keeps (\<lambda>g. state g = CLOSED \<and> timers g = 0) cb" "state g = CLOSED" "timers g = 0"
  shows "state (call_closed cb g) = CLOSED" "timers (call_closed cb g) = 0"
  using keeps_closed [OF assms(1), of g] assms(2,3) by simp_all

text \<open>Timeouts alone, while our requests stay unanswered.\<close>

lemma reqsent_timeouts:
  assumes "state f = REQSENT" "timers f = 1" "\<not> popending f" "0 \<le> maxconfreqtransmits f"
    "retransmits f + int n = maxconfreqtransmits f + 1"
  shows "let g = fsm_run cb (replicate n Expire) f in
    state g = REQSENT \<and> timers g = 1 \<and> \<not> popending g \<and> maxconfreqtransmits g = maxconfreqtransmits f \<and>
    retransmits g = maxconfreqtransmits f + 1 \<and> length (sent g) = length (sent f) + n"
  using assms
proof (induction n arbitrary: f)
  case (Suc n)
  let ?g = "fsm_event cb Expire f"
  have "state ?g = REQSENT" "timers ?g = 1" "\<not> popending ?g" "maxconfreqtransmits ?g = maxconfreqtransmits f"
    "retransmits ?g = retransmits f + 1" "length (sent ?g) = length (sent f) + 1"
    using Suc.prems by (auto simp: fsm_timeout_def Let_def split: option.splits)
  then show ?case using Suc.IH [of ?g] Suc.prems by (simp add: Let_def)
qed simp

lemma termsent_timeouts:
  assumes "state f = TERMSENT" "timers f = 1" "\<not> popending f"
    "retransmits f + 2 * int n \<le> maxtermtransmits f"
  shows "let g = fsm_run cb (replicate n Expire) f in
    state g = TERMSENT \<and> timers g = 1 \<and> \<not> popending g \<and> maxtermtransmits g = maxtermtransmits f \<and>
    retransmits g = retransmits f + 2 * int n \<and> length (sent g) = length (sent f) + n"
  using assms
proof (induction n arbitrary: f)
  case (Suc n)
  let ?g = "fsm_event cb Expire f"
  have "state ?g = TERMSENT" "timers ?g = 1" "\<not> popending ?g" "maxtermtransmits ?g = maxtermtransmits f"
    "retransmits ?g = retransmits f + 2" "length (sent ?g) = length (sent f) + 1"
    using Suc.prems by (auto simp: fsm_timeout_def Let_def split: option.splits)
  then show ?case using Suc.IH [of ?g] Suc.prems by (simp add: Let_def)
qed simp

section \<open>The interface of a negotiated protocol\<close>

text \<open>What the automaton needs of the functions that build our request and check the
  peer's answer: the request is as long as announced, and an answer that repeats it
  is a good acknowledgement.\<close>

locale negotiation =
  fixes good :: "'c \<Rightarrow> bool" and len :: "'c \<Rightarrow> nat" and add :: "'c \<Rightarrow> u8 list" and ack :: "'c \<Rightarrow> u8 list \<Rightarrow> bool \<times> 'c"
  assumes add_length: "good c \<Longrightarrow> length (add c) = len c"
    and ack_own: "good c \<Longrightarrow> ack c (add c) = (True, c)"
begin

definition provides :: "'c fsm_callbacks \<Rightarrow> bool" where
  "provides cb \<longleftrightarrow> cilen cb = Some len \<and> addci cb = Some add \<and> ackci cb = Some ack"

lemma request_well_formed:
  assumes "provides cb" "good (ci f)"
  shows "\<exists>i dat. sent (fsm_sconfreq cb f) = sent f @ [(CONFREQ, i, length dat + HEADERLEN, dat)] \<and>
    i = reqid (fsm_sconfreq cb f) \<and> dat = add (ci f)"
  using assms add_length by (simp add: provides_def fsm_sconfreq_def send_out_def Let_def)

lemma echoed_request_accepted:
  assumes "provides cb" "good (ci f)" "len (ci f) < 65532" "i = reqid f"
    "p = [CONFACK, i, of_nat ((len (ci f) + 4) div 256), of_nat ((len (ci f) + 4) mod 256)] @ add (ci f)"
  shows "state f = REQSENT \<Longrightarrow> state (fsm_input cb p f) = ACKRCVD"
    "state f = ACKSENT \<Longrightarrow> state (fsm_input cb p f) = OPEN"
proof -
  let ?n = "len (ci f) + 4"
  have "?n div 256 < 256" "?n mod 256 < 256" using assms(3) by auto
  then have "unat (of_nat (?n div 256) :: u8) = ?n div 256" "unat (of_nat (?n mod 256) :: u8) = ?n mod 256"
    by (simp_all add: unat_of_nat)
  then have l: "unat (of_nat (?n div 256) :: u8) * 256 + unat (of_nat (?n mod 256) :: u8) = ?n" by simp
  have "fsm_input cb p f = fsm_rconfack cb (add (ci f)) i f"
    using l add_length [OF assms(2)] by (simp add: fsm_input_def assms(5) Let_def)
  moreover have "check_ack cb (add (ci f)) f = (True, f)" using assms(1,2) ack_own by (simp add: check_ack_def provides_def)
  ultimately show "state f = REQSENT \<Longrightarrow> state (fsm_input cb p f) = ACKRCVD"
    "state f = ACKSENT \<Longrightarrow> state (fsm_input cb p f) = OPEN"
    using assms(4) by (simp_all add: fsm_rconfack_def)
qed

end

section \<open>Properties\<close>

text \<open>A protocol without options, and the automaton after \<^verbatim>\<open>fsm_init\<close>.\<close>

definition null_callbacks :: "unit fsm_callbacks" where
  "null_callbacks = \<lparr>resetci = None, cilen = None, addci = None, ackci = Some (\<lambda>c d. (d = [], c)), nakci = None,
     rejci = None, reqci = Some (\<lambda>c d. (2, d, c)), up = Some id, down = Some id, closed = Some id, retransmit = None\<rparr>"

definition fsm0 :: "unit fsm" where
  "fsm0 = fsm_init \<lparr>protocol = LCP, state = CLOSED, lowerup = False, aopending = False, popending = False, fid = 0,
     reqid = 0, maxconfreqtransmits = 10, retransmits = 0, maxtermtransmits = 10, nakloops = 0, maxnakloops = 10,
     ci = (), sent = [], calls = [], timers = 0\<rparr>"

text \<open>
  C16: the automaton has exactly one timeout pending when it waits for the peer,
  in the states \<^verbatim>\<open>REQSENT\<close>, \<^verbatim>\<open>ACKSENT\<close>, \<^verbatim>\<open>ACKRCVD\<close> and \<^verbatim>\<open>TERMSENT\<close>, and none in the
  others, after every sequence of opens, closes, timeouts, lower layer changes and
  packets, well formed or not.
\<close>

theorem fsm_one_timer:
  assumes "keeps timer_ok cb" "timers f = 0"
  shows "timers (fsm_run cb es (fsm_init f)) =
    (if state (fsm_run cb es (fsm_init f)) \<in> {REQSENT, ACKSENT, ACKRCVD, TERMSENT} then 1 else 0)"
proof -
  have "timer_ok (fsm_init f)" using assms(2) by (simp add: timer_ok_def fsm_init_def)
  then show ?thesis using timer_ok_run [OF assms(1), of "fsm_init f" es] by (simp add: timer_ok_def)
qed

theorem fsm_one_timer_witness:
  "state (fsm_run null_callbacks [ActiveOpen, LowerUp, Input [1, 7, 0, 4]] (fsm_init fsm0)) = ACKSENT \<and>
   timers (fsm_run null_callbacks [ActiveOpen, LowerUp, Input [1, 7, 0, 4]] (fsm_init fsm0)) = 1"
proof -
  have "state (fsm_run null_callbacks [ActiveOpen, LowerUp, Input [1, 7, 0, 4]] (fsm_init fsm0)) = ACKSENT"
    by code_simp
  then show ?thesis
    using fsm_one_timer [of null_callbacks fsm0 "[ActiveOpen, LowerUp, Input [1, 7, 0, 4]]"]
    by (simp add: fsm0_def fsm_init_def keeps_def null_callbacks_def)
qed

text \<open>
  The upper layers are told when the connection opens and when it ceases to
  be open: the calls \<^verbatim>\<open>up\<close> and \<^verbatim>\<open>down\<close> alternate and the last one says whether the
  state is \<^verbatim>\<open>OPEN\<close>, as long as no Configure-Reject arrives in that state.
\<close>

theorem fsm_upcalls_alternate:
  assumes "up cb \<noteq> None" "down cb \<noteq> None" "keeps up_ok cb" "calls f = []" "no_reject_open cb es (fsm_init f)"
  shows "updown False (calls (fsm_run cb es (fsm_init f))) = Some (state (fsm_run cb es (fsm_init f)) = OPEN)"
proof -
  have "up_ok (fsm_init f)" using assms(4) by (simp add: up_ok_def fsm_init_def)
  then show ?thesis
    using up_ok_run [of cb "fsm_init f" es] assms(1,2,3,5) by (simp add: up_ok_def informed_def)
qed

theorem fsm_upcalls_alternate_witness:
  "calls (fsm_run null_callbacks [ActiveOpen, LowerUp, Input [1, 7, 0, 4], Input [2, 1, 0, 4], LowerDown] (fsm_init fsm0)) =
     [Up, Down, Closed] \<and>
   updown False [Up, Down, Closed] = Some False"
proof -
  let ?es = "[ActiveOpen, LowerUp, Input [1, 7, 0, 4], Input [2, 1, 0, 4], LowerDown]"
  have c: "calls (fsm_run null_callbacks ?es (fsm_init fsm0)) = [Up, Down, Closed]"
    "state (fsm_run null_callbacks ?es (fsm_init fsm0)) = CLOSED" by code_simp+
  have "no_reject_open null_callbacks ?es (fsm_init fsm0)" by simp
  then show ?thesis
    using fsm_upcalls_alternate [of null_callbacks fsm0 ?es] c
    by (simp add: fsm0_def fsm_init_def null_callbacks_def keeps_def)
qed

text \<open>
  A Configure-Reject that arrives while the connection is open takes it down
  without telling the upper layers: the automaton restarts, and when the
  connection opens again they are told so a second time.
\<close>

theorem fsm_reject_skips_down:
  "\<exists>es. calls (fsm_run null_callbacks es (fsm_init fsm0)) = [Up, Up] \<and>
     (\<exists>es1 es2. es = es1 @ es2 \<and> calls (fsm_run null_callbacks es1 (fsm_init fsm0)) = [Up] \<and>
        state (fsm_run null_callbacks es1 (fsm_init fsm0)) = REQSENT)"
proof -
  let ?es1 = "[ActiveOpen, LowerUp, Input [1, 7, 0, 4], Input [2, 1, 0, 4], Input [4, 1, 0, 4]]"
  let ?es2 = "[Input [1, 8, 0, 4], Input [2, 2, 0, 4]]"
  have "calls (fsm_run null_callbacks (?es1 @ ?es2) (fsm_init fsm0)) = [Up, Up]"
    "calls (fsm_run null_callbacks ?es1 (fsm_init fsm0)) = [Up]"
    "state (fsm_run null_callbacks ?es1 (fsm_init fsm0)) = REQSENT" by code_simp+
  then show ?thesis by blast
qed

text \<open>
  An unanswered negotiation ends.  From a freshly sent request, the
  automaton repeats it \<^verbatim>\<open>maxconfreqtransmits\<close> + 1 times and then closes; a termination
  that stays unanswered ends in \<^verbatim>\<open>CLOSED\<close> after half of \<^verbatim>\<open>maxtermtransmits\<close> repetitions,
  because each timeout counts twice.
\<close>

theorem fsm_unanswered_gives_up:
  assumes "keeps (\<lambda>g. state g = CLOSED \<and> timers g = 0) cb"
    "timers f = 1" "\<not> popending f" "retransmits f = 0" "0 \<le> maxconfreqtransmits f"
    "maxtermtransmits f = 2 * int k"
  shows "(state f = REQSENT \<longrightarrow>
      (let n = nat (maxconfreqtransmits f) + 1; g = fsm_run cb (replicate n Expire) f;
           h = fsm_run cb (replicate (n + 1) Expire) f in
       state g = REQSENT \<and> length (sent g) = length (sent f) + n \<and> state h = CLOSED \<and> timers h = 0)) \<and>
    (state f = TERMSENT \<longrightarrow>
      (let g = fsm_run cb (replicate k Expire) f; h = fsm_run cb (replicate (k + 1) Expire) f in
       state g = TERMSENT \<and> length (sent g) = length (sent f) + k \<and> state h = CLOSED \<and> timers h = 0))"
proof (intro conjI impI)
  assume "state f = REQSENT"
  then show "let n = nat (maxconfreqtransmits f) + 1; g = fsm_run cb (replicate n Expire) f;
         h = fsm_run cb (replicate (n + 1) Expire) f in
     state g = REQSENT \<and> length (sent g) = length (sent f) + n \<and> state h = CLOSED \<and> timers h = 0"
    using reqsent_timeouts [of f "nat (maxconfreqtransmits f) + 1" cb] assms(2-)
    unfolding Let_def fsm_run_again by (auto simp: fsm_timeout_def fsm_close_def Let_def closed_stays [OF assms(1)])
next
  assume "state f = TERMSENT"
  then show "let g = fsm_run cb (replicate k Expire) f; h = fsm_run cb (replicate (k + 1) Expire) f in
     state g = TERMSENT \<and> length (sent g) = length (sent f) + k \<and> state h = CLOSED \<and> timers h = 0"
    using termsent_timeouts [of f k cb] assms(2-) unfolding Let_def fsm_run_again by (auto simp: fsm_timeout_def Let_def closed_stays [OF assms(1)])
qed

theorem fsm_unanswered_gives_up_witness:
  "let f = fsm_run null_callbacks [LowerUp, ActiveOpen] fsm0 in
   state f = REQSENT \<and> state (fsm_run null_callbacks (replicate 12 Expire) f) = CLOSED"
proof -
  let ?f = "fsm_run null_callbacks [LowerUp, ActiveOpen] fsm0"
  have f: "state ?f = REQSENT" "timers ?f = 1" "\<not> popending ?f" "retransmits ?f = 0"
    "maxconfreqtransmits ?f = 10" "maxtermtransmits ?f = 10" by code_simp+
  then show ?thesis
    using fsm_unanswered_gives_up [of null_callbacks ?f 5] unfolding Let_def
    by (simp add: keeps_def null_callbacks_def del: fsm_run_Cons)
qed

end
