(* ===== verification/Pppopt.thy ===== *)
theory Pppopt
  imports Fsm Bytes "HOL-Library.Monad_Syntax"
begin

text \<open>
  What the protocols of the PPP daemon share: the byte macros of
  \<^verbatim>\<open>src/libexec/pppd/pppd.h\<close> and the loop that answers a Configure-Request, which
  \<^verbatim>\<open>lcp.c\<close> and \<^verbatim>\<open>ipcp.c\<close> have in the same form around their own option switch.
  Buffers are byte lists, pointers into them are offsets, and \<open>None\<close> is an access
  outside the buffer.
\<close>

section \<open>Buffers\<close>

definition GETCHAR :: "u8 list \<Rightarrow> nat \<Rightarrow> u8 option" where
  "GETCHAR b p = (if p < length b then Some (b ! p) else None)"

definition GETSHORT :: "u8 list \<Rightarrow> nat \<Rightarrow> u16 option" where
  "GETSHORT b p = (if p + 2 \<le> length b then Some (short_of (b ! p) (b ! (p + 1))) else None)"

definition GETLONG :: "u8 list \<Rightarrow> nat \<Rightarrow> u32 option" where
  "GETLONG b p =
     (if p + 4 \<le> length b then Some (long_of (b ! p) (b ! (p + 1)) (b ! (p + 2)) (b ! (p + 3))) else None)"

text \<open>Writing bytes at an offset, and \<^verbatim>\<open>bcopy\<close>, which handles overlap.\<close>

definition PUT :: "u8 list \<Rightarrow> u8 list \<Rightarrow> nat \<Rightarrow> u8 list option" where
  "PUT xs b p = (if p + length xs \<le> length b then Some (take p b @ xs @ drop (p + length xs) b) else None)"

definition BCOPY :: "u8 list \<Rightarrow> nat \<Rightarrow> nat \<Rightarrow> nat \<Rightarrow> u8 list option" where
  "BCOPY b src dst n = (if src + n \<le> length b then PUT (take n (drop src b)) b dst else None)"

text \<open>Reading and writing where the value stands.\<close>

lemma GET_at [simp]:
  "length pre = p \<Longrightarrow> GETCHAR (pre @ x # r) p = Some x"
  "length pre = p \<Longrightarrow> GETSHORT (pre @ bytes_of_short s @ r) p = Some s"
  "length pre = p \<Longrightarrow> GETLONG (pre @ bytes_of_long l @ r) p = Some l"
  by (auto simp: GETCHAR_def GETSHORT_def GETLONG_def bytes_of_short_def bytes_of_long_def nth_append)

lemma PUT_at [simp]: "length pre = p \<Longrightarrow> length xs = length ys \<Longrightarrow> PUT xs (pre @ ys @ r) p = Some (pre @ xs @ r)"
  by (simp add: PUT_def)

section \<open>Answering a Configure-Request\<close>

text \<open>The option switch: from the state, the buffer, the offset of the option's data, its
  type and the length of the data, the verdict on the option, the buffer, the offset
  reached and the state.\<close>

type_synonym 'c switch = "'c \<Rightarrow> u8 list \<Rightarrow> nat \<Rightarrow> u8 \<Rightarrow> nat \<Rightarrow> (u8 \<times> u8 list \<times> nat \<times> 'c) option"

text \<open>After the switch: whether the option goes into the reply, and the move that puts
  it there.\<close>

definition place :: "u8 \<Rightarrow> u8 \<Rightarrow> nat \<Rightarrow> nat \<Rightarrow> nat \<Rightarrow> u8 list \<Rightarrow> (u8 \<times> nat \<times> u8 list) option" where
  "place orc rc ucp cip n b =
     (if orc = CONFACK \<and> rc \<noteq> CONFACK then Some (rc, ucp, b)
      else if orc = CONFNAK \<and> rc = CONFREJ then Some (rc, ucp, b)
      else
        let (rc, ucp) = (if orc = CONFNAK \<and> rc = CONFACK then (CONFNAK, 0)
                         else if orc = CONFREJ \<and> rc \<noteq> CONFREJ then (CONFREJ, 0)
                         else (rc, ucp)) in
        do { b \<leftarrow> (if ucp \<noteq> cip then BCOPY b cip ucp n else Some b); Some (rc, ucp + n, b) })"

text \<open>The loop \<^verbatim>\<open>while (l)\<close>.  \<open>cast\<close> is the conversion of the remaining length to the type
  of \<^verbatim>\<open>cilen\<close>.\<close>

function req_loop :: "(nat \<Rightarrow> nat) \<Rightarrow> 'c switch \<Rightarrow> nat \<Rightarrow> 'c \<Rightarrow> u8 list \<Rightarrow> nat \<Rightarrow> nat \<Rightarrow> u8 \<Rightarrow>
    (u8 \<times> u8 list \<times> 'c) option" where
  "req_loop cast sw l c b p ucp rc =
     (if l = 0 then Some (rc, take ucp b, c)
      else
        do {
          n \<leftarrow> (if l < 2 then Some 0 else map_option unat (GETCHAR b (p + 1)));
          if n < 2 \<or> n > l then
            do { (rc, ucp, b) \<leftarrow> place CONFREJ rc ucp p (cast l) b; Some (rc, take ucp b, c) }
          else
            do {
              t \<leftarrow> GETCHAR b p;
              (orc, b, p', c) \<leftarrow> sw c b (p + 2) t (n - 2);
              (rc, ucp, b) \<leftarrow> place orc rc ucp p n b;
              req_loop cast sw (l - n) c b p' ucp rc
            }
        })"
  by pat_completeness auto
termination by (relation "measure (\<lambda>(cast, sw, l, c, b, p, ucp, rc). l)") auto

declare req_loop.simps [simp del]

text \<open>The three ways an iteration goes.\<close>

definition bad_option :: "nat \<Rightarrow> u8 list \<Rightarrow> nat \<Rightarrow> bool" where
  "bad_option l b p \<longleftrightarrow> l < 2 \<or> unat (b ! (p + 1)) < 2 \<or> unat (b ! (p + 1)) > l"

lemma req_loop_end: "req_loop cast sw 0 c b p ucp rc = Some (rc, take ucp b, c)"
  by (subst req_loop.simps) simp

lemma req_loop_bad:
  assumes "l \<noteq> 0" "p + l \<le> length b" "bad_option l b p"
  shows "req_loop cast sw l c b p ucp rc =
    map_option (\<lambda>(rc, ucp, b). (rc, take ucp b, c)) (place CONFREJ rc ucp p (cast l) b)"
  using assms by (subst req_loop.simps) (auto simp: bad_option_def GETCHAR_def map_conv_bind_option case_prod_unfold comp_def)

lemma req_loop_step:
  assumes "p + l \<le> length b" "\<not> bad_option l b p" "n = unat (b ! (p + 1))"
    "sw c b (p + 2) (b ! p) (n - 2) = Some (orc, b', p', c')" "place orc rc ucp p n b' = Some (rc', ucp', b'')"
  shows "req_loop cast sw l c b p ucp rc = req_loop cast sw (l - n) c' b'' p' ucp' rc'"
  using assms by (subst req_loop.simps) (auto simp: bad_option_def GETCHAR_def)

text \<open>An option accepted while all before it were.\<close>

lemma req_loop_accept:
  assumes "opt = t # n # d" "unat n = length d + 2" "p = length pre" "q = p + length opt"
    "sw c (pre @ opt @ r) (p + 2) t (length d) = Some (CONFACK, pre @ opt @ r, q, c')"
  shows "req_loop cast sw (length opt + length r) c (pre @ opt @ r) p p CONFACK =
    req_loop cast sw (length r) c' (pre @ opt @ r) q q CONFACK"
proof -
  have "place CONFACK CONFACK p p (unat n) (pre @ opt @ r) = Some (CONFACK, q, pre @ opt @ r)"
    using assms(1,2,4) by (simp add: place_def)
  then show ?thesis
    using req_loop_step [of p "length opt + length r" "pre @ opt @ r" "unat n" sw c CONFACK "pre @ opt @ r" q c' CONFACK p CONFACK q
      "pre @ opt @ r" cast] assms by (auto simp: nth_append bad_option_def)
qed

abbreviation verdict_code :: "u8 \<Rightarrow> bool" where
  "verdict_code rc \<equiv> rc = CONFACK \<or> rc = CONFNAK \<or> rc = CONFREJ"

section \<open>Well-behaved switches\<close>

text \<open>The law every switch has to keep: it stays inside the option it is given, and
  accepts an option only as it stands.\<close>

locale option_switch =
  fixes cast :: "nat \<Rightarrow> nat" and ok :: "'c \<Rightarrow> bool" and sw :: "'c switch"
  assumes cast_le: "cast n \<le> n"
    and switch_total: "ok c \<Longrightarrow> p + n \<le> length b \<Longrightarrow>
      \<exists>orc b' p' c'. sw c b p t n = Some (orc, b', p', c') \<and> ok c' \<and> length b' = length b \<and> p' \<le> p + n \<and> verdict_code orc"
    and switch_ack: "ok c \<Longrightarrow> p + n \<le> length b \<Longrightarrow> sw c b p t n = Some (CONFACK, b', p', c') \<Longrightarrow> b' = b \<and> p' = p + n"
begin

lemma place_total:
  assumes "cip + n \<le> length b" "ucp + n \<le> length b" "verdict_code orc" "verdict_code rc"
  shows "\<exists>rc' ucp' b'. place orc rc ucp cip n b = Some (rc', ucp', b') \<and> length b' = length b \<and>
    ucp' \<le> ucp + n \<and> verdict_code rc' \<and> (rc' = CONFACK \<longrightarrow> rc = CONFACK \<and> orc = CONFACK)"
  using assms by (auto simp: place_def BCOPY_def PUT_def)

lemma loop_total:
  assumes "ok c" "p + l \<le> length b" "ucp + l \<le> length b" "verdict_code rc"
  shows "\<exists>rc' out c'. req_loop cast sw l c b p ucp rc = Some (rc', out, c') \<and> verdict_code rc' \<and> ok c' \<and>
    length out \<le> ucp + l \<and> (rc' = CONFACK \<longrightarrow> rc = CONFACK \<and> (ucp = p \<longrightarrow> out = take (p + l) b))"
  using assms
proof (induction l arbitrary: c b p ucp rc rule: less_induct)
  case (less l)
  consider "l = 0" | (bad) "l \<noteq> 0" "bad_option l b p" | (good) "\<not> bad_option l b p" by blast
  then show ?case
  proof cases
    case 1
    then show ?thesis using less.prems by (auto simp: req_loop_end)
  next
    case bad
    obtain rc' ucp' b' where "place CONFREJ rc ucp p (cast l) b = Some (rc', ucp', b')" "ucp' \<le> ucp + cast l"
      "verdict_code rc'" "rc' \<noteq> CONFACK"
      using place_total [of p "cast l" b ucp CONFREJ rc] less.prems cast_le [of l] by auto
    then show ?thesis using bad less.prems cast_le [of l] by (auto simp: req_loop_bad)
  next
    case good
    define n where "n = unat (b ! (p + 1))"
    have n: "2 \<le> n" "n \<le> l" using good by (auto simp: bad_option_def n_def)
    then have e: "p + 2 + (n - 2) = p + n" by simp
    obtain orc b' p' c' where sw: "sw c b (p + 2) (b ! p) (n - 2) = Some (orc, b', p', c')" "ok c'" "length b' = length b"
      "p' \<le> p + n" "verdict_code orc"
      using switch_total [OF less.prems(1), of "p + 2" "n - 2" b "b ! p", unfolded e] less.prems(2) n by auto
    obtain rc' ucp' b'' where pl: "place orc rc ucp p n b' = Some (rc', ucp', b'')" "length b'' = length b'" "ucp' \<le> ucp + n"
      "verdict_code rc'" "rc' = CONFACK \<longrightarrow> rc = CONFACK \<and> orc = CONFACK"
      using place_total [of p n b' ucp orc rc] less.prems n sw by auto
    have ack: "b'' = b \<and> p' = p + n \<and> ucp' = p + n" if "rc' = CONFACK" "ucp = p"
      using pl(1) pl(5) that switch_ack [OF less.prems(1), of "p + 2" "n - 2" b "b ! p" b' p' c', unfolded e] sw(1) n less.prems(2)
      by (auto simp: place_def)
    have "\<exists>rc'' out c''. req_loop cast sw (l - n) c' b'' p' ucp' rc' = Some (rc'', out, c'') \<and> verdict_code rc'' \<and> ok c'' \<and>
      length out \<le> ucp' + (l - n) \<and> (rc'' = CONFACK \<longrightarrow> rc' = CONFACK \<and> (ucp' = p' \<longrightarrow> out = take (p' + (l - n)) b''))"
      by (rule less.IH) (use n sw pl less.prems in auto)
    moreover have "req_loop cast sw l c b p ucp rc = req_loop cast sw (l - n) c' b'' p' ucp' rc'"
      by (rule req_loop_step [of p l b n]) (use less.prems(2) good n_def sw(1) pl(1) in auto)
    ultimately show ?thesis using pl n ack by fastforce
  qed
qed

end

section \<open>What the reply should be\<close>

text \<open>The rule of the protocol, without buffer and pointers: every option gets a verdict, which
  is the protocol's own function;
  the reply carries the rejected options if there are any, else the options to be
  changed with their proposed values, else the whole request.\<close>

type_synonym 'c verdict = "'c \<Rightarrow> u8 \<Rightarrow> u8 list \<Rightarrow> u8 \<times> u8 list \<times> 'c"

function answers :: "(nat \<Rightarrow> nat) \<Rightarrow> 'c verdict \<Rightarrow> 'c \<Rightarrow> u8 list \<Rightarrow> (u8 \<times> u8 list) list \<times> 'c" where
  "answers cast v c r =
     (if r = [] then ([], c)
      else if bad_option (length r) r 0 then ([(CONFREJ, take (cast (length r)) r)], c)
      else
        let n = unat (r ! 1);
            (orc, d, c1) = v c (r ! 0) (take (n - 2) (drop 2 r));
            (as, c2) = answers cast v c1 (drop n r) in
        ((orc, r ! 0 # r ! 1 # d) # as, c2))"
  by pat_completeness auto
termination by (relation "measure (\<lambda>(cast, v, c, r). length r)") (auto simp: bad_option_def)

declare answers.simps [simp del]

lemma answers_short: "(\<And>n. n < k \<Longrightarrow> cast n = n) \<Longrightarrow> length r < k \<Longrightarrow> answers cast v c r = answers id v c r"
proof (induction "length r" arbitrary: r c rule: less_induct)
  case less
  show ?case
  proof (cases "r = [] \<or> bad_option (length r) r 0")
    case True
    then show ?thesis using less.prems by (auto simp: answers.simps [of cast] answers.simps [of id])
  next
    case False
    then have "0 < unat (r ! 1)" "r \<noteq> []" by (auto simp: bad_option_def)
    then have "answers cast v c1 (drop (unat (r ! 1)) r) = answers id v c1 (drop (unat (r ! 1)) r)" for c1
      using less.prems by (intro less.hyps) auto
    then show ?thesis using False by (subst (1 2) answers.simps) (simp add: Let_def)
  qed
qed

lemma answers_step:
  assumes "\<not> bad_option (length r) r 0" "v c (r ! 0) (take (unat (r ! 1) - 2) (drop 2 r)) = (orc, d, c1)"
    "answers cast v c1 (drop (unat (r ! 1)) r) = (as, c2)"
  shows "answers cast v c r = ((orc, r ! 0 # r ! 1 # d) # as, c2)"
  using assms by (subst answers.simps) (auto simp: Let_def bad_option_def)

abbreviation of_verdict :: "u8 \<Rightarrow> (u8 \<times> u8 list) list \<Rightarrow> u8 list list" where
  "of_verdict rc as \<equiv> map snd (filter (\<lambda>a. fst a = rc) as)"

definition reply :: "(u8 \<times> u8 list) list \<Rightarrow> u8 \<times> u8 list" where
  "reply as =
     (if CONFREJ \<in> fst ` set as then (CONFREJ, concat (of_verdict CONFREJ as))
      else if CONFNAK \<in> fst ` set as then (CONFNAK, concat (of_verdict CONFNAK as))
      else (CONFACK, concat (map snd as)))"

lemma of_verdict_none: "rc \<notin> fst ` set as \<Longrightarrow> filter (\<lambda>a. fst a = rc) as = []"
  by (auto simp: filter_empty_conv)

lemma reply_snoc:
  assumes "reply as = (rc, out)"
  shows "reply (as @ [(CONFACK, x)]) = (if rc = CONFACK then (CONFACK, out @ x) else (rc, out))"
    "reply (as @ [(CONFNAK, x)]) = (if rc = CONFREJ then (rc, out) else if rc = CONFACK then (CONFNAK, x) else (CONFNAK, out @ x))"
    "reply (as @ [(CONFREJ, x)]) = (CONFREJ, if rc = CONFREJ then out @ x else x)"
  using assms by (simp_all add: reply_def of_verdict_none split: if_splits) force+

lemma reply_code: "reply as = (rc, out) \<Longrightarrow> verdict_code rc"
  by (auto simp: reply_def split: if_splits)

lemma BCOPY_down:
  assumes "dst \<le> src" "src + n \<le> length b"
  obtains b' where "BCOPY b src dst n = Some b'" "length b' = length b"
    "take (dst + n) b' = take dst b @ take n (drop src b)" "drop (src + n) b' = drop (src + n) b"
proof -
  have "drop (n + src) (take dst b @ take n (drop src b) @ drop (dst + n) b) = drop (n + src) b"
    using assms by (simp add: add.commute add.left_commute)
  then show thesis
    using that [of "take dst b @ take n (drop src b) @ drop (dst + n) b"] assms
    by (simp add: BCOPY_def PUT_def add.commute)
qed

lemma place_replies:
  assumes "reply as = (rc, take ucp b)" "ucp \<le> p" "p + n \<le> length b" "verdict_code orc"
  shows "\<exists>rc' ucp' b'. place orc rc ucp p n b = Some (rc', ucp', b') \<and>
    reply (as @ [(orc, take n (drop p b))]) = (rc', take ucp' b') \<and> ucp' \<le> p + n \<and> length b' = length b \<and>
    drop (p + n) b' = drop (p + n) b" (is "?placed")
proof -
  have copy: ?placed if "place orc rc ucp p n b = do { b \<leftarrow> (if u \<noteq> p then BCOPY b p u n else Some b); Some (rc', u + n, b) }"
    "reply (as @ [(orc, take n (drop p b))]) = (rc', take u b @ take n (drop p b))" "u \<le> p" for u rc'
  proof (cases "u = p")
    case True
    then show ?thesis using that assms by (simp add: take_add)
  next
    case False
    note moved = that
    obtain b' where "BCOPY b p u n = Some b'" "length b' = length b" "take (u + n) b' = take u b @ take n (drop p b)"
      "drop (p + n) b' = drop (p + n) b" using BCOPY_down [OF moved(3) assms(3)] by blast
    then show ?thesis using moved False by simp
  qed
  have skip: ?placed if "place orc rc ucp p n b = Some (rc, ucp, b)" "reply (as @ [(orc, take n (drop p b))]) = (rc, take ucp b)"
    using that assms by simp
  note snoc = reply_snoc [OF assms(1), of "take n (drop p b)"]
  from assms(4) show ?thesis
  proof (elim disjE)
    assume orc: "orc = CONFACK"
    show ?thesis
    proof (cases "rc = CONFACK")
      case True
      then show ?thesis by (intro copy [of ucp CONFACK]) (use orc snoc(1) assms(2) in \<open>simp_all add: place_def\<close>)
    next
      case False
      then show ?thesis by (intro skip) (use orc snoc(1) in \<open>simp_all add: place_def\<close>)
    qed
  next
    assume orc: "orc = CONFNAK"
    consider "rc = CONFREJ" | "rc = CONFACK" | "rc = CONFNAK" using reply_code [OF assms(1)] by auto
    then show ?thesis
    proof cases
      case 1
      then show ?thesis by (intro skip) (use orc snoc(2) in \<open>simp_all add: place_def\<close>)
    next
      case 2
      then show ?thesis by (intro copy [of 0 CONFNAK]) (use orc snoc(2) in \<open>simp_all add: place_def\<close>)
    next
      case 3
      then show ?thesis by (intro copy [of ucp CONFNAK]) (use orc snoc(2) assms(2) in \<open>simp_all add: place_def\<close>)
    qed
  next
    assume orc: "orc = CONFREJ"
    show ?thesis
      by (rule copy [of "if rc = CONFREJ then ucp else 0" CONFREJ]) (use orc snoc(3) assms(2) in \<open>simp_all add: place_def\<close>)
  qed
qed

text \<open>What every verdict keeps, the answers keep.\<close>

lemma answers_keep:
  assumes "\<And>c t d orc d' c'. P c \<Longrightarrow> v c t d = (orc, d', c') \<Longrightarrow> P c'" "P c"
  shows "P (snd (answers cast v c r))"
  using assms(2)
proof (induction "length r" arbitrary: r c rule: less_induct)
  case less
  show ?case
  proof (cases "r = [] \<or> bad_option (length r) r 0")
    case True
    then show ?thesis using less.prems by (subst answers.simps) auto
  next
    case False
    obtain orc d c1 where v: "v c (r ! 0) (take (unat (r ! 1) - 2) (drop 2 r)) = (orc, d, c1)" by (metis prod_cases3)
    obtain as c2 where a: "answers cast v c1 (drop (unat (r ! 1)) r) = (as, c2)" by fastforce
    have "P (snd (answers cast v c1 (drop (unat (r ! 1)) r)))"
      by (rule less.hyps) (use False assms(1) [OF less.prems v] in \<open>auto simp: bad_option_def\<close>)
    then show ?thesis using answers_step [of r v c orc d c1 cast as c2] False v a by simp
  qed
qed

text \<open>Requests put together from their options, and judged option by option.\<close>

definition encode :: "(u8 \<times> u8 list) list \<Rightarrow> u8 list" where
  "encode os = concat (map (\<lambda>(t, d). [t, of_nat (2 + length d)] @ d) os)"

fun judge :: "'c verdict \<Rightarrow> 'c \<Rightarrow> (u8 \<times> u8 list) list \<Rightarrow> (u8 \<times> u8 list) list \<times> 'c" where
  "judge v c [] = ([], c)"
| "judge v c ((t, d) # os) =
     (let (orc, d', c1) = v c t d; (as, c2) = judge v c1 os in ((orc, [t, of_nat (2 + length d)] @ d') # as, c2))"

lemma unat_option_length: "length (d :: u8 list) < 254 \<Longrightarrow> unat (of_nat (2 + length d) :: u8) = 2 + length d"
  by (simp only: unat_of_nat) simp

lemma answers_encode: "list_all (\<lambda>(t, d). length d < 254) os \<Longrightarrow> answers cast v c (encode os) = judge v c os"
proof (induction os arbitrary: c)
  case (Cons od os)
  obtain t d where od: "od = (t, d)" by (cases od)
  obtain orc d' c1 where v: "v c t d = (orc, d', c1)" by (cases "v c t d")
  obtain as c2 where j: "judge v c1 os = (as, c2)" by (cases "judge v c1 os")
  define n where "n = (of_nat (2 + length d) :: u8)"
  have n: "unat n = 2 + length d" using Cons.prems od unat_option_length [of d] by (simp add: n_def)
  have e: "encode (od # os) = t # n # d @ encode os" by (simp add: encode_def od n_def)
  have "answers cast v c (t # n # d @ encode os) = ((orc, t # n # d') # as, c2)"
    using answers_step [of "t # n # d @ encode os" v c orc d' c1 cast as c2] v j n Cons.IH [of c1] Cons.prems
    by (simp add: bad_option_def od)
  then show ?case unfolding e by (simp add: od v j n_def)
qed (simp add: encode_def answers.simps)

text \<open>All options accepted.\<close>

fun accepts :: "'c verdict \<Rightarrow> 'c \<Rightarrow> (u8 \<times> u8 list) list \<Rightarrow> 'c option" where
  "accepts v c [] = Some c"
| "accepts v c ((t, d) # os) = (case v c t d of (orc, d', c1) \<Rightarrow> if orc = CONFACK \<and> d' = d then accepts v c1 os else None)"

lemma accepts_append: "accepts v c (os @ os') = (case accepts v c os of None \<Rightarrow> None | Some c1 \<Rightarrow> accepts v c1 os')"
  by (induction v c os rule: accepts.induct) (auto split: prod.splits)

lemma accepts_judge:
  "accepts v c os = Some c' \<Longrightarrow> judge v c os = (map (\<lambda>(t, d). (CONFACK, [t, of_nat (2 + length d)] @ d)) os, c')"
  by (induction v c os rule: accepts.induct) (auto split: prod.splits if_splits)

lemma reply_accepted: "reply (map (\<lambda>(t, d). (CONFACK, [t, of_nat (2 + length d)] @ d)) os) = (CONFACK, encode os)"
proof -
  have "fst ` set (map (\<lambda>(t, d). (CONFACK, [t, of_nat (2 + length d)] @ d)) os) \<subseteq> {CONFACK}" by auto
  then show ?thesis by (auto simp: reply_def encode_def comp_def case_prod_unfold)
qed

lemma drop_take_two: "Suc p < length b \<Longrightarrow> drop p (take (Suc (Suc p)) b) = [b ! p, b ! Suc p]"
  by (simp add: take_Suc_conv_app_nth)

text \<open>A switch that consumes every option whole and decides on its data alone.\<close>

locale tidy_switch =
  fixes cast :: "nat \<Rightarrow> nat" and ok :: "'c \<Rightarrow> bool" and sw :: "'c switch" and v :: "'c verdict"
  assumes tidy_cast_le: "cast n \<le> n"
    and switch_verdict: "ok c \<Longrightarrow> p + n \<le> length b \<Longrightarrow> v c t (take n (drop p b)) = (orc, d, c') \<Longrightarrow>
      sw c b p t n = Some (orc, take p b @ d @ drop (p + n) b, p + n, c')"
    and verdict_ok: "ok c \<Longrightarrow> v c t d = (orc, d', c') \<Longrightarrow>
      ok c' \<and> length d' = length d \<and> verdict_code orc \<and> (orc \<noteq> CONFNAK \<longrightarrow> d' = d)"
begin

text \<open>The loop computes the reply the protocol asks for.\<close>

lemma loop_replies:
  assumes "ok c" "length b = p + l" "ucp \<le> p" "reply as = (rc, take ucp b)"
    "answers cast v c (drop p b) = (as', c')" "reply (as @ as') = (rc', out)"
  shows "req_loop cast sw l c b p ucp rc = Some (rc', out, c')"
  using assms
proof (induction l arbitrary: c b p ucp rc as as' rule: less_induct)
  case (less l)
  let ?r = "drop p b"
  have r: "length ?r = l" "?r ! 0 = b ! p" "?r ! 1 = b ! (p + 1)" if "l \<ge> 2" using less.prems(2) that by auto
  have bad: "bad_option (length ?r) ?r 0 = bad_option l b p" using less.prems(2) by (auto simp: bad_option_def)
  consider "l = 0" | (bad) "l \<noteq> 0" "bad_option l b p" | (good) "\<not> bad_option l b p" by blast
  then show ?case
  proof cases
    case 1
    then have "as' = []" "c' = c" using less.prems(2,5) by (auto simp: answers.simps)
    then show ?thesis using less.prems 1 by (simp add: req_loop_end)
  next
    case bad
    then have "as' = [(CONFREJ, take (cast l) ?r)]" "c' = c"
      using less.prems(2,5) \<open>bad_option (length ?r) ?r 0 = _\<close> by (auto simp: answers.simps)
    then show ?thesis
      using place_replies [OF less.prems(4,3), of "cast l" CONFREJ] tidy_cast_le [of l] less.prems(2,6) bad by (auto simp: req_loop_bad)
  next
    case good
    define n where "n = unat (b ! (p + 1))"
    have n: "2 \<le> n" "n \<le> l" using good by (auto simp: bad_option_def n_def)
    then have e: "p + 2 + (n - 2) = p + n" by simp
    obtain orc d c1 where v: "v c (b ! p) (take (n - 2) (drop (p + 2) b)) = (orc, d, c1)" by (cases "v c (b ! p) (take (n - 2) (drop (p + 2) b))")
    obtain as2 c2 where as2: "answers cast v c1 (drop (p + n) b) = (as2, c2)" by (cases "answers cast v c1 (drop (p + n) b)")
    have "answers cast v c ?r = ((orc, ?r ! 0 # ?r ! 1 # d) # as2, c2)"
      by (rule answers_step) (use good r n v as2 \<open>bad_option (length ?r) ?r 0 = _\<close> in \<open>simp_all add: n_def add.commute\<close>)
    then have as': "as' = (orc, b ! p # b ! (p + 1) # d) # as2" "c2 = c'" using less.prems(5) r n by auto
    have d: "length d = n - 2" "verdict_code orc" "ok c1" using verdict_ok [OF less.prems(1) v] less.prems(2) n by auto
    define b' where "b' = take (p + 2) b @ d @ drop (p + n) b"
    have sw: "sw c b (p + 2) (b ! p) (n - 2) = Some (orc, b', p + n, c1)"
      using switch_verdict [OF less.prems(1) _ v] less.prems(2) n unfolding b'_def e by simp
    have b': "length b' = length b" "take ucp b' = take ucp b" "drop (p + n) b' = drop (p + n) b"
      "take n (drop p b') = b ! p # b ! (p + 1) # d"
      using d(1) n less.prems(2,3) by (auto simp: b'_def drop_take_two take_Cons')
    obtain rc1 ucp1 b1 where pl: "place orc rc ucp p n b' = Some (rc1, ucp1, b1)"
      "reply (as @ [(orc, b ! p # b ! (p + 1) # d)]) = (rc1, take ucp1 b1)" "ucp1 \<le> p + n" "length b1 = length b"
      "drop (p + n) b1 = drop (p + n) b"
      using place_replies [of as rc ucp b' p n orc] less.prems(2,3,4) b' d(2) n by auto
    have "req_loop cast sw (l - n) c1 b1 (p + n) ucp1 rc1 = Some (rc', out, c')"
      by (rule less.IH [where as = "as @ [(orc, b ! p # b ! (p + 1) # d)]" and as' = as2])
        (use n pl d less.prems(2,6) as' as2 in auto)
    then show ?thesis
      using req_loop_step [of p l b n sw c orc b' "p + n" c1 rc ucp rc1 ucp1 b1 cast] less.prems(2) good n_def sw pl(1) by simp
  qed
qed

lemma request_answered:
  assumes "ok c" "answers cast v c dat = (as, c')"
  shows "req_loop cast sw (length dat) c dat 0 0 CONFACK = (let (rc, out) = reply as in Some (rc, out, c'))"
  using loop_replies [of c dat 0 "length dat" 0 "[]" CONFACK as c'] assms by (cases "reply as") (simp add: reply_def)

lemma request_accepted:
  assumes "ok c" "list_all (\<lambda>(t, d). length d < 254) os" "accepts v c os = Some c'"
  shows "req_loop cast sw (length (encode os)) c (encode os) 0 0 CONFACK = Some (CONFACK, encode os, c')"
proof -
  have "answers cast v c (encode os) = (map (\<lambda>(t, d). (CONFACK, [t, of_nat (2 + length d)] @ d)) os, c')"
    using answers_encode [OF assms(2), of cast v c] accepts_judge [OF assms(3)] by simp
  from request_answered [OF assms(1) this] show ?thesis by (simp only: reply_accepted Let_def prod.case)
qed

end

sublocale tidy_switch \<subseteq> option_switch cast ok sw
proof
  fix c p n t p' c' and b b' :: "u8 list"
  assume ok: "ok c" and b: "p + n \<le> length b"
  obtain orc d c1 where v: "v c t (take n (drop p b)) = (orc, d, c1)" by (cases "v c t (take n (drop p b))")
  note sw = switch_verdict [OF ok b v] and vo = verdict_ok [OF ok v]
  show "\<exists>orc b' p' c'. sw c b p t n = Some (orc, b', p', c') \<and> ok c' \<and> length b' = length b \<and> p' \<le> p + n \<and> verdict_code orc"
    using sw vo b by auto
  assume "sw c b p t n = Some (CONFACK, b', p', c')"
  then show "b' = b \<and> p' = p + n"
    using sw vo b by (auto simp: append_take_drop_id append_assoc [symmetric] take_add [symmetric] simp del: append_assoc)
qed (rule tidy_cast_le)

end
