(* ===== verification/Ipcp.thy ===== *)
theory Ipcp
  imports Pppopt
begin

text \<open>
  The IP control protocol of the PPP daemon (\<^verbatim>\<open>src/libexec/pppd/ipcp.c\<close>): the options it
  asks for, and the routines the automaton calls to build its request, to take in the
  peer's acknowledgement, counter-proposal or rejection, and to answer the peer's
  request.  The options are kept per unit; here one unit is modelled.  Addresses are
  kept in network byte order in the source and converted by \<^verbatim>\<open>ntohl\<close> and \<^verbatim>\<open>htonl\<close> at each
  use; the model keeps the converted value.
\<close>

section \<open>Data\<close>

abbreviation (input) CI_ADDRS :: u8 where "CI_ADDRS \<equiv> 1"
abbreviation (input) CI_COMPRESSTYPE :: u8 where "CI_COMPRESSTYPE \<equiv> 2"
abbreviation (input) CI_ADDR :: u8 where "CI_ADDR \<equiv> 3"
abbreviation (input) MAX_STATES :: u8 where "MAX_STATES \<equiv> 16"
abbreviation (input) IPCP_VJMODE_OLD :: int where "IPCP_VJMODE_OLD \<equiv> 1"
abbreviation (input) IPCP_VJMODE_RFC1172 :: int where "IPCP_VJMODE_RFC1172 \<equiv> 2"
abbreviation (input) IPCP_VJMODE_RFC1332 :: int where "IPCP_VJMODE_RFC1332 \<equiv> 3"
abbreviation (input) IPCP_VJ_COMP :: u16 where "IPCP_VJ_COMP \<equiv> 0x2d"
abbreviation (input) IPCP_VJ_COMP_OLD :: u16 where "IPCP_VJ_COMP_OLD \<equiv> 0x37"
abbreviation (input) IPCP :: u16 where "IPCP \<equiv> 0x8021"

record ipcp_options =
  neg_addrs :: bool
  neg_addr :: bool
  got_addr :: bool
  ouraddr :: u32
  hisaddr :: u32
  neg_vj :: bool
  maxslotindex :: u8
  cflag :: u8

text \<open>\<^verbatim>\<open>ipcp_wantoptions\<close>, \<^verbatim>\<open>ipcp_gotoptions\<close>, \<^verbatim>\<open>ipcp_allowoptions\<close>, \<^verbatim>\<open>ipcp_hisoptions\<close> and the
  header compression mode.\<close>

record ipcp =
  wo :: ipcp_options
  go :: ipcp_options
  ao :: ipcp_options
  ho :: ipcp_options
  vj_mode :: int
  vj_opt_len :: nat
  vj_opt_val :: u16

section \<open>Our request\<close>

definition ipcp_vj_setmode :: "int \<Rightarrow> ipcp \<Rightarrow> ipcp" where
  "ipcp_vj_setmode mode c0 =
     (let c = c0\<lparr>vj_mode := mode\<rparr> in
      if mode = IPCP_VJMODE_OLD then c\<lparr>vj_opt_len := 4, vj_opt_val := IPCP_VJ_COMP_OLD\<rparr>
      else if mode = IPCP_VJMODE_RFC1172 then c\<lparr>vj_opt_len := 4, vj_opt_val := IPCP_VJ_COMP\<rparr>
      else if mode = IPCP_VJMODE_RFC1332 then c\<lparr>vj_opt_len := 6, vj_opt_val := IPCP_VJ_COMP\<rparr>
      else c)"

definition ipcp_resetci :: "ipcp \<Rightarrow> ipcp" where
  "ipcp_resetci c = c\<lparr>go := wo c\<rparr>"

definition ipcp_cilen :: "ipcp \<Rightarrow> nat" where
  "ipcp_cilen c =
     (if neg_addrs (go c) then 10 else 0) + (if neg_addr (go c) then 6 else 0) + (if neg_vj (go c) then vj_opt_len c else 0)"

definition ipcp_addci :: "ipcp \<Rightarrow> u8 list" where
  "ipcp_addci c =
     (if neg_addrs (go c) then [CI_ADDRS, 10] @ bytes_of_long (ouraddr (go c)) @ bytes_of_long (hisaddr (go c)) else []) @
     (if neg_addr (go c) then [CI_ADDR, 6] @ bytes_of_long (ouraddr (go c)) else []) @
     (if neg_vj (go c) then
        [CI_COMPRESSTYPE, of_nat (vj_opt_len c)] @ bytes_of_short (vj_opt_val c) @
        (if vj_mode c = IPCP_VJMODE_RFC1332 then [maxslotindex (go c), cflag (go c)] else [])
      else [])"

section \<open>The peer's answer\<close>

text \<open>Each macro takes the options and the rest of the packet; \<open>None\<close> is \<^verbatim>\<open>goto bad\<close>.  What
  was stored before a later option turns out bad stays stored.\<close>

definition take_addr :: "u32 \<Rightarrow> u32 \<Rightarrow> u32 option" where
  "take_addr val cilong = (if val \<noteq> 0 \<and> val \<noteq> cilong then None else Some cilong)"

definition ACKCIADDRS :: "ipcp_options \<Rightarrow> u8 list \<Rightarrow> ipcp_options \<times> u8 list option" where
  "ACKCIADDRS g p =
     (if \<not> neg_addrs g then (g, Some p)
      else case p of
        t # n # a1 # a2 # a3 # a4 # b1 # b2 # b3 # b4 # r \<Rightarrow>
          if n \<noteq> 10 \<or> t \<noteq> CI_ADDRS then (g, None)
          else (case take_addr (ouraddr g) (long_of a1 a2 a3 a4) of
            None \<Rightarrow> (g, None)
          | Some x \<Rightarrow>
              let g1 = g\<lparr>ouraddr := x\<rparr> in
              (case take_addr (hisaddr g1) (long_of b1 b2 b3 b4) of
                None \<Rightarrow> (g1, None)
              | Some y \<Rightarrow> (g1\<lparr>hisaddr := y\<rparr>, Some r)))
      | _ \<Rightarrow> (g, None))"

definition ACKCIADDR :: "ipcp_options \<Rightarrow> u8 list \<Rightarrow> ipcp_options \<times> u8 list option" where
  "ACKCIADDR g p =
     (if \<not> neg_addr g then (g, Some p)
      else case p of
        t # n # a1 # a2 # a3 # a4 # r \<Rightarrow>
          if n \<noteq> 6 \<or> t \<noteq> CI_ADDR then (g, None)
          else (case take_addr (ouraddr g) (long_of a1 a2 a3 a4) of
            None \<Rightarrow> (g, None)
          | Some x \<Rightarrow> (g\<lparr>ouraddr := x\<rparr>, Some r))
      | _ \<Rightarrow> (g, None))"

text \<open>The compression option is the last one: what is left must be exactly as long as it.\<close>

definition ACKCISHORT :: "ipcp \<Rightarrow> u8 list \<Rightarrow> bool" where
  "ACKCISHORT c p =
     (if \<not> neg_vj (go c) then p = []
      else if length p < vj_opt_len c then False
      else case p of
        t # n # s1 # s2 # r \<Rightarrow>
          \<not> (unat n \<noteq> vj_opt_len c \<or> t \<noteq> CI_COMPRESSTYPE) \<and> short_of s1 s2 = vj_opt_val c \<and>
          (vj_mode c = IPCP_VJMODE_RFC1332 \<longrightarrow>
             (case r of m # f # _ \<Rightarrow> m \<le> maxslotindex (go c) \<and> f = cflag (go c) | _ \<Rightarrow> False)) \<and>
          length p = vj_opt_len c
      | _ \<Rightarrow> False)"

definition ipcp_ackci :: "ipcp \<Rightarrow> u8 list \<Rightarrow> bool \<times> ipcp" where
  "ipcp_ackci c p =
     (case ACKCIADDRS (go c) p of
        (g, None) \<Rightarrow> (False, c\<lparr>go := g\<rparr>)
      | (g, Some p) \<Rightarrow>
          (case ACKCIADDR g p of
             (g, None) \<Rightarrow> (False, c\<lparr>go := g\<rparr>)
           | (g, Some p) \<Rightarrow> (ACKCISHORT (c\<lparr>go := g\<rparr>) p, c\<lparr>go := g\<rparr>)))"

text \<open>\<^verbatim>\<open>cimaxslotindex\<close> and \<^verbatim>\<open>cicflag\<close> are locals set only in the RFC 1332 mode; \<open>junk\<close> is what
  they hold otherwise.\<close>

definition NAKCIADDRS :: "ipcp_options \<Rightarrow> u8 list \<Rightarrow> ipcp_options \<times> u8 list" where
  "NAKCIADDRS g p =
     (case p of
        t # n # a1 # a2 # a3 # a4 # b1 # b2 # b3 # b4 # r \<Rightarrow>
          if neg_addrs g \<and> n = 10 \<and> t = CI_ADDRS then
            let ciaddr1 = long_of a1 a2 a3 a4; ciaddr2 = long_of b1 b2 b3 b4;
                g1 = (if ouraddr g = 0 then g\<lparr>ouraddr := ciaddr1\<rparr> else g);
                g2 = (if ciaddr2 \<noteq> 0 then g1\<lparr>hisaddr := ciaddr2\<rparr> else g1) in
            (g2, r)
          else (g, p)
      | _ \<Rightarrow> (g, p))"

definition NAKCIADDR :: "ipcp_options \<Rightarrow> u8 list \<Rightarrow> ipcp_options \<times> u8 list" where
  "NAKCIADDR g p =
     (case p of
        t # n # a1 # a2 # a3 # a4 # r \<Rightarrow>
          if neg_addr g \<and> n = 6 \<and> t = CI_ADDR then
            (if ouraddr g = 0 then g\<lparr>ouraddr := long_of a1 a2 a3 a4\<rparr> else g, r)
          else (g, p)
      | _ \<Rightarrow> (g, p))"

definition NAKCISHORT :: "u8 \<times> u8 \<Rightarrow> ipcp \<Rightarrow> u8 list \<Rightarrow> ipcp" where
  "NAKCISHORT junk c p =
     (case p of
        t # n # s1 # s2 # r \<Rightarrow>
          if neg_vj (go c) \<and> length p \<ge> vj_opt_len c \<and> unat n = vj_opt_len c \<and> t = CI_COMPRESSTYPE then
            let (m, f) = (if vj_mode c = IPCP_VJMODE_RFC1332 then (case r of m # f # _ \<Rightarrow> (m, f) | _ \<Rightarrow> junk) else junk) in
            if short_of s1 s2 \<noteq> vj_opt_val c then c
            else c\<lparr>go := (go c)\<lparr>maxslotindex := m, cflag := f\<rparr>\<rparr>
          else c
      | _ \<Rightarrow> c)"

definition ipcp_nakci :: "u8 \<times> u8 \<Rightarrow> ipcp \<Rightarrow> u8 list \<Rightarrow> ipcp" where
  "ipcp_nakci junk c p =
     (let (g1, p1) = NAKCIADDRS (go c) p; (g2, p2) = NAKCIADDR g1 p1 in
      NAKCISHORT junk (c\<lparr>go := g2\<rparr>) p2)"

definition REJCIADDRS :: "ipcp_options \<Rightarrow> u8 list \<Rightarrow> ipcp_options \<times> u8 list option" where
  "REJCIADDRS g p =
     (case p of
        t # n # a1 # a2 # a3 # a4 # b1 # b2 # b3 # b4 # r \<Rightarrow>
          if neg_addrs g \<and> n = 10 \<and> t = CI_ADDRS then
            if long_of a1 a2 a3 a4 \<noteq> hisaddr g then (g, None)
            else if long_of b1 b2 b3 b4 \<noteq> ouraddr g then (g, None)
            else (g\<lparr>neg_addrs := False\<rparr>, Some r)
          else (g, Some p)
      | _ \<Rightarrow> (g, Some p))"

definition REJCIADDR :: "ipcp_options \<Rightarrow> u8 list \<Rightarrow> ipcp_options \<times> u8 list option" where
  "REJCIADDR g p =
     (case p of
        t # n # a1 # a2 # a3 # a4 # r \<Rightarrow>
          if neg_addr g \<and> n = 6 \<and> t = CI_ADDR then
            if long_of a1 a2 a3 a4 \<noteq> ouraddr g then (g, None) else (g\<lparr>neg_addr := False\<rparr>, Some r)
          else (g, Some p)
      | _ \<Rightarrow> (g, Some p))"

definition REJCISHORT :: "ipcp \<Rightarrow> u8 list \<Rightarrow> ipcp" where
  "REJCISHORT c p =
     (case p of
        t # n # s1 # s2 # r \<Rightarrow>
          if neg_vj (go c) \<and> length p \<ge> vj_opt_len c \<and> unat n = vj_opt_len c \<and> t = CI_COMPRESSTYPE then
            if short_of s1 s2 \<noteq> vj_opt_val c then c
            else if vj_mode c = IPCP_VJMODE_RFC1332 \<and>
              (case r of m # f # _ \<Rightarrow> m \<noteq> maxslotindex (go c) \<or> f \<noteq> cflag (go c) | _ \<Rightarrow> True) then c
            else c\<lparr>go := (go c)\<lparr>neg_vj := False\<rparr>\<rparr>
          else c
      | _ \<Rightarrow> c)"

definition ipcp_rejci :: "ipcp \<Rightarrow> u8 list \<Rightarrow> ipcp" where
  "ipcp_rejci c p =
     (case REJCIADDRS (go c) p of
        (g, None) \<Rightarrow> c\<lparr>go := g\<rparr>
      | (g, Some p) \<Rightarrow>
          (case REJCIADDR g p of
             (g, None) \<Rightarrow> c\<lparr>go := g\<rparr>
           | (g, Some p) \<Rightarrow> REJCISHORT (c\<lparr>go := g\<rparr>) p))"

section \<open>The peer's request\<close>

definition req_addrs :: "ipcp \<Rightarrow> u8 list \<Rightarrow> nat \<Rightarrow> nat \<Rightarrow> (u8 \<times> u8 list \<times> nat \<times> ipcp) option" where
  "req_addrs c b p n =
     (if \<not> neg_addrs (ao c) \<or> n \<noteq> 8 then Some (CONFREJ, b, p + n, c)
      else do {
        ciaddr1 \<leftarrow> GETLONG b p;
        let nak1 = (ciaddr1 = 0 \<or> neg_addrs (wo c) \<and> hisaddr (wo c) \<noteq> 0 \<and> ciaddr1 \<noteq> hisaddr (wo c));
        b \<leftarrow> (if nak1 then PUT (bytes_of_long (if neg_addrs (wo c) then hisaddr (wo c) else 0)) b p else Some b);
        ciaddr2 \<leftarrow> GETLONG b (p + 4);
        let nak2 = (ciaddr2 = 0 \<or> neg_addrs (wo c) \<and> ouraddr (wo c) \<noteq> 0 \<and> ciaddr2 \<noteq> ouraddr (wo c));
        b \<leftarrow> (if nak2 then PUT (bytes_of_long (ouraddr (wo c))) b (p + 4) else Some b);
        if nak1 \<or> nak2 then Some (CONFNAK, b, p + 8, c)
        else Some (CONFACK, b, p + 8, c\<lparr>ho := (ho c)\<lparr>neg_addrs := True, hisaddr := ciaddr1, ouraddr := ciaddr2\<rparr>\<rparr>)
      })"

definition req_addr :: "ipcp \<Rightarrow> u8 list \<Rightarrow> nat \<Rightarrow> nat \<Rightarrow> (u8 \<times> u8 list \<times> nat \<times> ipcp) option" where
  "req_addr c0 b p n =
     (let c = c0\<lparr>go := (go c0)\<lparr>got_addr := True, neg_addrs := False, neg_addr := True\<rparr>\<rparr> in
      if \<not> neg_addr (ao c) \<or> n \<noteq> 4 then Some (CONFREJ, b, p + n, c)
      else do {
        ciaddr1 \<leftarrow> GETLONG b p;
        if ciaddr1 = 0 \<or> neg_addr (wo c) \<and> hisaddr (wo c) \<noteq> 0 \<and> ciaddr1 \<noteq> hisaddr (wo c) then do {
          b \<leftarrow> PUT (bytes_of_long (if neg_addr (wo c) then hisaddr (wo c) else 0)) b p;
          Some (CONFNAK, b, p + 4, c)
        }
        else Some (CONFACK, b, p + 4, c\<lparr>ho := (ho c)\<lparr>neg_addr := True, hisaddr := ciaddr1\<rparr>\<rparr>)
      })"

definition req_compresstype :: "ipcp \<Rightarrow> u8 list \<Rightarrow> nat \<Rightarrow> nat \<Rightarrow> (u8 \<times> u8 list \<times> nat \<times> ipcp) option" where
  "req_compresstype c0 b p n =
     (if \<not> neg_vj (ao c0) \<or> n + 2 \<noteq> vj_opt_len c0 then Some (CONFREJ, b, p + n, c0)
      else do {
        cishort \<leftarrow> GETSHORT b p;
        if cishort \<noteq> vj_opt_val c0 then do {
          b \<leftarrow> PUT (bytes_of_short (vj_opt_val c0)) b p;
          Some (CONFNAK, b, p + 2, c0)
        }
        else
          let c = c0\<lparr>ho := (ho c0)\<lparr>neg_vj := True\<rparr>\<rparr> in
          if vj_mode c = IPCP_VJMODE_RFC1332 then do {
            m \<leftarrow> GETCHAR b (p + 2);
            if m > maxslotindex (wo c) then do {
              b \<leftarrow> PUT [maxslotindex (wo c)] b (p + 2);
              Some (CONFNAK, b, p + 3, c)
            }
            else do {
              let c = c\<lparr>ho := (ho c)\<lparr>maxslotindex := m\<rparr>\<rparr>;
              f \<leftarrow> GETCHAR b (p + 3);
              if f \<noteq> cflag (wo c) then do {
                b \<leftarrow> PUT [cflag (wo c)] b (p + 3);
                Some (CONFNAK, b, p + 4, c)
              }
              else Some (CONFACK, b, p + 4, c\<lparr>ho := (ho c)\<lparr>cflag := cflag (wo c)\<rparr>\<rparr>)
            }
          }
          else Some (CONFACK, b, p + 2, c)
      })"

definition ipcp_switch :: "ipcp switch" where
  "ipcp_switch c b p t n =
     (if t = CI_ADDRS then req_addrs c b p n
      else if t = CI_ADDR then req_addr c b p n
      else if t = CI_COMPRESSTYPE then req_compresstype c b p n
      else Some (CONFREJ, b, p + n, c))"

text \<open>\<^verbatim>\<open>cilen\<close> is a \<^verbatim>\<open>u_short\<close>.\<close>

definition u_short :: "nat \<Rightarrow> nat" where
  "u_short l = l mod 65536"

definition ipcp_reqci :: "ipcp \<Rightarrow> u8 list \<Rightarrow> (u8 \<times> u8 list \<times> ipcp) option" where
  "ipcp_reqci c dat =
     (let c = c\<lparr>ho := (ho c)\<lparr>neg_addrs := False, neg_vj := False, maxslotindex := 0, cflag := 0\<rparr>\<rparr> in
      req_loop u_short ipcp_switch (length dat) c dat 0 0 CONFACK)"

section \<open>IPCP on the automaton\<close>

text \<open>\<^verbatim>\<open>SIFADDR\<close>, \<^verbatim>\<open>SIFMASK\<close>, \<^verbatim>\<open>SIFVJCOMP\<close> and \<^verbatim>\<open>CIFADDR\<close> configure the network interface and
  are left out.\<close>

definition ipcp_up :: "ipcp \<Rightarrow> ipcp" where
  "ipcp_up c = (if hisaddr (ho c) = 0 then c\<lparr>ho := (ho c)\<lparr>hisaddr := hisaddr (wo c)\<rparr>\<rparr> else c)"

definition ipcp_down :: "ipcp \<Rightarrow> ipcp" where
  "ipcp_down c = c"

text \<open>\<^verbatim>\<open>ipcp_reqci\<close> never leaves the packet, as \<open>ipcp_sw\<close> below shows, so the case \<open>None\<close> does not
  occur.\<close>

definition ipcp_callbacks :: "u8 \<times> u8 \<Rightarrow> ipcp fsm_callbacks" where
  "ipcp_callbacks junk = \<lparr>resetci = Some ipcp_resetci, cilen = Some ipcp_cilen, addci = Some ipcp_addci,
     ackci = Some ipcp_ackci, nakci = Some (ipcp_nakci junk), rejci = Some ipcp_rejci,
     reqci = Some (\<lambda>c d. case ipcp_reqci c d of Some r \<Rightarrow> r | None \<Rightarrow> (CONFREJ, d, c)),
     up = Some ipcp_up, down = Some ipcp_down, closed = None, retransmit = None\<rparr>"

definition ipcp_init :: "ipcp fsm \<Rightarrow> ipcp fsm" where
  "ipcp_init f0 =
     (let c = ci f0;
          w = (wo c)\<lparr>neg_addrs := True, ouraddr := 0, hisaddr := 0, neg_vj := True, maxslotindex := MAX_STATES - 1, cflag := 1\<rparr>;
          a = (ao c)\<lparr>neg_addrs := True, neg_addr := True, neg_vj := True, maxslotindex := MAX_STATES - 1, cflag := 1\<rparr> in
      fsm_init (f0\<lparr>protocol := IPCP, maxconfreqtransmits := 10, maxtermtransmits := 10, maxnakloops := 10,
        ci := c\<lparr>wo := w, ao := a\<rparr>\<rparr>))"

definition ipcp_activeopen :: "u8 \<times> u8 \<Rightarrow> ipcp fsm \<Rightarrow> ipcp fsm" where
  "ipcp_activeopen junk = fsm_activeopen (ipcp_callbacks junk)"

definition ipcp_passiveopen :: "u8 \<times> u8 \<Rightarrow> ipcp fsm \<Rightarrow> ipcp fsm" where
  "ipcp_passiveopen junk = fsm_passiveopen (ipcp_callbacks junk)"

definition ipcp_close :: "u8 \<times> u8 \<Rightarrow> ipcp fsm \<Rightarrow> ipcp fsm" where
  "ipcp_close junk = fsm_close (ipcp_callbacks junk)"

definition ipcp_lowerup :: "u8 \<times> u8 \<Rightarrow> ipcp fsm \<Rightarrow> ipcp fsm" where
  "ipcp_lowerup junk = fsm_lowerup (ipcp_callbacks junk)"

definition ipcp_lowerdown :: "u8 \<times> u8 \<Rightarrow> ipcp fsm \<Rightarrow> ipcp fsm" where
  "ipcp_lowerdown junk = fsm_lowerdown (ipcp_callbacks junk)"

definition ipcp_input :: "u8 \<times> u8 \<Rightarrow> u8 list \<Rightarrow> ipcp fsm \<Rightarrow> ipcp fsm" where
  "ipcp_input junk p = fsm_input (ipcp_callbacks junk) p"

definition ipcp_protrej :: "u8 \<times> u8 \<Rightarrow> ipcp fsm \<Rightarrow> ipcp fsm" where
  "ipcp_protrej junk = fsm_lowerdown (ipcp_callbacks junk)"

section \<open>Our request and the peer's acknowledgement\<close>

text \<open>The compression mode is one \<^verbatim>\<open>ipcp_vj_setmode\<close> knows.\<close>

definition vj_ok :: "ipcp \<Rightarrow> bool" where
  "vj_ok c \<longleftrightarrow> vj_opt_len c = (if vj_mode c = IPCP_VJMODE_RFC1332 then 6 else 4)"

lemma vj_ok_setmode: "mode \<in> {1, 2, 3} \<Longrightarrow> vj_ok (ipcp_vj_setmode mode c)"
  by (auto simp: vj_ok_def ipcp_vj_setmode_def Let_def)

interpretation ipcp_nego: negotiation vj_ok ipcp_cilen ipcp_addci ipcp_ackci
proof
  fix c
  assume ok: "vj_ok c"
  then show "length (ipcp_addci c) = ipcp_cilen c"
    by (simp add: ipcp_addci_def ipcp_cilen_def vj_ok_def)
  have "ACKCIADDRS (go c) (ipcp_addci c) = (go c, Some (ipcp_addci (c\<lparr>go := (go c)\<lparr>neg_addrs := False\<rparr>\<rparr>)))"
    by (simp add: ACKCIADDRS_def ipcp_addci_def bytes_of_long_def take_addr_def)
  moreover have "ACKCIADDR (go c) (ipcp_addci (c\<lparr>go := (go c)\<lparr>neg_addrs := False\<rparr>\<rparr>)) =
      (go c, Some (ipcp_addci (c\<lparr>go := (go c)\<lparr>neg_addrs := False, neg_addr := False\<rparr>\<rparr>)))"
    by (simp add: ACKCIADDR_def ipcp_addci_def bytes_of_long_def take_addr_def)
  moreover have "ACKCISHORT c (ipcp_addci (c\<lparr>go := (go c)\<lparr>neg_addrs := False, neg_addr := False\<rparr>\<rparr>))"
    using ok by (auto simp: ACKCISHORT_def ipcp_addci_def bytes_of_short_def vj_ok_def)
  ultimately show "ipcp_ackci c (ipcp_addci c) = (True, c)" by (simp add: ipcp_ackci_def)
qed

section \<open>The switch keeps to its option\<close>

lemmas req_defs = req_addrs_def req_addr_def req_compresstype_def

lemma GET_in_bounds:
  "p < length b \<Longrightarrow> GETCHAR b p = Some (b ! p)"
  "p + 2 \<le> length b \<Longrightarrow> GETSHORT b p = Some (short_of (b ! p) (b ! (p + 1)))"
  "p + 4 \<le> length b \<Longrightarrow> GETLONG b p = Some (long_of (b ! p) (b ! (p + 1)) (b ! (p + 2)) (b ! (p + 3)))"
  "p + length xs \<le> length b \<Longrightarrow> PUT xs b p = Some (take p b @ xs @ drop (p + length xs) b)"
  by (simp_all add: GETCHAR_def GETSHORT_def GETLONG_def PUT_def)

lemma vj_ok_fields [simp]: "vj_ok (c\<lparr>ho := h\<rparr>) = vj_ok c" "vj_ok (c\<lparr>go := g\<rparr>) = vj_ok c"
  by (simp_all add: vj_ok_def)

text \<open>What a handler of the switch does with an option that lies inside the buffer.\<close>

definition stays_inside :: "(u8 \<times> u8 list \<times> nat \<times> ipcp) option \<Rightarrow> ipcp \<Rightarrow> u8 list \<Rightarrow> nat \<Rightarrow> nat \<Rightarrow> bool" where
  "stays_inside r c b p n \<longleftrightarrow> (\<exists>orc b' p' c'. r = Some (orc, b', p', c') \<and> vj_ok c' \<and> length b' = length b \<and>
     p' \<le> p + n \<and> verdict_code orc \<and> (orc = CONFACK \<longrightarrow> b' = b \<and> p' = p + n))"

lemma stays_inside_Some [simp]:
  "stays_inside (Some (orc, b', p', c')) c b p n \<longleftrightarrow> vj_ok c' \<and> length b' = length b \<and> p' \<le> p + n \<and> verdict_code orc \<and>
     (orc = CONFACK \<longrightarrow> b' = b \<and> p' = p + n)"
  by (simp add: stays_inside_def)

lemma req_addrs_inside: "vj_ok c \<Longrightarrow> p + n \<le> length b \<Longrightarrow> stays_inside (req_addrs c b p n) c b p n"
  by (cases "\<not> neg_addrs (ao c) \<or> n \<noteq> 8") (auto simp: GET_in_bounds req_addrs_def Let_def)

lemma req_addr_inside: "vj_ok c \<Longrightarrow> p + n \<le> length b \<Longrightarrow> stays_inside (req_addr c b p n) c b p n"
  by (cases "\<not> neg_addr (ao c) \<or> n \<noteq> 4") (auto simp: GET_in_bounds req_addr_def Let_def)

lemma req_compresstype_inside:
  assumes "vj_ok c" "p + n \<le> length b"
  shows "stays_inside (req_compresstype c b p n) c b p n"
proof (cases "\<not> neg_vj (ao c) \<or> n + 2 \<noteq> vj_opt_len c")
  case False
  then have "n = (if vj_mode c = 3 then 4 else 2)" using assms(1) by (auto simp: vj_ok_def split: if_splits)
  then show ?thesis using assms False by (auto simp: GET_in_bounds req_compresstype_def Let_def split: if_splits)
qed (use assms in \<open>auto simp: req_compresstype_def\<close>)

lemma ipcp_switch_inside: "vj_ok c \<Longrightarrow> p + n \<le> length b \<Longrightarrow> stays_inside (ipcp_switch c b p t n) c b p n"
  by (simp add: ipcp_switch_def req_addrs_inside req_addr_inside req_compresstype_inside)

interpretation ipcp_sw: option_switch u_short vj_ok ipcp_switch
proof
  show "u_short n \<le> n" for n by (simp add: u_short_def)
next
  fix c p n t and b :: "u8 list"
  assume "vj_ok c" "p + n \<le> length b"
  from ipcp_switch_inside [OF this]
  show "\<exists>orc b' p' c'. ipcp_switch c b p t n = Some (orc, b', p', c') \<and> vj_ok c' \<and> length b' = length b \<and>
      p' \<le> p + n \<and> verdict_code orc" unfolding stays_inside_def by blast
next
  fix c p n t p' c' and b b' :: "u8 list"
  assume "vj_ok c" "p + n \<le> length b" "ipcp_switch c b p t n = Some (CONFACK, b', p', c')"
  then show "b' = b \<and> p' = p + n" using ipcp_switch_inside [of c p n b t] by (auto simp: stays_inside_def)
qed

text \<open>The verdicts of the options, read off their data.  The compression option is judged
  here in the modes without slot parameters.\<close>

definition addrs_verdict :: "ipcp \<Rightarrow> u32 \<Rightarrow> u32 \<Rightarrow> u8 \<times> u8 list \<times> ipcp" where
  "addrs_verdict c a1 a2 =
     (let nak1 = (a1 = 0 \<or> neg_addrs (wo c) \<and> hisaddr (wo c) \<noteq> 0 \<and> a1 \<noteq> hisaddr (wo c));
          nak2 = (a2 = 0 \<or> neg_addrs (wo c) \<and> ouraddr (wo c) \<noteq> 0 \<and> a2 \<noteq> ouraddr (wo c));
          d = bytes_of_long (if nak1 then if neg_addrs (wo c) then hisaddr (wo c) else 0 else a1) @
              bytes_of_long (if nak2 then ouraddr (wo c) else a2) in
      if nak1 \<or> nak2 then (CONFNAK, d, c)
      else (CONFACK, d, c\<lparr>ho := (ho c)\<lparr>neg_addrs := True, hisaddr := a1, ouraddr := a2\<rparr>\<rparr>))"

definition addr_verdict :: "ipcp \<Rightarrow> u32 \<Rightarrow> u8 \<times> u8 list \<times> ipcp" where
  "addr_verdict c a =
     (if a = 0 \<or> neg_addr (wo c) \<and> hisaddr (wo c) \<noteq> 0 \<and> a \<noteq> hisaddr (wo c)
      then (CONFNAK, bytes_of_long (if neg_addr (wo c) then hisaddr (wo c) else 0), c)
      else (CONFACK, bytes_of_long a, c\<lparr>ho := (ho c)\<lparr>neg_addr := True, hisaddr := a\<rparr>\<rparr>))"

definition ipcp_verdict :: "ipcp verdict" where
  "ipcp_verdict c t d =
     (if t = CI_ADDRS then
        if \<not> neg_addrs (ao c) \<or> length d \<noteq> 8 then (CONFREJ, d, c)
        else addrs_verdict c (long_of (d ! 0) (d ! 1) (d ! 2) (d ! 3)) (long_of (d ! 4) (d ! 5) (d ! 6) (d ! 7))
      else if t = CI_ADDR then
        (let c = c\<lparr>go := (go c)\<lparr>got_addr := True, neg_addrs := False, neg_addr := True\<rparr>\<rparr> in
         if \<not> neg_addr (ao c) \<or> length d \<noteq> 4 then (CONFREJ, d, c)
         else addr_verdict c (long_of (d ! 0) (d ! 1) (d ! 2) (d ! 3)))
      else if t = CI_COMPRESSTYPE then
        if \<not> neg_vj (ao c) \<or> length d \<noteq> 2 then (CONFREJ, d, c)
        else if short_of (d ! 0) (d ! 1) \<noteq> vj_opt_val c then (CONFNAK, bytes_of_short (vj_opt_val c), c)
        else (CONFACK, d, c\<lparr>ho := (ho c)\<lparr>neg_vj := True\<rparr>\<rparr>)
      else (CONFREJ, d, c))"

definition plain_vj :: "ipcp \<Rightarrow> bool" where
  "plain_vj c \<longleftrightarrow> vj_mode c \<noteq> IPCP_VJMODE_RFC1332 \<and> vj_opt_len c = 4 \<or> \<not> neg_vj (ao c)"

lemma plain_vj_fields [simp]: "plain_vj (c\<lparr>ho := h\<rparr>) = plain_vj c" "plain_vj (c\<lparr>go := g\<rparr>) = plain_vj c"
  by (simp_all add: plain_vj_def)

lemma addrs_as_judged:
  assumes "neg_addrs (ao c)" "addrs_verdict c a1 a2 = (orc, d, c')" "length pre = p"
  shows "req_addrs c (pre @ (bytes_of_long a1 @ bytes_of_long a2) @ r) p 8 = Some (orc, pre @ d @ r, p + 8, c')"
proof -
  have second: "GETLONG (pre @ bytes_of_long x @ bytes_of_long a2 @ r) (p + 4) = Some a2"
    "PUT (bytes_of_long y) (pre @ bytes_of_long x @ bytes_of_long a2 @ r) (p + 4) = Some (pre @ bytes_of_long x @ bytes_of_long y @ r)" for x y
    using GET_at(3) [of "pre @ bytes_of_long x" "p + 4" a2 r] PUT_at [of "pre @ bytes_of_long x" "p + 4" "bytes_of_long y" "bytes_of_long a2" r] assms(3)
    by simp_all
  show ?thesis using assms second by (auto simp: req_addrs_def addrs_verdict_def Let_def split: if_splits)
qed

lemma addr_as_judged:
  assumes "neg_addr (ao c0)" "c = c0\<lparr>go := (go c0)\<lparr>got_addr := True, neg_addrs := False, neg_addr := True\<rparr>\<rparr>"
    "addr_verdict c a = (orc, d, c')" "length pre = p"
  shows "req_addr c0 (pre @ bytes_of_long a @ r) p 4 = Some (orc, pre @ d @ r, p + 4, c')"
  using assms by (auto simp: req_addr_def addr_verdict_def Let_def split: if_splits)

lemma vj_as_judged:
  assumes "neg_vj (ao c)" "vj_opt_len c = 4" "vj_mode c \<noteq> IPCP_VJMODE_RFC1332" "length pre = p"
  shows "req_compresstype c (pre @ bytes_of_short x @ r) p 2 =
    (if x \<noteq> vj_opt_val c then Some (CONFNAK, pre @ bytes_of_short (vj_opt_val c) @ r, p + 2, c)
     else Some (CONFACK, pre @ bytes_of_short x @ r, p + 2, c\<lparr>ho := (ho c)\<lparr>neg_vj := True\<rparr>\<rparr>))"
  using assms by (simp add: req_compresstype_def Let_def)

lemma ipcp_switch_judged:
  assumes "plain_vj c" "length pre = p" "length d = n" "ipcp_verdict c t d = (orc, d', c')"
  shows "ipcp_switch c (pre @ d @ r) p t n = Some (orc, pre @ d' @ r, p + n, c')"
proof -
  consider (addrs) "t = CI_ADDRS" "neg_addrs (ao c)" "n = 8" | (addr) "t = CI_ADDR" "neg_addr (ao c)" "n = 4"
    | (vj) "t = CI_COMPRESSTYPE" "neg_vj (ao c)" "n = 2" | (rej) "ipcp_verdict c t d = (CONFREJ, d, c')" "t \<noteq> CI_COMPRESSTYPE \<or> \<not> neg_vj (ao c) \<or> n \<noteq> 2" 
      "t \<noteq> CI_ADDRS \<or> \<not> neg_addrs (ao c) \<or> n \<noteq> 8" "t \<noteq> CI_ADDR \<or> \<not> neg_addr (ao c) \<or> n \<noteq> 4"
    using assms(3,4) by (auto simp: ipcp_verdict_def Let_def split: if_splits)
  then show ?thesis
  proof cases
    case addrs
    define a1 a2 where "a1 = long_of (d ! 0) (d ! 1) (d ! 2) (d ! 3)" and "a2 = long_of (d ! 4) (d ! 5) (d ! 6) (d ! 7)"
    then have "d = bytes_of_long a1 @ bytes_of_long a2" "addrs_verdict c a1 a2 = (orc, d', c')"
      using eight_bytes [of d] addrs assms(3,4) by (simp_all add: ipcp_verdict_def del: long_bytes)
    then show ?thesis using addrs_as_judged [of c a1 a2 orc d' c' pre p r] addrs assms(2) by (simp add: ipcp_switch_def)
  next
    case addr
    define a where "a = long_of (d ! 0) (d ! 1) (d ! 2) (d ! 3)"
    then have "d = bytes_of_long a"
      "addr_verdict (c\<lparr>go := (go c)\<lparr>got_addr := True, neg_addrs := False, neg_addr := True\<rparr>\<rparr>) a = (orc, d', c')"
      using four_bytes [of d] addr assms(3,4) by (simp_all add: ipcp_verdict_def Let_def del: long_bytes)
    then show ?thesis using addr_as_judged [OF _ refl, of c a orc d' c' pre p r] addr assms(2) by (simp add: ipcp_switch_def)
  next
    case vj
    then have c: "vj_opt_len c = 4" "vj_mode c \<noteq> 3" using assms(1) by (auto simp: plain_vj_def)
    define x where "x = short_of (d ! 0) (d ! 1)"
    then have "d = bytes_of_short x" using two_bytes [of d] vj assms(3) by (simp del: short_bytes)
    moreover have "(orc, d', c') = (if x \<noteq> vj_opt_val c then (CONFNAK, bytes_of_short (vj_opt_val c), c)
        else (CONFACK, d, c\<lparr>ho := (ho c)\<lparr>neg_vj := True\<rparr>\<rparr>))"
      using vj assms(3,4) by (simp add: ipcp_verdict_def x_def split: if_splits)
    ultimately show ?thesis using vj_as_judged [OF vj(2) c assms(2), of x r] vj by (auto simp: ipcp_switch_def split: if_splits)
  next
    case rej
    then show ?thesis using assms
      by (auto simp: ipcp_verdict_def ipcp_switch_def req_defs Let_def plain_vj_def split: if_splits)
  qed
qed

interpretation ipcp_tidy: tidy_switch u_short plain_vj ipcp_switch ipcp_verdict
proof
  show "u_short n \<le> n" for n by (simp add: u_short_def)
next
  fix c p n t orc d c' and b :: "u8 list"
  assume "plain_vj c" "p + n \<le> length b" "ipcp_verdict c t (take n (drop p b)) = (orc, d, c')"
  then show "ipcp_switch c b p t n = Some (orc, take p b @ d @ drop (p + n) b, p + n, c')"
    using ipcp_switch_judged [of c "take p b" p "take n (drop p b)" n t orc d c' "drop (p + n) b"]
    by (simp add: append_assoc [symmetric] take_add [symmetric] del: append_assoc)
next
  fix c t orc c' and d d' :: "u8 list"
  assume "plain_vj c" "ipcp_verdict c t d = (orc, d', c')"
  then show "plain_vj c' \<and> length d' = length d \<and> verdict_code orc \<and> (orc \<noteq> CONFNAK \<longrightarrow> d' = d)"
    using eight_bytes [of d] four_bytes [of d]
    by (auto simp: ipcp_verdict_def addrs_verdict_def addr_verdict_def Let_def split: if_splits)
qed

section \<open>Two units\<close>

text \<open>The unit \<open>b\<close> has no objection to the request of \<open>a\<close>.\<close>

definition agreeable :: "ipcp \<Rightarrow> ipcp \<Rightarrow> bool" where
  "agreeable a b \<longleftrightarrow>
     (neg_addrs (go a) \<longrightarrow> neg_addrs (ao b) \<and> ouraddr (go a) \<noteq> 0 \<and> hisaddr (go a) \<noteq> 0 \<and>
        (neg_addrs (wo b) \<longrightarrow> hisaddr (wo b) \<in> {0, ouraddr (go a)} \<and> ouraddr (wo b) \<in> {0, hisaddr (go a)})) \<and>
     (neg_addr (go a) \<longrightarrow> neg_addr (ao b) \<and> ouraddr (go a) \<noteq> 0 \<and>
        (neg_addr (wo b) \<longrightarrow> hisaddr (wo b) \<in> {0, ouraddr (go a)})) \<and>
     (neg_vj (go a) \<longrightarrow> neg_vj (ao b) \<and> vj_mode b = vj_mode a \<and> vj_opt_val b = vj_opt_val a \<and>
        maxslotindex (go a) \<le> maxslotindex (wo b) \<and> cflag (go a) = cflag (wo b))"

text \<open>What \<open>b\<close> records of each option.\<close>

definition saw_addrs :: "ipcp \<Rightarrow> ipcp \<Rightarrow> ipcp" where
  "saw_addrs a b = (if neg_addrs (go a)
     then b\<lparr>ho := (ho b)\<lparr>neg_addrs := True, hisaddr := ouraddr (go a), ouraddr := hisaddr (go a)\<rparr>\<rparr> else b)"

definition saw_addr :: "ipcp \<Rightarrow> ipcp \<Rightarrow> ipcp" where
  "saw_addr a b = (if neg_addr (go a)
     then b\<lparr>go := (go b)\<lparr>got_addr := True, neg_addrs := False, neg_addr := True\<rparr>, ho := (ho b)\<lparr>neg_addr := True, hisaddr := ouraddr (go a)\<rparr>\<rparr>
     else b)"

definition saw_vj :: "ipcp \<Rightarrow> ipcp \<Rightarrow> ipcp" where
  "saw_vj a b = (if \<not> neg_vj (go a) then b
     else if vj_mode a = IPCP_VJMODE_RFC1332
     then b\<lparr>ho := (ho b)\<lparr>neg_vj := True, maxslotindex := maxslotindex (go a), cflag := cflag (go a)\<rparr>\<rparr>
     else b\<lparr>ho := (ho b)\<lparr>neg_vj := True\<rparr>\<rparr>)"

abbreviation opt_addrs :: "ipcp \<Rightarrow> u8 list" where
  "opt_addrs a \<equiv> (if neg_addrs (go a) then [1, 10] @ bytes_of_long (ouraddr (go a)) @ bytes_of_long (hisaddr (go a)) else [])"

abbreviation opt_addr :: "ipcp \<Rightarrow> u8 list" where
  "opt_addr a \<equiv> (if neg_addr (go a) then [3, 6] @ bytes_of_long (ouraddr (go a)) else [])"

abbreviation opt_vj :: "ipcp \<Rightarrow> u8 list" where
  "opt_vj a \<equiv> (if neg_vj (go a) then [2, of_nat (vj_opt_len a)] @ bytes_of_short (vj_opt_val a) @
     (if vj_mode a = IPCP_VJMODE_RFC1332 then [maxslotindex (go a), cflag (go a)] else []) else [])"

lemma addrs_accepted:
  assumes "agreeable a b" "p = length pre" "q = p + length (opt_addrs a)"
  shows "req_loop u_short ipcp_switch (length (opt_addrs a) + length r) b (pre @ opt_addrs a @ r) p p CONFACK =
    req_loop u_short ipcp_switch (length r) (saw_addrs a b) (pre @ opt_addrs a @ r) q q CONFACK"
proof (cases "neg_addrs (go a)")
  case True
  have "ouraddr (go a) \<noteq> 0 \<and> hisaddr (go a) \<noteq> 0 \<and>
      (neg_addrs (wo b) \<longrightarrow> hisaddr (wo b) \<in> {0, ouraddr (go a)} \<and> ouraddr (wo b) \<in> {0, hisaddr (go a)})"
    using True assms(1) by (simp add: agreeable_def)
  then have "\<not> (ouraddr (go a) = 0 \<or> neg_addrs (wo b) \<and> hisaddr (wo b) \<noteq> 0 \<and> ouraddr (go a) \<noteq> hisaddr (wo b))"
    "\<not> (hisaddr (go a) = 0 \<or> neg_addrs (wo b) \<and> ouraddr (wo b) \<noteq> 0 \<and> hisaddr (go a) \<noteq> ouraddr (wo b))" by auto
  then have "addrs_verdict b (ouraddr (go a)) (hisaddr (go a)) =
      (CONFACK, bytes_of_long (ouraddr (go a)) @ bytes_of_long (hisaddr (go a)), saw_addrs a b)"
    unfolding addrs_verdict_def saw_addrs_def Let_def using True by (simp only: if_False if_True simp_thms)
  moreover have "neg_addrs (ao b)" using True assms(1) by (simp add: agreeable_def)
  ultimately have "ipcp_switch b (pre @ ([1, 10] @ bytes_of_long (ouraddr (go a)) @ bytes_of_long (hisaddr (go a))) @ r) (p + 2) 1 8 =
      Some (CONFACK, pre @ ([1, 10] @ bytes_of_long (ouraddr (go a)) @ bytes_of_long (hisaddr (go a))) @ r, p + 10, saw_addrs a b)"
    using addrs_as_judged [of b _ _ _ _ _ "pre @ [1, 10]" "p + 2" r] assms(2) by (simp add: ipcp_switch_def)
  then show ?thesis
    using req_loop_accept [of "[1, 10] @ bytes_of_long (ouraddr (go a)) @ bytes_of_long (hisaddr (go a))" 1 10
        "bytes_of_long (ouraddr (go a)) @ bytes_of_long (hisaddr (go a))" p pre q ipcp_switch b r "saw_addrs a b" u_short] True assms(2,3)
    by simp
qed (use assms in \<open>simp add: saw_addrs_def\<close>)

lemma addr_accepted:
  assumes "agreeable a b" "p = length pre" "q = p + length (opt_addr a)"
  shows "req_loop u_short ipcp_switch (length (opt_addr a) + length r) b (pre @ opt_addr a @ r) p p CONFACK =
    req_loop u_short ipcp_switch (length r) (saw_addr a b) (pre @ opt_addr a @ r) q q CONFACK"
proof (cases "neg_addr (go a)")
  case True
  let ?c = "b\<lparr>go := (go b)\<lparr>got_addr := True, neg_addrs := False, neg_addr := True\<rparr>\<rparr>"
  have "addr_verdict ?c (ouraddr (go a)) = (CONFACK, bytes_of_long (ouraddr (go a)), saw_addr a b)"
    using True assms(1) by (auto simp: addr_verdict_def agreeable_def saw_addr_def)
  moreover have "neg_addr (ao b)" using True assms(1) by (simp add: agreeable_def)
  ultimately have "ipcp_switch b (pre @ ([3, 6] @ bytes_of_long (ouraddr (go a))) @ r) (p + 2) 3 4 =
      Some (CONFACK, pre @ ([3, 6] @ bytes_of_long (ouraddr (go a))) @ r, p + 6, saw_addr a b)"
    using addr_as_judged [OF _ refl, of b _ _ _ _ "pre @ [3, 6]" "p + 2" r] assms(2) by (simp add: ipcp_switch_def)
  then show ?thesis
    using req_loop_accept [of "[3, 6] @ bytes_of_long (ouraddr (go a))" 3 6 "bytes_of_long (ouraddr (go a))" p pre q
        ipcp_switch b r "saw_addr a b" u_short] True assms(2,3) by simp
qed (use assms in \<open>simp add: saw_addr_def\<close>)

lemma compresstype_accepted:
  assumes "agreeable a b" "neg_vj (go a)" "vj_ok a" "vj_ok b" "length pre = p"
    "d = bytes_of_short (vj_opt_val a) @ (if vj_mode a = IPCP_VJMODE_RFC1332 then [maxslotindex (go a), cflag (go a)] else [])"
  shows "req_compresstype b (pre @ d @ r) p (length d) = Some (CONFACK, pre @ d @ r, p + length d, saw_vj a b)"
proof -
  have b: "neg_vj (ao b)" "vj_mode b = vj_mode a" "vj_opt_val b = vj_opt_val a" "maxslotindex (go a) \<le> maxslotindex (wo b)"
    "cflag (go a) = cflag (wo b)" using assms(1,2) by (simp_all add: agreeable_def)
  have l: "vj_opt_len b = length d + 2" using assms(4,6) b(2) by (simp add: vj_ok_def)
  show ?thesis
  proof (cases "vj_mode a = IPCP_VJMODE_RFC1332")
    case True
    have "GETCHAR (pre @ bytes_of_short x @ m # f # r) (p + 2) = Some m" "GETCHAR (pre @ bytes_of_short x @ m # f # r) (p + 3) = Some f" for x m f
      using GET_at(1) [of "pre @ bytes_of_short x" "p + 2" m "f # r"] GET_at(1) [of "pre @ bytes_of_short x @ [m]" "p + 3" f r] assms(5)
      by simp_all
    then show ?thesis using True b l assms(2,5,6) by (simp add: req_compresstype_def saw_vj_def Let_def)
  next
    case False
    then show ?thesis using b l assms(2,5,6) by (simp add: req_compresstype_def saw_vj_def Let_def)
  qed
qed

lemma vj_accepted:
  assumes "agreeable a b" "vj_ok a" "vj_ok b" "p = length pre" "q = p + length (opt_vj a)"
  shows "req_loop u_short ipcp_switch (length (opt_vj a) + length r) b (pre @ opt_vj a @ r) p p CONFACK =
    req_loop u_short ipcp_switch (length r) (saw_vj a b) (pre @ opt_vj a @ r) q q CONFACK"
proof (cases "neg_vj (go a)")
  case True
  define d where "d = bytes_of_short (vj_opt_val a) @ (if vj_mode a = IPCP_VJMODE_RFC1332 then [maxslotindex (go a), cflag (go a)] else [])"
  let ?n = "of_nat (vj_opt_len a) :: u8"
  have n: "unat ?n = length d + 2" using assms(2) by (simp add: vj_ok_def d_def)
  have "ipcp_switch b (pre @ ([2, ?n] @ d) @ r) (p + 2) 2 (length d) = Some (CONFACK, pre @ ([2, ?n] @ d) @ r, p + 2 + length d, saw_vj a b)"
    using compresstype_accepted [OF assms(1) True assms(2,3) _ d_def, of "pre @ [2, ?n]" "p + 2" r] assms(4) by (simp add: ipcp_switch_def)
  then show ?thesis
    using req_loop_accept [of "[2, ?n] @ d" 2 ?n d p pre q ipcp_switch b r "saw_vj a b" u_short] n True assms(4,5) by (simp add: d_def)
qed (use assms in \<open>simp add: saw_vj_def\<close>)

lemma ipcp_request_accepted:
  assumes "agreeable a b" "vj_ok a" "vj_ok b"
  shows "req_loop u_short ipcp_switch (length (ipcp_addci a)) b (ipcp_addci a) 0 0 CONFACK =
    Some (CONFACK, ipcp_addci a, saw_vj a (saw_addr a (saw_addrs a b)))"
proof -
  have split: "ipcp_addci a = opt_addrs a @ opt_addr a @ opt_vj a" by (simp add: ipcp_addci_def)
  let ?l1 = "length (opt_addrs a)" and ?l2 = "length (opt_addr a)" and ?l3 = "length (opt_vj a)"
  have ag: "agreeable a (saw_addrs a b)" "agreeable a (saw_addr a (saw_addrs a b))" and
    ok: "vj_ok (saw_addr a (saw_addrs a b))"
    using assms(1,3) by (simp_all add: agreeable_def saw_addrs_def saw_addr_def vj_ok_def)
  have "req_loop u_short ipcp_switch (?l1 + (?l2 + ?l3)) b (opt_addrs a @ opt_addr a @ opt_vj a) 0 0 CONFACK =
      req_loop u_short ipcp_switch (?l2 + ?l3) (saw_addrs a b) (opt_addrs a @ opt_addr a @ opt_vj a) ?l1 ?l1 CONFACK"
    using addrs_accepted [OF assms(1), of 0 "[]" ?l1 "opt_addr a @ opt_vj a"] by (simp only: length_append append_Nil list.size add_0)
  also have "\<dots> = req_loop u_short ipcp_switch ?l3 (saw_addr a (saw_addrs a b)) (opt_addrs a @ opt_addr a @ opt_vj a)
      (?l1 + ?l2) (?l1 + ?l2) CONFACK"
    by (rule addr_accepted [OF ag(1) refl refl])
  also have "\<dots> = req_loop u_short ipcp_switch 0 (saw_vj a (saw_addr a (saw_addrs a b))) (opt_addrs a @ opt_addr a @ opt_vj a)
      (?l1 + ?l2 + ?l3) (?l1 + ?l2 + ?l3) CONFACK"
    using vj_accepted [OF ag(2) assms(2) ok, of "?l1 + ?l2" "opt_addrs a @ opt_addr a" "?l1 + ?l2 + ?l3" "[]"]
    by (simp only: length_append append_Nil2 list.size add_0_right append_assoc)
  finally show ?thesis by (simp only: split length_append req_loop_end take_all add.assoc append_assoc order_refl)
qed

section \<open>Properties\<close>
text \<open>Options of a fresh unit, as \<^verbatim>\<open>ipcp_init\<close> finds them, and a unit with addresses.\<close>

definition no_options :: ipcp_options where
  "no_options = \<lparr>neg_addrs = False, neg_addr = False, got_addr = False, ouraddr = 0, hisaddr = 0, neg_vj = False,
     maxslotindex = 0, cflag = 0\<rparr>"

definition fresh_ipcp :: ipcp where
  "fresh_ipcp = \<lparr>wo = no_options, go = no_options, ao = no_options, ho = no_options, vj_mode = 3, vj_opt_len = 6,
     vj_opt_val = 0x2d\<rparr>"

definition ipcp_fsm0 :: "ipcp fsm" where
  "ipcp_fsm0 = ipcp_init \<lparr>protocol = 0, state = CLOSED, lowerup = False, aopending = False, popending = False, fid = 0,
     reqid = 0, maxconfreqtransmits = 0, retransmits = 0, maxtermtransmits = 0, nakloops = 0, maxnakloops = 0,
     ci = fresh_ipcp, sent = [], calls = [], timers = 0\<rparr>"

definition with_addrs :: "u32 \<Rightarrow> u32 \<Rightarrow> ipcp \<Rightarrow> ipcp" where
  "with_addrs our his c = ipcp_resetci (c\<lparr>wo := (wo c)\<lparr>ouraddr := our, hisaddr := his\<rparr>\<rparr>)"

text \<open>
  C23: a request is answered without leaving the packet.  Whatever bytes the peer
  sends, \<^verbatim>\<open>ipcp_reqci\<close> ends, reads and writes only inside the data it was given, returns
  Configure-Ack, -Nak or -Reject, and leaves a reply no longer than the request; and
  it acknowledges a request only by returning it byte for byte.
\<close>

theorem ipcp_reqci_in_bounds:
  assumes "vj_ok c"
  shows "\<exists>rc out c'. ipcp_reqci c dat = Some (rc, out, c') \<and> rc \<in> {CONFACK, CONFNAK, CONFREJ} \<and>
    length out \<le> length dat \<and> (rc = CONFACK \<longrightarrow> out = dat)"
  using ipcp_sw.loop_total [of "c\<lparr>ho := (ho c)\<lparr>neg_addrs := False, neg_vj := False, maxslotindex := 0, cflag := 0\<rparr>\<rparr>"
      0 "length dat" dat 0 CONFACK] assms
  by (fastforce simp: ipcp_reqci_def Let_def)

theorem ipcp_reqci_in_bounds_witness:
  "\<exists>rc out c'. ipcp_reqci (ci ipcp_fsm0) [3, 200, 1, 2] = Some (rc, out, c') \<and> length out \<le> 4"
proof -
  have "vj_ok (ci ipcp_fsm0)" by code_simp
  then show ?thesis using ipcp_reqci_in_bounds [of "ci ipcp_fsm0" "[3, 200, 1, 2]"] by auto
qed

text \<open>
  C22: in the compression modes without slot parameters, or when compression is not
  allowed, the reply \<^verbatim>\<open>ipcp_reqci\<close> builds in place is the one the protocol prescribes:
  the rejected options unchanged, or else the options refused with the values
  proposed instead, or else the whole request, in the order received.
\<close>

theorem ipcp_reqci_replies:
  assumes "plain_vj c" "c1 = c\<lparr>ho := (ho c)\<lparr>neg_addrs := False, neg_vj := False, maxslotindex := 0, cflag := 0\<rparr>\<rparr>"
  shows "ipcp_reqci c dat =
    (case answers u_short ipcp_verdict c1 dat of (as, c') \<Rightarrow> case reply as of (rc, out) \<Rightarrow> Some (rc, out, c'))"
proof -
  obtain as c' where "answers u_short ipcp_verdict c1 dat = (as, c')" by fastforce
  then show ?thesis using ipcp_tidy.request_answered [of c1 dat as c'] assms by (simp add: ipcp_reqci_def Let_def)
qed

theorem ipcp_reqci_replies_witness:
  "let c = ipcp_vj_setmode 2 (ci ipcp_fsm0) in
   map_option (\<lambda>(rc, out, c'). (rc, out)) (ipcp_reqci c [2, 4, 0, 55, 1, 10, 10, 0, 0, 1, 10, 0, 0, 2]) =
     Some (CONFNAK, [2, 4, 0, 45])"
proof -
  let ?c = "ipcp_vj_setmode 2 (ci ipcp_fsm0)"
  let ?c1 = "?c\<lparr>ho := (ho ?c)\<lparr>neg_addrs := False, neg_vj := False, maxslotindex := 0, cflag := 0\<rparr>\<rparr>"
  let ?d = "[2, 4, 0, 55, 1, 10, 10, 0, 0, 1, 10, 0, 0, 2] :: u8 list"
  have p: "plain_vj ?c" by code_simp
  have 1: "ipcp_verdict ?c1 2 [0, 55] = (CONFNAK, [0, 45], ?c1)" by code_simp
  obtain c2 where 2: "ipcp_verdict ?c1 1 [10, 0, 0, 1, 10, 0, 0, 2] = (CONFACK, [10, 0, 0, 1, 10, 0, 0, 2], c2)"
    by (rule that) code_simp
  have "answers u_short ipcp_verdict ?c1 [1, 10, 10, 0, 0, 1, 10, 0, 0, 2] = ([(CONFACK, [1, 10, 10, 0, 0, 1, 10, 0, 0, 2])], c2)"
    using 2 answers_step [of "[1, 10, 10, 0, 0, 1, 10, 0, 0, 2]" ipcp_verdict ?c1 CONFACK "[10, 0, 0, 1, 10, 0, 0, 2]" c2 u_short "[]" c2]
    by (simp add: bad_option_def answers.simps [where r = "[]"])
  then have "answers u_short ipcp_verdict ?c1 ?d = ([(CONFNAK, [2, 4, 0, 45]), (CONFACK, [1, 10, 10, 0, 0, 1, 10, 0, 0, 2])], c2)"
    using 1 answers_step [of ?d ipcp_verdict ?c1 CONFNAK "[0, 45]" ?c1 u_short "[(CONFACK, [1, 10, 10, 0, 0, 1, 10, 0, 0, 2])]" c2]
    by (simp add: bad_option_def)
  then show ?thesis
    using ipcp_reqci_replies [OF p refl, of ?d] unfolding Let_def by (simp add: reply_def)
qed

text \<open>
  The request a unit builds is as long as announced and an acknowledgement
  that repeats it is accepted without changing the options; received by the automaton
  in \<^verbatim>\<open>ACKSENT\<close>, it opens the connection.
\<close>

theorem ipcp_own_request_acknowledged:
  assumes "vj_ok (ci f)" "state f = ACKSENT"
    "p = [CONFACK, reqid f, 0, of_nat (ipcp_cilen (ci f) + 4)] @ ipcp_addci (ci f)"
  shows "length (ipcp_addci (ci f)) = ipcp_cilen (ci f) \<and> ipcp_ackci (ci f) (ipcp_addci (ci f)) = (True, ci f) \<and>
    state (ipcp_input junk p f) = OPEN"
proof -
  have "ipcp_cilen (ci f) < 252" using assms(1) by (simp add: ipcp_cilen_def vj_ok_def)
  moreover have "ipcp_nego.provides (ipcp_callbacks junk)" by (simp add: ipcp_nego.provides_def ipcp_callbacks_def)
  ultimately show ?thesis
    using ipcp_nego.echoed_request_accepted(2) [of "ipcp_callbacks junk" f "reqid f" p] assms
      ipcp_nego.add_length ipcp_nego.ack_own by (simp add: ipcp_input_def)
qed

theorem ipcp_own_request_acknowledged_witness:
  "let f = ipcp_fsm0\<lparr>state := ACKSENT, reqid := 7, ci := with_addrs 0x0a000001 0x0a000002 (ci ipcp_fsm0)\<rparr> in
   state (ipcp_input (0, 0) [2, 7, 0, 20, 1, 10, 10, 0, 0, 1, 10, 0, 0, 2, 2, 6, 0, 45, 15, 1] f) = OPEN"
proof -
  let ?f = "ipcp_fsm0\<lparr>state := ACKSENT, reqid := 7, ci := with_addrs 0x0a000001 0x0a000002 (ci ipcp_fsm0)\<rparr>"
  have "vj_ok (ci ?f)" "[2, 7, 0, 20, 1, 10, 10, 0, 0, 1, 10, 0, 0, 2, 2, 6, 0, 45, 15, 1] =
    [2, reqid ?f, 0, of_nat (ipcp_cilen (ci ?f) + 4)] @ ipcp_addci (ci ?f)" by code_simp+
  then show ?thesis
    using ipcp_own_request_acknowledged [of ?f "[2, 7, 0, 20, 1, 10, 10, 0, 0, 1, 10, 0, 0, 2, 2, 6, 0, 45, 15, 1]" "(0, 0)"]
    unfolding Let_def by simp
qed

text \<open>
  Two units understand each other.  A request of one unit to which the other
  has no objection is acknowledged unchanged, and what the other records as its
  peer's options is what the first one asked for: its own address as the peer's,
  its peer's address as ours, and the compression parameters.
\<close>

theorem ipcp_request_understood:
  assumes "vj_ok a" "vj_ok b" "agreeable a b" "neg_addrs (go a)" "neg_vj (go a)" "vj_mode a = IPCP_VJMODE_RFC1332"
  shows "\<exists>b'. ipcp_reqci b (ipcp_addci a) = Some (CONFACK, ipcp_addci a, b') \<and>
    neg_addrs (ho b') \<and> hisaddr (ho b') = ouraddr (go a) \<and> ouraddr (ho b') = hisaddr (go a) \<and>
    neg_vj (ho b') \<and> maxslotindex (ho b') = maxslotindex (go a) \<and> cflag (ho b') = cflag (go a)"
proof -
  let ?b = "b\<lparr>ho := (ho b)\<lparr>neg_addrs := False, neg_vj := False, maxslotindex := 0, cflag := 0\<rparr>\<rparr>"
  have "agreeable a ?b" "vj_ok ?b" using assms(2,3) by (simp_all add: agreeable_def)
  then have "ipcp_reqci b (ipcp_addci a) = Some (CONFACK, ipcp_addci a, saw_vj a (saw_addr a (saw_addrs a ?b)))"
    using ipcp_request_accepted [of a ?b] assms(1) by (simp add: ipcp_reqci_def)
  then show ?thesis using assms(4-) by (auto simp: saw_vj_def saw_addr_def saw_addrs_def)
qed

theorem ipcp_request_understood_witness:
  "\<exists>b'. ipcp_reqci (ci ipcp_fsm0) [1, 10, 10, 0, 0, 1, 10, 0, 0, 2, 2, 6, 0, 45, 15, 1] =
      Some (CONFACK, [1, 10, 10, 0, 0, 1, 10, 0, 0, 2, 2, 6, 0, 45, 15, 1], b') \<and>
    hisaddr (ho b') = 0x0a000001 \<and> ouraddr (ho b') = 0x0a000002"
proof -
  let ?a = "with_addrs 0x0a000001 0x0a000002 (ci ipcp_fsm0)"
  have "ipcp_addci ?a = [1, 10, 10, 0, 0, 1, 10, 0, 0, 2, 2, 6, 0, 45, 15, 1]" "ouraddr (go ?a) = 0x0a000001"
    "hisaddr (go ?a) = 0x0a000002" "vj_ok ?a" "vj_ok (ci ipcp_fsm0)" "agreeable ?a (ci ipcp_fsm0)" "neg_addrs (go ?a)"
    "neg_vj (go ?a)" "vj_mode ?a = 3" by code_simp+
  then show ?thesis using ipcp_request_understood [of ?a "ci ipcp_fsm0"] by auto
qed

text \<open>
  A peer that rejects our pair of addresses is not heard.  The rejected values
  are compared in the wrong order, so unless both addresses are the same a
  Configure-Reject that repeats our request leaves every option as it was, and the
  same request is sent again.
\<close>

theorem ipcp_reject_of_addrs_ignored:
  assumes "neg_addrs (go c)" "ouraddr (go c) \<noteq> hisaddr (go c)"
  shows "ipcp_rejci c (ipcp_addci c) = c"
  using assms by (simp add: ipcp_rejci_def REJCIADDRS_def ipcp_addci_def bytes_of_long_def)

theorem ipcp_reject_of_addrs_ignored_witness:
  "ipcp_rejci (with_addrs 0x0a000001 0x0a000002 (ci ipcp_fsm0)) (ipcp_addci (with_addrs 0x0a000001 0x0a000002 (ci ipcp_fsm0))) =
     with_addrs 0x0a000001 0x0a000002 (ci ipcp_fsm0)"
  by (rule ipcp_reject_of_addrs_ignored) code_simp+

text \<open>
  A refused compression option makes the rest of the request be read from the
  middle of that option.  In the default mode a request for the old compression
  type, followed by a valid pair of addresses, is answered by a Configure-Reject
  whose only option has type 15 and is no option of the request.
\<close>

theorem ipcp_nak_misreads_next_option:
  "\<exists>c'. ipcp_reqci (ci ipcp_fsm0) [2, 6, 0, 55, 15, 6, 1, 10, 10, 0, 0, 1, 10, 0, 0, 2] =
     Some (CONFREJ, [15, 6, 1, 10, 10, 0, 0, 1, 10, 0], c')"
proof -
  let ?d = "[2, 6, 0, 55, 15, 6, 1, 10, 10, 0, 0, 1, 10, 0, 0, 2] :: u8 list"
  define c where "c = (ci ipcp_fsm0)\<lparr>ho := (ho (ci ipcp_fsm0))\<lparr>neg_addrs := False, neg_vj := False, maxslotindex := 0, cflag := 0\<rparr>\<rparr>"
  have c: "neg_vj (ao c)" "vj_opt_len c = 6" "vj_opt_val c = 0x2d" unfolding c_def by code_simp+
  have v: "short_of 0 55 \<noteq> 0x2d" "bytes_of_short 0x2d = [0, 45]" by code_simp+
  let ?e = "[2, 6, 0, 45, 15, 6, 1, 10, 10, 0, 0, 1, 10, 0, 0, 2] :: u8 list"
  have sw: "ipcp_switch c ?d (0 + 2) (?d ! 0) (6 - 2) = Some (CONFNAK, ?e, 4, c)"
    using c v by (simp add: ipcp_switch_def req_compresstype_def GETSHORT_def PUT_def)
  have pl: "place CONFNAK CONFACK 0 0 6 ?e = Some (CONFNAK, 6, ?e)" by (simp add: place_def)
  have "ipcp_reqci (ci ipcp_fsm0) ?d = req_loop u_short ipcp_switch 16 c ?d 0 0 CONFACK"
    unfolding ipcp_reqci_def c_def Let_def by (simp add: numeral_eq_Suc)
  also have "\<dots> = req_loop u_short ipcp_switch (16 - 6) c ?e 4 6 CONFNAK"
    using sw pl by (intro req_loop_step [where orc = CONFNAK and b' = ?e]) (simp_all add: bad_option_def)
  also have "\<dots> = Some (CONFREJ, [15, 6, 1, 10, 10, 0, 0, 1, 10, 0], c)"
    apply (subst req_loop.simps)
    apply (simp add: GETCHAR_def ipcp_switch_def place_def BCOPY_def PUT_def)
    apply (subst req_loop.simps)
    apply (simp add: GETCHAR_def place_def BCOPY_def PUT_def u_short_def)
    done
  finally show ?thesis by blast
qed

end
