(* ===== verification/Pppunit.thy ===== *)
theory Pppunit
  imports Ipcp
begin

text \<open>
  The state of one unit of the PPP daemon apart from the LCP automaton: the LCP
  options, the two authentication protocols and the IPCP automaton, with what the
  daemon gets from outside as the record \<open>env\<close>: the password data base behind \<^verbatim>\<open>login\<close>,
  the secrets file, the random number generators, the host name, the message digest,
  and the values of uninitialised locals of \<^verbatim>\<open>ipcp_nakci\<close>.
\<close>

abbreviation (input) UPAP :: u16 where "UPAP \<equiv> 0xc023"
abbreviation (input) CHAP :: u16 where "CHAP \<equiv> 0xc223"
abbreviation (input) CHAP_DIGEST_MD5 :: u8 where "CHAP_DIGEST_MD5 \<equiv> 5"
abbreviation (input) CHAP_NOCALLBACK :: u8 where "CHAP_NOCALLBACK \<equiv> 0"

datatype passwd_check = NoSuchUser | WrongPasswd | PasswdOk

record env =
  passwd :: "u8 list \<Rightarrow> u8 list \<Rightarrow> passwd_check"
  secret :: "u8 list \<Rightarrow> u8 list"
  md5 :: "u8 list \<Rightarrow> u8 list"
  challenges :: "nat \<Rightarrow> u8 list"
  randoms :: "nat \<Rightarrow> u32"
  hostname :: "u8 list"
  locals :: "u8 \<times> u8"

record lcp_options =
  passiveopt :: bool
  restartopt :: bool
  neg_mru :: bool
  mru :: u16
  neg_asyncmap :: bool
  asyncmap :: u32
  neg_upap :: bool
  neg_chap :: bool
  chap_mdtype :: u8
  chap_callback :: u8
  neg_magicnumber :: bool
  magicnumber :: u32
  numloops :: int
  neg_pcompression :: bool
  neg_accompression :: bool

datatype upap_client = UPAPCS_CLOSED | UPAPCS_AUTHSENT | UPAPCS_OPEN
datatype upap_server = UPAPSS_CLOSED | UPAPSS_LISTEN | UPAPSS_OPEN

text \<open>The flags are one boolean each; \<^verbatim>\<open>us_userlen\<close> and \<^verbatim>\<open>us_passwdlen\<close> are the lengths of the
  strings.  \<open>us_timers\<close> counts the pending timeouts.\<close>

record upap_state =
  us_user :: "u8 list"
  us_passwd :: "u8 list"
  us_clientstate :: upap_client
  us_serverstate :: upap_server
  us_lowerup :: bool
  us_awppending :: bool
  us_appending :: bool
  us_upvalid :: bool
  us_uppending :: bool
  us_id :: u8
  us_retransmits :: int
  us_timers :: nat

datatype chap_client = CHAPCS_CLOSED | CHAPCS_CHALLENGE_SENT | CHAPCS_OPEN
datatype chap_server = CHAPSS_CLOSED | CHAPSS_LISTEN | CHAPSS_OPEN

record chap_state =
  chal_str :: "u8 list"
  clientstate :: chap_client
  serverstate :: chap_server
  ch_lowerup :: bool
  ch_awppending :: bool
  ch_appending :: bool
  ch_id :: u8
  ch_retransmits :: int
  ch_timers :: nat
  chals :: nat

text \<open>\<open>next_magic\<close> and \<open>rands\<close> are the state of \<^verbatim>\<open>magic\<close>, \<open>attempts\<close> that of \<^verbatim>\<open>login\<close>; \<open>logins\<close> the
  users logged in and \<open>logouts\<close> the number of log-outs, as recorded in \<^verbatim>\<open>wtmp\<close>; \<open>out\<close> the
  packets the authentication protocols sent, with their protocol.\<close>

record ppp_unit =
  lcp_wantoptions :: lcp_options
  lcp_gotoptions :: lcp_options
  lcp_allowoptions :: lcp_options
  lcp_hisoptions :: lcp_options
  upap :: upap_state
  chap :: chap_state
  ipcp_fsm :: "ipcp fsm"
  next_magic :: u32
  rands :: nat
  attempts :: int
  logins :: "u8 list list"
  logouts :: nat
  out :: "(u16 \<times> outpkt) list"

definition send :: "u16 \<Rightarrow> outpkt \<Rightarrow> ppp_unit \<Rightarrow> ppp_unit" where
  "send proto p u = u\<lparr>out := out u @ [(proto, p)]\<rparr>"

definition start_ipcp :: "env \<Rightarrow> ppp_unit \<Rightarrow> ppp_unit" where
  "start_ipcp e u = u\<lparr>ipcp_fsm := ipcp_activeopen (locals e) (ipcp_fsm u)\<rparr>"

definition log_out :: "ppp_unit \<Rightarrow> ppp_unit" where
  "log_out u = u\<lparr>logouts := logouts u + 1\<rparr>"

definition magic :: "env \<Rightarrow> ppp_unit \<Rightarrow> u32 \<times> ppp_unit" where
  "magic e u = (next_magic u, u\<lparr>next_magic := randoms e (rands u), rands := rands u + 1\<rparr>)"

section \<open>Password authentication\<close>

abbreviation (input) UPAP_AUTH :: u8 where "UPAP_AUTH \<equiv> 1"
abbreviation (input) UPAP_AUTHACK :: u8 where "UPAP_AUTHACK \<equiv> 2"
abbreviation (input) UPAP_AUTHNAK :: u8 where "UPAP_AUTHNAK \<equiv> 3"

abbreviation set_upap :: "upap_state \<Rightarrow> ppp_unit \<Rightarrow> ppp_unit" where
  "set_upap s u \<equiv> u\<lparr>upap := s\<rparr>"

definition upap_init :: "ppp_unit \<Rightarrow> ppp_unit" where
  "upap_init u = set_upap ((upap u)\<lparr>us_user := [], us_passwd := [], us_clientstate := UPAPCS_CLOSED, us_serverstate := UPAPSS_CLOSED,
     us_lowerup := False, us_awppending := False, us_appending := False, us_upvalid := False, us_uppending := False,
     us_id := 0\<rparr>) u"

definition upap_sauth :: "ppp_unit \<Rightarrow> ppp_unit" where
  "upap_sauth u =
     (let s = (upap u)\<lparr>us_id := us_id (upap u) + 1\<rparr>;
          outlen = HEADERLEN + 2 + length (us_user s) + length (us_passwd s) in
      send UPAP (UPAP_AUTH, us_id s, outlen,
        of_nat (length (us_user s)) # us_user s @ of_nat (length (us_passwd s)) # us_passwd s) (set_upap s u))"

definition upap_sresp :: "u8 \<Rightarrow> u8 \<Rightarrow> u8 list \<Rightarrow> ppp_unit \<Rightarrow> ppp_unit" where
  "upap_sresp code i msg u = send UPAP (code, i, HEADERLEN + 1 + length msg, of_nat (length msg) # msg) u"

text \<open>\<^verbatim>\<open>GETUSERPASSWD\<close> is defined empty.\<close>

definition upap_authwithpeer :: "ppp_unit \<Rightarrow> ppp_unit" where
  "upap_authwithpeer u0 =
     (let s = (upap u0)\<lparr>us_awppending := False\<rparr>; u = set_upap s u0 in
      if us_serverstate s \<noteq> UPAPSS_CLOSED \<or> us_appending s then u
      else if us_clientstate s = UPAPCS_AUTHSENT \<or> us_clientstate s = UPAPCS_OPEN then u
      else if \<not> us_lowerup s then set_upap (s\<lparr>us_awppending := True\<rparr>) u
      else if \<not> us_upvalid s then set_upap (s\<lparr>us_uppending := True\<rparr>) u
      else
        let u1 = upap_sauth u in
        set_upap ((upap u1)\<lparr>us_clientstate := UPAPCS_AUTHSENT, us_retransmits := 0\<rparr>) u1)"

definition upap_authpeer :: "ppp_unit \<Rightarrow> ppp_unit" where
  "upap_authpeer u0 =
     (let s = (upap u0)\<lparr>us_appending := False\<rparr>; u = set_upap s u0 in
      if us_serverstate s = UPAPSS_LISTEN \<or> us_serverstate s = UPAPSS_OPEN then u
      else if \<not> us_lowerup s then set_upap (s\<lparr>us_appending := True\<rparr>) u
      else set_upap (s\<lparr>us_serverstate := UPAPSS_LISTEN\<rparr>) u)"

definition upap_timeout :: "ppp_unit \<Rightarrow> ppp_unit" where
  "upap_timeout u =
     (if us_clientstate (upap u) \<noteq> UPAPCS_AUTHSENT then u
      else
        let u1 = upap_sauth u; s = upap u1 in
        set_upap (s\<lparr>us_timers := us_timers s + 1, us_retransmits := us_retransmits s + 1\<rparr>) u1)"

definition upap_lowerup :: "ppp_unit \<Rightarrow> ppp_unit" where
  "upap_lowerup u =
     (let u1 = set_upap ((upap u)\<lparr>us_lowerup := True\<rparr>) u;
          u2 = (if us_awppending (upap u1) then upap_authwithpeer u1 else u1) in
      if us_appending (upap u2) then upap_authpeer u2 else u2)"

definition upap_lowerdown :: "ppp_unit \<Rightarrow> ppp_unit" where
  "upap_lowerdown u =
     (let s1 = (upap u)\<lparr>us_lowerup := False\<rparr>;
          s2 = (if us_clientstate s1 = UPAPCS_AUTHSENT then s1\<lparr>us_timers := us_timers s1 - 1\<rparr> else s1);
          u1 = (if us_serverstate s2 = UPAPSS_OPEN then log_out u else u) in
      set_upap (s2\<lparr>us_clientstate := UPAPCS_CLOSED, us_serverstate := UPAPSS_CLOSED\<rparr>) u1)"

definition upap_protrej :: "ppp_unit \<Rightarrow> ppp_unit" where
  "upap_protrej u = upap_lowerdown u"

text \<open>The message of a reply: its length byte must not exceed what is left.\<close>

definition msg_ok :: "u8 list \<Rightarrow> bool" where
  "msg_ok dat = (case dat of [] \<Rightarrow> False | n # r \<Rightarrow> unat n \<le> length r)"

definition upap_rauthack :: "env \<Rightarrow> u8 list \<Rightarrow> ppp_unit \<Rightarrow> ppp_unit" where
  "upap_rauthack e dat u =
     (if us_clientstate (upap u) \<noteq> UPAPCS_AUTHSENT \<or> \<not> msg_ok dat then u
      else
        let u1 = set_upap ((upap u)\<lparr>us_clientstate := UPAPCS_OPEN\<rparr>) u in
        if \<not> neg_chap (lcp_gotoptions u1) \<or> neg_chap (lcp_gotoptions u1) \<and> clientstate (chap u1) = CHAPCS_OPEN
        then start_ipcp e u1 else u1)"

definition upap_rauthnak :: "u8 list \<Rightarrow> ppp_unit \<Rightarrow> ppp_unit" where
  "upap_rauthnak dat u =
     (if us_clientstate (upap u) \<noteq> UPAPCS_AUTHSENT \<or> \<not> msg_ok dat then u
      else upap_authwithpeer (set_upap ((upap u)\<lparr>us_upvalid := False, us_clientstate := UPAPCS_CLOSED\<rparr>) u))"

end
