(* ===== verification/Chap.thy ===== *)
theory Chap
  imports Pppunit
begin

text \<open>
  The challenge protocol of the PPP daemon (\<^verbatim>\<open>src/libexec/pppd/chap.c\<close>).  A handler that
  would write past one of its stack buffers, read past the packet or use a local that
  was not set gives \<open>None\<close>.  The secrets file and the digest are those of the
  environment; the shutdown when no secret is found is left out.
\<close>

section \<open>Operations\<close>

abbreviation (input) CHAP_CHALLENGE :: u8 where "CHAP_CHALLENGE \<equiv> 1"
abbreviation (input) CHAP_RESPONSE :: u8 where "CHAP_RESPONSE \<equiv> 2"
abbreviation (input) CHAP_SUCCESS :: u8 where "CHAP_SUCCESS \<equiv> 3"
abbreviation (input) CHAP_FAILURE :: u8 where "CHAP_FAILURE \<equiv> 4"
abbreviation (input) MD5_SIGNATURE_SIZE :: nat where "MD5_SIGNATURE_SIZE \<equiv> 16"

abbreviation set_chap :: "chap_state \<Rightarrow> ppp_unit \<Rightarrow> ppp_unit" where
  "set_chap s u \<equiv> u\<lparr>chap := s\<rparr>"

definition ChapInit :: "ppp_unit \<Rightarrow> ppp_unit" where
  "ChapInit u = set_chap ((chap u)\<lparr>chal_str := [], clientstate := CHAPCS_CLOSED, serverstate := CHAPSS_CLOSED, ch_lowerup := False,
     ch_awppending := False, ch_appending := False, ch_id := 0, ch_retransmits := 0\<rparr>) u"

text \<open>\<^verbatim>\<open>cstate->clientstate |= CHAPCS_CHALLENGE_SENT\<close>, on the codes 1, 2 and 3.\<close>

fun or_challenge_sent :: "chap_client \<Rightarrow> chap_client" where
  "or_challenge_sent CHAPCS_CLOSED = CHAPCS_OPEN"
| "or_challenge_sent CHAPCS_CHALLENGE_SENT = CHAPCS_CHALLENGE_SENT"
| "or_challenge_sent CHAPCS_OPEN = CHAPCS_OPEN"

text \<open>\<^verbatim>\<open>ChapGenChallenge\<close> and the choice of the length draw on \<^verbatim>\<open>drand48\<close>: the challenges of the
  environment, in their order.  The length field counts one byte more than is written.\<close>

definition ChapSendChallenge :: "env \<Rightarrow> ppp_unit \<Rightarrow> ppp_unit" where
  "ChapSendChallenge e u =
     (let s = chap u; c = challenges e (chals s);
          s1 = s\<lparr>chal_str := c, chals := chals s + 1, ch_id := ch_id s + 1, clientstate := or_challenge_sent (clientstate s)\<rparr> in
      send CHAP (CHAP_CHALLENGE, ch_id s1, HEADERLEN + 2 + length c + length (hostname e),
        of_nat (length c) # c @ hostname e) (set_chap s1 u))"

definition ChapSendStatus :: "u8 \<Rightarrow> u8 \<Rightarrow> u8 list \<Rightarrow> ppp_unit \<Rightarrow> ppp_unit" where
  "ChapSendStatus code i msg u = send CHAP (code, i, HEADERLEN + length msg, msg) u"

definition ChapSendResponse :: "env \<Rightarrow> u8 \<Rightarrow> u8 list \<Rightarrow> ppp_unit \<Rightarrow> ppp_unit" where
  "ChapSendResponse e i md u =
     send CHAP (CHAP_RESPONSE, i, HEADERLEN + 1 + length md + length (hostname e), of_nat (length md) # md @ hostname e) u"

definition ChapAuthWithPeer :: "env \<Rightarrow> ppp_unit \<Rightarrow> ppp_unit" where
  "ChapAuthWithPeer e u0 =
     (let s = (chap u0)\<lparr>ch_awppending := False\<rparr>; u = set_chap s u0 in
      if serverstate s \<noteq> CHAPSS_CLOSED \<or> ch_appending s then u
      else if clientstate s = CHAPCS_CHALLENGE_SENT \<or> clientstate s = CHAPCS_OPEN then u
      else if \<not> ch_lowerup s then set_chap (s\<lparr>ch_awppending := True\<rparr>) u
      else
        let u1 = ChapSendChallenge e u; s1 = chap u1 in
        set_chap (s1\<lparr>ch_timers := ch_timers s1 + 1, clientstate := CHAPCS_CHALLENGE_SENT, ch_retransmits := 0\<rparr>) u1)"

definition ChapAuthPeer :: "ppp_unit \<Rightarrow> ppp_unit" where
  "ChapAuthPeer u0 =
     (let s = (chap u0)\<lparr>ch_appending := False\<rparr>; u = set_chap s u0 in
      if serverstate s = CHAPSS_LISTEN \<or> serverstate s = CHAPSS_OPEN then u
      else if \<not> ch_lowerup s then set_chap (s\<lparr>ch_appending := True\<rparr>) u
      else set_chap (s\<lparr>serverstate := CHAPSS_LISTEN\<rparr>) u)"

definition ChapTimeout :: "env \<Rightarrow> ppp_unit \<Rightarrow> ppp_unit" where
  "ChapTimeout e u =
     (if clientstate (chap u) \<noteq> CHAPCS_CHALLENGE_SENT then u
      else
        let u1 = ChapSendChallenge e u; s = chap u1 in
        set_chap (s\<lparr>ch_timers := ch_timers s + 1, ch_retransmits := ch_retransmits s + 1\<rparr>) u1)"

definition ChapLowerUp :: "env \<Rightarrow> ppp_unit \<Rightarrow> ppp_unit" where
  "ChapLowerUp e u =
     (let u1 = set_chap ((chap u)\<lparr>ch_lowerup := True\<rparr>) u;
          u2 = (if ch_awppending (chap u1) then ChapAuthWithPeer e u1 else u1) in
      if ch_appending (chap u2) then ChapAuthPeer u2 else u2)"

definition ChapLowerDown :: "ppp_unit \<Rightarrow> ppp_unit" where
  "ChapLowerDown u =
     (let s1 = (chap u)\<lparr>ch_lowerup := False\<rparr>;
          s2 = (if clientstate s1 = CHAPCS_CHALLENGE_SENT then s1\<lparr>ch_timers := ch_timers s1 - 1\<rparr> else s1);
          u1 = (if serverstate s2 = CHAPSS_OPEN then log_out u else u) in
      set_chap (s2\<lparr>clientstate := CHAPCS_CLOSED, serverstate := CHAPSS_CLOSED\<rparr>) u1)"

definition ChapProtocolReject :: "ppp_unit \<Rightarrow> ppp_unit" where
  "ChapProtocolReject u = ChapLowerDown u"

section \<open>Receiving\<close>

text \<open>The value and name fields of a challenge or response: \<open>None\<close> when the packet is short.\<close>

definition value_name :: "u8 list \<Rightarrow> (nat \<times> u8 list) option" where
  "value_name dat =
     (if length dat < 2 then None
      else let n = unat (dat ! 0) in if length dat < 1 + n then None else Some (n, drop 1 dat))"

definition ChapReceiveChallenge :: "env \<Rightarrow> u8 list \<Rightarrow> u8 \<Rightarrow> ppp_unit \<Rightarrow> ppp_unit option" where
  "ChapReceiveChallenge e dat i u =
     (if serverstate (chap u) \<noteq> CHAPSS_LISTEN then Some u
      else case value_name dat of
        None \<Rightarrow> Some u
      | Some (n, r) \<Rightarrow>
          let name = drop n r; sec = secret e name in
          if length name + 1 > 256 \<or> n + length sec > 256 then None
          else if chap_mdtype (lcp_hisoptions u) = CHAP_DIGEST_MD5
          then Some (ChapSendResponse e i (md5 e (take n r @ sec)) u)
          else Some u)"

definition welcome_msg :: "u8 list \<Rightarrow> u8 list" where
  "welcome_msg h = map of_char ''Welcome to '' @ h @ map of_char ''.''"

definition go_away :: "u8 list" where
  "go_away = map of_char ''I don'' @ [39] @ map of_char ''t like you.  Go '' @ [39] @ map of_char ''way.''"

text \<open>\<open>None\<close> stands for what the C text does not determine: a name, a challenge with its secret or a message too long for its buffer, a digest
  type other than MD5, for which the variable \<^verbatim>\<open>code\<close> is used without having been set, and a value of fewer than 16 bytes, which is
  compared together with older bytes of the input buffer.  The secret of a name is an argument of the model: \<^verbatim>\<open>get_secret\<close> looks it up in a file.\<close>

definition ChapReceiveResponse :: "env \<Rightarrow> u8 list \<Rightarrow> u8 \<Rightarrow> ppp_unit \<Rightarrow> ppp_unit option" where
  "ChapReceiveResponse e dat i u =
     (if clientstate (chap u) \<noteq> CHAPCS_CHALLENGE_SENT then Some u
      else case value_name dat of
        None \<Rightarrow> Some u
      | Some (n, r) \<Rightarrow>
          let name = drop n r; sec = secret e name; chal = chal_str (chap u) in
          if length name + 1 > 256 \<or> length chal + length sec > 256 then None
          else if chap_mdtype (lcp_gotoptions u) \<noteq> CHAP_DIGEST_MD5 \<or> length r < MD5_SIGNATURE_SIZE then None
          else if md5 e (chal @ sec) \<noteq> take MD5_SIGNATURE_SIZE r then Some (ChapSendStatus CHAP_FAILURE i go_away u)
          else if length (welcome_msg (hostname e)) + 1 > 256 then None
          else
            let u1 = ChapSendStatus CHAP_SUCCESS i (welcome_msg (hostname e)) u;
                u2 = set_chap ((chap u1)\<lparr>serverstate := CHAPSS_OPEN\<rparr>) u1 in
            Some (if \<not> neg_upap (lcp_hisoptions u2) \<or> neg_upap (lcp_hisoptions u2) \<and> us_serverstate (upap u2) = UPAPSS_OPEN
                  then start_ipcp e u2 else u2))"

definition ChapReceiveSuccess :: "env \<Rightarrow> u8 list \<Rightarrow> ppp_unit \<Rightarrow> ppp_unit" where
  "ChapReceiveSuccess e dat u =
     (if clientstate (chap u) \<noteq> CHAPCS_CHALLENGE_SENT \<or> \<not> msg_ok dat then u
      else
        let u1 = set_chap ((chap u)\<lparr>clientstate := CHAPCS_OPEN\<rparr>) u in
        if \<not> neg_chap (lcp_gotoptions u1) \<or> neg_chap (lcp_gotoptions u1) \<and> us_serverstate (upap u1) = UPAPSS_OPEN
        then start_ipcp e u1 else u1)"

definition ChapReceiveFailure :: "env \<Rightarrow> u8 list \<Rightarrow> ppp_unit \<Rightarrow> ppp_unit" where
  "ChapReceiveFailure e dat u =
     (if clientstate (chap u) \<noteq> CHAPCS_CHALLENGE_SENT \<or> \<not> msg_ok dat then u
      else ChapAuthWithPeer e (set_chap ((chap u)\<lparr>clientstate := CHAPCS_CLOSED\<rparr>) u))"

definition ChapInput :: "env \<Rightarrow> u8 list \<Rightarrow> ppp_unit \<Rightarrow> ppp_unit option" where
  "ChapInput e inpacket u =
     (case inpacket of
        code # i # l1 # l2 # rest \<Rightarrow>
          let len = unat l1 * 256 + unat l2 in
          if len < HEADERLEN \<or> len > length inpacket then Some u
          else
            let dat = take (len - HEADERLEN) rest in
            if code = CHAP_CHALLENGE then ChapReceiveChallenge e dat i u
            else if code = CHAP_RESPONSE then ChapReceiveResponse e dat i u
            else if code = CHAP_FAILURE then Some (ChapReceiveFailure e dat u)
            else if code = CHAP_SUCCESS then Some (ChapReceiveSuccess e dat u)
            else Some u
      | _ \<Rightarrow> Some u)"

end
