(* ===== verification/Lcp.thy ===== *)
theory Lcp
  imports Chap
begin

text \<open>
  The link control protocol of the PPP daemon (\<^verbatim>\<open>src/libexec/pppd/lcp.c\<close>) on the state of
  a unit: its options, the routines the automaton calls, and what happens to the
  authentication protocols and to IPCP when the link comes up and goes down.  The
  macros that configure the network interface are left out.
\<close>

section \<open>Our request\<close>

abbreviation (input) CI_MRU :: u8 where "CI_MRU \<equiv> 1"
abbreviation (input) CI_ASYNCMAP :: u8 where "CI_ASYNCMAP \<equiv> 2"
abbreviation (input) CI_AUTHTYPE :: u8 where "CI_AUTHTYPE \<equiv> 3"
abbreviation (input) CI_MAGICNUMBER :: u8 where "CI_MAGICNUMBER \<equiv> 5"
abbreviation (input) CI_PCOMPRESSION :: u8 where "CI_PCOMPRESSION \<equiv> 7"
abbreviation (input) CI_ACCOMPRESSION :: u8 where "CI_ACCOMPRESSION \<equiv> 8"
abbreviation (input) DEFMRU :: u16 where "DEFMRU \<equiv> 1500"
abbreviation (input) MINMRU :: u16 where "MINMRU \<equiv> 128"

definition lcp_resetci :: "env \<Rightarrow> ppp_unit \<Rightarrow> ppp_unit" where
  "lcp_resetci e u =
     (let (m, u) = magic e u; w = (lcp_wantoptions u)\<lparr>magicnumber := m, numloops := 0\<rparr> in
      u\<lparr>lcp_wantoptions := w, lcp_gotoptions := w\<rparr>)"

definition lcp_cilen :: "ppp_unit \<Rightarrow> nat" where
  "lcp_cilen u =
     (let g = lcp_gotoptions u in
      (if neg_mru g then 4 else 0) + (if neg_asyncmap g then 6 else 0) + (if neg_chap g then 6 else 0) +
      (if neg_upap g then 4 else 0) + (if neg_magicnumber g then 6 else 0) + (if neg_pcompression g then 2 else 0) +
      (if neg_accompression g then 2 else 0))"

text \<open>\<^verbatim>\<open>ADDCIVOID\<close>, \<^verbatim>\<open>ADDCISHORT\<close>, \<^verbatim>\<open>ADDCICHAP\<close> and \<^verbatim>\<open>ADDCILONG\<close>: an option of the given type and data.\<close>

definition ADDCI :: "u8 \<Rightarrow> bool \<Rightarrow> u8 list \<Rightarrow> u8 list" where
  "ADDCI opt neg d = (if neg then [opt, of_nat (2 + length d)] @ d else [])"

definition lcp_addci :: "ppp_unit \<Rightarrow> u8 list" where
  "lcp_addci u =
     (let g = lcp_gotoptions u in
      ADDCI CI_MRU (neg_mru g) (bytes_of_short (mru g)) @
      ADDCI CI_ASYNCMAP (neg_asyncmap g) (bytes_of_long (asyncmap g)) @
      ADDCI CI_AUTHTYPE (neg_chap g) (bytes_of_short CHAP @ [chap_mdtype g, chap_callback g]) @
      ADDCI CI_AUTHTYPE (neg_upap g) (bytes_of_short UPAP) @
      ADDCI CI_MAGICNUMBER (neg_magicnumber g) (bytes_of_long (magicnumber g)) @
      ADDCI CI_PCOMPRESSION (neg_pcompression g) [] @
      ADDCI CI_ACCOMPRESSION (neg_accompression g) [])"

section \<open>The peer's answer\<close>

text \<open>An option of type \<open>opt\<close> and length \<open>n\<close> at the head of the packet: its data and the rest.
  This is the test of \<^verbatim>\<open>NAKCI...\<close> and \<^verbatim>\<open>REJCI...\<close>, and of \<^verbatim>\<open>ACKCI...\<close> where it is fatal to fail.\<close>

definition ci_match :: "u8 \<Rightarrow> nat \<Rightarrow> u8 list \<Rightarrow> (u8 list \<times> u8 list) option" where
  "ci_match opt n p =
     (case p of
        t # m # r \<Rightarrow> if length p \<ge> n \<and> unat m = n \<and> t = opt then Some (take (n - 2) r, drop (n - 2) r) else None
      | _ \<Rightarrow> None)"

definition ACKCI :: "u8 \<Rightarrow> bool \<Rightarrow> u8 list \<Rightarrow> u8 list \<Rightarrow> u8 list option" where
  "ACKCI opt neg d p =
     (if neg then (case ci_match opt (2 + length d) p of None \<Rightarrow> None | Some (d', r) \<Rightarrow> if d' = d then Some r else None)
      else Some p)"

definition lcp_ackci :: "ppp_unit \<Rightarrow> u8 list \<Rightarrow> bool" where
  "lcp_ackci u p =
     (let g = lcp_gotoptions u in
      (do {
        p \<leftarrow> ACKCI CI_MRU (neg_mru g) (bytes_of_short (mru g)) p;
        p \<leftarrow> ACKCI CI_ASYNCMAP (neg_asyncmap g) (bytes_of_long (asyncmap g)) p;
        p \<leftarrow> ACKCI CI_AUTHTYPE (neg_chap g) (bytes_of_short CHAP @ [chap_mdtype g, chap_callback g]) p;
        p \<leftarrow> ACKCI CI_AUTHTYPE (neg_upap g) (bytes_of_short UPAP) p;
        p \<leftarrow> ACKCI CI_MAGICNUMBER (neg_magicnumber g) (bytes_of_long (magicnumber g)) p;
        p \<leftarrow> ACKCI CI_PCOMPRESSION (neg_pcompression g) [] p;
        ACKCI CI_ACCOMPRESSION (neg_accompression g) [] p
      }) = Some [])"

text \<open>\<^verbatim>\<open>NAKCI...\<close>: the packet goes on behind the option when it is there.\<close>

definition NAKCI :: "u8 \<Rightarrow> bool \<Rightarrow> nat \<Rightarrow> (u8 list \<Rightarrow> 'g \<Rightarrow> 'g) \<Rightarrow> 'g \<Rightarrow> u8 list \<Rightarrow> 'g \<times> u8 list" where
  "NAKCI opt neg n code g p =
     (if neg then (case ci_match opt n p of None \<Rightarrow> (g, p) | Some (d, r) \<Rightarrow> (code d g, r)) else (g, p))"

abbreviation short_at :: "u8 list \<Rightarrow> u16" where "short_at d \<equiv> short_of (d ! 0) (d ! 1)"
abbreviation long_at :: "u8 list \<Rightarrow> u32" where "long_at d \<equiv> long_of (d ! 0) (d ! 1) (d ! 2) (d ! 3)"

abbreviation on_go :: "(lcp_options \<Rightarrow> lcp_options) \<Rightarrow> ppp_unit \<Rightarrow> ppp_unit" where
  "on_go h u \<equiv> u\<lparr>lcp_gotoptions := h (lcp_gotoptions u)\<rparr>"

definition nak_magic :: "env \<Rightarrow> ppp_unit \<Rightarrow> ppp_unit" where
  "nak_magic e u =
     (let (m, u) = magic e u in on_go (\<lambda>g. g\<lparr>magicnumber := m, numloops := numloops g + 1\<rparr>) u)"

definition nak_rest :: "env \<Rightarrow> ppp_unit \<Rightarrow> u8 list \<Rightarrow> ppp_unit" where
  "nak_rest e u p =
     (let g = lcp_gotoptions u;
          (u, p) = NAKCI CI_ASYNCMAP (neg_asyncmap g) 6 (\<lambda>d. on_go (\<lambda>g. g\<lparr>asyncmap := asyncmap g OR long_at d\<rparr>)) u p;
          (u, p) = NAKCI CI_AUTHTYPE (neg_chap g) 6 (\<lambda>d u. u) u p;
          (u, p) = NAKCI CI_AUTHTYPE (neg_upap g) 4 (\<lambda>d u. u) u p;
          (u, p) = NAKCI CI_MAGICNUMBER (neg_magicnumber g) 6 (\<lambda>d. nak_magic e) u p;
          (u, p) = NAKCI CI_PCOMPRESSION (neg_pcompression g) 2 (\<lambda>d. on_go (\<lambda>g. g\<lparr>neg_pcompression := False\<rparr>)) u p;
          (u, p) = NAKCI CI_ACCOMPRESSION (neg_accompression g) 2 (\<lambda>d. on_go (\<lambda>g. g\<lparr>neg_accompression := False\<rparr>)) u p in
      u)"

definition lcp_nakci :: "env \<Rightarrow> ppp_unit \<Rightarrow> u8 list \<Rightarrow> ppp_unit" where
  "lcp_nakci e u p =
     (case (if neg_mru (lcp_gotoptions u) then ci_match CI_MRU 4 p else None) of
        Some (d, r) \<Rightarrow>
          if short_at d \<le> mru (lcp_wantoptions u)
          then nak_rest e (on_go (\<lambda>g. g\<lparr>mru := short_at d\<rparr>) u) r
          else u
      | None \<Rightarrow> nak_rest e u p)"

text \<open>\<^verbatim>\<open>REJCI...\<close>: a matching option is cleared if the rejected value is ours; otherwise the
  packet is bad and nothing further is looked at.\<close>

definition REJCI :: "u8 \<Rightarrow> nat \<Rightarrow> (lcp_options \<Rightarrow> bool) \<Rightarrow> (lcp_options \<Rightarrow> u8 list \<Rightarrow> bool) \<Rightarrow> (lcp_options \<Rightarrow> lcp_options) \<Rightarrow>
    lcp_options \<times> u8 list option \<Rightarrow> lcp_options \<times> u8 list option" where
  "REJCI opt n neg same clear s =
     (case s of
        (g, None) \<Rightarrow> (g, None)
      | (g, Some p) \<Rightarrow>
          (case (if neg g then ci_match opt n p else None) of
             None \<Rightarrow> (g, Some p)
           | Some (d, r) \<Rightarrow> if same g d then (clear g, Some r) else (g, None)))"

definition lcp_rejci :: "ppp_unit \<Rightarrow> u8 list \<Rightarrow> ppp_unit" where
  "lcp_rejci u p =
     (let s = (lcp_gotoptions u, Some p);
          s = REJCI CI_MRU 4 neg_mru (\<lambda>g d. short_at d = mru g) (\<lambda>g. g\<lparr>neg_mru := False\<rparr>) s;
          s = REJCI CI_ASYNCMAP 6 neg_asyncmap (\<lambda>g d. long_at d = asyncmap g) (\<lambda>g. g\<lparr>neg_asyncmap := False\<rparr>) s;
          s = REJCI CI_AUTHTYPE 6 neg_chap (\<lambda>g d. short_at d = CHAP) (\<lambda>g. g\<lparr>neg_chap := False\<rparr>) s;
          s = REJCI CI_AUTHTYPE 4 neg_upap (\<lambda>g d. short_at d = UPAP) (\<lambda>g. g\<lparr>neg_upap := False\<rparr>) s;
          s = REJCI CI_MAGICNUMBER 6 neg_magicnumber (\<lambda>g d. long_at d = magicnumber g) (\<lambda>g. g\<lparr>neg_magicnumber := False\<rparr>) s;
          s = REJCI CI_PCOMPRESSION 2 neg_pcompression (\<lambda>g d. True) (\<lambda>g. g\<lparr>neg_pcompression := False\<rparr>) s;
          s = REJCI CI_ACCOMPRESSION 2 neg_accompression (\<lambda>g d. True) (\<lambda>g. g\<lparr>neg_accompression := False\<rparr>) s in
      u\<lparr>lcp_gotoptions := fst s\<rparr>)"

section \<open>The peer's request\<close>

abbreviation on_ho :: "(lcp_options \<Rightarrow> lcp_options) \<Rightarrow> ppp_unit \<Rightarrow> ppp_unit" where
  "on_ho h u \<equiv> u\<lparr>lcp_hisoptions := h (lcp_hisoptions u)\<rparr>"

definition req_mru :: "ppp_unit \<Rightarrow> u8 list \<Rightarrow> nat \<Rightarrow> nat \<Rightarrow> (u8 \<times> u8 list \<times> nat \<times> ppp_unit) option" where
  "req_mru u b p n =
     (if \<not> neg_mru (lcp_allowoptions u) \<or> n \<noteq> 2 then Some (CONFREJ, b, p + n, u)
      else do {
        s \<leftarrow> GETSHORT b p;
        if s < MINMRU then do { b \<leftarrow> PUT (bytes_of_short MINMRU) b p; Some (CONFNAK, b, p + 2, u) }
        else Some (CONFACK, b, p + 2, on_ho (\<lambda>h. h\<lparr>neg_mru := True, mru := s\<rparr>) u)
      })"

definition req_asyncmap :: "ppp_unit \<Rightarrow> u8 list \<Rightarrow> nat \<Rightarrow> nat \<Rightarrow> (u8 \<times> u8 list \<times> nat \<times> ppp_unit) option" where
  "req_asyncmap u b p n =
     (if \<not> neg_asyncmap (lcp_allowoptions u) \<or> n \<noteq> 4 then Some (CONFREJ, b, p + n, u)
      else do {
        l \<leftarrow> GETLONG b p;
        Some (CONFACK, b, p + 4, on_ho (\<lambda>h. h\<lparr>neg_asyncmap := True, asyncmap := l\<rparr>) u)
      })"

text \<open>For CHAP the pointer is moved to the end of the option before its last two bytes are
  read.\<close>

definition req_chap :: "ppp_unit \<Rightarrow> u8 list \<Rightarrow> nat \<Rightarrow> nat \<Rightarrow> (u8 \<times> u8 list \<times> nat \<times> ppp_unit) option" where
  "req_chap u b p n =
     (if \<not> neg_chap (lcp_allowoptions u) then Some (CONFREJ, b, p, u)
      else do {
        d \<leftarrow> GETCHAR b p;
        if d \<noteq> chap_mdtype (lcp_allowoptions u) then do {
          b \<leftarrow> PUT [chap_mdtype (lcp_allowoptions u)] b p;
          Some (CONFNAK, b, p + 1 + (n - 1), u)
        }
        else do {
          let u = on_ho (\<lambda>h. h\<lparr>chap_mdtype := d\<rparr>) u;
          k \<leftarrow> GETCHAR b (p + 1);
          if k \<noteq> chap_callback (lcp_allowoptions u) then do {
            b \<leftarrow> PUT [CHAP_NOCALLBACK] b (p + 1);
            Some (CONFNAK, b, p + 2 + (n - 1), u)
          }
          else Some (CONFACK, b, p + 2, on_ho (\<lambda>h. h\<lparr>chap_callback := k, neg_chap := True\<rparr>) u)
        }
      })"

definition req_authtype :: "ppp_unit \<Rightarrow> u8 list \<Rightarrow> nat \<Rightarrow> nat \<Rightarrow> (u8 \<times> u8 list \<times> nat \<times> ppp_unit) option" where
  "req_authtype u b p n =
     (let a = lcp_allowoptions u in
      if n < 2 \<or> \<not> neg_upap a \<and> \<not> neg_chap a then Some (CONFREJ, b, p + n, u)
      else do {
        s \<leftarrow> GETSHORT b p;
        if s = UPAP then
          (if \<not> neg_upap a then Some (CONFREJ, b, p + 2 + (n - 2), u)
           else Some (CONFACK, b, p + 2 + (n - 2), on_ho (\<lambda>h. h\<lparr>neg_upap := True\<rparr>) u))
        else if s = CHAP then req_chap u b (p + 2 + (n - 2)) n
        else do { b \<leftarrow> PUT (bytes_of_short CHAP) b p; Some (CONFNAK, b, p + 2 + (n - 2), u) }
      })"

definition req_magicnumber :: "env \<Rightarrow> ppp_unit \<Rightarrow> u8 list \<Rightarrow> nat \<Rightarrow> nat \<Rightarrow> (u8 \<times> u8 list \<times> nat \<times> ppp_unit) option" where
  "req_magicnumber e u b p n =
     (if \<not> neg_magicnumber (lcp_allowoptions u) \<or> n \<noteq> 4 then Some (CONFREJ, b, p + n, u)
      else do {
        l \<leftarrow> GETLONG b p;
        if neg_magicnumber (lcp_gotoptions u) \<and> l = magicnumber (lcp_gotoptions u) then do {
          let (m, u) = magic e u;
          b \<leftarrow> PUT (bytes_of_long m) b p;
          Some (CONFNAK, b, p + 4, u)
        }
        else Some (CONFACK, b, p + 4, on_ho (\<lambda>h. h\<lparr>neg_magicnumber := True, magicnumber := l\<rparr>) u)
      })"

definition req_pcompression :: "ppp_unit \<Rightarrow> u8 list \<Rightarrow> nat \<Rightarrow> nat \<Rightarrow> (u8 \<times> u8 list \<times> nat \<times> ppp_unit) option" where
  "req_pcompression u b p n =
     (if \<not> neg_pcompression (lcp_allowoptions u) \<or> n \<noteq> 0 then Some (CONFREJ, b, p + n, u)
      else Some (CONFACK, b, p, on_ho (\<lambda>h. h\<lparr>neg_pcompression := True\<rparr>) u))"

definition req_accompression :: "ppp_unit \<Rightarrow> u8 list \<Rightarrow> nat \<Rightarrow> nat \<Rightarrow> (u8 \<times> u8 list \<times> nat \<times> ppp_unit) option" where
  "req_accompression u b p n =
     (if \<not> neg_accompression (lcp_allowoptions u) \<or> n \<noteq> 0 then Some (CONFREJ, b, p + n, u)
      else Some (CONFACK, b, p, on_ho (\<lambda>h. h\<lparr>neg_accompression := True\<rparr>) u))"

definition lcp_switch :: "env \<Rightarrow> ppp_unit switch" where
  "lcp_switch e u b p t n =
     (if t = CI_MRU then req_mru u b p n
      else if t = CI_ASYNCMAP then req_asyncmap u b p n
      else if t = CI_AUTHTYPE then req_authtype u b p n
      else if t = CI_MAGICNUMBER then req_magicnumber e u b p n
      else if t = CI_PCOMPRESSION then req_pcompression u b p n
      else if t = CI_ACCOMPRESSION then req_accompression u b p n
      else Some (CONFREJ, b, p + n, u))"

text \<open>\<^verbatim>\<open>cilen\<close> is a \<^verbatim>\<open>u_char\<close> here.\<close>

definition u_char :: "nat \<Rightarrow> nat" where
  "u_char l = l mod 256"

definition forget_his :: "lcp_options \<Rightarrow> lcp_options" where
  "forget_his h = h\<lparr>neg_mru := False, neg_asyncmap := False, neg_chap := False, neg_upap := False, neg_magicnumber := False,
     neg_pcompression := False, neg_accompression := False\<rparr>"

definition lcp_reqci :: "env \<Rightarrow> ppp_unit \<Rightarrow> u8 list \<Rightarrow> (u8 \<times> u8 list \<times> ppp_unit) option" where
  "lcp_reqci e u dat = req_loop u_char (lcp_switch e) (length dat) (on_ho forget_his u) dat 0 0 CONFACK"

section \<open>The link comes up and goes down\<close>

definition lcp_up :: "env \<Rightarrow> ppp_unit \<Rightarrow> ppp_unit" where
  "lcp_up e u0 =
     (let u = ChapLowerUp e u0;
          u = upap_lowerup u;
          u = u\<lparr>ipcp_fsm := ipcp_lowerup (locals e) (ipcp_fsm u)\<rparr>;
          h = lcp_hisoptions u; g = lcp_gotoptions u;
          u = (if neg_chap g then ChapAuthPeer u else u);
          u = (if neg_chap h then ChapAuthWithPeer e u else u);
          u = (if neg_upap g then upap_authpeer u else u);
          u = (if neg_upap h then upap_authwithpeer u else u) in
      if \<not> (neg_chap g \<or> neg_chap h \<or> neg_upap g \<or> neg_upap h) then start_ipcp e u else u)"

definition lcp_down :: "env \<Rightarrow> ppp_unit \<Rightarrow> ppp_unit" where
  "lcp_down e u =
     (let u = u\<lparr>ipcp_fsm := ipcp_lowerdown (locals e) (ipcp_fsm u)\<rparr> in upap_lowerdown (ChapLowerDown u))"

text \<open>A request that makes \<^verbatim>\<open>lcp_reqci\<close> leave the packet has no defined effect; the automaton
  is given a rejection for it here.  It cannot occur on a unit that does not answer to
  CHAP, as \<open>lcp_tidy\<close> below shows.\<close>

definition lcp_base :: "env \<Rightarrow> ppp_unit fsm_callbacks" where
  "lcp_base e = \<lparr>resetci = Some (lcp_resetci e), cilen = Some lcp_cilen, addci = Some lcp_addci,
     ackci = Some (\<lambda>u p. (lcp_ackci u p, u)), nakci = Some (lcp_nakci e), rejci = Some lcp_rejci,
     reqci = Some (\<lambda>u d. case lcp_reqci e u d of Some r \<Rightarrow> r | None \<Rightarrow> (CONFREJ, d, u)),
     up = Some (lcp_up e), down = Some (lcp_down e), closed = None, retransmit = None\<rparr>"

text \<open>\<^verbatim>\<open>EXIT\<close> ends the daemon: nothing follows it.\<close>

definition lcp_closed :: "env \<Rightarrow> ppp_unit fsm \<Rightarrow> ppp_unit fsm" where
  "lcp_closed e f =
     (if restartopt (lcp_wantoptions (ci f)) then
        if passiveopt (lcp_wantoptions (ci f)) then fsm_passiveopen (lcp_base e) f else fsm_activeopen (lcp_base e) f
      else f)"

definition lcp_callbacks :: "env \<Rightarrow> ppp_unit fsm_callbacks" where
  "lcp_callbacks e = (lcp_base e)\<lparr>closed := Some (lcp_closed e)\<rparr>"

definition lcp_init :: "ppp_unit fsm \<Rightarrow> ppp_unit fsm" where
  "lcp_init f0 =
     (let u = ci f0;
          w = (lcp_wantoptions u)\<lparr>passiveopt := False, restartopt := False, neg_mru := True, mru := DEFMRU, neg_asyncmap := True,
            asyncmap := 0, neg_chap := False, neg_upap := False, neg_magicnumber := True, neg_pcompression := True,
            neg_accompression := True\<rparr>;
          a = (lcp_allowoptions u)\<lparr>neg_mru := True, neg_asyncmap := True, neg_chap := False, chap_mdtype := CHAP_DIGEST_MD5,
            chap_callback := CHAP_NOCALLBACK, neg_upap := False, neg_magicnumber := True, neg_pcompression := True,
            neg_accompression := True\<rparr> in
      fsm_init (f0\<lparr>protocol := LCP, maxconfreqtransmits := 10, maxtermtransmits := 10, maxnakloops := 10,
        ci := u\<lparr>lcp_wantoptions := w, lcp_allowoptions := a\<rparr>\<rparr>))"

definition lcp_activeopen :: "env \<Rightarrow> ppp_unit fsm \<Rightarrow> ppp_unit fsm" where
  "lcp_activeopen e = fsm_activeopen (lcp_callbacks e)"

definition lcp_passiveopen :: "env \<Rightarrow> ppp_unit fsm \<Rightarrow> ppp_unit fsm" where
  "lcp_passiveopen e = fsm_passiveopen (lcp_callbacks e)"

definition lcp_close :: "env \<Rightarrow> ppp_unit fsm \<Rightarrow> ppp_unit fsm" where
  "lcp_close e = fsm_close (lcp_callbacks e)"

definition lcp_lowerup :: "env \<Rightarrow> ppp_unit fsm \<Rightarrow> ppp_unit fsm" where
  "lcp_lowerup e = fsm_lowerup (lcp_callbacks e)"

definition lcp_lowerdown :: "env \<Rightarrow> ppp_unit fsm \<Rightarrow> ppp_unit fsm" where
  "lcp_lowerdown e = fsm_lowerdown (lcp_callbacks e)"

definition lcp_input :: "env \<Rightarrow> u8 list \<Rightarrow> ppp_unit fsm \<Rightarrow> ppp_unit fsm" where
  "lcp_input e p = fsm_input (lcp_callbacks e) p"

definition lcp_protrej :: "ppp_unit fsm \<Rightarrow> ppp_unit fsm" where
  "lcp_protrej f = f"

definition lcp_sprotrej :: "u8 list \<Rightarrow> ppp_unit fsm \<Rightarrow> ppp_unit fsm" where
  "lcp_sprotrej p f = (let i = fid f + 1 in fsm_sdata PROTREJ i (drop 2 p) (f\<lparr>fid := i\<rparr>))"

section \<open>Our request and the peer's acknowledgement\<close>

lemma ci_match_ADDCI:
  assumes "length d + 2 < 256"
  shows "ci_match opt (2 + length d) ([opt, of_nat (2 + length d)] @ d @ r) = Some (d, r)"
proof -
  have "unat (of_nat (2 + length d) :: u8) = 2 + length d" using assms by (simp only: unat_of_nat) simp
  then show ?thesis by (simp add: ci_match_def)
qed

lemma ACKCI_ADDCI: "length d + 2 < 256 \<Longrightarrow> ACKCI opt neg d (ADDCI opt neg d @ r) = Some r"
  using ci_match_ADDCI [of d opt r] by (simp add: ACKCI_def ADDCI_def)

interpretation lcp_nego: negotiation "\<lambda>u. True" lcp_cilen lcp_addci "\<lambda>u p. (lcp_ackci u p, u)"
proof
  fix u
  show "length (lcp_addci u) = lcp_cilen u" by (simp add: lcp_addci_def lcp_cilen_def ADDCI_def Let_def)
  show "(lcp_ackci u (lcp_addci u), u) = (True, u)"
    using ACKCI_ADDCI [of "[]" CI_ACCOMPRESSION _ "[]"]
    by (simp add: lcp_ackci_def lcp_addci_def Let_def ACKCI_ADDCI)
qed

section \<open>The verdicts\<close>

text \<open>The verdicts of a unit that does not answer to CHAP, which is every unit the daemon
  sets up: \<^verbatim>\<open>lcp_init\<close> clears \<^verbatim>\<open>neg_chap\<close> among the allowed options and nothing sets it.\<close>

definition no_chap :: "ppp_unit \<Rightarrow> bool" where
  "no_chap u \<longleftrightarrow> \<not> neg_chap (lcp_allowoptions u)"

definition lcp_verdict :: "env \<Rightarrow> ppp_unit verdict" where
  "lcp_verdict e u t d =
     (let a = lcp_allowoptions u in
      if t = CI_MRU \<and> neg_mru a \<and> length d = 2 then
        if short_at d < MINMRU then (CONFNAK, bytes_of_short MINMRU, u)
        else (CONFACK, d, on_ho (\<lambda>h. h\<lparr>neg_mru := True, mru := short_at d\<rparr>) u)
      else if t = CI_ASYNCMAP \<and> neg_asyncmap a \<and> length d = 4 then
        (CONFACK, d, on_ho (\<lambda>h. h\<lparr>neg_asyncmap := True, asyncmap := long_at d\<rparr>) u)
      else if t = CI_AUTHTYPE \<and> neg_upap a \<and> 2 \<le> length d \<and> short_at d \<noteq> CHAP then
        if short_at d = UPAP then (CONFACK, d, on_ho (\<lambda>h. h\<lparr>neg_upap := True\<rparr>) u)
        else (CONFNAK, bytes_of_short CHAP @ drop 2 d, u)
      else if t = CI_MAGICNUMBER \<and> neg_magicnumber a \<and> length d = 4 then
        if neg_magicnumber (lcp_gotoptions u) \<and> long_at d = magicnumber (lcp_gotoptions u)
        then (CONFNAK, bytes_of_long (fst (magic e u)), snd (magic e u))
        else (CONFACK, d, on_ho (\<lambda>h. h\<lparr>neg_magicnumber := True, magicnumber := long_at d\<rparr>) u)
      else if t = CI_PCOMPRESSION \<and> neg_pcompression a \<and> d = [] then
        (CONFACK, d, on_ho (\<lambda>h. h\<lparr>neg_pcompression := True\<rparr>) u)
      else if t = CI_ACCOMPRESSION \<and> neg_accompression a \<and> d = [] then
        (CONFACK, d, on_ho (\<lambda>h. h\<lparr>neg_accompression := True\<rparr>) u)
      else (CONFREJ, d, u))"

lemma GETSHORT_data: "length pre = p \<Longrightarrow> 2 \<le> length d \<Longrightarrow> GETSHORT (pre @ d @ r) p = Some (short_at d)"
  by (auto simp: GETSHORT_def nth_append)

lemma GETLONG_data: "length pre = p \<Longrightarrow> length d = 4 \<Longrightarrow> GETLONG (pre @ d @ r) p = Some (long_at d)"
  by (auto simp: GETLONG_def nth_append)

lemma PUT_data: "length pre = p \<Longrightarrow> length xs \<le> length d \<Longrightarrow> PUT xs (pre @ d @ r) p = Some (pre @ (xs @ drop (length xs) d) @ r)"
  by (simp add: PUT_def)

lemmas req_data = GETSHORT_data GETLONG_data PUT_data

lemma lcp_switch_judged:
  assumes "no_chap u" "length pre = p" "length d = n" "lcp_verdict e u t d = (orc, d', u')"
  shows "lcp_switch e u (pre @ d @ r) p t n = Some (orc, pre @ d' @ r, p + n, u')"
proof -
  consider "t = CI_MRU" | "t = CI_ASYNCMAP" | "t = CI_AUTHTYPE" | "t = CI_MAGICNUMBER" | "t = CI_PCOMPRESSION" | "t = CI_ACCOMPRESSION"
    | "t \<notin> {1, 2, 3, 5, 7, 8}" by auto
  then show ?thesis
    using assms
    by cases (auto simp: lcp_verdict_def lcp_switch_def req_mru_def req_asyncmap_def req_authtype_def req_chap_def req_magicnumber_def
        req_pcompression_def req_accompression_def no_chap_def req_data Let_def split: if_splits prod.splits)
qed

interpretation lcp_tidy: tidy_switch u_char no_chap "lcp_switch e" "lcp_verdict e" for e
proof
  show "u_char n \<le> n" for n by (simp add: u_char_def)
next
  fix u p n t orc d u' and b :: "u8 list"
  assume "no_chap u" "p + n \<le> length b" "lcp_verdict e u t (take n (drop p b)) = (orc, d, u')"
  then show "lcp_switch e u b p t n = Some (orc, take p b @ d @ drop (p + n) b, p + n, u')"
    using lcp_switch_judged [of u "take p b" p "take n (drop p b)" n e t orc d u' "drop (p + n) b"]
    by (simp add: append_assoc [symmetric] take_add [symmetric] del: append_assoc)
next
  fix u t orc u' and d d' :: "u8 list"
  assume "no_chap u" "lcp_verdict e u t d = (orc, d', u')"
  then show "no_chap u' \<and> length d' = length d \<and> verdict_code orc \<and> (orc \<noteq> CONFNAK \<longrightarrow> d' = d)"
    by (auto simp: lcp_verdict_def no_chap_def magic_def Let_def split: if_splits)
qed

section \<open>Two units\<close>

definition opt_if :: "bool \<Rightarrow> u8 \<Rightarrow> u8 list \<Rightarrow> (u8 \<times> u8 list) list" where
  "opt_if neg t d = (if neg then [(t, d)] else [])"

definition lcp_opts :: "lcp_options \<Rightarrow> (u8 \<times> u8 list) list" where
  "lcp_opts g =
     opt_if (neg_mru g) CI_MRU (bytes_of_short (mru g)) @
     opt_if (neg_asyncmap g) CI_ASYNCMAP (bytes_of_long (asyncmap g)) @
     opt_if (neg_chap g) CI_AUTHTYPE (bytes_of_short CHAP @ [chap_mdtype g, chap_callback g]) @
     opt_if (neg_upap g) CI_AUTHTYPE (bytes_of_short UPAP) @
     opt_if (neg_magicnumber g) CI_MAGICNUMBER (bytes_of_long (magicnumber g)) @
     opt_if (neg_pcompression g) CI_PCOMPRESSION [] @
     opt_if (neg_accompression g) CI_ACCOMPRESSION []"

lemma encode_append: "encode (xs @ ys) = encode xs @ encode ys"
  by (simp add: encode_def)

lemma encode_opt_if: "encode (opt_if neg t d) = ADDCI t neg d"
  by (simp add: encode_def opt_if_def ADDCI_def)

lemma lcp_addci_encode: "lcp_addci u = encode (lcp_opts (lcp_gotoptions u))"
  by (simp only: lcp_addci_def lcp_opts_def encode_append encode_opt_if Let_def)

lemma lcp_opts_short: "list_all (\<lambda>(t, d). length d < 254) (lcp_opts g)"
  by (simp add: lcp_opts_def opt_if_def)

lemma short_long_at: "short_at (bytes_of_short s) = s" "long_at (bytes_of_long l) = l" "short_at (bytes_of_short s @ r) = s"
  by (simp_all add: bytes_of_short_def bytes_of_long_def)

lemmas [simp] = short_long_at [unfolded One_nat_def]

text \<open>The unit \<open>b\<close> has no objection to a request for the options \<open>g\<close>.\<close>

definition lcp_agreeable :: "lcp_options \<Rightarrow> ppp_unit \<Rightarrow> bool" where
  "lcp_agreeable g b \<longleftrightarrow>
     (let a = lcp_allowoptions b in
      (neg_mru g \<longrightarrow> neg_mru a \<and> MINMRU \<le> mru g) \<and> (neg_asyncmap g \<longrightarrow> neg_asyncmap a) \<and> \<not> neg_chap g \<and> (neg_upap g \<longrightarrow> neg_upap a) \<and>
      (neg_magicnumber g \<longrightarrow> neg_magicnumber a \<and> (neg_magicnumber (lcp_gotoptions b) \<longrightarrow> magicnumber (lcp_gotoptions b) \<noteq> magicnumber g)) \<and>
      (neg_pcompression g \<longrightarrow> neg_pcompression a) \<and> (neg_accompression g \<longrightarrow> neg_accompression a))"

text \<open>What \<open>b\<close> then knows of its peer.\<close>

definition saw_options :: "lcp_options \<Rightarrow> lcp_options \<Rightarrow> lcp_options" where
  "saw_options g h0 =
     (let h = forget_his h0;
          h = (if neg_mru g then h\<lparr>neg_mru := True, mru := mru g\<rparr> else h);
          h = (if neg_asyncmap g then h\<lparr>neg_asyncmap := True, asyncmap := asyncmap g\<rparr> else h);
          h = (if neg_upap g then h\<lparr>neg_upap := True\<rparr> else h);
          h = (if neg_magicnumber g then h\<lparr>neg_magicnumber := True, magicnumber := magicnumber g\<rparr> else h);
          h = (if neg_pcompression g then h\<lparr>neg_pcompression := True\<rparr> else h) in
      if neg_accompression g then h\<lparr>neg_accompression := True\<rparr> else h)"

lemma accepts_opt_if:
  assumes "neg \<Longrightarrow> v c t d = (CONFACK, d, f c)"
  shows "accepts v c (opt_if neg t d @ os) = accepts v (if neg then f c else c) os"
  using assms by (simp add: opt_if_def)

lemma lcp_options_accepted:
  assumes "lcp_agreeable g b"
  shows "accepts (lcp_verdict e) (on_ho forget_his b) (lcp_opts g) = Some (on_ho (saw_options g) b)"
proof -
  let ?v = "lcp_verdict e"
  let ?acc = "\<lambda>neg f u. if neg then on_ho f u else u"
  define b1 where "b1 = ?acc (neg_mru g) (\<lambda>h. h\<lparr>neg_mru := True, mru := mru g\<rparr>) (on_ho forget_his b)"
  define b2 where "b2 = ?acc (neg_asyncmap g) (\<lambda>h. h\<lparr>neg_asyncmap := True, asyncmap := asyncmap g\<rparr>) b1"
  define b3 where "b3 = ?acc (neg_upap g) (\<lambda>h. h\<lparr>neg_upap := True\<rparr>) b2"
  define b4 where "b4 = ?acc (neg_magicnumber g) (\<lambda>h. h\<lparr>neg_magicnumber := True, magicnumber := magicnumber g\<rparr>) b3"
  define b5 where "b5 = ?acc (neg_pcompression g) (\<lambda>h. h\<lparr>neg_pcompression := True\<rparr>) b4"
  define b6 where "b6 = ?acc (neg_accompression g) (\<lambda>h. h\<lparr>neg_accompression := True\<rparr>) b5"
  note bs = b1_def b2_def b3_def b4_def b5_def
  have same: "lcp_allowoptions u = lcp_allowoptions b" "lcp_gotoptions u = lcp_gotoptions b" if "u \<in> {on_ho forget_his b, b1, b2, b3, b4, b5}" for u
    using that by (auto simp: bs)
  have ag: "lcp_agreeable g b" by (rule assms)
  have 1: "accepts ?v (on_ho forget_his b) (opt_if (neg_mru g) CI_MRU (bytes_of_short (mru g)) @ os) = accepts ?v b1 os" for os
    unfolding b1_def by (rule accepts_opt_if) (use ag in \<open>simp add: lcp_verdict_def lcp_agreeable_def Let_def not_less\<close>)
  have 2: "accepts ?v b1 (opt_if (neg_asyncmap g) CI_ASYNCMAP (bytes_of_long (asyncmap g)) @ os) = accepts ?v b2 os" for os
    unfolding b2_def by (rule accepts_opt_if) (use ag same [of b1] in \<open>simp add: lcp_verdict_def lcp_agreeable_def Let_def\<close>)
  have c: "opt_if (neg_chap g) t d = []" for t d using ag by (simp add: opt_if_def lcp_agreeable_def Let_def)
  have 3: "accepts ?v b2 (opt_if (neg_upap g) CI_AUTHTYPE (bytes_of_short UPAP) @ os) = accepts ?v b3 os" for os
    unfolding b3_def by (rule accepts_opt_if) (use ag same [of b2] in \<open>simp add: lcp_verdict_def lcp_agreeable_def Let_def\<close>)
  have 4: "accepts ?v b3 (opt_if (neg_magicnumber g) CI_MAGICNUMBER (bytes_of_long (magicnumber g)) @ os) = accepts ?v b4 os" for os
    unfolding b4_def by (rule accepts_opt_if) (use ag same [of b3] in \<open>auto simp: lcp_verdict_def lcp_agreeable_def Let_def\<close>)
  have 5: "accepts ?v b4 (opt_if (neg_pcompression g) CI_PCOMPRESSION [] @ os) = accepts ?v b5 os" for os
    unfolding b5_def by (rule accepts_opt_if) (use ag same [of b4] in \<open>simp add: lcp_verdict_def lcp_agreeable_def Let_def\<close>)
  have 6: "accepts ?v b5 (opt_if (neg_accompression g) CI_ACCOMPRESSION [] @ os) = accepts ?v b6 os" for os
    unfolding b6_def by (rule accepts_opt_if) (use ag same [of b5] in \<open>simp add: lcp_verdict_def lcp_agreeable_def Let_def\<close>)
  have "accepts ?v (on_ho forget_his b) (lcp_opts g) = Some b6"
    using 6 [of "[]"] by (simp only: lcp_opts_def 1 2 3 4 5 c append_Nil append_Nil2 accepts.simps)
  then show ?thesis by (simp add: b6_def bs saw_options_def Let_def)
qed

section \<open>A looped link\<close>

lemma lcp_verdict_keeps:
  "lcp_verdict e u t d = (orc, d', u') \<Longrightarrow> lcp_gotoptions u' = lcp_gotoptions u \<and> lcp_allowoptions u' = lcp_allowoptions u"
  by (auto simp: lcp_verdict_def magic_def Let_def split: if_splits)

lemma own_magic_refused:
  assumes "(CI_MAGICNUMBER, bytes_of_long m) \<in> set os" "neg_magicnumber (lcp_gotoptions u)" "magicnumber (lcp_gotoptions u) = m"
    "neg_magicnumber (lcp_allowoptions u)" "judge (lcp_verdict e) u os = (as, u')"
  shows "CONFNAK \<in> fst ` set as"
  using assms
proof (induction os arbitrary: u as)
  case (Cons od os)
  obtain t d orc d' u1 as1 u2 where od: "od = (t, d)" and v: "lcp_verdict e u t d = (orc, d', u1)" and
    j: "judge (lcp_verdict e) u1 os = (as1, u2)" using prod_cases3 surj_pair by metis
  have as: "as = (orc, [t, of_nat (2 + length d)] @ d') # as1" using Cons.prems(5) v j by (simp add: od)
  show ?case
  proof (cases "(CI_MAGICNUMBER, bytes_of_long m) \<in> set os")
    case True
    then show ?thesis using Cons.IH [of u1 as1] lcp_verdict_keeps [OF v] Cons.prems j as by (cases "u2 = u'") (auto simp: od v)
  next
    case False
    then have "t = CI_MAGICNUMBER" "d = bytes_of_long m" using Cons.prems(1) od by auto
    then have "orc = CONFNAK" using v Cons.prems(2,3,4) by (simp add: lcp_verdict_def Let_def)
    then show ?thesis by (simp add: as)
  qed
qed simp

section \<open>Properties\<close>

text \<open>A unit as \<^verbatim>\<open>lcp_init\<close>, \<^verbatim>\<open>ipcp_init\<close>, \<^verbatim>\<open>upap_init\<close> and \<^verbatim>\<open>ChapInit\<close> leave it, and a closed environment.\<close>

definition lcp_options0 :: lcp_options where
  "lcp_options0 = \<lparr>passiveopt = False, restartopt = False, neg_mru = False, mru = 0, neg_asyncmap = False, asyncmap = 0, neg_upap = False,
     neg_chap = False, chap_mdtype = 0, chap_callback = 0, neg_magicnumber = False, magicnumber = 0, numloops = 0,
     neg_pcompression = False, neg_accompression = False\<rparr>"

definition upap_state0 :: upap_state where
  "upap_state0 = \<lparr>us_user = [], us_passwd = [], us_clientstate = UPAPCS_CLOSED, us_serverstate = UPAPSS_CLOSED, us_lowerup = False,
     us_awppending = False, us_appending = False, us_upvalid = False, us_uppending = False, us_id = 0, us_retransmits = 0,
     us_timers = 0\<rparr>"

definition chap_state0 :: chap_state where
  "chap_state0 = \<lparr>chal_str = [], clientstate = CHAPCS_CLOSED, serverstate = CHAPSS_CLOSED, ch_lowerup = False, ch_awppending = False,
     ch_appending = False, ch_id = 0, ch_retransmits = 0, ch_timers = 0, chals = 0\<rparr>"

definition ppp_unit0 :: ppp_unit where
  "ppp_unit0 = \<lparr>lcp_wantoptions = lcp_options0, lcp_gotoptions = lcp_options0, lcp_allowoptions = lcp_options0,
     lcp_hisoptions = lcp_options0, upap = upap_state0, chap = chap_state0, ipcp_fsm = ipcp_fsm0, next_magic = 17, rands = 0,
     attempts = 0, logins = [], logouts = 0, out = []\<rparr>"

definition lcp_fsm0 :: "ppp_unit fsm" where
  "lcp_fsm0 = lcp_init \<lparr>protocol = 0, state = CLOSED, lowerup = False, aopending = False, popending = False, fid = 0,
     reqid = 0, maxconfreqtransmits = 0, retransmits = 0, maxtermtransmits = 0, nakloops = 0, maxnakloops = 0,
     ci = ppp_unit0, sent = [], calls = [], timers = 0\<rparr>"

definition env0 :: env where
  "env0 = \<lparr>passwd = (\<lambda>u p. if u = [103] then if p = [112] then PasswdOk else WrongPasswd else NoSuchUser), secret = (\<lambda>n. [1, 2, 3]),
     md5 = (\<lambda>x. replicate 16 (fold (+) x 0)), challenges = (\<lambda>n. replicate 64 (of_nat n)), randoms = of_nat, hostname = [104],
     locals = (0, 0)\<rparr>"

text \<open>
  C17: \<^verbatim>\<open>lcp_reqci\<close> builds its reply in place without leaving the packet.  For every request,
  well formed or not, of a peer of a unit that does not answer to CHAP, the reply is the one that
  the list function \<open>answers\<close> gives from the unit's verdict on each option: the rejected options
  unchanged, or else the options refused with the values proposed instead, or else the whole
  request, in the order received.  The verdicts (\<open>lcp_verdict\<close>) are those of the code, which proposes CHAP in place of an
  unknown authentication type; of a malformed rest of 256 bytes or more only the length modulo 256 is rejected, of
  a shorter one all of it.
\<close>

theorem lcp_reqci_replies:
  assumes "no_chap u"
  shows "lcp_reqci e u dat =
    (case answers u_char (lcp_verdict e) (on_ho forget_his u) dat of (as, u') \<Rightarrow> case reply as of (rc, pkt) \<Rightarrow> Some (rc, pkt, u')) \<and>
    (length dat < 256 \<longrightarrow> answers u_char (lcp_verdict e) (on_ho forget_his u) dat = answers id (lcp_verdict e) (on_ho forget_his u) dat)"
proof
  obtain as u' where "answers u_char (lcp_verdict e) (on_ho forget_his u) dat = (as, u')" by fastforce
  then show "lcp_reqci e u dat =
      (case answers u_char (lcp_verdict e) (on_ho forget_his u) dat of (as, u') \<Rightarrow> case reply as of (rc, pkt) \<Rightarrow> Some (rc, pkt, u'))"
    using lcp_tidy.request_answered [of "on_ho forget_his u" e dat as u'] assms by (simp add: lcp_reqci_def no_chap_def Let_def)
qed (rule impI, rule answers_short [of 256], simp_all add: u_char_def)

theorem lcp_reqci_replies_witness:
  "\<exists>u'. lcp_reqci env0 (ci lcp_fsm0) [1, 3, 7] = Some (CONFREJ, [1, 3, 7], u')"
proof -
  let ?u = "ci lcp_fsm0"
  have n: "no_chap ?u" by code_simp
  obtain u' where v: "lcp_verdict env0 (on_ho forget_his ?u) 1 [7] = (CONFREJ, [7], u')" by (rule that) code_simp
  have "answers u_char (lcp_verdict env0) (on_ho forget_his ?u) [1, 3, 7] = ([(CONFREJ, [1, 3, 7])], u')"
    using v answers_step [of "[1, 3, 7]" "lcp_verdict env0" "on_ho forget_his ?u" CONFREJ "[7]" u' u_char "[]" u']
    by (simp add: bad_option_def answers.simps [where r = "[]"])
  then show ?thesis using lcp_reqci_replies [OF n, of env0 "[1, 3, 7]"] by (simp add: reply_def)
qed

text \<open>
  C18: two units understand each other.  A request to which the other unit has no
  objection is acknowledged unchanged, the first unit accepts that acknowledgement,
  and the other one has recorded exactly the options and values asked for.
\<close>

theorem lcp_request_understood:
  assumes "no_chap b" "lcp_agreeable (lcp_gotoptions a) b"
  shows "lcp_ackci a (lcp_addci a) \<and> (\<exists>b'. lcp_reqci e b (lcp_addci a) = Some (CONFACK, lcp_addci a, b') \<and>
    (let g = lcp_gotoptions a; h = lcp_hisoptions b' in
     neg_mru h = neg_mru g \<and> (neg_mru g \<longrightarrow> mru h = mru g) \<and>
     neg_asyncmap h = neg_asyncmap g \<and> (neg_asyncmap g \<longrightarrow> asyncmap h = asyncmap g) \<and>
     neg_upap h = neg_upap g \<and> neg_chap h = neg_chap g \<and>
     neg_magicnumber h = neg_magicnumber g \<and> (neg_magicnumber g \<longrightarrow> magicnumber h = magicnumber g) \<and>
     neg_pcompression h = neg_pcompression g \<and> neg_accompression h = neg_accompression g))"
proof -
  let ?g = "lcp_gotoptions a"
  have "no_chap (on_ho forget_his b)" using assms(1) by (simp add: no_chap_def)
  then have "lcp_reqci e b (lcp_addci a) = Some (CONFACK, lcp_addci a, on_ho (saw_options ?g) b)"
    using lcp_tidy.request_accepted [OF _ lcp_opts_short [of ?g] lcp_options_accepted [OF assms(2)]]
    by (simp add: lcp_reqci_def lcp_addci_encode)
  moreover have "lcp_ackci a (lcp_addci a)" using lcp_nego.ack_own [of a] by simp
  moreover have "\<not> neg_chap ?g" using assms(2) by (simp add: lcp_agreeable_def Let_def)
  ultimately show ?thesis by (auto simp: saw_options_def forget_his_def Let_def)
qed

theorem lcp_request_understood_witness:
  "\<exists>b'. lcp_reqci env0 (ci lcp_fsm0) (lcp_addci (lcp_resetci env0 (ci lcp_fsm0))) =
      Some (CONFACK, lcp_addci (lcp_resetci env0 (ci lcp_fsm0)), b') \<and> mru (lcp_hisoptions b') = 1500"
proof -
  let ?a = "lcp_resetci env0 (ci lcp_fsm0)"
  have "no_chap (ci lcp_fsm0)" "lcp_agreeable (lcp_gotoptions ?a) (ci lcp_fsm0)" "neg_mru (lcp_gotoptions ?a)" "mru (lcp_gotoptions ?a) = 1500"
    by code_simp+
  then show ?thesis using lcp_request_understood [of "ci lcp_fsm0" ?a env0] by (auto simp: Let_def)
qed

text \<open>
  C20: a looped link is noticed.  A unit that negotiates a magic number and receives
  its own request back never acknowledges it.
\<close>

theorem lcp_loopback_noticed:
  assumes "no_chap u" "neg_magicnumber (lcp_gotoptions u)" "neg_magicnumber (lcp_allowoptions u)"
  shows "\<exists>rc pkt u'. lcp_reqci e u (lcp_addci u) = Some (rc, pkt, u') \<and> rc \<in> {CONFNAK, CONFREJ}"
proof -
  let ?c = "on_ho forget_his u" and ?g = "lcp_gotoptions u"
  obtain as u' where j: "judge (lcp_verdict e) ?c (lcp_opts ?g) = (as, u')" by fastforce
  then have a: "answers u_char (lcp_verdict e) ?c (lcp_addci u) = (as, u')"
    by (simp only: lcp_addci_encode answers_encode [OF lcp_opts_short])
  have "(CI_MAGICNUMBER, bytes_of_long (magicnumber ?g)) \<in> set (lcp_opts ?g)" using assms(2) by (simp add: lcp_opts_def opt_if_def)
  then have "CONFNAK \<in> fst ` set as" by (rule own_magic_refused [OF _ _ _ _ j]) (use assms in simp_all)
  then have "fst (reply as) \<in> {CONFNAK, CONFREJ}" by (simp add: reply_def)
  then show ?thesis
    using lcp_tidy.request_answered [OF _ a] assms(1) by (cases "reply as") (simp add: lcp_reqci_def no_chap_def)
qed

theorem lcp_loopback_noticed_witness:
  "\<exists>rc pkt u'. lcp_reqci env0 (lcp_resetci env0 (ci lcp_fsm0)) (lcp_addci (lcp_resetci env0 (ci lcp_fsm0))) = Some (rc, pkt, u') \<and>
     rc \<in> {CONFNAK, CONFREJ}"
  by (rule lcp_loopback_noticed) code_simp+

text \<open>
  A unit that does answer to CHAP reads past the packet.  The pointer is moved
  behind the option before the digest type and the callback byte are read, so a
  well-formed CHAP option at the end of a request makes \<^verbatim>\<open>lcp_reqci\<close> leave the packet.
\<close>

theorem lcp_chap_option_leaves_packet:
  assumes "neg_chap (lcp_allowoptions u)"
  shows "lcp_reqci e u [CI_AUTHTYPE, 6, 0xc2, 0x23, CHAP_DIGEST_MD5, CHAP_NOCALLBACK] = None"
proof -
  let ?b = "[3, 6, 0xc2, 0x23, 5, 0] :: u8 list"
  have "short_of 0xc2 0x23 = CHAP" by code_simp
  then have "lcp_switch e (on_ho forget_his u) ?b (Suc (Suc 0)) 3 4 = None"
    using assms by (simp add: lcp_switch_def req_authtype_def req_chap_def GETSHORT_def GETCHAR_def)
  then show ?thesis by (simp add: lcp_reqci_def req_loop.simps [of _ _ "Suc _"] GETCHAR_def)
qed

theorem lcp_chap_option_leaves_packet_witness:
  "let u = (ci lcp_fsm0)\<lparr>lcp_allowoptions := (lcp_allowoptions (ci lcp_fsm0))\<lparr>neg_chap := True\<rparr>\<rparr> in
   lcp_reqci env0 u [3, 6, 0xc2, 0x23, 5, 0] = None"
  unfolding Let_def by (rule lcp_chap_option_leaves_packet) simp

end
