(* ===== verification/Pppd.thy ===== *)
theory Pppd
  imports Lcp
begin

text \<open>
  The PPP daemon around its protocols (\<^verbatim>\<open>src/libexec/pppd/main.c\<close> and the rest of
  \<^verbatim>\<open>upap.c\<close>): checking a user's password, dispatching a packet to its protocol,
  passing on a Protocol-Reject, and the events the daemon serves.  The whole state of
  a unit is the LCP automaton, whose negotiation state carries everything else.
\<close>

section \<open>Logging in\<close>

abbreviation on_unit :: "(ppp_unit \<Rightarrow> ppp_unit) \<Rightarrow> ppp_unit fsm \<Rightarrow> ppp_unit fsm" where
  "on_unit h f \<equiv> f\<lparr>ci := h (ci f)\<rparr>"

definition login_msg :: "passwd_check \<Rightarrow> u8 list" where
  "login_msg r = map of_char (if r = PasswdOk then ''Login ok'' else ''Login incorrect'')"

text \<open>After ten failures the link is closed; the delay between attempts is left out.\<close>

definition login :: "env \<Rightarrow> u8 list \<Rightarrow> u8 list \<Rightarrow> ppp_unit fsm \<Rightarrow> u8 \<times> u8 list \<times> ppp_unit fsm" where
  "login e user pw f =
     (case passwd e user pw of
        NoSuchUser \<Rightarrow> (UPAP_AUTHNAK, login_msg NoSuchUser, f)
      | WrongPasswd \<Rightarrow>
          let n = attempts (ci f); f1 = on_unit (\<lambda>u. u\<lparr>attempts := n + 1\<rparr>) f in
          (UPAP_AUTHNAK, login_msg WrongPasswd, if n \<ge> 10 then lcp_close e f1 else f1)
      | PasswdOk \<Rightarrow> (UPAP_AUTHACK, login_msg PasswdOk, on_unit (\<lambda>u. u\<lparr>attempts := 0, logins := logins u @ [user]\<rparr>) f))"

text \<open>The user and password fields of an Authenticate packet.\<close>

definition user_passwd :: "u8 list \<Rightarrow> (u8 list \<times> u8 list) option" where
  "user_passwd dat =
     (case dat of
        [] \<Rightarrow> None
      | n # r \<Rightarrow>
          if length r < unat n + 1 then None
          else (case drop (unat n) r of
                  m # r2 \<Rightarrow> if length r2 < unat m then None else Some (take (unat n) r, take (unat m) r2)
                | [] \<Rightarrow> None))"

definition upap_rauth :: "env \<Rightarrow> u8 list \<Rightarrow> u8 \<Rightarrow> ppp_unit fsm \<Rightarrow> ppp_unit fsm" where
  "upap_rauth e dat i f =
     (if us_serverstate (upap (ci f)) \<noteq> UPAPSS_LISTEN then f
      else case user_passwd dat of
        None \<Rightarrow> f
      | Some (user, pw) \<Rightarrow>
          let (code, msg, f) = login e user pw f; f = on_unit (upap_sresp code i msg) f in
          if code = UPAP_AUTHACK then
            on_unit (\<lambda>u.
              let u = set_upap ((upap u)\<lparr>us_serverstate := UPAPSS_OPEN\<rparr>) u in
              if \<not> neg_chap (lcp_hisoptions u) \<or> neg_chap (lcp_hisoptions u) \<and> serverstate (chap u) = CHAPSS_OPEN
              then start_ipcp e u else u) f
          else f)"

definition upap_input :: "env \<Rightarrow> u8 list \<Rightarrow> ppp_unit fsm \<Rightarrow> ppp_unit fsm" where
  "upap_input e inpacket f =
     (case inpacket of
        code # i # l1 # l2 # rest \<Rightarrow>
          let len = unat l1 * 256 + unat l2 in
          if len < HEADERLEN \<or> len > length inpacket then f
          else
            let dat = take (len - HEADERLEN) rest in
            if code = UPAP_AUTH then upap_rauth e dat i f
            else if code = UPAP_AUTHACK then on_unit (upap_rauthack e dat) f
            else if code = UPAP_AUTHNAK then on_unit (upap_rauthnak dat) f
            else f
      | _ \<Rightarrow> f)"

section \<open>Dispatching\<close>

definition demuxprotrej :: "env \<Rightarrow> u16 \<Rightarrow> ppp_unit fsm \<Rightarrow> ppp_unit fsm" where
  "demuxprotrej e proto f =
     (if proto = LCP then lcp_protrej f
      else if proto = IPCP then on_unit (\<lambda>u. u\<lparr>ipcp_fsm := ipcp_protrej (locals e) (ipcp_fsm u)\<rparr>) f
      else if proto = UPAP then on_unit upap_protrej f
      else if proto = CHAP then on_unit ChapProtocolReject f
      else f)"

text \<open>\<^verbatim>\<open>lcp_input\<close> with the call of \<^verbatim>\<open>demuxprotrej\<close> that \<^verbatim>\<open>fsm_rprotrej\<close> makes as its last action.\<close>

definition lcp_packet :: "env \<Rightarrow> u8 list \<Rightarrow> ppp_unit fsm \<Rightarrow> ppp_unit fsm" where
  "lcp_packet e p f =
     (let f1 = lcp_input e p f in
      if p \<noteq> [] \<and> hd p = PROTREJ then
        (case drop (length (calls f)) (calls f1) of [ProtRejected proto] \<Rightarrow> demuxprotrej e proto f1 | _ \<Rightarrow> f1)
      else f1)"

text \<open>One turn of the loop of \<^verbatim>\<open>io\<close>, for one packet: the loop runs until the device has no more to read, and also returns, leaving the rest for
  the next signal, after a packet that is too short or that comes before LCP is open.  A run of the loop is a sequence of these events.\<close>

definition io :: "env \<Rightarrow> u8 list \<Rightarrow> ppp_unit fsm \<Rightarrow> ppp_unit fsm option" where
  "io e p f =
     (case p of
        a # c # p1 # p2 # dat \<Rightarrow>
          let proto = short_of p1 p2 in
          if proto \<noteq> LCP \<and> state f \<noteq> OPEN then Some f
          else if proto = LCP then Some (lcp_packet e dat f)
          else if proto = IPCP then Some (on_unit (\<lambda>u. u\<lparr>ipcp_fsm := ipcp_input (locals e) dat (ipcp_fsm u)\<rparr>) f)
          else if proto = UPAP then Some (upap_input e dat f)
          else if proto = CHAP then map_option (\<lambda>u. f\<lparr>ci := u\<rparr>) (ChapInput e dat (ci f))
          else Some (lcp_sprotrej p f)
      | _ \<Rightarrow> Some f)"

text \<open>The events of the daemon: a packet, the expiry of one of the timers, the signals that
  close the link or report it lost, and the main loop that supplies user and password.\<close>

datatype pevent = Packet "u8 list" | LcpTimer | IpcpTimer | UpapTimer | ChapTimer | Interrupt | Hangup | UserPasswd "u8 list" "u8 list"

definition user_supplied :: "u8 list \<Rightarrow> u8 list \<Rightarrow> ppp_unit \<Rightarrow> ppp_unit" where
  "user_supplied user pw u =
     (if us_uppending (upap u)
      then upap_authwithpeer (set_upap ((upap u)\<lparr>us_user := user, us_passwd := pw, us_uppending := False, us_upvalid := True\<rparr>) u)
      else u)"

fun serve :: "env \<Rightarrow> pevent \<Rightarrow> ppp_unit fsm \<Rightarrow> ppp_unit fsm option" where
  "serve e (Packet p) f = io e p f"
| "serve e LcpTimer f = Some (fsm_event (lcp_callbacks e) Expire f)"
| "serve e IpcpTimer f = Some (on_unit (\<lambda>u. u\<lparr>ipcp_fsm := fsm_event (ipcp_callbacks (locals e)) Expire (ipcp_fsm u)\<rparr>) f)"
| "serve e UpapTimer f =
     Some (on_unit (\<lambda>u. if us_timers (upap u) = 0 then u
       else upap_timeout (set_upap ((upap u)\<lparr>us_timers := us_timers (upap u) - 1\<rparr>) u)) f)"
| "serve e ChapTimer f =
     Some (on_unit (\<lambda>u. if ch_timers (chap u) = 0 then u
       else ChapTimeout e (set_chap ((chap u)\<lparr>ch_timers := ch_timers (chap u) - 1\<rparr>) u)) f)"
| "serve e Interrupt f = Some (lcp_close e f)"
| "serve e Hangup f = Some (lcp_lowerdown e f)"
| "serve e (UserPasswd user pw) f = Some (on_unit (user_supplied user pw) f)"

fun serve_all :: "env \<Rightarrow> pevent list \<Rightarrow> ppp_unit fsm \<Rightarrow> ppp_unit fsm option" where
  "serve_all e [] f = Some f"
| "serve_all e (ev # evs) f = (case serve e ev f of None \<Rightarrow> None | Some f1 \<Rightarrow> serve_all e evs f1)"

section \<open>Starting\<close>

text \<open>The arguments of the command line, as far as they change the options of the protocols;
  those that take a value carry the value parsed from the next argument.  \<open>Setdevname True\<close>
  is a device other than the controlling terminal.\<close>

datatype cmd = Noopt | Noaccomp | Noasyncmap | Noipaddr | Nomagicnumber | Nomru | Setmru int | Nopcomp | Setpassive
  | Noupap | Requpap | Nochap | Reqchap | Setvjmode string | Setnovj | Setasyncmap u32 | Setdevname bool | Setipaddr u32 u32

abbreviation on_lcp_want :: "(lcp_options \<Rightarrow> lcp_options) \<Rightarrow> ppp_unit \<Rightarrow> ppp_unit" where
  "on_lcp_want h u \<equiv> u\<lparr>lcp_wantoptions := h (lcp_wantoptions u)\<rparr>"

abbreviation on_lcp_allow :: "(lcp_options \<Rightarrow> lcp_options) \<Rightarrow> ppp_unit \<Rightarrow> ppp_unit" where
  "on_lcp_allow h u \<equiv> u\<lparr>lcp_allowoptions := h (lcp_allowoptions u)\<rparr>"

abbreviation on_ipcp :: "(ipcp \<Rightarrow> ipcp) \<Rightarrow> ppp_unit \<Rightarrow> ppp_unit" where
  "on_ipcp h u \<equiv> u\<lparr>ipcp_fsm := (ipcp_fsm u)\<lparr>ci := h (ci (ipcp_fsm u))\<rparr>\<rparr>"

text \<open>The functions of the table \<^verbatim>\<open>cmds\<close>, by their effect on the unit.  Arguments come parsed: \<^verbatim>\<open>setdevname\<close> gets whether the device is another
  than the terminal of the daemon, \<^verbatim>\<open>setipaddr\<close> the addresses of the two names (with an unknown name it changes nothing), and the user and password
  that \<^verbatim>\<open>requpap\<close> reads from a file are those of the environment.\<close>

definition noopt :: "ppp_unit \<Rightarrow> ppp_unit" where
  "noopt u =
     on_ipcp (\<lambda>c. c\<lparr>wo := no_options, ao := no_options\<rparr>) (u\<lparr>lcp_wantoptions := lcp_options0, lcp_allowoptions := lcp_options0\<rparr>)"

definition noaccomp :: "ppp_unit \<Rightarrow> ppp_unit" where
  "noaccomp u =
     on_lcp_allow (\<lambda>a. a\<lparr>neg_accompression := False\<rparr>) (on_lcp_want (\<lambda>w. w\<lparr>neg_accompression := False\<rparr>) u)"

definition noasyncmap :: "ppp_unit \<Rightarrow> ppp_unit" where
  "noasyncmap u =
     on_lcp_allow (\<lambda>a. a\<lparr>neg_asyncmap := False\<rparr>) (on_lcp_want (\<lambda>w. w\<lparr>neg_asyncmap := False\<rparr>) u)"

definition noipaddr :: "ppp_unit \<Rightarrow> ppp_unit" where
  "noipaddr u =
     on_ipcp (\<lambda>c. c\<lparr>wo := (wo c)\<lparr>neg_addrs := False\<rparr>, ao := (ao c)\<lparr>neg_addrs := False\<rparr>\<rparr>) u"

definition nomagicnumber :: "ppp_unit \<Rightarrow> ppp_unit" where
  "nomagicnumber u =
     on_lcp_allow (\<lambda>a. a\<lparr>neg_magicnumber := False\<rparr>) (on_lcp_want (\<lambda>w. w\<lparr>neg_magicnumber := False\<rparr>) u)"

definition nomru :: "ppp_unit \<Rightarrow> ppp_unit" where
  "nomru u =
     on_lcp_allow (\<lambda>a. a\<lparr>neg_mru := False\<rparr>) (on_lcp_want (\<lambda>w. w\<lparr>neg_mru := False\<rparr>) u)"

definition setmru :: "int \<Rightarrow> ppp_unit \<Rightarrow> ppp_unit" where
  "setmru n u =
     on_lcp_want (\<lambda>w. w\<lparr>mru := of_int n\<rparr>) u"

definition nopcomp :: "ppp_unit \<Rightarrow> ppp_unit" where
  "nopcomp u =
     on_lcp_allow (\<lambda>a. a\<lparr>neg_pcompression := False\<rparr>) (on_lcp_want (\<lambda>w. w\<lparr>neg_pcompression := False\<rparr>) u)"

definition setpassive :: "ppp_unit \<Rightarrow> ppp_unit" where
  "setpassive u =
     on_lcp_want (\<lambda>w. w\<lparr>passiveopt := True\<rparr>) u"

definition noupap :: "ppp_unit \<Rightarrow> ppp_unit" where
  "noupap u =
     on_lcp_allow (\<lambda>a. a\<lparr>neg_upap := False\<rparr>) u"

definition requpap :: "ppp_unit \<Rightarrow> ppp_unit" where
  "requpap u =
     on_lcp_allow (\<lambda>a. a\<lparr>neg_upap := False\<rparr>) (on_lcp_want (\<lambda>w. w\<lparr>neg_upap := True\<rparr>) u)"

definition nochap :: "ppp_unit \<Rightarrow> ppp_unit" where
  "nochap u =
     on_lcp_allow (\<lambda>a. a\<lparr>neg_chap := False\<rparr>) u"

definition reqchap :: "ppp_unit \<Rightarrow> ppp_unit" where
  "reqchap u =
     on_lcp_allow (\<lambda>a. a\<lparr>neg_chap := False\<rparr>) (on_lcp_want (\<lambda>w. w\<lparr>neg_chap := True\<rparr>) u)"

definition setvjmode :: "string \<Rightarrow> ppp_unit \<Rightarrow> ppp_unit" where
  "setvjmode m u =
     on_ipcp (ipcp_vj_setmode (if m = ''old'' then IPCP_VJMODE_OLD else if m = ''rfc1172'' then IPCP_VJMODE_RFC1172 else IPCP_VJMODE_RFC1332)) u"

definition setnovj :: "ppp_unit \<Rightarrow> ppp_unit" where
  "setnovj u =
     on_ipcp (\<lambda>c. c\<lparr>wo := (wo c)\<lparr>neg_vj := False\<rparr>, ao := (ao c)\<lparr>neg_vj := False\<rparr>\<rparr>) u"

definition setasyncmap :: "u32 \<Rightarrow> ppp_unit \<Rightarrow> ppp_unit" where
  "setasyncmap m u =
     on_lcp_want (\<lambda>w. w\<lparr>asyncmap := m\<rparr>) u"

definition setdevname :: "bool \<Rightarrow> ppp_unit \<Rightarrow> ppp_unit" where
  "setdevname other u =
     (if \<not> neg_upap (lcp_wantoptions u) \<and> other
      then on_lcp_allow (\<lambda>a. a\<lparr>neg_upap := True\<rparr>) (on_lcp_want (\<lambda>w. w\<lparr>neg_upap := False\<rparr>) u)
      else u)"

definition setipaddr :: "u32 \<Rightarrow> u32 \<Rightarrow> ppp_unit \<Rightarrow> ppp_unit" where
  "setipaddr our his u =
     on_ipcp (\<lambda>c. c\<lparr>wo := (wo c)\<lparr>neg_addrs := True, ouraddr := our, hisaddr := his\<rparr>\<rparr>) u"

lemmas cmd_defs [simp] = noopt_def noaccomp_def noasyncmap_def noipaddr_def nomagicnumber_def nomru_def setmru_def nopcomp_def setpassive_def noupap_def requpap_def nochap_def reqchap_def setvjmode_def setnovj_def setasyncmap_def setdevname_def setipaddr_def

fun cmd_func :: "cmd \<Rightarrow> ppp_unit \<Rightarrow> ppp_unit" where
  "cmd_func Noopt = noopt"
| "cmd_func Noaccomp = noaccomp"
| "cmd_func Noasyncmap = noasyncmap"
| "cmd_func Noipaddr = noipaddr"
| "cmd_func Nomagicnumber = nomagicnumber"
| "cmd_func Nomru = nomru"
| "cmd_func (Setmru n) = setmru n"
| "cmd_func Nopcomp = nopcomp"
| "cmd_func Setpassive = setpassive"
| "cmd_func Noupap = noupap"
| "cmd_func Requpap = requpap"
| "cmd_func Nochap = nochap"
| "cmd_func Reqchap = reqchap"
| "cmd_func (Setvjmode m) = setvjmode m"
| "cmd_func Setnovj = setnovj"
| "cmd_func (Setasyncmap m) = setasyncmap m"
| "cmd_func (Setdevname other) = setdevname other"
| "cmd_func (Setipaddr our his) = setipaddr our his"

definition magic_init :: "u32 \<Rightarrow> u32 \<Rightarrow> u32 \<Rightarrow> ppp_unit \<Rightarrow> ppp_unit" where
  "magic_init hostid sec usec u = u\<lparr>next_magic := hostid XOR (sec XOR usec)\<rparr>"

text \<open>\<^verbatim>\<open>main\<close> from the static data (a closed automaton and a unit of zeros) to its loop: the
  magic numbers and the \<^verbatim>\<open>init\<close> routine of every protocol, the arguments, and the opening of
  the link.\<close>

definition init_all :: "u32 \<times> u32 \<times> u32 \<Rightarrow> ppp_unit fsm" where
  "init_all seed =
     (let (hostid, sec, usec) = seed;
          f = lcp_init (on_unit (magic_init hostid sec usec) lcp_fsm0) in
      on_unit (\<lambda>u. ChapInit (upap_init (u\<lparr>ipcp_fsm := ipcp_init (ipcp_fsm u)\<rparr>))) f)"

definition open_link :: "env \<Rightarrow> ppp_unit fsm \<Rightarrow> ppp_unit fsm" where
  "open_link e f0 =
     (let f = lcp_lowerup e f0 in
      if passiveopt (lcp_wantoptions (ci f)) then lcp_passiveopen e f else lcp_activeopen e f)"

definition boot :: "env \<Rightarrow> u32 \<times> u32 \<times> u32 \<Rightarrow> cmd list \<Rightarrow> ppp_unit fsm" where
  "boot e seed cmds = open_link e (on_unit (fold cmd_func cmds) (init_all seed))"

section \<open>IPCP below the daemon\<close>

text \<open>Without a pending open and with the link up, packets and timeouts never make an open
  pending, and a closed automaton stays closed.\<close>

definition quiet :: "ipcp fsm \<Rightarrow> bool" where
  "quiet g \<longleftrightarrow> \<not> aopending g \<and> \<not> popending g"

lemma ipcp_closed_none [simp]: "closed (ipcp_callbacks j) = None"
  by (simp add: ipcp_callbacks_def)

lemma call_closed_none: "closed cb = None \<Longrightarrow> call_closed cb f = f"
  by (simp add: call_closed_def)

lemma state_check_ack': "check_ack cb dat f = (b, f1) \<Longrightarrow>
    state f1 = state f \<and> lowerup f1 = lowerup f \<and> aopending f1 = aopending f \<and> popending f1 = popending f"
  by (auto simp: check_ack_def split: option.splits prod.splits)

definition served :: "ipcp fsm \<Rightarrow> ipcp fsm \<Rightarrow> bool" where
  "served g h \<longleftrightarrow> lowerup h = lowerup g \<and> (quiet g \<and> lowerup g \<longrightarrow> quiet h) \<and>
     (state g = CLOSED \<longrightarrow> state h = CLOSED \<and> (quiet g \<longrightarrow> quiet h))"

lemma served_fields: "state h = state g \<Longrightarrow> lowerup h = lowerup g \<Longrightarrow> aopending h = aopending g \<Longrightarrow> popending h = popending g \<Longrightarrow>
    served g h"
  by (simp add: served_def quiet_def)

lemma served_reopen: "state g \<noteq> CLOSED \<Longrightarrow> lowerup h = lowerup g \<Longrightarrow> served g (reopen cb h)"
  by (simp add: served_def quiet_def reopen_def fsm_activeopen_def Let_def)

lemma served_rconfack: "served g (fsm_rconfack cb dat i g)"
proof -
  obtain b g1 where c: "check_ack cb dat g = (b, g1)" by fastforce
  show ?thesis
    using state_check_ack' [OF c] served_reopen [of g _ cb]
    by (cases "state g"; cases b) (simp_all add: fsm_rconfack_def c served_def quiet_def)
qed

lemma served_rconfnak: "served g (fsm_rconfnak cb dat i g)" "served g (fsm_rconfrej cb dat i g)"
  using served_reopen [of g _ cb]
  by (cases "state g"; simp add: fsm_rconfnak_def fsm_rconfrej_def renegotiate_def served_def quiet_def Let_def)+

lemma served_terminate: "closed cb = None \<Longrightarrow> served g (fsm_rtermreq cb i g)" "closed cb = None \<Longrightarrow> served g (fsm_rtermack cb g)"
  by (cases "state g"; simp add: fsm_rtermreq_def fsm_rtermack_def served_def quiet_def call_closed_none Let_def)+

lemma served_answer: "state g \<noteq> CLOSED \<Longrightarrow> lowerup h = lowerup g \<Longrightarrow> aopending h = aopending g \<Longrightarrow> popending h = popending g \<Longrightarrow>
    served g (answer_confreq cb dat i h)"
proof -
  assume h: "state g \<noteq> CLOSED" "lowerup h = lowerup g" "aopending h = aopending g" "popending h = popending g"
  show "served g (answer_confreq cb dat i h)"
  proof (cases "reqci cb")
    case None
    then show ?thesis using h by (simp add: answer_confreq_def served_def quiet_def Let_def)
  next
    case (Some r)
    obtain code d c where "r (ci h) dat = (code, d, c)" by (metis prod_cases3)
    then show ?thesis using h by (simp add: answer_confreq_def served_def quiet_def Let_def Some)
  qed
qed

lemma served_rconfreq: "served g (rconfreq cb dat i g)"
  by (cases "state g") (auto simp: rconfreq_def Let_def intro: served_fields served_answer)

lemma served_input: "served g (ipcp_input j p g)"
  unfolding ipcp_input_def
  by (rule fsm_input_cases [where P = "served g"])
    (auto intro: served_fields served_rconfack served_rconfnak served_terminate served_rconfreq simp: fsm_rprotrej_def rechoreq_def split: list.splits)

lemma served_expire: "quiet g \<Longrightarrow> served g (fsm_event (ipcp_callbacks j) Expire g)"
  by (cases "state g") (simp_all add: served_def quiet_def fsm_timeout_def fsm_close_def fsm_passiveopen_def call_closed_none Let_def)

section \<open>A unit that demands a password\<close>

text \<open>What holds of such a unit at all times, while its link is not up, while it negotiates,
  and while it is up.\<close>

definition logged_in :: "env \<Rightarrow> ppp_unit \<Rightarrow> bool" where
  "logged_in e u \<longleftrightarrow> (\<exists>user \<in> set (logins u). \<exists>pw. passwd e user pw = PasswdOk)"

definition no_pending :: "ppp_unit \<Rightarrow> bool" where
  "no_pending u \<longleftrightarrow> \<not> us_awppending (upap u) \<and> \<not> us_appending (upap u) \<and> \<not> us_uppending (upap u) \<and>
     \<not> ch_awppending (chap u) \<and> \<not> ch_appending (chap u) \<and> quiet (ipcp_fsm u)"

definition only_pap :: "ppp_unit \<Rightarrow> bool" where
  "only_pap u \<longleftrightarrow> neg_upap (lcp_wantoptions u) \<and> \<not> neg_chap (lcp_wantoptions u) \<and> \<not> restartopt (lcp_wantoptions u) \<and>
     \<not> neg_chap (lcp_allowoptions u) \<and> \<not> neg_chap (lcp_hisoptions u) \<and>
     clientstate (chap u) = CHAPCS_CLOSED \<and> serverstate (chap u) = CHAPSS_CLOSED \<and> us_clientstate (upap u) = UPAPCS_CLOSED"

definition asks_pap :: "ppp_unit \<Rightarrow> bool" where
  "asks_pap u \<longleftrightarrow> neg_upap (lcp_gotoptions u) \<and> \<not> neg_chap (lcp_gotoptions u)"

definition gate_shut :: "ppp_unit \<Rightarrow> bool" where
  "gate_shut u \<longleftrightarrow> only_pap u \<and> no_pending u \<and> state (ipcp_fsm u) = CLOSED \<and> us_serverstate (upap u) = UPAPSS_CLOSED"

definition gate_asking :: "ppp_unit \<Rightarrow> bool" where
  "gate_asking u \<longleftrightarrow> gate_shut u \<and> asks_pap u"

definition gate_up :: "env \<Rightarrow> ppp_unit \<Rightarrow> bool" where
  "gate_up e u \<longleftrightarrow> only_pap u \<and> no_pending u \<and> asks_pap u \<and> lowerup (ipcp_fsm u) \<and> us_lowerup (upap u) \<and>
     (us_serverstate (upap u) = UPAPSS_LISTEN \<and> state (ipcp_fsm u) = CLOSED \<or> us_serverstate (upap u) = UPAPSS_OPEN \<and> logged_in e u)"

lemmas gate_parts = only_pap_def no_pending_def asks_pap_def
lemmas gate_defs = gate_shut_def gate_asking_def gate_up_def gate_parts

lemma lcp_callbacks_sel [simp]:
  "resetci (lcp_callbacks e) = Some (lcp_resetci e)" "ackci (lcp_callbacks e) = Some (\<lambda>u p. (lcp_ackci u p, u))"
  "nakci (lcp_callbacks e) = Some (lcp_nakci e)" "up (lcp_callbacks e) = Some (lcp_up e)" "down (lcp_callbacks e) = Some (lcp_down e)"
  "reqci (lcp_callbacks e) = Some (\<lambda>u d. case lcp_reqci e u d of Some r \<Rightarrow> r | None \<Rightarrow> (CONFREJ, d, u))"
  "closed (lcp_callbacks e) = Some (lcp_closed e)" "retransmit (lcp_callbacks e) = None"
  by (simp_all add: lcp_callbacks_def lcp_base_def)

text \<open>Negotiation touches neither the demand for a password nor the protocols above.\<close>

lemma gate_asking_on_go:
  "gate_asking u \<Longrightarrow> neg_upap (h (lcp_gotoptions u)) = neg_upap (lcp_gotoptions u) \<Longrightarrow>
     neg_chap (h (lcp_gotoptions u)) = neg_chap (lcp_gotoptions u) \<Longrightarrow> gate_asking (on_go h u)"
  by (simp add: gate_defs)

lemma gate_asking_on_ho:
  "gate_asking u \<Longrightarrow> neg_chap (h (lcp_hisoptions u)) = neg_chap (lcp_hisoptions u) \<or> \<not> neg_chap (h (lcp_hisoptions u)) \<Longrightarrow> gate_asking (on_ho h u)"
  by (auto simp: gate_defs)

lemma gate_asking_magic: "gate_asking (snd (magic e u)) = gate_asking u"
  by (simp add: gate_defs magic_def)

lemma gate_asking_NAKCI: "gate_asking u \<Longrightarrow> (\<And>d u. gate_asking u \<Longrightarrow> gate_asking (code d u)) \<Longrightarrow> gate_asking (fst (NAKCI opt neg n code u p))"
  by (simp add: NAKCI_def split: option.split)

lemma gate_asking_nak_magic: "gate_asking u \<Longrightarrow> gate_asking (nak_magic e u)"
  using gate_asking_magic [of e u] by (auto simp: nak_magic_def split_beta intro!: gate_asking_on_go)

lemma gate_asking_nak_rest: "gate_asking u \<Longrightarrow> gate_asking (nak_rest e u p)"
  unfolding nak_rest_def Let_def split_beta
  by (intro gate_asking_NAKCI) (auto intro: gate_asking_on_go gate_asking_nak_magic)

lemma gate_asking_nakci: "gate_asking u \<Longrightarrow> gate_asking (lcp_nakci e u p)"
  by (auto simp: lcp_nakci_def split: option.split intro!: gate_asking_nak_rest gate_asking_on_go)

lemma gate_asking_verdict: "gate_asking u \<Longrightarrow> lcp_verdict e u t d = (orc, d', u') \<Longrightarrow> gate_asking u'"
  using gate_asking_magic [of e u]
  by (auto simp: lcp_verdict_def Let_def split: if_splits intro!: gate_asking_on_ho)

lemma gate_asking_reqci: assumes "gate_asking u" "lcp_reqci e u dat = Some (rc, pkt, u')" shows "gate_asking u'"
proof -
  have f: "gate_asking (on_ho forget_his u)" using assms(1) by (rule gate_asking_on_ho) (simp add: forget_his_def)
  obtain as v where a: "answers u_char (lcp_verdict e) (on_ho forget_his u) dat = (as, v)" by fastforce
  have "gate_asking v"
    using answers_keep [where P = gate_asking and v = "lcp_verdict e" and cast = u_char and r = dat, OF gate_asking_verdict f] a by simp
  moreover have "no_chap (on_ho forget_his u)" using f by (simp add: gate_defs no_chap_def)
  from lcp_tidy.request_answered [OF this a] have "v = u'" using assms(2) by (auto simp: lcp_reqci_def Let_def split: prod.splits)
  ultimately show ?thesis by simp
qed

lemma gate_goes_up: "gate_asking u \<Longrightarrow> gate_up e (lcp_up e u)"
  by (auto simp: gate_defs lcp_up_def ChapLowerUp_def upap_lowerup_def ipcp_lowerup_def fsm_lowerup_def quiet_def upap_authpeer_def
      upap_authwithpeer_def Let_def)

lemma gate_goes_down: "gate_up e u \<Longrightarrow> gate_asking (lcp_down e u)"
  by (auto simp: gate_defs lcp_down_def ChapLowerDown_def upap_lowerdown_def ipcp_lowerdown_def fsm_lowerdown_def quiet_def call_closed_none
      log_out_def Let_def)

interpretation pap: link_layer "lcp_callbacks e" gate_shut gate_asking "gate_up e" for e
proof
  fix u d
  show "gate_asking u \<Longrightarrow> gate_shut u" by (simp add: gate_asking_def)
  show "gate_shut u \<Longrightarrow> gate_asking (app (resetci (lcp_callbacks e)) u)"
    by (simp add: lcp_resetci_def magic_def gate_defs Let_def)
  show "gate_asking u \<Longrightarrow> gate_asking (app (map_option (\<lambda>h c. h c d) (nakci (lcp_callbacks e))) u)"
    by (simp add: gate_asking_nakci)
  show "gate_asking u \<Longrightarrow> gate_asking (app (retransmit (lcp_callbacks e)) u)" by simp
  show "gate_asking u \<Longrightarrow> gate_up e (app (up (lcp_callbacks e)) u)" by (simp add: gate_goes_up)
  show "gate_up e u \<Longrightarrow> gate_asking (app (down (lcp_callbacks e)) u)" by (simp add: gate_goes_down)
  show "keeps (link_inv gate_shut gate_asking (gate_up e)) (lcp_callbacks e)"
    by (auto simp: keeps_def lcp_closed_def link_inv_def gate_defs split: if_splits)
next
  fix u d g assume "ackci (lcp_callbacks e) = Some g" "gate_asking u"
  then show "gate_asking (snd (g u d))" by auto
next
  fix u d g assume "reqci (lcp_callbacks e) = Some g" "gate_asking u"
  then show "gate_asking (snd (snd (g u d)))" by (auto split: option.split intro: gate_asking_reqci)
qed

section \<open>Every event keeps the gate\<close>

abbreviation gate :: "env \<Rightarrow> ppp_unit fsm \<Rightarrow> bool" where
  "gate e \<equiv> link_inv gate_shut gate_asking (gate_up e)"

lemma gate_on_unit:
  assumes "gate e f"
    and "\<And>u. gate_shut u \<Longrightarrow> gate_shut (h u)" "\<And>u. asks_pap u \<Longrightarrow> asks_pap (h u)" "\<And>u. gate_up e u \<Longrightarrow> gate_up e (h u)"
  shows "gate e (on_unit h f)"
  using assms by (auto simp: link_inv_def gate_asking_def split: if_splits)

lemma gate_open_on_unit: "gate e f \<Longrightarrow> state f = OPEN \<Longrightarrow> (gate_up e (ci f) \<Longrightarrow> gate_up e (h (ci f))) \<Longrightarrow> gate e (on_unit h f)"
  by (simp add: link_inv_def)

text \<open>The handlers of the daemon for the side that did not come to be.\<close>

lemma pap_idle:
  "only_pap u \<Longrightarrow> upap_rauthack e dat u = u" "only_pap u \<Longrightarrow> upap_rauthnak dat u = u" "only_pap u \<Longrightarrow> upap_timeout u = u"
  "only_pap u \<Longrightarrow> ChapTimeout e u = u" "only_pap u \<Longrightarrow> ChapInput e dat u = Some u"
  by (simp_all add: only_pap_def upap_rauthack_def upap_rauthnak_def upap_timeout_def ChapTimeout_def ChapInput_def ChapReceiveChallenge_def
      ChapReceiveResponse_def ChapReceiveSuccess_def ChapReceiveFailure_def Let_def split: list.split)

lemma gate_only_pap: "gate e f \<Longrightarrow> only_pap (ci f)"
  by (simp add: link_inv_def gate_defs split: if_splits)

lemma gate_ipcp:
  assumes "gate e f" "\<And>g. quiet g \<Longrightarrow> served g (h g)"
  shows "gate e (on_unit (\<lambda>u. u\<lparr>ipcp_fsm := h (ipcp_fsm u)\<rparr>) f)"
  using assms(1)
proof (rule gate_on_unit)
  fix u
  show "asks_pap u \<Longrightarrow> asks_pap (u\<lparr>ipcp_fsm := h (ipcp_fsm u)\<rparr>)" by (simp add: asks_pap_def)
  show "gate_shut u \<Longrightarrow> gate_shut (u\<lparr>ipcp_fsm := h (ipcp_fsm u)\<rparr>)"
    using assms(2) [of "ipcp_fsm u"] by (simp add: gate_defs served_def)
  show "gate_up e u \<Longrightarrow> gate_up e (u\<lparr>ipcp_fsm := h (ipcp_fsm u)\<rparr>)"
    using assms(2) [of "ipcp_fsm u"] by (auto simp: gate_defs served_def logged_in_def)
qed

lemma gate_rauth: assumes "gate e f" "state f = OPEN" shows "gate e (upap_rauth e dat i f)"
proof (cases "us_serverstate (upap (ci f)) = UPAPSS_LISTEN \<and> user_passwd dat \<noteq> None")
  case False
  then show ?thesis using assms(1) by (cases "user_passwd dat") (auto simp: upap_rauth_def)
next
  case True
  then obtain user pw where up: "us_serverstate (upap (ci f)) = UPAPSS_LISTEN" "user_passwd dat = Some (user, pw)" by auto
  have g: "gate_up e (ci f)" using assms by (simp add: link_inv_def)
  have resp: "gate e (on_unit (upap_sresp c i m) f')" if "gate e f'" for c m f'
    using that by (rule gate_on_unit) (simp_all add: gate_defs upap_sresp_def send_def logged_in_def)
  show ?thesis
  proof (cases "passwd e user pw")
    case NoSuchUser
    then show ?thesis using up resp [OF assms(1)] by (simp add: upap_rauth_def login_def)
  next
    case WrongPasswd
    have a: "gate e (on_unit (\<lambda>u. u\<lparr>attempts := n\<rparr>) f)" for n
      using assms(1) by (rule gate_on_unit) (simp_all add: gate_defs logged_in_def)
    show ?thesis
      using up WrongPasswd resp [OF a] resp [OF pap.inv_close(1) [OF a]] by (simp add: upap_rauth_def login_def lcp_close_def Let_def)
  next
    case PasswdOk
    then show ?thesis
      using g up assms(2)
      by (auto simp: upap_rauth_def login_def link_inv_def gate_defs start_ipcp_def ipcp_activeopen_def fsm_activeopen_def quiet_def
          upap_sresp_def send_def logged_in_def Let_def)
  qed
qed

lemma gate_upap_input: assumes "gate e f" "state f = OPEN" shows "gate e (upap_input e p f)"
  using assms gate_rauth [OF assms] pap_idle(1,2) [OF gate_only_pap [OF assms(1)]]
  by (auto simp: upap_input_def Let_def split: list.split)

text \<open>An event without a Configure-Reject or Protocol-Reject of LCP.\<close>

definition plain_event :: "pevent \<Rightarrow> bool" where
  "plain_event ev = (case ev of
     Packet (a # c # p1 # p2 # code # _) \<Rightarrow> short_of p1 p2 = LCP \<longrightarrow> code \<noteq> CONFREJ \<and> code \<noteq> PROTREJ | _ \<Rightarrow> True)"

lemma gate_io: assumes "gate e f" "plain_event (Packet p)" shows "\<exists>f'. io e p f = Some f' \<and> gate e f'"
proof -
  consider "length p < 4" | a c p1 p2 dat where "p = a # c # p1 # p2 # dat"
    by (cases p; cases "tl p"; cases "tl (tl p)"; cases "tl (tl (tl p))") auto
  then show ?thesis
  proof cases
    case 1
    then show ?thesis using assms by (auto simp: io_def split: list.split)
  next
    case 2
    have lcp: "gate e (lcp_packet e dat f)" if "short_of p1 p2 = LCP"
      using that assms(2) pap.inv_input [OF assms(1), of dat] by (cases dat) (auto simp: lcp_packet_def lcp_input_def plain_event_def 2 Let_def)
    have rej: "gate e (lcp_sprotrej p f)" using pap.inv_sdata assms(1) by (simp add: lcp_sprotrej_def Let_def)
    have ip: "gate e (on_unit (\<lambda>u. u\<lparr>ipcp_fsm := ipcp_input (locals e) dat (ipcp_fsm u)\<rparr>) f)"
      by (rule gate_ipcp [OF assms(1)]) (rule served_input)
    show ?thesis
      using lcp rej ip assms(1) gate_upap_input [OF assms(1)] pap_idle(5) [OF gate_only_pap [OF assms(1)]]
      by (simp add: io_def 2 Let_def)
  qed
qed

lemma gate_serve: assumes "gate e f" "plain_event ev" shows "\<exists>f'. serve e ev f = Some f' \<and> gate e f'"
proof (cases ev)
  case (Packet p)
  then show ?thesis using gate_io [OF assms(1), of p] assms(2) by simp
next
  case LcpTimer
  then show ?thesis using assms(1) pap.inv_timeout [of e "f\<lparr>timers := timers f - 1\<rparr>"] by (simp add: pap.inv_timers)
next
  case IpcpTimer
  have "gate e (on_unit (\<lambda>u. u\<lparr>ipcp_fsm := fsm_event (ipcp_callbacks (locals e)) Expire (ipcp_fsm u)\<rparr>) f)"
    by (rule gate_ipcp [OF assms(1)]) (rule served_expire)
  then show ?thesis using IpcpTimer by (simp only: serve.simps option.inject ex_simps simp_thms)
next
  case UpapTimer
  have "gate e (on_unit (\<lambda>u. set_upap ((upap u)\<lparr>us_timers := us_timers (upap u) - 1\<rparr>) u) f)"
    using assms(1) by (rule gate_on_unit) (simp_all add: gate_defs logged_in_def)
  then show ?thesis using UpapTimer assms(1) pap_idle(3) [OF gate_only_pap] by fastforce
next
  case ChapTimer
  have "gate e (on_unit (\<lambda>u. set_chap ((chap u)\<lparr>ch_timers := ch_timers (chap u) - 1\<rparr>) u) f)"
    using assms(1) by (rule gate_on_unit) (simp_all add: gate_defs logged_in_def)
  then show ?thesis using ChapTimer assms(1) pap_idle(4) [OF gate_only_pap] by fastforce
next
  case Interrupt
  then show ?thesis using pap.inv_close(1) [OF assms(1)] by (simp add: lcp_close_def)
next
  case Hangup
  then show ?thesis using pap.inv_close(2) [OF assms(1)] by (simp add: lcp_lowerdown_def)
next
  case (UserPasswd user pw)
  have "\<not> us_uppending (upap (ci f))" using assms(1) by (simp add: link_inv_def gate_defs split: if_splits)
  then show ?thesis using UserPasswd assms(1) by (simp add: user_supplied_def)
qed

lemma gate_serve_all: "gate e f \<Longrightarrow> list_all plain_event evs \<Longrightarrow> \<exists>f'. serve_all e evs f = Some f' \<and> gate e f'"
proof (induction evs arbitrary: f)
  case (Cons ev evs)
  from gate_serve [of e f ev] Cons.prems obtain f1 where "serve e ev f = Some f1" "gate e f1" by auto
  then show ?case using Cons.IH [of f1] Cons.prems by simp
qed simp

text \<open>The arguments lead to a unit that demands a password.\<close>

abbreviation demanding :: "ppp_unit \<Rightarrow> ppp_unit" where
  "demanding u \<equiv> on_lcp_want (\<lambda>w. w\<lparr>neg_upap := True\<rparr>) u"

lemma cmd_func_ready: "gate_shut (demanding u) \<Longrightarrow> c \<notin> {Noopt, Reqchap} \<Longrightarrow> gate_shut (demanding (cmd_func c u))"
  by (cases c) (simp_all add: gate_defs quiet_def)

lemma cmd_func_demand:
  "neg_upap (lcp_wantoptions u) \<Longrightarrow> c \<noteq> Noopt \<Longrightarrow> neg_upap (lcp_wantoptions (cmd_func c u))"
  by (cases c) simp_all

lemma cmds_ready: "gate_shut (demanding u) \<Longrightarrow> set cs \<inter> {Noopt, Reqchap} = {} \<Longrightarrow> gate_shut (demanding (fold cmd_func cs u))"
proof (induction cs arbitrary: u)
  case (Cons c cs)
  from cmd_func_ready [OF Cons.prems(1), of c] Cons.prems(2) have "gate_shut (demanding (cmd_func c u))" by auto
  from Cons.IH [OF this] Cons.prems(2) show ?case by simp
qed simp

lemma cmds_demand:
  "neg_upap (lcp_wantoptions u) \<or> Requpap \<in> set cs \<Longrightarrow> Noopt \<notin> set cs \<Longrightarrow> neg_upap (lcp_wantoptions (fold cmd_func cs u))"
  by (induction cs arbitrary: u) (auto simp: cmd_func_demand)

lemma demanding_id: "neg_upap (lcp_wantoptions u) \<Longrightarrow> demanding u = u"
  by (cases u) (auto simp: ppp_unit.defs lcp_options.defs intro: lcp_options.equality)

lemma gate_boot:
  assumes "Requpap \<in> set cmds" "set cmds \<inter> {Noopt, Reqchap} = {}"
  shows "gate e (boot e seed cmds)"
proof -
  let ?f = "init_all seed"
  have f: "state ?f = CLOSED" "gate_shut (demanding (ci ?f))"
    by (simp_all add: init_all_def lcp_init_def fsm_init_def gate_defs quiet_def ChapInit_def upap_init_def ipcp_init_def lcp_fsm0_def
        magic_init_def ppp_unit0_def lcp_options0_def Let_def split_beta)
  have "gate_shut (fold cmd_func cmds (ci ?f))"
    using cmds_ready [OF f(2) assms(2)] cmds_demand [of "ci ?f" cmds] assms by (simp add: demanding_id)
  then have "gate e (on_unit (fold cmd_func cmds) ?f)" using f(1) by (simp add: link_inv_def)
  from pap.inv_open(3) [OF this] have "gate e (lcp_lowerup e (on_unit (fold cmd_func cmds) ?f))" by (simp add: lcp_lowerup_def)
  then show ?thesis using pap.inv_open(1,2) by (simp add: boot_def open_link_def lcp_activeopen_def lcp_passiveopen_def Let_def)
qed

section \<open>Packets between two units\<close>

text \<open>A packet of the list \<open>out\<close> as the peer's protocol routine receives it.\<close>

fun wire :: "u16 \<times> outpkt \<Rightarrow> u8 list" where
  "wire (proto, code, i, len, dat) = code # i # bytes_of_short (of_nat len) @ dat"

lemma bytes_of_short_nat:
  assumes "n < 65536" "bytes_of_short (of_nat n) = [a, b]"
  shows "unat a * 256 + unat b = n"
proof -
  have n: "unat (of_nat n :: u16) = n" using assms(1) by (simp add: unat_of_nat)
  have "unat a = n div 256" "unat b = n mod 256"
    using assms n by (auto simp: bytes_of_short_def unsigned_ucast_eq unsigned_drop_bit_eq take_bit_eq_mod drop_bit_eq_div unat_div_distrib)
  then show ?thesis by simp
qed

lemma upap_input_wire:
  assumes "len < 65536" "len = 4 + length dat"
  shows "upap_input e (wire (proto, code, i, len, dat)) f =
    (if code = UPAP_AUTH then upap_rauth e dat i f
     else if code = UPAP_AUTHACK then on_unit (upap_rauthack e dat) f
     else if code = UPAP_AUTHNAK then on_unit (upap_rauthnak dat) f
     else f)"
proof -
  obtain a b where ab: "bytes_of_short (of_nat len) = [a, b]" by (simp add: bytes_of_short_def)
  with bytes_of_short_nat [OF assms(1) ab] assms(2) show ?thesis by (simp add: upap_input_def Let_def)
qed

lemma user_passwd_fields:
  assumes "length user < 256" "length pw < 256"
  shows "user_passwd (of_nat (length user) # user @ of_nat (length pw) # pw) = Some (user, pw)"
proof -
  have "unat (of_nat (length user) :: u8) = length user" "unat (of_nat (length pw) :: u8) = length pw"
    using assms by (simp_all add: unat_of_nat)
  then show ?thesis by (simp add: user_passwd_def)
qed

abbreviation last_out :: "ppp_unit fsm \<Rightarrow> u16 \<times> outpkt" where
  "last_out f \<equiv> last (out (ci f))"

text \<open>A unit that has sent no challenge takes no decision on a CHAP packet.\<close>

fun chap_inputs :: "env \<Rightarrow> u8 list list \<Rightarrow> ppp_unit \<Rightarrow> ppp_unit option" where
  "chap_inputs e [] u = Some u"
| "chap_inputs e (p # ps) u = (case ChapInput e p u of None \<Rightarrow> None | Some u1 \<Rightarrow> chap_inputs e ps u1)"

lemma ChapReceiveChallenge_keeps:
  "ChapReceiveChallenge e dat i u = Some u' \<Longrightarrow> chap u' = chap u \<and> ipcp_fsm u' = ipcp_fsm u"
  by (simp add: ChapReceiveChallenge_def ChapSendResponse_def send_def Let_def split: if_splits option.splits prod.splits) auto

lemma ChapInput_unchallenged:
  assumes "clientstate (chap u) = CHAPCS_CLOSED" "ChapInput e p u = Some u'"
  shows "chap u' = chap u \<and> ipcp_fsm u' = ipcp_fsm u"
proof -
  have "ChapReceiveResponse e dat i u = Some u" "ChapReceiveSuccess e dat u = u" "ChapReceiveFailure e dat u = u" for dat i
    using assms(1) by (simp_all add: ChapReceiveResponse_def ChapReceiveSuccess_def ChapReceiveFailure_def)
  then show ?thesis
    using assms(2) ChapReceiveChallenge_keeps [of e _ _ u u'] by (auto simp: ChapInput_def Let_def split: list.splits if_splits)
qed

lemma chap_inputs_unchallenged:
  "clientstate (chap u) = CHAPCS_CLOSED \<Longrightarrow> chap_inputs e ps u = Some u' \<Longrightarrow> chap u' = chap u \<and> ipcp_fsm u' = ipcp_fsm u"
proof (induction ps arbitrary: u)
  case (Cons p ps)
  then obtain u1 where u1: "ChapInput e p u = Some u1" "chap_inputs e ps u1 = Some u'" by (auto split: option.splits)
  with ChapInput_unchallenged [OF Cons.prems(1) u1(1)] Cons.IH [of u1] Cons.prems(1) show ?case by simp
qed simp

lemma upap_frame:
  "ipcp_fsm (upap_authpeer u) = ipcp_fsm u" "chap (upap_authpeer u) = chap u"
  "lcp_gotoptions (upap_authpeer u) = lcp_gotoptions u" "lcp_hisoptions (upap_authpeer u) = lcp_hisoptions u"
  "ipcp_fsm (upap_authwithpeer u) = ipcp_fsm u" "chap (upap_authwithpeer u) = chap u"
  "lcp_gotoptions (upap_authwithpeer u) = lcp_gotoptions u" "lcp_hisoptions (upap_authwithpeer u) = lcp_hisoptions u"
  by (simp_all add: upap_authpeer_def upap_authwithpeer_def upap_sauth_def send_def Let_def)

lemma upap_lowerup_frame:
  "ipcp_fsm (upap_lowerup u) = ipcp_fsm u" "chap (upap_lowerup u) = chap u"
  "lcp_gotoptions (upap_lowerup u) = lcp_gotoptions u" "lcp_hisoptions (upap_lowerup u) = lcp_hisoptions u"
  by (simp_all add: upap_lowerup_def upap_frame Let_def)

lemma chap_frame:
  "ipcp_fsm (ChapAuthPeer u) = ipcp_fsm u" "clientstate (chap (ChapAuthPeer u)) = clientstate (chap u)"
  "lcp_gotoptions (ChapAuthPeer u) = lcp_gotoptions u" "lcp_hisoptions (ChapAuthPeer u) = lcp_hisoptions u"
  by (simp_all add: ChapAuthPeer_def Let_def)

section \<open>Properties\<close>

text \<open>
  C6: no network without a password.  Started with \<^verbatim>\<open>+ua\<close> (and neither \<^verbatim>\<open>-all\<close> nor \<^verbatim>\<open>+chap\<close>)
  the daemon serves every sequence of packets, timeouts and signals in which no
  Configure-Reject and no Protocol-Reject of LCP arrives, and IPCP is then never
  started unless LCP is open and a user of the password data base has logged in with
  the right password.
\<close>

theorem pap_gate:
  assumes "Requpap \<in> set cmds" "set cmds \<inter> {Noopt, Reqchap} = {}" "list_all plain_event evs"
  shows "\<exists>f. serve_all e evs (boot e seed cmds) = Some f \<and>
    (state (ipcp_fsm (ci f)) \<noteq> CLOSED \<longrightarrow>
       state f = OPEN \<and> us_serverstate (upap (ci f)) = UPAPSS_OPEN \<and> (\<exists>user \<in> set (logins (ci f)). \<exists>pw. passwd e user pw = PasswdOk))"
proof -
  obtain f where f: "serve_all e evs (boot e seed cmds) = Some f" "gate e f"
    using gate_serve_all [OF gate_boot [OF assms(1,2)] assms(3)] by blast
  then show ?thesis by (auto simp: link_inv_def gate_defs logged_in_def split: if_splits)
qed

text \<open>A daemon that demands a password and negotiates nothing else of LCP, and a peer that
  agrees and logs in.\<close>

definition pap_cmds :: "cmd list" where
  "pap_cmds = [Requpap, Nomru, Noasyncmap, Nomagicnumber, Nopcomp, Noaccomp]"

definition logging_in :: "pevent list" where
  "logging_in = [Packet [255, 3, 0xc0, 0x21, CONFREQ, 1, 0, 4], Packet [255, 3, 0xc0, 0x21, CONFACK, 1, 0, 8, 3, 4, 0xc0, 0x23],
     Packet [255, 3, 0xc0, 0x23, UPAP_AUTH, 9, 0, 8, 1, 103, 1, 112]]"

lemma lcp_request_sel: "cilen (lcp_callbacks e) = Some lcp_cilen" "addci (lcp_callbacks e) = Some lcp_addci" "rejci (lcp_callbacks e) = Some lcp_rejci"
  by (simp_all add: lcp_callbacks_def lcp_base_def)

lemma protocol_bytes: "short_of 0xc0 0x21 = LCP" "short_of 0xc0 0x23 = UPAP" "bytes_of_short UPAP = [0xc0, 0x23]"
  by code_simp+

lemmas run_boot = lcp_options0_def ppp_unit0_def lcp_fsm0_def upap_state0_def chap_state0_def boot_def open_link_def init_all_def lcp_init_def fsm_init_def
  ChapInit_def upap_init_def ipcp_init_def magic_init_def lcp_lowerup_def fsm_lowerup_def lcp_activeopen_def fsm_activeopen_def
  clear_pending_def lcp_resetci_def magic_def fsm_sconfreq_def send_out_def TIMEOUT_def lcp_cilen_def lcp_addci_def ADDCI_def
  ipcp_fsm0_def fresh_ipcp_def no_options_def with_ci_def

lemmas run_packets = io_def lcp_packet_def lcp_input_def fsm_input_def rconfreq_def answer_confreq_def lcp_reqci_def req_loop_end
  forget_his_def fsm_rconfack_def check_ack_def lcp_ackci_def ACKCI_def ci_match_def call_def record_call_def UNTIMEOUT_def lcp_up_def
  ChapLowerUp_def upap_lowerup_def ipcp_lowerup_def upap_authpeer_def start_ipcp_def ipcp_activeopen_def

text \<open>An LCP packet as it comes from the line, with the header of the frame.\<close>

definition lcp_frame :: "u8 \<Rightarrow> u8 \<Rightarrow> u8 list \<Rightarrow> u8 list" where
  "lcp_frame code i dat = [255, 3, 0xc0, 0x21] @ wire (LCP, code, i, HEADERLEN + length dat, dat)"

lemma lcp_frame_served:
  assumes "length dat < 1000"
  shows "serve e (Packet (lcp_frame CONFREJ i dat)) f = Some (fsm_rconfrej (lcp_callbacks e) dat i f)"
    "serve e (Packet (lcp_frame CONFREQ i dat)) f = Some (rconfreq (lcp_callbacks e) dat i f)"
    "serve e (Packet (lcp_frame CONFACK i dat)) f = Some (fsm_rconfack (lcp_callbacks e) dat i f)"
proof -
  obtain a b where ab: "bytes_of_short (of_nat (HEADERLEN + length dat)) = [a, b]" by (simp add: bytes_of_short_def)
  then have "unat a * 256 + unat b = HEADERLEN + length dat" using assms by (intro bytes_of_short_nat) simp_all
  then show "serve e (Packet (lcp_frame CONFREJ i dat)) f = Some (fsm_rconfrej (lcp_callbacks e) dat i f)"
    "serve e (Packet (lcp_frame CONFREQ i dat)) f = Some (rconfreq (lcp_callbacks e) dat i f)"
    "serve e (Packet (lcp_frame CONFACK i dat)) f = Some (fsm_rconfack (lcp_callbacks e) dat i f)"
    using ab by (simp_all add: lcp_frame_def io_def lcp_packet_def lcp_input_def fsm_input_def protocol_bytes Let_def)
qed

lemma activeopen_state: "lowerup g \<Longrightarrow> state g \<in> {CLOSED, LISTEN, REQSENT} \<Longrightarrow> state (fsm_activeopen cb g) = REQSENT"
  by (auto simp: fsm_activeopen_def clear_pending_def Let_def)

lemma lowerup_state: "state g = CLOSED \<Longrightarrow> lowerup (fsm_lowerup cb g) \<and> state (fsm_lowerup cb g) \<in> {CLOSED, LISTEN, REQSENT}"
  by (simp add: fsm_lowerup_def fsm_activeopen_def fsm_passiveopen_def clear_pending_def with_ci_def fsm_sconfreq_def send_out_def TIMEOUT_def Let_def
      split: option.split)

text \<open>What the authentication protocols do not touch when the link comes up.\<close>

definition link_view :: "ppp_unit \<Rightarrow> lcp_options \<times> lcp_options \<times> ipcp fsm \<times> u8 list list" where
  "link_view u = (lcp_gotoptions u, lcp_hisoptions u, ipcp_fsm u, logins u)"

lemma link_view_auth [simp]:
  "link_view (upap_authwithpeer u) = link_view u" "link_view (upap_authpeer u) = link_view u"
  "link_view (ChapAuthWithPeer e u) = link_view u" "link_view (ChapAuthPeer u) = link_view u"
  by (simp_all add: link_view_def upap_authwithpeer_def upap_authpeer_def upap_sauth_def ChapAuthWithPeer_def ChapAuthPeer_def ChapSendChallenge_def send_def Let_def)

lemma link_view_set [simp]: "link_view (set_upap s u) = link_view u" "link_view (set_chap c u) = link_view u"
  by (simp_all add: link_view_def)

lemma link_view_lowerup: "link_view (upap_lowerup u) = link_view u" "link_view (ChapLowerUp e u) = link_view u"
  by (simp_all add: upap_lowerup_def ChapLowerUp_def Let_def)

text \<open>When neither side has agreed on authentication, \<^verbatim>\<open>lcp_up\<close> starts IPCP.\<close>

lemma lcp_up_unchecked:
  assumes "\<not> neg_chap (lcp_gotoptions u)" "\<not> neg_upap (lcp_gotoptions u)" "\<not> neg_chap (lcp_hisoptions u)" "\<not> neg_upap (lcp_hisoptions u)"
    and "state (ipcp_fsm u) = CLOSED"
  shows "state (ipcp_fsm (lcp_up e u)) = REQSENT" "logins (lcp_up e u) = logins u"
proof -
  define v where "v = upap_lowerup (ChapLowerUp e u)"
  have v: "lcp_gotoptions v = lcp_gotoptions u" "lcp_hisoptions v = lcp_hisoptions u" "ipcp_fsm v = ipcp_fsm u" "logins v = logins u"
    using link_view_lowerup(1) [of "ChapLowerUp e u"] link_view_lowerup(2) [of e u] by (simp_all add: v_def link_view_def)
  have "lcp_up e u = start_ipcp e (v\<lparr>ipcp_fsm := ipcp_lowerup (locals e) (ipcp_fsm u)\<rparr>)"
    using assms(1-4) v by (simp add: lcp_up_def v_def [symmetric] Let_def)
  then show "state (ipcp_fsm (lcp_up e u)) = REQSENT" "logins (lcp_up e u) = logins u"
    using lowerup_state [OF assms(5)] v(4) by (simp_all add: start_ipcp_def ipcp_lowerup_def ipcp_activeopen_def activeopen_state)
qed

lemma logging_in_run:
  "map_option (\<lambda>f. state (ipcp_fsm (ci f))) (serve_all env0 logging_in (boot env0 (0, 0, 0) pap_cmds)) = Some REQSENT"
  by (simp add: logging_in_def pap_cmds_def run_boot run_packets lcp_request_sel protocol_bytes Let_def
      upap_input_def upap_rauth_def user_passwd_def login_def env0_def upap_sresp_def send_def)

theorem pap_gate_witness:
  "\<exists>f. serve_all env0 logging_in (boot env0 (0, 0, 0) pap_cmds) = Some f \<and> state (ipcp_fsm (ci f)) = REQSENT \<and> state f = OPEN \<and>
     (\<exists>user \<in> set (logins (ci f)). \<exists>pw. passwd env0 user pw = PasswdOk)"
proof -
  have "Requpap \<in> set pap_cmds" "set pap_cmds \<inter> {Noopt, Reqchap} = {}" by (simp_all add: pap_cmds_def)
  moreover have "list_all plain_event logging_in" by (simp add: logging_in_def plain_event_def)
  ultimately show ?thesis using pap_gate [of pap_cmds logging_in env0 "(0, 0, 0)"] logging_in_run by (auto; blast)
qed

text \<open>
  C36: the demand can be refused.  Whatever options a unit asks for besides the password, a peer that
  answers its request with a Configure-Reject of the authentication option, sends an empty
  request and acknowledges the unit's next request gets the link opened and IPCP started
  without any user having logged in: the daemon takes back the demand.
\<close>

theorem pap_reject_bypasses:
  assumes "state f = REQSENT" "neg_upap (lcp_gotoptions (ci f))" "\<not> neg_chap (lcp_gotoptions (ci f))" "nakloops f < maxnakloops f"
    and "state (ipcp_fsm (ci f)) = CLOSED"
  shows "\<exists>f1 f2. serve e (Packet (lcp_frame CONFREJ (reqid f) [3, 4, 0xc0, 0x23])) f = Some f1 \<and>
    serve_all e [Packet (lcp_frame CONFREQ i []), Packet (lcp_frame CONFACK (reqid f1) (lcp_addci (ci f1)))] f1 = Some f2 \<and>
    state f2 = OPEN \<and> state (ipcp_fsm (ci f2)) = REQSENT \<and> logins (ci f2) = logins (ci f)"
proof -
  define u where "u = on_go (\<lambda>g. g\<lparr>neg_upap := False\<rparr>) (ci f)"
  define f1 where "f1 = fsm_rconfrej (lcp_callbacks e) [3, 4, 0xc0, 0x23] (reqid f) f"
  have "lcp_rejci (ci f) [3, 4, 0xc0, 0x23] = u"
    using assms(2,3) by (simp add: u_def lcp_rejci_def REJCI_def ci_match_def protocol_bytes Let_def)
  then have f1: "state f1 = REQSENT" "ci f1 = u"
    using assms(1,4) by (simp_all add: f1_def fsm_rconfrej_def renegotiate_def lcp_request_sel with_ci_def UNTIMEOUT_def TIMEOUT_def
        fsm_sconfreq_def send_out_def Let_def)
  define f2 where "f2 = rconfreq (lcp_callbacks e) [] i f1"
  have f2: "state f2 = ACKSENT" "ci f2 = on_ho forget_his u" "reqid f2 = reqid f1"
    using f1 by (simp_all add: f2_def rconfreq_def answer_confreq_def lcp_reqci_def req_loop_end send_out_def Let_def)
  have "lcp_addci (on_ho forget_his u) = lcp_addci u" by (simp add: lcp_addci_def)
  then have "lcp_ackci (on_ho forget_his u) (lcp_addci u)" using lcp_nego.ack_own [of "on_ho forget_his u"] by simp
  then have f3: "state (fsm_rconfack (lcp_callbacks e) (lcp_addci u) (reqid f1) f2) = OPEN"
    "ci (fsm_rconfack (lcp_callbacks e) (lcp_addci u) (reqid f1) f2) = lcp_up e (on_ho forget_his u)"
    using f2 by (simp_all add: fsm_rconfack_def check_ack_def call_def record_call_def UNTIMEOUT_def)
  have up: "state (ipcp_fsm (lcp_up e (on_ho forget_his u))) = REQSENT" "logins (lcp_up e (on_ho forget_his u)) = logins (ci f)"
    using assms(3,5) lcp_up_unchecked [of "on_ho forget_his u" e] by (simp_all add: u_def forget_his_def)
  have "length (lcp_addci u) < 1000" by (simp add: lcp_addci_def ADDCI_def bytes_of_short_def bytes_of_long_def Let_def)
  then show ?thesis
    using f1(2) f2 f3 up lcp_frame_served(1) [of "[3, 4, 0xc0, 0x23]" e "reqid f" f] lcp_frame_served(2) [of "[]" e i f1]
      lcp_frame_served(3) [of "lcp_addci u" e "reqid f1" f2] by (simp add: f1_def [symmetric] f2_def [symmetric])
qed

theorem pap_reject_bypasses_witness:
  "\<exists>f1 f2. serve env0 (Packet (lcp_frame CONFREJ 1 [3, 4, 0xc0, 0x23])) (boot env0 (0, 0, 0) pap_cmds) = Some f1 \<and>
    serve_all env0 [Packet (lcp_frame CONFREQ 1 []), Packet (lcp_frame CONFACK (reqid f1) (lcp_addci (ci f1)))] f1 = Some f2 \<and>
    state f2 = OPEN \<and> state (ipcp_fsm (ci f2)) = REQSENT \<and> logins (ci f2) = []"
proof -
  let ?f = "boot env0 (0, 0, 0) pap_cmds"
  have "state ?f = REQSENT" "neg_upap (lcp_gotoptions (ci ?f))" "\<not> neg_chap (lcp_gotoptions (ci ?f))" "nakloops ?f < maxnakloops ?f"
    "state (ipcp_fsm (ci ?f)) = CLOSED" "reqid ?f = 1" "logins (ci ?f) = []"
    by (simp_all add: pap_cmds_def run_boot lcp_request_sel Let_def)
  with pap_reject_bypasses [of ?f env0 1] show ?thesis by simp
qed

text \<open>
  C19: two units carry out the password protocol.  What \<^verbatim>\<open>upap_authwithpeer\<close> sends is read
  by the other unit as exactly the user and the password; if they are right, the user
  is logged in there, and the reply opens the client.  The fields carry up to 255 bytes.
\<close>

theorem pap_handshake:
  fixes f g :: "ppp_unit fsm"
  assumes "us_clientstate (upap (ci g)) = UPAPCS_CLOSED" "us_serverstate (upap (ci g)) = UPAPSS_CLOSED" "\<not> us_appending (upap (ci g))"
    and "us_lowerup (upap (ci g))" "us_upvalid (upap (ci g))"
    and "length (us_user (upap (ci g))) < 256" "length (us_passwd (upap (ci g))) < 256"
    and "us_serverstate (upap (ci f)) = UPAPSS_LISTEN" "passwd e (us_user (upap (ci g))) (us_passwd (upap (ci g))) = PasswdOk"
  shows "let g1 = on_unit upap_authwithpeer g; f1 = upap_input e (wire (last_out g1)) f; g2 = upap_input e' (wire (last_out f1)) g1 in
    us_serverstate (upap (ci f1)) = UPAPSS_OPEN \<and> logins (ci f1) = logins (ci f) @ [us_user (upap (ci g))] \<and>
    us_clientstate (upap (ci g2)) = UPAPCS_OPEN"
proof -
  let ?user = "us_user (upap (ci g))" and ?pw = "us_passwd (upap (ci g))"
  let ?i = "us_id (upap (ci g)) + 1" and ?msg = "login_msg PasswdOk"
  define g1 where "g1 = on_unit upap_authwithpeer g"
  have g1: "last_out g1 = (UPAP, UPAP_AUTH, ?i, 4 + (2 + length ?user + length ?pw),
      of_nat (length ?user) # ?user @ of_nat (length ?pw) # ?pw)" "us_clientstate (upap (ci g1)) = UPAPCS_AUTHSENT"
    using assms(1-5) by (simp_all add: g1_def upap_authwithpeer_def upap_sauth_def send_def Let_def)
  define f1 where "f1 = upap_input e (wire (last_out g1)) f"
  have "f1 = upap_rauth e (of_nat (length ?user) # ?user @ of_nat (length ?pw) # ?pw) ?i f"
    unfolding f1_def g1(1) by (subst upap_input_wire) (use assms(6,7) in auto)
  then have f1: "last_out f1 = (UPAP, UPAP_AUTHACK, ?i, 4 + (1 + length ?msg), of_nat (length ?msg) # ?msg)"
    "us_serverstate (upap (ci f1)) = UPAPSS_OPEN" "logins (ci f1) = logins (ci f) @ [?user]"
    using assms(8,9) user_passwd_fields [OF assms(6,7)]
    by (simp_all add: upap_rauth_def login_def upap_sresp_def send_def start_ipcp_def Let_def)
  have "upap_input e' (wire (last_out f1)) g1 = on_unit (upap_rauthack e' (of_nat (length ?msg) # ?msg)) g1"
    unfolding f1(1) by (subst upap_input_wire) (simp_all add: login_msg_def)
  then have "us_clientstate (upap (ci (upap_input e' (wire (last_out f1)) g1))) = UPAPCS_OPEN"
    using g1(2) by (simp add: upap_rauthack_def msg_ok_def login_msg_def start_ipcp_def Let_def)
  then show ?thesis unfolding Let_def g1_def [symmetric] f1_def [symmetric] using f1(2,3) by simp
qed

theorem pap_handshake_witness:
  "let f = on_unit (\<lambda>u. set_upap ((upap u)\<lparr>us_serverstate := UPAPSS_LISTEN\<rparr>) u) lcp_fsm0;
       g = on_unit (\<lambda>u. set_upap ((upap u)\<lparr>us_lowerup := True, us_upvalid := True, us_user := [103], us_passwd := [112]\<rparr>) u) lcp_fsm0;
       f1 = upap_input env0 (wire (last_out (on_unit upap_authwithpeer g))) f in
   logins (ci f1) = [[103]]"
proof -
  have l: "logins (ci lcp_fsm0) = []" "us_clientstate (upap (ci lcp_fsm0)) = UPAPCS_CLOSED" "us_serverstate (upap (ci lcp_fsm0)) = UPAPSS_CLOSED"
    "\<not> us_appending (upap (ci lcp_fsm0))" "passwd env0 [103] [112] = PasswdOk"
    by (simp_all add: lcp_fsm0_def lcp_init_def fsm_init_def ppp_unit0_def upap_state0_def env0_def Let_def)
  show ?thesis
    using pap_handshake [of "on_unit (\<lambda>u. set_upap ((upap u)\<lparr>us_lowerup := True, us_upvalid := True, us_user := [103], us_passwd := [112]\<rparr>) u) lcp_fsm0"
        "on_unit (\<lambda>u. set_upap ((upap u)\<lparr>us_serverstate := UPAPSS_LISTEN\<rparr>) u) lcp_fsm0" env0 env0] l
    by (simp add: Let_def)
qed

text \<open>
  When the negotiated digest is MD5 and no buffer overflows, that is where \<open>ChapInput\<close> has a value, a CHAP packet opens the server side only if
  it is a response to an outstanding challenge and carries the digest of that challenge and of the secret found for the
  name in the response.
\<close>

theorem chap_success_needs_secret:
  assumes "ChapInput e p u = Some u'" "serverstate (chap u') = CHAPSS_OPEN" "serverstate (chap u) \<noteq> CHAPSS_OPEN"
  shows "\<exists>i l1 l2 rest n r. p = CHAP_RESPONSE # i # l1 # l2 # rest \<and>
    value_name (take (unat l1 * 256 + unat l2 - HEADERLEN) rest) = Some (n, r) \<and>
    clientstate (chap u) = CHAPCS_CHALLENGE_SENT \<and> take MD5_SIGNATURE_SIZE r = md5 e (chal_str (chap u) @ secret e (drop n r))"
proof -
  obtain code i l1 l2 rest where p: "p = code # i # l1 # l2 # rest"
    using assms by (auto simp: ChapInput_def split: list.splits)
  define dat where "dat = take (unat l1 * 256 + unat l2 - HEADERLEN) rest"
  have other: "serverstate (chap (ChapReceiveFailure e d u)) = serverstate (chap u)"
    "serverstate (chap (ChapReceiveSuccess e d u)) = serverstate (chap u)"
    "ChapReceiveChallenge e d k u = Some v \<Longrightarrow> serverstate (chap v) = serverstate (chap u)" for d k v
    by (auto simp: ChapReceiveFailure_def ChapReceiveSuccess_def ChapReceiveChallenge_def ChapAuthWithPeer_def ChapSendChallenge_def
        ChapSendResponse_def send_def start_ipcp_def Let_def split: option.splits if_splits)
  have r: "code = CHAP_RESPONSE" "ChapReceiveResponse e dat i u = Some u'"
    using assms other unfolding ChapInput_def p dat_def [symmetric] by (auto simp: Let_def dat_def [symmetric] split: if_splits)
  then obtain n r where v: "value_name dat = Some (n, r)" "clientstate (chap u) = CHAPCS_CHALLENGE_SENT"
    using assms(2,3) by (auto simp: ChapReceiveResponse_def split: option.splits if_splits)
  have "take MD5_SIGNATURE_SIZE r = md5 e (chal_str (chap u) @ secret e (drop n r))"
    using r(2) assms(2,3) v by (auto simp: ChapReceiveResponse_def ChapSendStatus_def send_def Let_def split: if_splits)
  then show ?thesis using v r(1) p dat_def by blast
qed

theorem chap_success_needs_secret_witness:
  "let u = (ci lcp_fsm0)\<lparr>lcp_gotoptions := lcp_options0\<lparr>chap_mdtype := CHAP_DIGEST_MD5\<rparr>,
         chap := chap_state0\<lparr>clientstate := CHAPCS_CHALLENGE_SENT, chal_str := [4]\<rparr>\<rparr>;
       p = [2, 1, 0, 21, 16] @ replicate 16 10 in
   \<exists>u'. ChapInput env0 p u = Some u' \<and> serverstate (chap u') = CHAPSS_OPEN \<and> take 16 (drop 5 p) = md5 env0 ([4] @ [1, 2, 3])"
proof -
  let ?u = "(ci lcp_fsm0)\<lparr>lcp_gotoptions := lcp_options0\<lparr>chap_mdtype := CHAP_DIGEST_MD5\<rparr>,
         chap := chap_state0\<lparr>clientstate := CHAPCS_CHALLENGE_SENT, chal_str := [4]\<rparr>\<rparr>"
  let ?p = "[2, 1, 0, 21, 16] @ replicate 16 10 :: u8 list"
  have "\<exists>u'. ChapInput env0 ?p ?u = Some u' \<and> serverstate (chap u') = CHAPSS_OPEN"
    by (simp add: ChapInput_def ChapReceiveResponse_def value_name_def env0_def welcome_msg_def ChapSendStatus_def send_def start_ipcp_def Let_def)
  then obtain u' where u': "ChapInput env0 ?p ?u = Some u'" "serverstate (chap u') = CHAPSS_OPEN" by blast
  from chap_success_needs_secret [OF u'] have "take 16 (drop 5 ?p) = md5 env0 ([4] @ [1, 2, 3])"
    by (simp add: chap_state0_def value_name_def env0_def)
  then show ?thesis unfolding Let_def using u' by blast
qed

text \<open>
  Demanding CHAP shuts the link.  When LCP comes up on a unit that has asked its
  peer for CHAP, the unit waits for a challenge instead of sending one, and no CHAP
  packets of the peer ever get IPCP started.
\<close>

theorem chap_demand_blocks:
  assumes "neg_chap (lcp_gotoptions u)" "\<not> neg_chap (lcp_hisoptions u)" "\<not> ch_awppending (chap u)" "clientstate (chap u) = CHAPCS_CLOSED"
    and "quiet (ipcp_fsm u)" "state (ipcp_fsm u) = CLOSED" "chap_inputs e ps (lcp_up e u) = Some u'"
  shows "state (ipcp_fsm u') = CLOSED"
proof -
  have "state (ipcp_fsm (lcp_up e u)) = CLOSED" "clientstate (chap (lcp_up e u)) = CHAPCS_CLOSED"
    using assms(1-6)
    by (simp_all add: lcp_up_def ChapLowerUp_def upap_frame upap_lowerup_frame chap_frame ipcp_lowerup_def fsm_lowerup_def quiet_def Let_def)
  with chap_inputs_unchallenged [OF this(2) assms(7)] show ?thesis by simp
qed

theorem chap_demand_blocks_witness:
  "\<exists>u'. chap_inputs env0 [[CHAP_CHALLENGE, 1, 0, 7, 1, 9, 0], [CHAP_SUCCESS, 1, 0, 5, 0]]
     (lcp_up env0 ((ci lcp_fsm0)\<lparr>lcp_gotoptions := lcp_options0\<lparr>neg_chap := True\<rparr>\<rparr>)) = Some u' \<and> state (ipcp_fsm u') = CLOSED"
proof -
  let ?u = "(ci lcp_fsm0)\<lparr>lcp_gotoptions := lcp_options0\<lparr>neg_chap := True\<rparr>\<rparr>"
  have u: "neg_chap (lcp_gotoptions ?u)" "\<not> neg_chap (lcp_hisoptions ?u)" "\<not> ch_awppending (chap ?u)" "clientstate (chap ?u) = CHAPCS_CLOSED"
    "quiet (ipcp_fsm ?u)" "state (ipcp_fsm ?u) = CLOSED"
    by (simp_all add: run_boot quiet_def Let_def)
  have "\<exists>u'. chap_inputs env0 [[CHAP_CHALLENGE, 1, 0, 7, 1, 9, 0], [CHAP_SUCCESS, 1, 0, 5, 0]] (lcp_up env0 ?u) = Some u'"
    by (simp add: run_boot lcp_up_def ChapLowerUp_def ChapAuthPeer_def upap_lowerup_def ipcp_lowerup_def ChapInput_def ChapReceiveChallenge_def
        ChapReceiveSuccess_def value_name_def env0_def Let_def)
  then obtain u' where "chap_inputs env0 [[1, 1, 0, 7, 1, 9, 0], [3, 1, 0, 5, 0]] (lcp_up env0 ?u) = Some u'" by blast
  from chap_demand_blocks [OF u this] this show ?thesis by blast
qed

end
