(* ===== verification/Spec2Isabelle.thy ===== *)
theory Spec2Isabelle
  imports Rlist Bpf Ring Cred Clock Klock Lockf Descrip_fork Ppp_detect Pppd
begin

text \<open>
  A verification development of parts of the FreeBSD 1 sources (\<^verbatim>\<open>src/\<close>): kernel
  routines that other parts of the kernel rely on without looking inside, and one
  complete user program, the PPP daemon, whose protocols interact.

  \<^bold>\<open>The parts and their theories.\<close>

  \<^item> \<^verbatim>\<open>Prelude\<close>: names for the machine words, the wrap-around \<open>s32\<close> of signed 32-bit
    arithmetic, and lemmas on lists, options and words that several parts use.
  \<^item> \<^verbatim>\<open>Rlist\<close>: the extent allocator of the swap map (\<^verbatim>\<open>sys/kern/subr_rlist.c\<close>), with its
    panics.  The locale \<open>extent_allocator\<close> states what its users rely on; every sequence of
    allocations and returns of any region held keeps it, up to the first return for which there is no memory.
  \<^item> \<^verbatim>\<open>Bpf\<close>: the packet filter machine and its validator (\<^verbatim>\<open>sys/net/bpf_filter.c\<close>).  Programs
    that pass the validator, jump forwards and keep to the scratch memory end, with a value or at a load outside the packet; with fixed
    offsets they stay inside a contiguous packet.  Execution has fuel; the program's length is shown to be enough.
  \<^item> \<^verbatim>\<open>Ring\<close>: the ring buffers of the terminals (\<^verbatim>\<open>sys/kern/tty_ring.c\<close>), a bounded list
    used at both ends (locales \<open>char_queue\<close>, \<open>char_deque\<close>).
  \<^item> \<^verbatim>\<open>Cred\<close>: user and group identities (\<^verbatim>\<open>sys/kern/kern_prot.c\<close>) over a store of shared,
    reference-counted credentials.
  \<^item> \<^verbatim>\<open>Timeval\<close>, \<^verbatim>\<open>Callout\<close>, \<^verbatim>\<open>Clock\<close>: time values and interval timers, the callout queue, and
    the clock interrupts and timer calls above them (\<^verbatim>\<open>sys/kern/kern_time.c\<close>,
    \<^verbatim>\<open>sys/kern/kern_clock.c\<close>).  The delta-encoded queue refines a sorted list of events
    (locale \<open>timer_queue\<close>); \<^verbatim>\<open>Clock\<close> uses it through that locale, and the functions run from
    the queue through the locale \<open>callout_functions\<close>; \<open>call_func\<close> runs \<^verbatim>\<open>realitexpire\<close> for its address and an argument of
    the model for any other.  Sums of times wrap at 32 bits, and the theorems say for which times they do not.
  \<^item> \<^verbatim>\<open>Klock\<close>: the sleeping reader/writer locks (\<^verbatim>\<open>sys/vm/kern_lock.c\<close>), as routines that run
    from one sleep to the next, and an inductive step relation that interleaves threads.
  \<^item> \<^verbatim>\<open>Lockf\<close>: advisory record locks (\<^verbatim>\<open>sys/ufs/ufs_lockf.c\<close>) with overlap, splitting,
    blocking and deadlock detection.  The theorems are for ranges that do not end before they begin, which the code does not
    check; who sleeps for which lock is a table given as a function.
  \<^item> \<^verbatim>\<open>Descrip\<close>, \<^verbatim>\<open>Descrip_inv\<close>, \<^verbatim>\<open>Descrip_sys\<close>, \<^verbatim>\<open>Descrip_fork\<close>: file descriptors and the file
    structures that processes share (\<^verbatim>\<open>sys/kern/kern_descrip.c\<close>).
  \<^item> \<^verbatim>\<open>Bytes\<close>: bytes and the words made of them.
  \<^item> \<^verbatim>\<open>Slcompress\<close>: Van Jacobson's compression of TCP/IP headers (\<^verbatim>\<open>sys/net/slcompress.c\<close>), both
    ends of it.
  \<^item> \<^verbatim>\<open>Fcs\<close>, \<^verbatim>\<open>If_ppp\<close>, \<^verbatim>\<open>Ppp_line\<close>, \<^verbatim>\<open>Ppp_link\<close>, \<^verbatim>\<open>Ppp_detect\<close>: the PPP line discipline of the
    kernel (\<^verbatim>\<open>sys/net/if_ppp.c\<close>).
  \<^item> \<^verbatim>\<open>Fsm\<close>, \<^verbatim>\<open>Pppopt\<close>, \<^verbatim>\<open>Ipcp\<close>, \<^verbatim>\<open>Pppunit\<close>, \<^verbatim>\<open>Chap\<close>, \<^verbatim>\<open>Lcp\<close>, \<^verbatim>\<open>Pppd\<close>: the PPP daemon
    (\<^verbatim>\<open>libexec/pppd\<close>).

  \<^bold>\<open>File descriptors.\<close>  \<open>dproc\<close> extends the process of \<^verbatim>\<open>Cred\<close> by its table of descriptors (\<open>filedesc\<close>); \<open>fkern\<close> has the
  file structures (\<open>kfile\<close>) in a store, the list and number of open files, and a record of the calls to
  vnodes and devices, with the locks of \<^verbatim>\<open>Lockf\<close> as arguments.  The calls are \<open>dup\<close>, \<open>dup2\<close>, \<open>fcntl\<close>, \<open>close\<close>, \<open>flock_call\<close> (\<^verbatim>\<open>flock\<close>),
  \<open>open_file\<close> (\<^verbatim>\<open>open\<close>, \<^verbatim>\<open>vfs_syscalls.c\<close>) and \<open>socket\<close> (\<^verbatim>\<open>uipc_syscalls.c\<close>); fork, exec and exit call \<open>fdcopy\<close>,
  \<open>fdcloseexec\<close> and \<open>fdfree\<close>.  The invariant of one process, with any references from elsewhere, is \<open>pinv\<close> in \<^verbatim>\<open>Descrip_inv\<close>;
  \<^verbatim>\<open>Descrip_sys\<close> shows it for each call; \<^verbatim>\<open>Descrip_fork\<close> has the reachable states of all processes together (\<open>fd_reach\<close>): the
  counts are the numbers of references, no call panics or uses a freed structure, and a table is a map from descriptors to
  files on which each call acts as its manual page says.  A fork makes the process \<open>forked\<close>, with the copied table and without the parent's flags.  Where
  \<^verbatim>\<open>fdcopy\<close> reads behind its array, at the flag bytes of the same block, the model has \<open>None\<close> and the history ends; \<^verbatim>\<open>Descrip_fork\<close> shows which
  tables these are.  The reference count is a \<^verbatim>\<open>short\<close>, and nothing stops it at its
  limit; the theorems are for fewer than 32767 references to a file.

  \<^bold>\<open>The PPP line discipline.\<close>  \<open>ppp_softc\<close> is one unit with its terminal: the rings of \<^verbatim>\<open>Ring\<close>, the
  compression state of \<^verbatim>\<open>Slcompress\<close>, the queues of packets, and what the device has taken so far
  (\<open>t_wire\<close>).  \<open>pppstart\<close> is the output routine, one round of its loop \<open>start_round\<close>; it stops wherever the
  ring is full and goes on there when it is called again.  \<open>pppinput\<close> takes one character.
  \<^verbatim>\<open>Fcs\<close> shows that the table of the checksum is a division by the CRC polynomial.  \<^verbatim>\<open>Ppp_line\<close>
  shows that the calls of \<open>pppstart\<close>, for every device (\<open>device\<close>: it takes characters from the front of
  the ring), put whole frames on the line, in order, and that they empty the queues when the device
  takes what it is given.  \<^verbatim>\<open>Ppp_link\<close> puts both ends together: a history of the sender (\<open>tx_trace\<close>) and
  the characters it produced, read by the receiver (\<open>ppp_receive\<close>), deliver the packets sent, with header
  compression by the theorems of \<^verbatim>\<open>Slcompress\<close>.  The receiver there is as \<open>pppopen\<close> leaves it, with a cluster for
  each frame and room in the IP queue, and packets are in one mbuf of at most 1500 bytes.
  \<^verbatim>\<open>Ppp_detect\<close> has the frames the receiver drops: damaged ones, and good ones it should not drop.

  \<^bold>\<open>The PPP daemon.\<close>  \<^verbatim>\<open>fsm.c\<close> is an automaton that negotiates options for a protocol it
  does not know; \<^verbatim>\<open>Fsm\<close> takes the protocol's callbacks as an argument, and its state carries
  the protocol's state.  \<^verbatim>\<open>Pppopt\<close> has the byte macros and the loop, the same in \<^verbatim>\<open>lcp.c\<close> and
  \<^verbatim>\<open>ipcp.c\<close>, that turns a request into its answer in place; buffers are lists, pointers
  offsets, and an access outside is the value \<open>None\<close>.  The locale \<open>option_switch\<close> is what the
  loop needs of a protocol's switch to stay inside the packet, \<open>tidy_switch\<close> what it needs to
  compute the reply that the abstract function \<open>answers\<close> prescribes.  \<^verbatim>\<open>Ipcp\<close> and \<^verbatim>\<open>Lcp\<close>
  interpret them on their switches.  A unit (\<open>ppp_unit\<close> in \<^verbatim>\<open>Pppunit\<close>) holds the LCP options,
  the states of the password protocol (\<^verbatim>\<open>upap.c\<close>) and of the challenge protocol (\<^verbatim>\<open>chap.c\<close>, in
  \<^verbatim>\<open>Chap\<close>), and the IPCP automaton; it is the protocol state of the LCP automaton, so
  \<^verbatim>\<open>lcp_up\<close> and \<^verbatim>\<open>lcp_down\<close> act on it as callbacks.  \<^verbatim>\<open>Pppd\<close> adds \<^verbatim>\<open>main.c\<close>: the command line,
  the start, the dispatch of packets, timeouts and signals, and the login.  The locale
  \<open>link_layer\<close> of \<^verbatim>\<open>Fsm\<close> says which invariant of a protocol state the automaton keeps in each
  of its states; its interpretation on LCP gives the theorem that no network traffic is
  negotiated before the peer has logged in.

  \<^bold>\<open>What is shown.\<close>  Safety: no unit of swap space is handed out twice; locks exclude; an
  ordinary process gains no identity; IPCP waits for the password; a looped line is
  noticed; a damaged frame is dropped; no descriptor refers to a freed file.  Refinement and equivalence: rings, callouts, the deadlock search,
  the frame check sequence, the tables of descriptors, the output of \<^verbatim>\<open>pppstart\<close>, and the in-place replies of LCP and IPCP against a list function of the verdicts that the code gives on single options.  Round
  trips: requests and passwords between two units, compressed headers, IP packets over the line.  Liveness: timeouts fire once and on
  time, locks lose no wake-up, negotiations that are not answered end, queued packets are sent.  Errors: what the
  code does on every failing branch, and where it fails although it should not.

  \<^bold>\<open>Conventions.\<close>  A field, routine or constant has the name it has in the sources.  Words
  keep their width; where the sources compute in \<^verbatim>\<open>int\<close> and nothing can overflow the model
  uses integers or naturals.  Panics, wild accesses and errors are values.  Loops are
  recursive functions with a termination proof, except the filter machine's.  Lists
  stand for linked lists and for records of what was sent or called.

  \<^bold>\<open>Parameters.\<close>  What the daemon gets from outside is the record \<open>env\<close>: the password data
  base, the secrets file, the message digest, the random numbers, the host name and the
  values of two uninitialised locals.  Nothing is assumed of them.  The answer of \<^verbatim>\<open>malloc\<close>
  in \<^verbatim>\<open>rlist_free\<close> is an argument, another for each call of a history.  The functions in the callout queue other than
  \<^verbatim>\<open>realitexpire\<close> are one.  So are, in the line discipline, the answers of the mbuf allocator
  (\<open>alloc\<close>), the routine that starts the device (\<open>oproc\<close>), what lies in memory behind an mbuf (\<open>junk\<close>) and
  \<^verbatim>\<open>ttywflush\<close>; of the device the theorems assume that it takes characters from the front of the ring.
  The record \<open>fops\<close> is what vnodes and devices answer to the calls on descriptors; the results of \<^verbatim>\<open>vn_open\<close> and
  \<^verbatim>\<open>socreate\<close>, the contents of new memory, and the word behind the argument of \<^verbatim>\<open>dup\<close> are arguments.  Nothing is
  assumed of them.

  \<^bold>\<open>Not modelled.\<close>  The rest of the kernel: virtual memory, scheduling and signals, file
  systems, network protocols and drivers; they need explicit stores for page tables,
  buffers and mbufs, and the drivers also a model of their devices.  Of the daemon: the set-up of
  the terminal and the process, the timeout queue of \<^verbatim>\<open>main.c\<close> (timeouts are events, one counter per
  protocol tells how many are pending), the shut-down when no CHAP secret is found, and the
  \<^verbatim>\<open>ioctl\<close>s that configure the interface.  Of the descriptors: \<^verbatim>\<open>fstat\<close>, which changes nothing, and descriptors
  passed in messages.  Of the line discipline: debugging output, the packet
  filter tap, the search for a free unit among several, and interrupt masking.  The compiler and the other imported software
  under \<^verbatim>\<open>gnu/\<close>, and the other user programs.
\<close>

end
